(* ===== verification/Prelude.thy ===== *)
theory Prelude
  imports Main "HOL-Library.Word" "HOL-Library.Monad_Syntax" "HOL-Library.Code_Target_Numeral"
begin

text \<open>
  Shared vocabulary of the development: the C machine model and the generic lemmas on it.

  Conventions used by every component theory.
  \<^item> A C function that may run into undefined behaviour (a read or write outside its object, a
    NULL dereference, a failed \<open>assert\<close>, a division by zero) is modelled with a result in
    \<open>option\<close>; \<open>None\<close> is exactly that behaviour, and never an error return of the code.
    Error returns are the values the code returns.
  \<^item> Bit-level code uses \<open>'a word\<close>. Counters, sizes and time stamps whose arithmetic is
    plain addition and subtraction are \<open>nat\<close>, with the wrap-around of the C type written
    out (\<open>wrap32\<close>, \<open>sub32\<close>, \<open>wrap64\<close>, \<open>sub64\<close>, \<open>s32\<close>).
  \<^item> A block of raw bytes of known size is a function from offsets to bytes; its size is kept
    by the owner of the block, which checks every access.
\<close>

unbundle bit_operations_syntax

named_theorems mem_simps "reads of a byte block after writes to it"
named_theorems wrap_simps "C integer arithmetic that does not wrap"

section \<open>Machine types\<close>

type_synonym byte = "8 word"
type_synonym u16 = "16 word"
type_synonym u32 = "32 word"
type_synonym u64 = "64 word"
type_synonym bytes = "byte list"
type_synonym mem = "nat \<Rightarrow> byte"

section \<open>Unsigned arithmetic on naturals, with its wrap-around\<close>

definition wrap32 :: "nat \<Rightarrow> nat" where
  "wrap32 n = n mod 2 ^ 32"

definition wrap64 :: "nat \<Rightarrow> nat" where
  "wrap64 n = n mod 2 ^ 64"

definition sub32 :: "nat \<Rightarrow> nat \<Rightarrow> nat" where
  "sub32 a b = (if b \<le> a then (a - b) mod 2 ^ 32 else (2 ^ 32 - (b - a) mod 2 ^ 32) mod 2 ^ 32)"

definition sub64 :: "nat \<Rightarrow> nat \<Rightarrow> nat" where
  "sub64 a b = (if b \<le> a then (a - b) mod 2 ^ 64 else (2 ^ 64 - (b - a) mod 2 ^ 64) mod 2 ^ 64)"

text \<open>An unsigned 32-bit value converted to \<open>int\<close> (two's complement).\<close>

definition s32 :: "nat \<Rightarrow> int" where
  "s32 n = (let m = n mod 2 ^ 32 in if m < 2 ^ 31 then int m else int m - 2 ^ 32)"

text \<open>The converse: an \<open>int\<close> converted to an unsigned 32-bit value.\<close>

definition to_u32 :: "int \<Rightarrow> nat" where
  "to_u32 i = nat (i mod 2 ^ 32)"

lemma wrap32_less [simp]: "wrap32 n < 4294967296"
  by (simp add: wrap32_def)

lemma wrap32_id [wrap_simps]: "n < 4294967296 \<Longrightarrow> wrap32 n = n"
  by (simp add: wrap32_def)

lemma wrap64_id [wrap_simps]: "n < 18446744073709551616 \<Longrightarrow> wrap64 n = n"
  by (simp add: wrap64_def)

lemma sub32_id [wrap_simps]: "b \<le> a \<Longrightarrow> a < 4294967296 \<Longrightarrow> sub32 a b = a - b"
  by (simp add: sub32_def)

lemma sub64_id [wrap_simps]: "b \<le> a \<Longrightarrow> a < 18446744073709551616 \<Longrightarrow> sub64 a b = a - b"
  by (simp add: sub64_def)

lemma s32_id [wrap_simps]: "n < 2147483648 \<Longrightarrow> s32 n = int n"
  by (simp add: s32_def)

lemma to_u32_int [wrap_simps]: "n < 4294967296 \<Longrightarrow> to_u32 (int n) = n"
  by (simp add: to_u32_def nat_mod_distrib)

section \<open>Integer division by a power of two\<close>

lemma int_le_div: "0 < k \<Longrightarrow> a * k \<le> v \<Longrightarrow> a \<le> v div k" for k a v :: int
  using zdiv_mono1 [of "a * k" v k] by simp

lemma int_div_less: "0 < k \<Longrightarrow> v < b * k \<Longrightarrow> v div k < b" for k b v :: int
proof (rule ccontr)
  assume "0 < k" "v < b * k" "\<not> v div k < b"
  then have "b * k \<le> v div k * k" by (intro mult_right_mono) simp_all
  moreover have "v div k * k = v - v mod k" by (simp add: minus_mod_eq_div_mult)
  ultimately show False using \<open>v < b * k\<close> pos_mod_sign [OF \<open>0 < k\<close>, of v] by simp
qed

section \<open>Blocks of bytes\<close>

definition mem_put :: "mem \<Rightarrow> nat \<Rightarrow> bytes \<Rightarrow> mem" where
  "mem_put m p bs = (\<lambda>i. if p \<le> i \<and> i < p + length bs then bs ! (i - p) else m i)"

definition mem_get :: "mem \<Rightarrow> nat \<Rightarrow> nat \<Rightarrow> bytes" where
  "mem_get m p n = map m [p..<p + n]"

lemma length_mem_get [simp]: "length (mem_get m p n) = n"
  by (simp add: mem_get_def)

lemma nth_mem_get [simp]: "i < n \<Longrightarrow> mem_get m p n ! i = m (p + i)"
  by (simp add: mem_get_def)

lemma mem_put_Nil [simp]: "mem_put m p [] = m"
  by (rule ext) (auto simp: mem_put_def)

lemma mem_get_0 [simp]: "mem_get m p 0 = []"
  by (simp add: mem_get_def)

lemma mem_get_eqI: "length bs = n \<Longrightarrow> (\<And>i. i < n \<Longrightarrow> m (p + i) = bs ! i) \<Longrightarrow> mem_get m p n = bs"
  by (rule nth_equalityI) auto

lemma mem_get_put_same [mem_simps]: "n = length bs \<Longrightarrow> mem_get (mem_put m p bs) p n = bs"
  by (rule mem_get_eqI) (auto simp: mem_put_def)

lemma mem_put_outside [mem_simps]:
  "i < p \<or> p + length bs \<le> i \<Longrightarrow> mem_put m p bs i = m i"
  by (auto simp: mem_put_def)

lemma mem_put_inside [mem_simps]:
  "p \<le> i \<Longrightarrow> i < p + length bs \<Longrightarrow> mem_put m p bs i = bs ! (i - p)"
  by (auto simp: mem_put_def)

lemma mem_get_put_disjoint [mem_simps]:
  "q + n \<le> p \<or> p + length bs \<le> q \<Longrightarrow> mem_get (mem_put m p bs) q n = mem_get m q n"
  by (rule nth_equalityI) (auto simp: mem_put_def)

lemma mem_get_append: "mem_get m p (a + b) = mem_get m p a @ mem_get m (p + a) b"
proof -
  have "[p..<p + (a + b)] = [p..<p + a] @ [p + a..<p + (a + b)]"
    using upt_add_eq_append [of p "p + a" b] by (simp add: add.assoc)
  then show ?thesis by (simp add: mem_get_def add.assoc)
qed

lemma mem_get_cong: "(\<And>i. p \<le> i \<Longrightarrow> i < p + n \<Longrightarrow> m i = m' i) \<Longrightarrow> mem_get m p n = mem_get m' p n"
  by (simp add: mem_get_def)

text \<open>Little-endian reading of a 32-bit value from a block.\<close>

definition mem_le32 :: "mem \<Rightarrow> nat \<Rightarrow> nat" where
  "mem_le32 m p = unat (m p) + 256 * unat (m (p + 1)) + 65536 * unat (m (p + 2)) + 16777216 * unat (m (p + 3))"

text \<open>The \<open>n\<close> bytes at offset \<open>p\<close> of a block.\<close>

definition read_at :: "bytes \<Rightarrow> nat \<Rightarrow> nat \<Rightarrow> bytes option" where
  "read_at xs p n = (if p + n \<le> length xs then Some (take n (drop p xs)) else None)"

section \<open>Lists and options\<close>

lemma nth_list_update_split: "i < length xs \<Longrightarrow> xs[i := v] ! j = (if i = j then v else xs ! j)"
  by (auto simp: nth_list_update)

lemma bind_Some_iff: "Option.bind x f = Some y \<longleftrightarrow> (\<exists>z. x = Some z \<and> f z = Some y)"
  by (cases x) auto

lemma find_SomeD: "find P xs = Some x \<Longrightarrow> x \<in> set xs \<and> P x"
  by (induction xs) (auto split: if_splits)

lemma sorted_map_last: "sorted (map g xs) \<Longrightarrow> x \<in> set xs \<Longrightarrow> g x \<le> g (last xs)"
  by (induction xs) auto

lemma sum_list_take_Suc:
  fixes xs :: "nat list"
  shows "k < length xs \<Longrightarrow> sum_list (take (Suc k) xs) = sum_list (take k xs) + xs ! k"
  by (simp add: take_Suc_conv_app_nth)

lemma sum_list_take_mono:
  fixes xs :: "nat list"
  assumes "i \<le> j"
  shows "sum_list (take i xs) \<le> sum_list (take j xs)"
proof -
  have "take j xs = take i xs @ take (j - i) (drop i xs)"
    using assms by (metis le_add_diff_inverse take_add)
  then show ?thesis by simp
qed

lemma sum_list_bounded:
  fixes xs :: "nat list"
  shows "\<forall>x \<in> set xs. x \<le> l \<Longrightarrow> sum_list xs \<le> length xs * l"
  by (induction xs) auto

lemma sum_list_take_diff:
  fixes xs :: "nat list"
  assumes "i \<le> j" and "\<forall>x \<in> set xs. x \<le> l"
  shows "sum_list (take j xs) \<le> sum_list (take i xs) + (j - i) * l"
proof -
  have s: "take j xs = take i xs @ take (j - i) (drop i xs)"
    using assms(1) by (metis le_add_diff_inverse take_add)
  have "\<forall>x \<in> set (take (j - i) (drop i xs)). x \<le> l"
    using assms(2) by (meson in_set_dropD in_set_takeD)
  then have "sum_list (take (j - i) (drop i xs)) \<le> length (take (j - i) (drop i xs)) * l"
    by (rule sum_list_bounded)
  also have "\<dots> \<le> (j - i) * l" by (intro mult_le_mono1) simp
  finally show ?thesis by (simp add: s)
qed

text \<open>What \<open>printf\<close> writes for an unsigned number.\<close>

fun decimal :: "nat \<Rightarrow> string" where
  "decimal n = (if n < 10 then [char_of (48 + n)] else decimal (n div 10) @ [char_of (48 + n mod 10)])"

declare decimal.simps [simp del]

end
