(* ===== verification/CodecDef.thy ===== *)
theory CodecDef
  imports Prelude
begin

text \<open>
  The types of mgw-core/util/codec-def.h that the buffers, the muxer and the stream sources
  share: frame types, encoder types, the encoder packet, and the result codes of a consumer.
\<close>

datatype frame_t =
    FRAME_UNKNOWN | FRAME_I | FRAME_B | FRAME_P | FRAME_IDR | FRAME_SEI | FRAME_SPS | FRAME_PPS
  | FRAME_AAC | FRAM_VPS

datatype encoder_type = ENCODER_AUDIO | ENCODER_VIDEO

datatype encoder_id = ENCID_NONE | ENCID_AAC | ENCID_H264 | ENCID_HEVC

text \<open>
  The fields of \<open>struct encoder_packet\<close> the modelled code reads or writes. The pointer
  \<open>data\<close> is \<open>None\<close> for NULL, otherwise the bytes reachable from it; \<open>pts\<close> and
  \<open>dts\<close> are signed 64-bit.
\<close>

record encoder_packet =
  pk_data :: "bytes option"
  pk_size :: nat
  pk_pts :: int
  pk_dts :: int
  pk_type :: encoder_type
  pk_keyframe :: bool
  pk_priority :: int

definition FRAME_PRIORITY_LOW :: int where "FRAME_PRIORITY_LOW = 1"

definition FRAME_PRIORITY_HIGH :: int where "FRAME_PRIORITY_HIGH = 2"

definition FRAME_CONSUME_SLOW :: int where "FRAME_CONSUME_SLOW = - 1"

definition FRAME_CONSUME_FAST :: int where "FRAME_CONSUME_FAST = - 2"

definition FRAME_CONSUME_PERR :: int where "FRAME_CONSUME_PERR = - 3"

lemmas consume_codes = FRAME_CONSUME_SLOW_def FRAME_CONSUME_FAST_def FRAME_CONSUME_PERR_def

end
