(* ===== verification/StreamSort.thy ===== *)
theory StreamSort
  imports CodecDef "HOL-Library.Multiset"
begin

text \<open>
  The reordering buffer of mgw-core/buffer/stream_sort.c. Frames arrive roughly in order; they are
  copied into a byte ring and kept in a list sorted by time stamp until the list spans more than
  \<open>uiSortTime\<close>, when the earliest is handed to a callback.

  The doubly linked node list is a list: the \<open>prev\<close> pointer of its head is never followed, the
  others are the predecessors. The circular list of addresses (\<open>frameaddr\<close>) is the list of
  positions from its head, in the order written. A node position is an offset from
  \<open>pdata\<close>. \<open>now\<close> is the value of \<open>time(NULL)\<close> during a call, and allocation
  succeeds. The callback is a parameter: it takes the state of the sink and a frame, and returns its
  result code and the new sink, or \<open>None\<close> when its behaviour is undefined.
\<close>

section \<open>Data\<close>

definition DEFAULT_SORT_TIME :: nat where "DEFAULT_SORT_TIME = 1000 * 1000"

definition MAX_SORT_BUFF_LEN :: nat where "MAX_SORT_BUFF_LEN = 8 * 1024 * 1024"

definition MIM_SORT_BUFF_LEN :: nat where "MIM_SORT_BUFF_LEN = 1 * 1024 * 1024"

record ss_node =
  nd_position :: nat
  nd_len :: nat
  nd_timestamp :: nat
  nd_type :: frame_t
  nd_priority :: int

record sc_sortframe =
  sf_frame :: bytes
  sf_timestamp :: nat
  sf_type :: frame_t
  sf_priority :: int

record ssbuf =
  ss_nodes :: "ss_node list"
  ss_frameaddr :: "nat list"
  ss_datasize :: nat
  ss_pdata :: mem
  ss_position :: nat
  uiPutFrameCount :: nat
  uiValidLen :: nat
  uiSortTime :: nat
  uiSortTimeBak :: nat
  uiMaxSortTime :: nat
  uiAnalyTime :: nat
  maxtimestamp :: nat
  mintimestamp :: nat
  premintimestamp :: nat
  u32PopFrameCount :: nat
  u32LateFrameCount :: nat
  u32EarlyFrameCount :: nat
  u32EarlyFrameDrop :: nat
  u32LateFrameDrop :: nat
  freesize :: nat
  freetime :: nat
  analytime :: nat

text \<open>The sizes and delays of \<open>RegisterSortInfo\<close>; the callback is passed to the operations
  that call it, and the names only occur in log output.\<close>

record sort_info =
  si_size :: nat
  si_sort_time :: nat
  si_max_sort_time :: nat

section \<open>Creation and reset\<close>

definition DefaultStreamSortBuff :: "ssbuf \<Rightarrow> nat \<Rightarrow> nat \<Rightarrow> nat \<Rightarrow> nat \<Rightarrow> ssbuf" where
  "DefaultStreamSortBuff s sz sorttime maxsorttime now =
     s\<lparr>ss_datasize := sz, ss_nodes := [], ss_frameaddr := [], ss_position := 0, uiValidLen := 0,
       uiPutFrameCount := 0, uiSortTime := sorttime, uiSortTimeBak := sorttime,
       uiMaxSortTime := (if maxsorttime < DEFAULT_SORT_TIME then DEFAULT_SORT_TIME else maxsorttime),
       maxtimestamp := 0, mintimestamp := 0, u32PopFrameCount := 0, u32LateFrameCount := 0,
       u32EarlyFrameCount := 0, freesize := sz, freetime := now, analytime := now\<rparr>"

text \<open>A block as \<open>calloc\<close> returns it.\<close>

definition zero_ssbuf :: ssbuf where
  "zero_ssbuf = \<lparr>ss_nodes = [], ss_frameaddr = [], ss_datasize = 0, ss_pdata = (\<lambda>_. 0),
     ss_position = 0, uiPutFrameCount = 0, uiValidLen = 0, uiSortTime = 0, uiSortTimeBak = 0,
     uiMaxSortTime = 0, uiAnalyTime = 0, maxtimestamp = 0, mintimestamp = 0, premintimestamp = 0,
     u32PopFrameCount = 0, u32LateFrameCount = 0, u32EarlyFrameCount = 0, u32EarlyFrameDrop = 0,
     u32LateFrameDrop = 0, freesize = 0, freetime = 0, analytime = 0\<rparr>"

definition pCreateStreamSort :: "sort_info option \<Rightarrow> nat \<Rightarrow> ssbuf option" where
  "pCreateStreamSort info now =
     (case info of
        None \<Rightarrow> None
      | Some i \<Rightarrow>
          if si_size i < MIM_SORT_BUFF_LEN then None
          else Some (DefaultStreamSortBuff zero_ssbuf (si_size i) (si_sort_time i) (si_max_sort_time i) now))"

definition CleanSortBuff :: "ssbuf \<Rightarrow> nat \<Rightarrow> ssbuf" where
  "CleanSortBuff s now =
     s\<lparr>ss_nodes := [], ss_frameaddr := [], ss_position := 0, uiValidLen := 0, uiPutFrameCount := 0,
       maxtimestamp := 0, mintimestamp := 0, premintimestamp := 0, u32PopFrameCount := 0,
       u32LateFrameCount := 0, u32EarlyFrameCount := 0, uiAnalyTime := 0,
       freesize := ss_datasize s, freetime := now, analytime := now, uiSortTime := uiSortTimeBak s\<rparr>"

section \<open>The sorted list, the address list and the byte ring\<close>

definition FillTheNode :: "nat \<Rightarrow> sc_sortframe \<Rightarrow> ss_node" where
  "FillTheNode position f = \<lparr>nd_position = position, nd_len = length (sf_frame f),
     nd_timestamp = sf_timestamp f, nd_type = sf_type f, nd_priority = sf_priority f\<rparr>"

text \<open>\<open>InsertSortMiddle\<close> walks to the first node later than \<open>nd\<close>; the first argument
  of the walk is that node's predecessor, whose time stamp is the result. A list without a later
  node does not take \<open>nd\<close> at all. A later head would be linked through its stale
  \<open>prev\<close>.\<close>

fun insert_after :: "ss_node \<Rightarrow> ss_node \<Rightarrow> ss_node list \<Rightarrow> nat \<times> ss_node list" where
  "insert_after prv nd [] = (0, [])"
| "insert_after prv nd (p # ps) =
     (if nd_timestamp p \<le> nd_timestamp nd
      then (let (a, qs) = insert_after p nd ps in (a, p # qs))
      else (nd_timestamp prv, nd # p # ps))"

fun InsertSortMiddle :: "ss_node list \<Rightarrow> ss_node \<Rightarrow> (nat \<times> ss_node list) option" where
  "InsertSortMiddle [] nd = Some (0, [])"
| "InsertSortMiddle (p # ps) nd =
     (if nd_timestamp p \<le> nd_timestamp nd
      then (let (a, qs) = insert_after p nd ps in Some (a, p # qs))
      else None)"

definition InsertSortEnd :: "ss_node list \<Rightarrow> ss_node \<Rightarrow> ss_node list" where
  "InsertSortEnd nodes nd = nodes @ [nd]"

text \<open>\<open>CFrameaddrList\<close>: type 0 adds at the end, type 1 moves the first entry
  \<open>oposition\<close> to the end as \<open>iposition\<close>, type 2 deletes it. Types 1 and 2 dereference
  the head; deleting the only entry leaves the head pointing to freed memory.\<close>

definition CFrameaddrList :: "nat list \<Rightarrow> nat \<Rightarrow> nat \<Rightarrow> nat \<Rightarrow> (int \<times> nat list) option" where
  "CFrameaddrList had iposition oposition type =
     (if type = 0 then Some (0, had @ [iposition])
      else if had = [] then None
      else if oposition \<notin> set had then Some (- 2, had)
      else if type = 1 then Some (0, remove1 oposition had @ [iposition])
      else if tl had = [] then None
      else Some (0, remove1 oposition had))"

text \<open>\<open>MemcpyToSortBuff\<close>: the new state and the position written. A frame that does not
  fit behind \<open>position\<close> goes to the start of the ring.\<close>

definition MemcpyToSortBuff :: "ssbuf \<Rightarrow> bytes \<Rightarrow> (ssbuf \<times> nat) option" where
  "MemcpyToSortBuff s pframe =
     (let position = ss_position s; frame_len = length pframe in
      if wrap32 (position + frame_len) \<le> ss_datasize s
      then (if position + frame_len \<le> ss_datasize s
            then Some (s\<lparr>ss_pdata := mem_put (ss_pdata s) position pframe,
                         ss_position := (if position + frame_len = ss_datasize s then 0
                                         else position + frame_len)\<rparr>, position)
            else None)
      else if position < frame_len then None
      else if ss_datasize s < frame_len then None
      else Some (s\<lparr>ss_pdata := mem_put (ss_pdata s) 0 pframe, ss_position := frame_len\<rparr>, 0))"

text \<open>The frame a node stands for.\<close>

definition node_frame :: "mem \<Rightarrow> ss_node \<Rightarrow> sc_sortframe" where
  "node_frame d nd = \<lparr>sf_frame = mem_get d (nd_position nd) (nd_len nd),
     sf_timestamp = nd_timestamp nd, sf_type = nd_type nd, sf_priority = nd_priority nd\<rparr>"

section \<open>Changing the size of the ring\<close>

text \<open>The copying loop of \<open>RemallocSortBuff\<close>: nodes left, addresses left, the write
  position, the new block. Both lists run in parallel; the result has the new nodes, the new
  addresses, the final position and the block.\<close>

definition node_bytes :: "ssbuf \<Rightarrow> ss_node \<Rightarrow> bytes option" where
  "node_bytes s nd =
     (if nd_position nd + nd_len nd > ss_datasize s
      then (if nd_position nd \<le> ss_datasize s
            then (let left = ss_datasize s - nd_position nd; len = nd_len nd - left
                  in if len \<le> ss_datasize s
                     then Some (mem_get (ss_pdata s) (nd_position nd) left @ mem_get (ss_pdata s) 0 len)
                     else None)
            else None)
      else Some (mem_get (ss_pdata s) (nd_position nd) (nd_len nd)))"

fun remalloc_loop ::
  "ssbuf \<Rightarrow> nat \<Rightarrow> ss_node list \<Rightarrow> nat list \<Rightarrow> nat \<Rightarrow> mem \<Rightarrow> (ss_node list \<times> nat list \<times> nat \<times> mem) option" where
  "remalloc_loop s sz (nd # nds) (a # as) position d =
     (case node_bytes s nd of
        None \<Rightarrow> None
      | Some bs \<Rightarrow>
          if sz < position + nd_len nd then None
          else (case remalloc_loop s sz nds as (position + nd_len nd) (mem_put d position bs) of
                  None \<Rightarrow> None
                | Some (nds', as', p, d') \<Rightarrow>
                    Some (nd\<lparr>nd_position := position\<rparr> # nds', position # as', p, d')))"
| "remalloc_loop s sz nds as position d = Some (nds, as, position, d)"

text \<open>\<open>RemallocSortBuff\<close>: \<open>Some None\<close> is the NULL result.\<close>

definition RemallocSortBuff :: "ssbuf \<Rightarrow> nat \<Rightarrow> nat \<Rightarrow> ssbuf option option" where
  "RemallocSortBuff s sz now =
     (case pCreateStreamSort (Some \<lparr>si_size = sz, si_sort_time = uiSortTime s,
             si_max_sort_time = uiMaxSortTime s\<rparr>) now of
        None \<Rightarrow> Some None
      | Some new \<Rightarrow>
          (case remalloc_loop s sz (ss_nodes s) (ss_frameaddr s) 0 (ss_pdata new) of
             None \<Rightarrow> None
           | Some (nds, as, position, d) \<Rightarrow>
               Some (Some (new\<lparr>ss_nodes := nds, ss_pdata := d, ss_position := position,
                 uiPutFrameCount := uiPutFrameCount s, uiValidLen := uiValidLen s,
                 maxtimestamp := maxtimestamp s, mintimestamp := mintimestamp s,
                 u32EarlyFrameCount := u32EarlyFrameCount s, u32LateFrameCount := u32LateFrameCount s,
                 u32PopFrameCount := u32PopFrameCount s, ss_frameaddr := as,
                 uiAnalyTime := uiAnalyTime s, freesize := sub32 sz position,
                 uiSortTimeBak := uiSortTimeBak s, freetime := now, analytime := now\<rparr>))))"

section \<open>Making room\<close>

text \<open>The test that sets \<open>tooloog\<close>: the new frame would reach the oldest one.\<close>

definition too_long :: "ssbuf \<Rightarrow> nat \<Rightarrow> bool" where
  "too_long s frame_len =
     (let earliest = hd (ss_frameaddr s); ws = ss_position s; we = wrap32 (ws + frame_len) in
      if we \<le> ss_datasize s then ws \<le> earliest \<and> earliest \<le> we
      else ws \<le> earliest \<or> earliest \<le> frame_len)"

text \<open>The periodic adaptation of the sort time.\<close>

definition adapt_sort_time :: "nat \<Rightarrow> ssbuf \<Rightarrow> ssbuf" where
  "adapt_sort_time tdef s =
     (if 5 * 60 \<le> sub64 tdef (analytime s)
      then (let t = (if uiAnalyTime s < uiSortTime s \<and> 0 < uiAnalyTime s
                     then (let defTime = uiSortTime s - uiAnalyTime s;
                               t1 = (if 200000 < defTime then sub32 (uiSortTime s) 200000 else uiSortTime s);
                               t2 = (if 100000 < defTime then sub32 t1 100000 else uiAnalyTime s)
                           in if t2 < uiSortTimeBak s then uiSortTimeBak s else t2)
                     else uiSortTime s)
            in s\<lparr>uiSortTime := t, uiAnalyTime := 0, analytime := tdef\<rparr>)
      else s)"

text \<open>The branch that halves a ring that is too big.\<close>

definition shrink_ring :: "nat \<Rightarrow> ssbuf \<Rightarrow> ssbuf option" where
  "shrink_ring tdef s =
     (let s1 = s\<lparr>freetime := tdef\<rparr>; newsize = ss_datasize s div 2 in
      if MIM_SORT_BUFF_LEN < newsize \<and> newsize < freesize s
      then (case RemallocSortBuff s1 newsize tdef of
              None \<Rightarrow> None
            | Some None \<Rightarrow> Some s1
            | Some (Some rf) \<Rightarrow> Some rf)
      else Some s1)"

text \<open>The reaction to \<open>tooloog\<close>; a failed reallocation leaves the caller with a NULL
  pointer, which it dereferences.\<close>

definition grow_or_clean :: "nat \<Rightarrow> ssbuf \<Rightarrow> ssbuf option" where
  "grow_or_clean now s =
     (if MAX_SORT_BUFF_LEN < ss_datasize s then Some (CleanSortBuff s now)
      else (case RemallocSortBuff s (wrap32 (ss_datasize s * 3) div 2) now of
              None \<Rightarrow> None
            | Some None \<Rightarrow> None
            | Some (Some rf) \<Rightarrow> Some rf))"

definition note_freesize :: "nat \<Rightarrow> nat \<Rightarrow> ssbuf \<Rightarrow> ssbuf" where
  "note_freesize earliest we s =
     (let free = (if earliest < we then wrap32 (sub32 (ss_datasize s) we + earliest)
                  else if we < earliest then earliest - we
                  else freesize s)
      in if free < freesize s then s\<lparr>freesize := free\<rparr> else s)"

definition CheckStreambuff :: "ssbuf \<Rightarrow> nat \<Rightarrow> nat \<Rightarrow> ssbuf option" where
  "CheckStreambuff s frame_len now =
     (if ss_frameaddr s = [] \<or> uiPutFrameCount s \<le> 2 then Some s
      else
       (let earliest = hd (ss_frameaddr s);
            tooloog = too_long s frame_len;
            wraps = ss_datasize s < wrap32 (ss_position s + frame_len);
            we = (if wraps then frame_len else wrap32 (ss_position s + frame_len));
            s1 = (if wraps then adapt_sort_time now s else s)
        in case (if wraps \<and> \<not> tooloog \<and> 15 * 60 \<le> sub64 now (analytime s1)
                 then shrink_ring now s1 else Some s1) of
             None \<Rightarrow> None
           | Some s2 \<Rightarrow>
               if tooloog then grow_or_clean now s2
               else Some (note_freesize earliest we s2)))"

definition DelectStreamSort :: "ssbuf \<Rightarrow> nat \<Rightarrow> ssbuf" where
  "DelectStreamSort s now = CleanSortBuff s now"

definition CleanStreamSort :: "ssbuf \<Rightarrow> nat \<Rightarrow> ssbuf" where
  "CleanStreamSort s now = CleanSortBuff s now"

section \<open>Handing out frames\<close>

type_synonym 'k sink = "'k \<Rightarrow> sc_sortframe \<Rightarrow> (int \<times> 'k) option"

text \<open>The loop of \<open>PopFrameStreamSort\<close>; the first argument is the number of rounds left.
  A negative result of the callback is returned at once.\<close>

fun pop_loop :: "nat \<Rightarrow> 'k sink \<Rightarrow> ssbuf \<Rightarrow> 'k \<Rightarrow> (int \<times> ssbuf \<times> 'k) option" where
  "pop_loop 0 cb s k = Some (0, s, k)"
| "pop_loop (Suc i) cb s k =
     (if sub32 (uiPutFrameCount s) (u32PopFrameCount s) \<le> 3 then Some (0, s, k)
      else if wrap32 (sub64 (maxtimestamp s) (mintimestamp s)) \<le> uiSortTime s then Some (0, s, k)
      else
       (case ss_nodes s of
          [] \<Rightarrow> None
        | nd # nds \<Rightarrow>
            (case CFrameaddrList (ss_frameaddr s) 0 (nd_position nd) 2 of
               None \<Rightarrow> None
             | Some (e, as) \<Rightarrow>
                 if e < 0 then Some (0, s, k)
                 else (let s1 = s\<lparr>ss_frameaddr := as, premintimestamp := nd_timestamp nd\<rparr>
                       in case cb k (node_frame (ss_pdata s) nd) of
                            None \<Rightarrow> None
                          | Some (ret, k1) \<Rightarrow>
                              if ret < 0 then Some (ret, s1, k1)
                              else (case nds of
                                      [] \<Rightarrow> None
                                    | nd2 # _ \<Rightarrow>
                                        pop_loop i cb
                                          (s1\<lparr>uiValidLen := sub32 (uiValidLen s) (nd_len nd), ss_nodes := nds,
                                              u32PopFrameCount := wrap32 (u32PopFrameCount s + 1),
                                              mintimestamp := nd_timestamp nd2\<rparr>) k1)))))"

definition PopFrameStreamSort :: "'k sink \<Rightarrow> ssbuf \<Rightarrow> 'k \<Rightarrow> (int \<times> ssbuf \<times> 'k) option" where
  "PopFrameStreamSort cb s k = pop_loop 2 cb s k"

section \<open>Taking in a frame\<close>

definition put_first :: "ssbuf \<Rightarrow> sc_sortframe \<Rightarrow> (int \<times> ssbuf) option" where
  "put_first s f =
     (let n = length (sf_frame f);
          s1 = s\<lparr>uiPutFrameCount := 1, uiValidLen := n, maxtimestamp := sf_timestamp f,
                 mintimestamp := sf_timestamp f, premintimestamp := sf_timestamp f\<rparr>
      in case MemcpyToSortBuff s1 (sf_frame f) of
           None \<Rightarrow> None
         | Some (s2, _) \<Rightarrow>
             (case CFrameaddrList (ss_frameaddr s2) 0 0 0 of
                None \<Rightarrow> None
              | Some (e, as) \<Rightarrow>
                  Some (0, s2\<lparr>ss_nodes := [FillTheNode 0 f], ss_frameaddr := as\<rparr>)))"

text \<open>A frame earlier than the head lengthens the sort time.\<close>

definition extend_sort_time :: "nat \<Rightarrow> nat \<Rightarrow> ssbuf \<Rightarrow> ssbuf" where
  "extend_sort_time ts now s =
     (let timedef = wrap32 (sub64 (mintimestamp s) ts) in
      if wrap32 (uiSortTime s + timedef) < uiMaxSortTime s
      then s\<lparr>uiSortTime := wrap32 (uiSortTime s + (if 60000 < timedef then 20000 else timedef)),
             analytime := now, uiAnalyTime := 0\<rparr>
      else s)"

text \<open>Linking an accepted frame that is earlier than the latest one.\<close>

definition link_earlier :: "sc_sortframe \<Rightarrow> nat \<Rightarrow> ss_node \<Rightarrow> ssbuf \<Rightarrow> ssbuf option" where
  "link_earlier f now nd s =
     (if sf_timestamp f < mintimestamp s
      then Some ((extend_sort_time (sf_timestamp f) now s)
             \<lparr>ss_nodes := nd # ss_nodes s, mintimestamp := sf_timestamp f\<rparr>)
      else (case InsertSortMiddle (ss_nodes s) nd of
              None \<Rightarrow> None
            | Some (alatime, nds) \<Rightarrow>
                (let timedef = wrap32 (sub64 (maxtimestamp s) alatime)
                 in Some (s\<lparr>ss_nodes := nds,
                       uiAnalyTime := (if alatime \<noteq> 0 \<and> uiAnalyTime s < timedef then timedef
                                       else uiAnalyTime s)\<rparr>))))"

definition put_earlier :: "ssbuf \<Rightarrow> sc_sortframe \<Rightarrow> nat \<Rightarrow> (int \<times> ssbuf) option" where
  "put_earlier s f now =
     (let ts = sf_timestamp f; timedef = wrap32 (sub64 (maxtimestamp s) ts) in
      if uiMaxSortTime s < timedef
      then (let s1 = s\<lparr>u32LateFrameCount := wrap32 (u32LateFrameCount s + 1),
                       u32LateFrameDrop := wrap32 (u32LateFrameDrop s + 1)\<rparr>
            in Some (- 1, if 60 < u32LateFrameDrop s1 then CleanStreamSort s1 now else s1))
      else
       (let s1 = s\<lparr>u32LateFrameDrop := 0\<rparr> in
        if ts < premintimestamp s1
        then (let s2 = s1\<lparr>u32LateFrameCount := wrap32 (u32LateFrameCount s1 + 1),
                          u32LateFrameDrop := wrap32 (u32LateFrameDrop s1 + 1)\<rparr>
              in Some (- 1, if ts < mintimestamp s2 then extend_sort_time ts now s2 else s2))
        else
         (case MemcpyToSortBuff s1 (sf_frame f) of
            None \<Rightarrow> None
          | Some (s2, position) \<Rightarrow>
              (case CFrameaddrList (ss_frameaddr s2) position 0 0 of
                 None \<Rightarrow> None
               | Some (e, as) \<Rightarrow>
                   map_option (\<lambda>s3. (0, s3))
                     (link_earlier f now (FillTheNode position f)
                       (s2\<lparr>ss_frameaddr := as,
                           uiValidLen := wrap32 (uiValidLen s2 + length (sf_frame f)),
                           uiPutFrameCount := wrap32 (uiPutFrameCount s2 + 1)\<rparr>))))))"

text \<open>Appending a frame at the end, once its bytes are at \<open>position\<close>.\<close>

definition link_end :: "sc_sortframe \<Rightarrow> nat \<Rightarrow> ssbuf \<Rightarrow> ssbuf" where
  "link_end f position s =
     s\<lparr>uiValidLen := wrap32 (uiValidLen s + length (sf_frame f)),
       ss_nodes := InsertSortEnd (ss_nodes s) (FillTheNode position f),
       uiPutFrameCount := wrap32 (uiPutFrameCount s + 1),
       maxtimestamp := sf_timestamp f\<rparr>"

text \<open>The second half of the in-order branch: the bytes are written, the oldest frame is handed
  out when the list spans too long a time.\<close>

definition put_end :: "'k sink \<Rightarrow> ssbuf \<Rightarrow> sc_sortframe \<Rightarrow> nat \<Rightarrow> 'k \<Rightarrow> (int \<times> ssbuf \<times> 'k) option" where
  "put_end cb s f position k =
     (case ss_nodes s of
        nd # nd2 # nds \<Rightarrow>
          if uiSortTime s < wrap32 (sub64 (sf_timestamp f) (mintimestamp s))
          then (case CFrameaddrList (ss_frameaddr s) position (nd_position nd) 1 of
                  None \<Rightarrow> None
                | Some (e, as) \<Rightarrow>
                    if e < 0 then Some (- 1, s, k)
                    else (case cb k (node_frame (ss_pdata s) nd) of
                            None \<Rightarrow> None
                          | Some (ret, k1) \<Rightarrow>
                              PopFrameStreamSort cb
                                (link_end f position
                                  (s\<lparr>ss_frameaddr := as, premintimestamp := nd_timestamp nd,
                                     uiValidLen := sub32 (uiValidLen s) (nd_len nd),
                                     ss_nodes := nd2 # nds,
                                     u32PopFrameCount := wrap32 (u32PopFrameCount s + 1),
                                     mintimestamp := nd_timestamp nd2\<rparr>)) k1))
          else (case CFrameaddrList (ss_frameaddr s) position 0 0 of
                  None \<Rightarrow> None
                | Some (e, as) \<Rightarrow> Some (0, link_end f position (s\<lparr>ss_frameaddr := as\<rparr>), k))
      | _ \<Rightarrow>
          (case CFrameaddrList (ss_frameaddr s) position 0 0 of
             None \<Rightarrow> None
           | Some (e, as) \<Rightarrow> Some (0, link_end f position (s\<lparr>ss_frameaddr := as\<rparr>), k)))"

definition put_inorder :: "'k sink \<Rightarrow> ssbuf \<Rightarrow> sc_sortframe \<Rightarrow> nat \<Rightarrow> 'k \<Rightarrow> (int \<times> ssbuf \<times> 'k) option" where
  "put_inorder cb s f now k =
     (let timedef = wrap32 (sub64 (sf_timestamp f) (maxtimestamp s));
          early = uiMaxSortTime s \<le> timedef;
          s1 = (if early
                then s\<lparr>u32EarlyFrameCount := wrap32 (u32EarlyFrameCount s + 1),
                       u32EarlyFrameDrop := wrap32 (u32EarlyFrameDrop s + 1)\<rparr>
                else s\<lparr>u32EarlyFrameDrop := 0\<rparr>)
      in if early \<and> (60 < u32EarlyFrameDrop s1 \<or> 10000000 < timedef)
         then Some (- 1, (CleanStreamSort s1 now)\<lparr>u32EarlyFrameDrop := 0\<rparr>, k)
         else (case MemcpyToSortBuff s1 (sf_frame f) of
                 None \<Rightarrow> None
               | Some (s2, position) \<Rightarrow> put_end cb s2 f position k))"

definition PutFrameStreamSort ::
  "'k sink \<Rightarrow> nat \<Rightarrow> sc_sortframe \<Rightarrow> ssbuf \<Rightarrow> 'k \<Rightarrow> (int \<times> ssbuf \<times> 'k) option" where
  "PutFrameStreamSort cb now f s k =
     (if ss_datasize s div 2 \<le> length (sf_frame f) then Some (- 1, s, k)
      else (case CheckStreambuff s (length (sf_frame f)) now of
              None \<Rightarrow> None
            | Some s1 \<Rightarrow>
                if ss_nodes s1 = [] then map_option (\<lambda>(r, s2). (r, s2, k)) (put_first s1 f)
                else if sf_timestamp f < maxtimestamp s1
                then map_option (\<lambda>(r, s2). (r, s2, k)) (put_earlier s1 f now)
                else put_inorder cb s1 f now k))"

section \<open>Blocks in the byte ring\<close>

text \<open>The blocks of the held frames in the order written, as position and length. They are laid
  out in one or two ascending runs: the younger run \<open>L2\<close> from 0 to the write position, the
  older run \<open>L1\<close> from there to the end of the ring.\<close>

type_synonym slot = "nat \<times> nat"

fun chain :: "nat \<Rightarrow> slot list \<Rightarrow> nat \<Rightarrow> bool" where
  "chain lo [] hi \<longleftrightarrow> lo \<le> hi"
| "chain lo ((p, n) # L) hi \<longleftrightarrow> lo \<le> p \<and> 0 < n \<and> chain (p + n) L hi"

definition layout :: "nat \<Rightarrow> nat \<Rightarrow> slot list \<Rightarrow> bool" where
  "layout d pos L \<longleftrightarrow> (\<exists>L1 L2. L = L1 @ L2 \<and> chain 0 L2 pos \<and> chain pos L1 d)"

definition apart :: "slot \<Rightarrow> slot \<Rightarrow> bool" where
  "apart x y \<longleftrightarrow> fst x + snd x \<le> fst y \<or> fst y + snd y \<le> fst x"

lemma chain_le: "chain lo L hi \<Longrightarrow> lo \<le> hi"
  by (induction L arbitrary: lo) fastforce+

lemma chain_weaken: "chain lo L hi \<Longrightarrow> lo' \<le> lo \<Longrightarrow> hi \<le> hi' \<Longrightarrow> chain lo' L hi'"
  by (induction L arbitrary: lo lo') auto

lemma chain_append: "chain lo (L @ M) hi \<longleftrightarrow> (\<exists>m. chain lo L m \<and> chain m M hi)"
proof (induction L arbitrary: lo)
  case Nil
  show ?case using chain_weaken chain_le by (metis append_Nil chain.simps(1) order_refl)
next
  case (Cons x L)
  then show ?case by (cases x) auto
qed

lemma chain_snoc: "chain lo (L @ [(p, n)]) hi \<longleftrightarrow> chain lo L p \<and> 0 < n \<and> p + n \<le> hi"
  unfolding chain_append using chain_weaken by (fastforce intro: exI [of _ p])

lemma chain_mem: "chain lo L hi \<Longrightarrow> (p, n) \<in> set L \<Longrightarrow> lo \<le> p \<and> 0 < n \<and> p + n \<le> hi"
proof (induction L arbitrary: lo)
  case Nil
  then show ?case by simp
next
  case (Cons x L)
  obtain q m where x: "x = (q, m)" by (cases x)
  show ?case
  proof (cases "(p, n) = x")
    case True
    then show ?thesis using Cons.prems(1) x chain_le by fastforce
  next
    case False
    then have "q + m \<le> p \<and> 0 < n \<and> p + n \<le> hi" using Cons x by auto
    then show ?thesis using Cons.prems(1) x by simp
  qed
qed

lemma chain_remove1: "chain lo L hi \<Longrightarrow> chain lo (remove1 x L) hi"
proof (induction L arbitrary: lo)
  case Nil
  then show ?case by simp
next
  case (Cons y L)
  obtain q m where y: "y = (q, m)" by (cases y)
  then have "chain (q + m) L hi" "lo \<le> q" "0 < m" using Cons.prems by auto
  then show ?case using Cons.IH [of "q + m"] y chain_weaken [of "q + m" L hi lo hi] by auto
qed

lemma layout_Nil [simp]: "layout d pos [] \<longleftrightarrow> pos \<le> d"
  by (auto simp: layout_def)

lemma layout_remove1:
  assumes "layout d pos L"
  shows "layout d pos (remove1 x L)"
proof -
  obtain L1 L2 where L: "L = L1 @ L2" "chain 0 L2 pos" "chain pos L1 d"
    using assms by (auto simp: layout_def)
  then have "remove1 x L = (if x \<in> set L1 then remove1 x L1 @ L2 else L1 @ remove1 x L2)"
    by (auto simp: remove1_append)
  then show ?thesis using L chain_remove1 unfolding layout_def by (metis (no_types))
qed

lemma layout_mem:
  assumes "layout d pos L" and "(p, n) \<in> set L" and "pos \<le> d"
  shows "0 < n \<and> p + n \<le> d"
proof -
  obtain L1 L2 where "L = L1 @ L2" "chain 0 L2 pos" "chain pos L1 d"
    using assms by (auto simp: layout_def)
  then show ?thesis using assms(2,3) chain_mem by fastforce
qed

text \<open>Positions of blocks are distinct, so an address names one block.\<close>

lemma chain_distinct: "chain lo L hi \<Longrightarrow> distinct (map fst L)"
proof (induction L arbitrary: lo)
  case Nil
  then show ?case by simp
next
  case (Cons x L)
  obtain p n where x: "x = (p, n)" by (cases x)
  then have c: "chain (p + n) L hi" "0 < n" using Cons.prems by auto
  have "p \<notin> fst ` set L" using chain_mem [OF c(1)] c(2) by force
  then show ?case using Cons.IH [OF c(1)] x by simp
qed

lemma layout_distinct:
  assumes "layout d pos L"
  shows "distinct (map fst L)"
proof -
  obtain L1 L2 where L: "L = L1 @ L2" "chain 0 L2 pos" "chain pos L1 d"
    using assms by (auto simp: layout_def)
  have "fst ` set L1 \<inter> fst ` set L2 = {}"
  proof (rule ccontr)
    assume "\<not> ?thesis"
    then obtain p n m where "(p, n) \<in> set L1" "(p, m) \<in> set L2" by force
    then show False using chain_mem [OF L(2)] chain_mem [OF L(3)] by fastforce
  qed
  then show ?thesis using L chain_distinct by auto
qed

lemma remove1_by_fst:
  "distinct (map fst L) \<Longrightarrow> (p, n) \<in> set L \<Longrightarrow> map fst (remove1 (p, n) L) = remove1 p (map fst L)"
proof (induction L)
  case Nil
  then show ?case by simp
next
  case (Cons x L)
  then show ?case by (cases x) force
qed

text \<open>Where the next block of \<open>n\<close> bytes goes, and that it is free.\<close>

lemma place_behind:
  assumes L: "layout d pos L" and n: "0 < n" "pos + n \<le> d" and p: "pos < d"
    and free: "L \<noteq> [] \<Longrightarrow> fst (hd L) < pos \<or> pos + n < fst (hd L)"
  shows "layout d (if pos + n = d then 0 else pos + n) (L @ [(pos, n)]) \<and>
    (\<forall>x \<in> set L. apart (pos, n) x)"
proof -
  obtain L1 L2 where *: "L = L1 @ L2" "chain 0 L2 pos" "chain pos L1 d"
    using L by (auto simp: layout_def)
  have L1: "chain (pos + n) L1 d"
  proof (cases L1)
    case (Cons x L1')
    then show ?thesis using free * by (cases x) auto
  qed (use n in simp)
  have L2: "chain 0 (L2 @ [(pos, n)]) (pos + n)" using * n by (simp add: chain_snoc)
  have "apart (pos, n) x" if "x \<in> set L" for x
  proof -
    obtain p m where x: "x = (p, m)" by (cases x)
    have "x \<in> set L1 \<or> x \<in> set L2" using that *(1) by simp
    then show ?thesis
      using chain_mem [OF L1, of p m] chain_mem [OF *(2), of p m] x by (auto simp: apart_def)
  qed
  moreover have "layout d (if pos + n = d then 0 else pos + n) (L @ [(pos, n)])"
  proof (cases "pos + n = d")
    case True
    have "L1 = []"
    proof (cases L1)
      case (Cons x L1')
      then show ?thesis using L1 True chain_mem [OF L1, of "fst x" "snd x"] by (cases x) auto
    qed
    then show ?thesis unfolding layout_def using True L2 *
      by (intro exI [of _ "L @ [(pos, n)]"] exI [of _ "[]"]) simp
  next
    case False
    then show ?thesis unfolding layout_def using L1 L2 *
      by (intro exI [of _ L1] exI [of _ "L2 @ [(pos, n)]"]) simp
  qed
  ultimately show ?thesis by blast
qed

lemma place_front:
  assumes L: "layout d pos L" and n: "0 < n" "n \<le> d" and p: "pos < d"
    and ne: "L \<noteq> []" and free: "n < fst (hd L)" "fst (hd L) < pos"
  shows "layout d n (L @ [(0, n)]) \<and> (\<forall>x \<in> set L. apart (0, n) x)"
proof -
  obtain L1 L2 where *: "L = L1 @ L2" "chain 0 L2 pos" "chain pos L1 d"
    using L by (auto simp: layout_def)
  have "L1 = []"
  proof (cases L1)
    case (Cons x L1')
    then have "pos \<le> fst x" using * by (cases x) simp
    then show ?thesis using free * Cons by simp
  qed
  then have "chain 0 L pos" using * by simp
  then have c: "chain n L d" using ne free(1) p
    by (cases L) (auto intro: chain_weaken)
  have "apart (0, n) x" if "x \<in> set L" for x
    using that chain_mem [OF c, of "fst x" "snd x"] by (simp add: apart_def)
  moreover have "layout d n (L @ [(0, n)])"
    unfolding layout_def using c n by (intro exI [of _ L] exI [of _ "[(0, n)]"]) simp
  ultimately show ?thesis by blast
qed

section \<open>The invariant\<close>

definition slot_of :: "ss_node \<Rightarrow> slot" where
  "slot_of nd = (nd_position nd, nd_len nd)"

definition held :: "ssbuf \<Rightarrow> sc_sortframe list" where
  "held s = map (node_frame (ss_pdata s)) (ss_nodes s)"

definition blocks :: "ssbuf \<Rightarrow> slot list \<Rightarrow> bool" where
  "blocks s L \<longleftrightarrow> map fst L = ss_frameaddr s \<and> mset L = mset (map slot_of (ss_nodes s)) \<and>
     layout (ss_datasize s) (ss_position s) L"

text \<open>The addresses \<open>as\<close> and the blocks \<open>M\<close> of the nodes agree and are laid out
  as above; the first two frames, for which the code does not check, have not wrapped.\<close>

definition slots_ok :: "nat \<Rightarrow> nat \<Rightarrow> nat \<Rightarrow> nat \<Rightarrow> nat list \<Rightarrow> slot multiset \<Rightarrow> bool" where
  "slots_ok l d pos c as M \<longleftrightarrow> (\<exists>L. map fst L = as \<and> mset L = M \<and> layout d pos L \<and>
     (c \<le> 2 \<longrightarrow> chain 0 L pos \<and> pos \<le> c * l))"

definition sort_inv :: "nat \<Rightarrow> ssbuf \<Rightarrow> bool" where
  "sort_inv l s \<longleftrightarrow>
     0 < l \<and> 3 * l < ss_datasize s \<and> ss_datasize s < 2147483648 \<and> ss_position s < ss_datasize s \<and>
     slots_ok l (ss_datasize s) (ss_position s) (uiPutFrameCount s) (ss_frameaddr s) (mset (map slot_of (ss_nodes s))) \<and>
     sorted (map nd_timestamp (ss_nodes s)) \<and>
     (\<forall>nd \<in> set (ss_nodes s). nd_timestamp nd < 18446744073709551616) \<and>
     (ss_nodes s \<noteq> [] \<longrightarrow> mintimestamp s = nd_timestamp (hd (ss_nodes s)) \<and>
        maxtimestamp s = nd_timestamp (last (ss_nodes s)) \<and> premintimestamp s \<le> mintimestamp s) \<and>
     (ss_nodes s = [] \<longrightarrow> ss_position s = 0 \<and> u32PopFrameCount s = 0) \<and>
     uiPutFrameCount s = u32PopFrameCount s + length (ss_nodes s) \<and>
     uiPutFrameCount s < 4294967296"

text \<open>\<open>CheckStreambuff\<close> finds room: the new frame does not reach the oldest one, or it is one
  of the first frames, for which the code does not look.\<close>

definition has_room :: "ssbuf \<Rightarrow> nat \<Rightarrow> bool" where
  "has_room s n \<longleftrightarrow> ss_frameaddr s = [] \<or> uiPutFrameCount s \<le> 2 \<or> \<not> too_long s n"

lemma blocks_empty: "blocks s L \<Longrightarrow> ss_frameaddr s = [] \<longleftrightarrow> ss_nodes s = []"
  unfolding blocks_def by (metis map_is_Nil_conv mset_zero_iff mset_map)

lemma blocks_Nil: "blocks s L \<Longrightarrow> L = [] \<longleftrightarrow> ss_nodes s = []"
  unfolding blocks_def by (metis map_is_Nil_conv mset_zero_iff mset_map)

lemma node_frame_apart:
  "apart (w, length bs) (slot_of nd) \<Longrightarrow> node_frame (mem_put d w bs) nd = node_frame d nd"
  by (auto simp: node_frame_def slot_of_def apart_def mem_get_put_disjoint)

lemma node_frame_new: "node_frame (mem_put d w (sf_frame f)) (FillTheNode w f) = f"
  by (simp add: node_frame_def FillTheNode_def mem_get_put_same)

lemma FillTheNode_simps [simp]:
  "nd_timestamp (FillTheNode p f) = sf_timestamp f" "nd_position (FillTheNode p f) = p"
  "nd_len (FillTheNode p f) = length (sf_frame f)" "slot_of (FillTheNode p f) = (p, length (sf_frame f))"
  by (simp_all add: FillTheNode_def slot_of_def)

lemma node_frame_simps [simp]:
  "sf_timestamp (node_frame d nd) = nd_timestamp nd" "length (sf_frame (node_frame d nd)) = nd_len nd"
  by (simp_all add: node_frame_def)

lemma memcpy_room:
  assumes inv: "sort_inv l s" and L: "blocks s L"
    and c: "uiPutFrameCount s \<le> 2 \<longrightarrow> chain 0 L (ss_position s) \<and> ss_position s \<le> uiPutFrameCount s * l"
    and ne: "ss_nodes s \<noteq> []" and room: "has_room s (length bs)" and n: "0 < length bs" "length bs \<le> l"
  obtains w p where "MemcpyToSortBuff s bs = Some (s\<lparr>ss_pdata := mem_put (ss_pdata s) w bs, ss_position := p\<rparr>, w)"
    "layout (ss_datasize s) p (L @ [(w, length bs)])" "\<forall>x \<in> set L. apart (w, length bs) x" "p < ss_datasize s"
    "uiPutFrameCount s \<le> 1 \<longrightarrow> chain 0 (L @ [(w, length bs)]) p \<and> p \<le> Suc (uiPutFrameCount s) * l"
proof -
  let ?P = "ss_position s" and ?D = "ss_datasize s" and ?n = "length bs"
  have d: "3 * l < ?D" "?D < 2147483648" "?P < ?D" using inv by (auto simp: sort_inv_def)
  have lay: "layout ?D ?P L" and LN: "L \<noteq> []" using L ne blocks_Nil [OF L] by (auto simp: blocks_def)
  have "ss_frameaddr s = map fst L" using L by (simp add: blocks_def)
  then have e: "hd (ss_frameaddr s) = fst (hd L)" "ss_frameaddr s \<noteq> []"
    using LN by (simp_all add: hd_map)
  have w: "wrap32 (?P + ?n) = ?P + ?n" using d n by (simp add: wrap_simps)
  show thesis
  proof (cases "?P + ?n \<le> ?D")
    case True
    have "fst (hd L) < ?P \<or> ?P + ?n < fst (hd L)"
    proof (cases "uiPutFrameCount s \<le> 2")
      case True
      then show ?thesis using c LN chain_mem [of 0 L ?P "fst (hd L)" "snd (hd L)"] by auto
    next
      case False
      then show ?thesis using room e \<open>?P + ?n \<le> ?D\<close> w by (auto simp: has_room_def too_long_def Let_def)
    qed
    then have *: "layout ?D (if ?P + ?n = ?D then 0 else ?P + ?n) (L @ [(?P, ?n)])"
      "\<forall>x \<in> set L. apart (?P, ?n) x" using place_behind [OF lay n(1) True d(3)] by auto
    show thesis
    proof (rule that [OF _ *])
      show "MemcpyToSortBuff s bs = Some (s\<lparr>ss_pdata := mem_put (ss_pdata s) ?P bs,
        ss_position := if ?P + ?n = ?D then 0 else ?P + ?n\<rparr>, ?P)"
        using True w by (simp add: MemcpyToSortBuff_def Let_def)
      show "(if ?P + ?n = ?D then 0 else ?P + ?n) < ?D" using True d by auto
      show "uiPutFrameCount s \<le> 1 \<longrightarrow> chain 0 (L @ [(?P, ?n)]) (if ?P + ?n = ?D then 0 else ?P + ?n) \<and>
        (if ?P + ?n = ?D then 0 else ?P + ?n) \<le> Suc (uiPutFrameCount s) * l"
      proof
        assume p: "uiPutFrameCount s \<le> 1"
        then have "uiPutFrameCount s * l \<le> 1 * l" by (rule mult_le_mono1)
        moreover have cp: "chain 0 L ?P" "?P \<le> uiPutFrameCount s * l" using c p by auto
        ultimately have "?P + ?n < ?D" using d n by linarith
        then show "chain 0 (L @ [(?P, ?n)]) (if ?P + ?n = ?D then 0 else ?P + ?n) \<and>
          (if ?P + ?n = ?D then 0 else ?P + ?n) \<le> Suc (uiPutFrameCount s) * l"
          using cp n by (auto simp: chain_snoc)
      qed
    qed
  next
    case False
    have p2: "\<not> uiPutFrameCount s \<le> 2"
    proof
      assume p: "uiPutFrameCount s \<le> 2"
      then have "uiPutFrameCount s * l \<le> 2 * l" by (rule mult_le_mono1)
      moreover have "?P \<le> uiPutFrameCount s * l" using c p by blast
      ultimately show False using False d(1) n(2) by linarith
    qed
    then have "?n < fst (hd L)" "fst (hd L) < ?P"
      using room e False w by (auto simp: has_room_def too_long_def Let_def)
    then have *: "layout ?D ?n (L @ [(0, ?n)])" "\<forall>x \<in> set L. apart (0, ?n) x"
      using place_front [OF lay n(1) _ d(3) LN] d n by auto
    show thesis
    proof (rule that [OF _ *])
      show "MemcpyToSortBuff s bs = Some (s\<lparr>ss_pdata := mem_put (ss_pdata s) 0 bs, ss_position := ?n\<rparr>, 0)"
        using False w d n by (simp add: MemcpyToSortBuff_def Let_def)
      show "?n < ?D" using d n by simp
    qed (use p2 in simp)
  qed
qed

lemma slots_remove:
  assumes "slots_ok l d pos c as M" and "(a, n) \<in># M"
  shows "slots_ok l d pos c (remove1 a as) (M - {#(a, n)#}) \<and> a \<in> set as"
proof -
  obtain L where L: "map fst L = as" "mset L = M" "layout d pos L" "c \<le> 2 \<longrightarrow> chain 0 L pos \<and> pos \<le> c * l"
    using assms(1) by (auto simp: slots_ok_def)
  have m: "(a, n) \<in> set L" using assms(2) L(2) by (metis set_mset_mset)
  have "map fst (remove1 (a, n) L) = remove1 a as"
    using remove1_by_fst [OF layout_distinct [OF L(3)] m] L(1) by simp
  then have "slots_ok l d pos c (remove1 a as) (M - {#(a, n)#})"
    unfolding slots_ok_def using L layout_remove1 [OF L(3)] chain_remove1
    by (intro exI [of _ "remove1 (a, n) L"]) auto
  moreover have "a \<in> set as" using m L(1) by force
  ultimately show ?thesis by blast
qed

lemma slots_count:
  assumes "slots_ok l d pos c as M" and "c \<le> c'"
  shows "slots_ok l d pos c' as M"
proof -
  obtain L where L: "map fst L = as" "mset L = M" "layout d pos L" "c \<le> 2 \<longrightarrow> chain 0 L pos \<and> pos \<le> c * l"
    using assms(1) by (auto simp: slots_ok_def)
  have "c * l \<le> c' * l" using assms(2) by (rule mult_le_mono1)
  then have "c' \<le> 2 \<longrightarrow> chain 0 L pos \<and> pos \<le> c' * l" using L(4) assms(2) by linarith
  then show ?thesis unfolding slots_ok_def using L by blast
qed

lemma slots_empty: "slots_ok l d pos c as {#} \<Longrightarrow> as = []"
  by (auto simp: slots_ok_def)

text \<open>Storing the bytes of a frame for which there is room: the held frames are untouched.\<close>

lemma store_frame:
  assumes inv: "sort_inv l s" and ne: "ss_nodes s \<noteq> []" and room: "has_room s (length (sf_frame f))"
    and n: "0 < length (sf_frame f)" "length (sf_frame f) \<le> l"
  shows "\<exists>w p d. MemcpyToSortBuff s (sf_frame f) = Some (s\<lparr>ss_pdata := d, ss_position := p\<rparr>, w) \<and>
    map (node_frame d) (ss_nodes s) = held s \<and> node_frame d (FillTheNode w f) = f \<and> p < ss_datasize s \<and>
    slots_ok l (ss_datasize s) p (Suc (uiPutFrameCount s)) (ss_frameaddr s @ [w])
       (add_mset (w, length (sf_frame f)) (mset (map slot_of (ss_nodes s))))"
proof -
  obtain L where L: "map fst L = ss_frameaddr s" "mset L = mset (map slot_of (ss_nodes s))"
    "layout (ss_datasize s) (ss_position s) L"
    "uiPutFrameCount s \<le> 2 \<longrightarrow> chain 0 L (ss_position s) \<and> ss_position s \<le> uiPutFrameCount s * l"
    using inv by (auto simp: sort_inv_def slots_ok_def)
  then have b: "blocks s L" by (simp add: blocks_def)
  obtain w p where w: "MemcpyToSortBuff s (sf_frame f) =
      Some (s\<lparr>ss_pdata := mem_put (ss_pdata s) w (sf_frame f), ss_position := p\<rparr>, w)"
    "layout (ss_datasize s) p (L @ [(w, length (sf_frame f))])"
    "\<forall>x \<in> set L. apart (w, length (sf_frame f)) x" "p < ss_datasize s"
    "uiPutFrameCount s \<le> 1 \<longrightarrow> chain 0 (L @ [(w, length (sf_frame f))]) p \<and> p \<le> Suc (uiPutFrameCount s) * l"
    using memcpy_room [OF inv b L(4) ne room n] by blast
  show ?thesis
  proof (intro exI conjI)
    show "MemcpyToSortBuff s (sf_frame f) =
      Some (s\<lparr>ss_pdata := mem_put (ss_pdata s) w (sf_frame f), ss_position := p\<rparr>, w)" by (rule w(1))
    have "slot_of nd \<in> set L" if "nd \<in> set (ss_nodes s)" for nd
      using that L(2) by (metis image_eqI list.set_map set_mset_mset)
    then show "map (node_frame (mem_put (ss_pdata s) w (sf_frame f))) (ss_nodes s) = held s"
      using w(3) by (auto simp: held_def node_frame_apart)
    show "slots_ok l (ss_datasize s) p (Suc (uiPutFrameCount s)) (ss_frameaddr s @ [w])
       (add_mset (w, length (sf_frame f)) (mset (map slot_of (ss_nodes s))))"
      unfolding slots_ok_def using L w by (intro exI [of _ "L @ [(w, length (sf_frame f))]"]) auto
  qed (use w node_frame_new in auto)
qed

section \<open>Frames other than the latest\<close>

lemma sort_inv_slots:
  "sort_inv l s \<Longrightarrow> slots_ok l (ss_datasize s) (ss_position s) (uiPutFrameCount s) (ss_frameaddr s)
    (mset (map slot_of (ss_nodes s)))"
  unfolding sort_inv_def by blast

lemma slots_length: "slots_ok l d pos c as M \<Longrightarrow> length as = size M"
  unfolding slots_ok_def by (metis length_map size_mset)

lemma insert_after_spec:
  "sorted (map nd_timestamp ps) \<Longrightarrow> ps \<noteq> [] \<Longrightarrow> nd_timestamp nd < nd_timestamp (last ps) \<Longrightarrow>
   insert_after prv nd ps = (a, qs) \<Longrightarrow>
   mset qs = add_mset nd (mset ps) \<and> sorted (map nd_timestamp qs) \<and> last qs = last ps \<and> qs \<noteq> []"
proof (induction ps arbitrary: prv a qs)
  case Nil
  then show ?case by simp
next
  case (Cons p ps)
  show ?case
  proof (cases "nd_timestamp p \<le> nd_timestamp nd")
    case True
    then have "ps \<noteq> []" using Cons.prems(3) by auto
    obtain b rs where b: "insert_after p nd ps = (b, rs)" by (cases "insert_after p nd ps")
    have rs: "mset rs = add_mset nd (mset ps)" "sorted (map nd_timestamp rs)" "last rs = last ps" "rs \<noteq> []"
      using Cons.IH [OF _ \<open>ps \<noteq> []\<close> _ b] Cons.prems \<open>ps \<noteq> []\<close> by auto
    then have "set rs = insert nd (set ps)" by (metis set_mset_add_mset_insert set_mset_mset)
    then show ?thesis using True b rs Cons.prems \<open>ps \<noteq> []\<close> by auto
  next
    case False
    have "nd_timestamp p \<le> nd_timestamp x" if "x \<in> set ps" for x using that Cons.prems(1) by simp
    then show ?thesis using False Cons.prems by force
  qed
qed

lemma InsertSortMiddle_spec:
  assumes "sorted (map nd_timestamp nds)" and "nds \<noteq> []"
    and "nd_timestamp (hd nds) \<le> nd_timestamp nd" and "nd_timestamp nd < nd_timestamp (last nds)"
  obtains a qs where "InsertSortMiddle nds nd = Some (a, qs)" "mset qs = add_mset nd (mset nds)"
    "sorted (map nd_timestamp qs)" "last qs = last nds" "hd qs = hd nds" "qs \<noteq> []"
proof -
  obtain p ps where p: "nds = p # ps" using assms(2) by (meson neq_Nil_conv)
  then have ps: "ps \<noteq> []" using assms(3,4) by auto
  obtain a rs where a: "insert_after p nd ps = (a, rs)" by (cases "insert_after p nd ps")
  have rs: "mset rs = add_mset nd (mset ps)" "sorted (map nd_timestamp rs)" "last rs = last ps" "rs \<noteq> []"
    using insert_after_spec [OF _ ps _ a] assms p ps by auto
  then have "set rs = insert nd (set ps)" by (metis set_mset_add_mset_insert set_mset_mset)
  then show thesis using that [of a "p # rs"] a rs assms p ps by auto
qed

lemma clean_inv:
  assumes "sort_inv l s"
  shows "sort_inv l (CleanSortBuff s now)"
  using assms by (auto simp: sort_inv_def CleanSortBuff_def slots_ok_def)

lemma clean_fields [simp]:
  "ss_nodes (CleanSortBuff s now) = []" "held (CleanSortBuff s now) = []"
  "ss_datasize (CleanSortBuff s now) = ss_datasize s"
  by (simp_all add: CleanSortBuff_def held_def)

lemma extend_inv:
  "sort_inv l (extend_sort_time ts now s) = sort_inv l s"
  "held (extend_sort_time ts now s) = held s"
  "premintimestamp (extend_sort_time ts now s) = premintimestamp s"
  "ss_nodes (extend_sort_time ts now s) = ss_nodes s"
  by (simp_all add: extend_sort_time_def Let_def sort_inv_def held_def)

lemma put_first_ok:
  assumes inv: "sort_inv l s" and e: "ss_nodes s = []"
    and f: "0 < length (sf_frame f)" "length (sf_frame f) \<le> l" "sf_timestamp f < 18446744073709551616"
  shows "\<exists>s'. put_first s f = Some (0, s') \<and> sort_inv l s' \<and> held s' = [f] \<and>
    premintimestamp s' = sf_timestamp f"
proof -
  let ?n = "length (sf_frame f)"
  have i: "3 * l < ss_datasize s" "ss_datasize s < 2147483648" "ss_position s = 0" "u32PopFrameCount s = 0"
    using inv e by (auto simp: sort_inv_def)
  have a: "ss_frameaddr s = []" using inv e slots_empty by (auto simp: sort_inv_def)
  have "?n < ss_datasize s" "?n < 4294967296" using i(1,2) f(1,2) by linarith+
  then have n: "?n < ss_datasize s" "wrap32 ?n = ?n" by (simp_all add: wrap_simps)
  have c: "slots_ok l (ss_datasize s) ?n 1 [0] {#(0, ?n)#}"
    unfolding slots_ok_def layout_def using f n
    by (intro exI [of _ "[(0, ?n)]"] conjI exI [of _ "[]"]) auto
  define s' where "s' = s\<lparr>uiPutFrameCount := 1, uiValidLen := ?n, maxtimestamp := sf_timestamp f,
    mintimestamp := sf_timestamp f, premintimestamp := sf_timestamp f,
    ss_pdata := mem_put (ss_pdata s) 0 (sf_frame f), ss_position := ?n, ss_nodes := [FillTheNode 0 f],
    ss_frameaddr := [0]\<rparr>"
  have z: "0 < l" "?n < ss_datasize s" using f(1,2) i(1) by linarith+
  have "put_first s f = Some (0, s')"
    using n i a by (simp add: put_first_def MemcpyToSortBuff_def Let_def CFrameaddrList_def s'_def)
  moreover have "sort_inv l s'"
    using inv c n i f z unfolding sort_inv_def by (simp add: s'_def)
  ultimately show ?thesis by (simp add: s'_def held_def node_frame_new)
qed

lemma link_earlier_ok:
  assumes srt: "sorted (map nd_timestamp (ss_nodes s))" "ss_nodes s \<noteq> []"
    and mm: "mintimestamp s = nd_timestamp (hd (ss_nodes s))" "maxtimestamp s = nd_timestamp (last (ss_nodes s))"
    and ts: "sf_timestamp f < maxtimestamp s"
  obtains s' where "link_earlier f now (FillTheNode w f) s = Some s'"
    "mset (ss_nodes s') = add_mset (FillTheNode w f) (mset (ss_nodes s))"
    "sorted (map nd_timestamp (ss_nodes s'))" "last (ss_nodes s') = last (ss_nodes s)"
    "ss_pdata s' = ss_pdata s" "ss_position s' = ss_position s" "ss_frameaddr s' = ss_frameaddr s"
    "ss_datasize s' = ss_datasize s" "uiPutFrameCount s' = uiPutFrameCount s"
    "u32PopFrameCount s' = u32PopFrameCount s" "maxtimestamp s' = maxtimestamp s"
    "mintimestamp s' = nd_timestamp (hd (ss_nodes s'))" "premintimestamp s' = premintimestamp s"
    "mintimestamp s' = min (sf_timestamp f) (mintimestamp s)"
proof (cases "sf_timestamp f < mintimestamp s")
  case True
  have "sorted (sf_timestamp f # map nd_timestamp (ss_nodes s))"
    using True mm srt by (cases "ss_nodes s") auto
  then show thesis
    using that [of "(extend_sort_time (sf_timestamp f) now s)
        \<lparr>ss_nodes := FillTheNode w f # ss_nodes s, mintimestamp := sf_timestamp f\<rparr>"] True srt
    by (simp add: link_earlier_def extend_sort_time_def Let_def min_def)
next
  case False
  obtain a qs where a: "InsertSortMiddle (ss_nodes s) (FillTheNode w f) = Some (a, qs)"
    "mset qs = add_mset (FillTheNode w f) (mset (ss_nodes s))" "sorted (map nd_timestamp qs)"
    "last qs = last (ss_nodes s)" "hd qs = hd (ss_nodes s)" "qs \<noteq> []"
    using InsertSortMiddle_spec [OF srt, of "FillTheNode w f"] False mm ts by auto
  show thesis
    using that [of "s\<lparr>ss_nodes := qs, uiAnalyTime := (if a \<noteq> 0 \<and> uiAnalyTime s < wrap32 (sub64 (maxtimestamp s) a)
        then wrap32 (sub64 (maxtimestamp s) a) else uiAnalyTime s)\<rparr>"] False a mm
    by (simp add: link_earlier_def Let_def min_def)
qed

lemma put_earlier_ok:
  assumes inv: "sort_inv l s" and ne: "ss_nodes s \<noteq> []" and room: "has_room s (length (sf_frame f))"
    and f: "0 < length (sf_frame f)" "length (sf_frame f) \<le> l" "sf_timestamp f < 18446744073709551616"
    and ts: "sf_timestamp f < maxtimestamp s" and c: "uiPutFrameCount s + 1 < 4294967296"
  shows "\<exists>r s'. put_earlier s f now = Some (r, s') \<and> sort_inv l s' \<and>
    (r = 0 \<and> mset (held s') = add_mset f (mset (held s)) \<and> premintimestamp s \<le> sf_timestamp f \<and>
       premintimestamp s' = premintimestamp s \<or>
     r = - 1 \<and> (held s' = held s \<and> premintimestamp s' = premintimestamp s \<or> ss_nodes s' = []))"
proof -
  let ?late = "uiMaxSortTime s < wrap32 (sub64 (maxtimestamp s) (sf_timestamp f))"
  consider "?late" | "\<not> ?late" "sf_timestamp f < premintimestamp s" | "\<not> ?late" "premintimestamp s \<le> sf_timestamp f"
    by linarith
  then show ?thesis
  proof cases
    case 1
    let ?s = "s\<lparr>u32LateFrameCount := wrap32 (u32LateFrameCount s + 1),
                u32LateFrameDrop := wrap32 (u32LateFrameDrop s + 1)\<rparr>"
    have "sort_inv l ?s" "held ?s = held s" using inv by (auto simp: sort_inv_def held_def)
    then show ?thesis using 1 clean_inv [of l ?s now] by (simp add: put_earlier_def Let_def CleanStreamSort_def)
  next
    case 2
    let ?s = "s\<lparr>u32LateFrameCount := wrap32 (u32LateFrameCount s + 1), u32LateFrameDrop := wrap32 1\<rparr>"
    have "sort_inv l ?s" "held ?s = held s" using inv by (auto simp: sort_inv_def held_def)
    then show ?thesis using 2 by (simp add: put_earlier_def Let_def extend_inv)
  next
    case 3
    let ?s1 = "s\<lparr>u32LateFrameDrop := 0\<rparr>" and ?n = "length (sf_frame f)"
    have i1: "sort_inv l ?s1" "held ?s1 = held s" "has_room ?s1 ?n"
      using inv room by (auto simp: sort_inv_def held_def has_room_def too_long_def Let_def)
    obtain w p d where w: "MemcpyToSortBuff ?s1 (sf_frame f) = Some (?s1\<lparr>ss_pdata := d, ss_position := p\<rparr>, w)"
      "map (node_frame d) (ss_nodes s) = held s" "node_frame d (FillTheNode w f) = f" "p < ss_datasize s"
      "slots_ok l (ss_datasize s) p (Suc (uiPutFrameCount s)) (ss_frameaddr s @ [w])
         (add_mset (w, ?n) (mset (map slot_of (ss_nodes s))))"
      using store_frame [OF i1(1) _ i1(3) f(1,2)] ne i1(2) by auto
    let ?s2 = "?s1\<lparr>ss_pdata := d, ss_position := p, ss_frameaddr := ss_frameaddr s @ [w],
        uiValidLen := wrap32 (uiValidLen s + ?n), uiPutFrameCount := Suc (uiPutFrameCount s)\<rparr>"
    have t: "sorted (map nd_timestamp (ss_nodes s))" "mintimestamp s = nd_timestamp (hd (ss_nodes s))"
      "maxtimestamp s = nd_timestamp (last (ss_nodes s))" "premintimestamp s \<le> mintimestamp s"
      using inv ne by (auto simp: sort_inv_def)
    obtain s' where s': "link_earlier f now (FillTheNode w f) ?s2 = Some s'"
      "mset (ss_nodes s') = add_mset (FillTheNode w f) (mset (ss_nodes s))"
      "sorted (map nd_timestamp (ss_nodes s'))" "last (ss_nodes s') = last (ss_nodes s)"
      "ss_pdata s' = d" "ss_position s' = p" "ss_frameaddr s' = ss_frameaddr s @ [w]"
      "ss_datasize s' = ss_datasize s" "uiPutFrameCount s' = Suc (uiPutFrameCount s)"
      "u32PopFrameCount s' = u32PopFrameCount s" "maxtimestamp s' = maxtimestamp s"
      "mintimestamp s' = nd_timestamp (hd (ss_nodes s'))" "premintimestamp s' = premintimestamp s"
      "mintimestamp s' = min (sf_timestamp f) (mintimestamp s)"
      using link_earlier_ok [of ?s2 f now w] t ts ne by auto
    have put: "put_earlier s f now = Some (0, s')"
      using 3 w(1) s'(1) c by (simp add: put_earlier_def Let_def CFrameaddrList_def wrap_simps)
    have len: "length (ss_nodes s') = Suc (length (ss_nodes s))" using s'(2) by (metis size_add_mset size_mset)
    have st: "set (ss_nodes s') = insert (FillTheNode w f) (set (ss_nodes s))"
      using s'(2) by (metis set_mset_add_mset_insert set_mset_mset)
    have "mset (map slot_of (ss_nodes s')) = add_mset (w, ?n) (mset (map slot_of (ss_nodes s)))"
      using s'(2) by simp
    then have "sort_inv l s'"
      using inv s'(3-) w(4,5) st len c f(3) t 3 ne unfolding sort_inv_def by auto
    moreover have "mset (held s') = add_mset f (mset (held s))"
      using s'(2,5) w(2,3) by (metis (no_types, lifting) held_def image_mset_add_mset mset_map)
    ultimately show ?thesis using put s'(13) 3 by auto
  qed
qed

section \<open>The sink\<close>

text \<open>What the sorter needs of its callback: on a frame the sink accepts it returns 0, and the
  sink's content grows by that frame. \<open>rep k fs\<close> says that the sink \<open>k\<close> has taken the
  frames \<open>fs\<close>, at most \<open>cap\<close>.\<close>

locale frame_sink =
  fixes cb :: "'k \<Rightarrow> sc_sortframe \<Rightarrow> (int \<times> 'k) option"
    and rep :: "'k \<Rightarrow> sc_sortframe list \<Rightarrow> bool"
    and okf :: "sc_sortframe \<Rightarrow> bool"
    and cap :: nat
  assumes takes: "rep k fs \<Longrightarrow> okf f \<Longrightarrow> length fs < cap \<Longrightarrow> \<exists>k'. cb k f = Some (0, k') \<and> rep k' (fs @ [f])"
begin

lemma pop_loop_ok:
  "sort_inv l s \<Longrightarrow> ss_nodes s \<noteq> [] \<Longrightarrow> rep k fs \<Longrightarrow> \<forall>f \<in> set (held s). okf f \<Longrightarrow>
   length fs + length (held s) \<le> cap \<Longrightarrow>
   \<exists>s' k' em. pop_loop i cb s k = Some (0, s', k') \<and> sort_inv l s' \<and> ss_nodes s' \<noteq> [] \<and>
     rep k' (fs @ em) \<and> em @ held s' = held s \<and>
     premintimestamp s' = (if em = [] then premintimestamp s else sf_timestamp (last em)) \<and>
     uiPutFrameCount s' = uiPutFrameCount s \<and> ss_datasize s' = ss_datasize s"
proof (induction i arbitrary: s k fs)
  case 0
  then show ?case by (auto intro: exI [of _ "[]"])
next
  case (Suc i)
  note inv = Suc.prems(1)
  let ?stop = "sub32 (uiPutFrameCount s) (u32PopFrameCount s) \<le> 3 \<or>
    wrap32 (sub64 (maxtimestamp s) (mintimestamp s)) \<le> uiSortTime s"
  show ?case
  proof (cases ?stop)
    case True
    then show ?thesis using Suc.prems by (auto intro: exI [of _ "[]"])
  next
    case False
    have cnt: "uiPutFrameCount s = u32PopFrameCount s + length (ss_nodes s)" "uiPutFrameCount s < 4294967296"
      using inv by (auto simp: sort_inv_def)
    then have "3 < length (ss_nodes s)" using False by (simp add: wrap_simps)
    then obtain nd nd2 nd3 nds where nds: "ss_nodes s = nd # nd2 # nd3 # nds"
      by (auto simp: less_eq_Suc_le Suc_le_length_iff numeral_3_eq_3)
    have slots: "slots_ok l (ss_datasize s) (ss_position s) (uiPutFrameCount s) (ss_frameaddr s)
        (mset (map slot_of (ss_nodes s)))" by (rule sort_inv_slots [OF inv])
    have rm: "slots_ok l (ss_datasize s) (ss_position s) (uiPutFrameCount s)
        (remove1 (nd_position nd) (ss_frameaddr s)) (mset (map slot_of (nd2 # nd3 # nds)))"
      "nd_position nd \<in> set (ss_frameaddr s)"
      using slots_remove [OF slots, of "nd_position nd" "nd_len nd"] nds by (auto simp: slot_of_def)
    have "length (ss_frameaddr s) = length (ss_nodes s)" using slots_length [OF slots] by simp
    then have "tl (ss_frameaddr s) \<noteq> []" using nds by (cases "ss_frameaddr s") auto
    then have addr: "CFrameaddrList (ss_frameaddr s) 0 (nd_position nd) 2 =
        Some (0, remove1 (nd_position nd) (ss_frameaddr s))"
      using rm(2) by (auto simp: CFrameaddrList_def)
    let ?f = "node_frame (ss_pdata s) nd"
    have "okf ?f" "length fs < cap" using Suc.prems(4,5) nds by (simp_all add: held_def)
    then obtain k1 where k1: "cb k ?f = Some (0, k1)" "rep k1 (fs @ [?f])" using takes Suc.prems(3) by blast
    let ?s = "s\<lparr>ss_frameaddr := remove1 (nd_position nd) (ss_frameaddr s), premintimestamp := nd_timestamp nd,
      uiValidLen := sub32 (uiValidLen s) (nd_len nd), ss_nodes := nd2 # nd3 # nds,
      u32PopFrameCount := Suc (u32PopFrameCount s), mintimestamp := nd_timestamp nd2\<rparr>"
    have wr: "wrap32 (Suc (u32PopFrameCount s)) = Suc (u32PopFrameCount s)"
      using cnt nds by (simp add: wrap_simps)
    have step: "pop_loop (Suc i) cb s k = pop_loop i cb ?s k1"
      using False addr k1(1) wr by (simp add: nds Let_def)
    have inv2: "sort_inv l ?s"
      using inv nds rm(1) unfolding sort_inv_def by (auto simp: nds)
    have h: "held s = ?f # held ?s" using nds by (simp add: held_def)
    have n2: "ss_nodes ?s \<noteq> []" by simp
    have ok2: "\<forall>g \<in> set (held ?s). okf g" using Suc.prems(4) unfolding h by simp
    have len2: "length (fs @ [?f]) + length (held ?s) \<le> cap" using Suc.prems(5) unfolding h by simp
    obtain s' k' em where "pop_loop i cb ?s k1 = Some (0, s', k')" "sort_inv l s'" "ss_nodes s' \<noteq> []"
      "rep k' ((fs @ [?f]) @ em)" "em @ held s' = held ?s"
      "premintimestamp s' = (if em = [] then premintimestamp ?s else sf_timestamp (last em))"
      "uiPutFrameCount s' = uiPutFrameCount ?s" "ss_datasize s' = ss_datasize ?s"
      using Suc.IH [OF inv2 n2 k1(2) ok2 len2] by blast
    then show ?thesis using step h
      by (intro exI [of _ s'] exI [of _ k'] exI [of _ "?f # em"]) simp
  qed
qed

lemma put_end_ok:
  assumes inv: "sort_inv l s" and ne: "ss_nodes s \<noteq> []"
    and room: "has_room s (length (sf_frame f))"
    and f: "0 < length (sf_frame f)" "length (sf_frame f) \<le> l" "sf_timestamp f < 18446744073709551616"
    and ts: "maxtimestamp s \<le> sf_timestamp f" and c: "uiPutFrameCount s + 1 < 4294967296"
    and sink: "rep k fs" "okf f" "\<forall>g \<in> set (held s). okf g" "length fs + length (held s) < cap"
  shows "\<exists>s2 w s' k' em. MemcpyToSortBuff s (sf_frame f) = Some (s2, w) \<and>
    put_end cb s2 f w k = Some (0, s', k') \<and> sort_inv l s' \<and> ss_nodes s' \<noteq> [] \<and>
    rep k' (fs @ em) \<and> em @ held s' = held s @ [f] \<and>
    premintimestamp s' = (if em = [] then premintimestamp s else sf_timestamp (last em)) \<and>
    uiPutFrameCount s' = Suc (uiPutFrameCount s) \<and> ss_datasize s' = ss_datasize s"
proof -
  let ?n = "length (sf_frame f)"
  obtain w p d where w: "MemcpyToSortBuff s (sf_frame f) = Some (s\<lparr>ss_pdata := d, ss_position := p\<rparr>, w)"
    "map (node_frame d) (ss_nodes s) = held s" "node_frame d (FillTheNode w f) = f" "p < ss_datasize s"
    "slots_ok l (ss_datasize s) p (Suc (uiPutFrameCount s)) (ss_frameaddr s @ [w])
       (add_mset (w, ?n) (mset (map slot_of (ss_nodes s))))"
    using store_frame [OF inv ne room f(1,2)] by blast
  let ?s2 = "s\<lparr>ss_pdata := d, ss_position := p\<rparr>"
  have i: "0 < l" "3 * l < ss_datasize s" "ss_datasize s < 2147483648"
    "sorted (map nd_timestamp (ss_nodes s))" "\<forall>nd \<in> set (ss_nodes s). nd_timestamp nd < 18446744073709551616"
    "mintimestamp s = nd_timestamp (hd (ss_nodes s))" "maxtimestamp s = nd_timestamp (last (ss_nodes s))"
    "premintimestamp s \<le> mintimestamp s"
    "uiPutFrameCount s = u32PopFrameCount s + length (ss_nodes s)" "uiPutFrameCount s < 4294967296"
    using inv ne by (auto simp: sort_inv_def)
  have le: "nd_timestamp x \<le> sf_timestamp f" if "x \<in> set (ss_nodes s)" for x
    using sorted_map_last [OF i(4) that] ts i(7) by simp
  have wr: "wrap32 (Suc (uiPutFrameCount s)) = Suc (uiPutFrameCount s)"
    "wrap32 (Suc (u32PopFrameCount s)) = Suc (u32PopFrameCount s)" using c i(9) by (simp_all add: wrap_simps)
  show ?thesis
  proof (cases "\<exists>nd nd2 nds. ss_nodes s = nd # nd2 # nds \<and>
      uiSortTime s < wrap32 (sub64 (sf_timestamp f) (mintimestamp s))")
    case False
    let ?s' = "link_end f w (?s2\<lparr>ss_frameaddr := ss_frameaddr s @ [w]\<rparr>)"
    have "put_end cb ?s2 f w k = Some (0, ?s', k)"
      using False ne by (cases "ss_nodes s"; cases "tl (ss_nodes s)")
        (auto simp: put_end_def CFrameaddrList_def)
    moreover have "sort_inv l ?s'"
      using i w(4,5) wr c f(3) ne le unfolding sort_inv_def
      by (auto simp: link_end_def InsertSortEnd_def sorted_append)
    moreover have "held ?s' = held s @ [f]" using w(2,3) by (simp add: held_def link_end_def InsertSortEnd_def)
    ultimately show ?thesis using w(1) sink(1) wr
      by (intro exI [of _ ?s2] exI [of _ w] exI [of _ ?s'] exI [of _ k] exI [of _ "[]"])
        (simp add: link_end_def InsertSortEnd_def)
  next
    case True
    then obtain nd nd2 nds where nds: "ss_nodes s = nd # nd2 # nds" and
      late: "uiSortTime s < wrap32 (sub64 (sf_timestamp f) (mintimestamp s))" by blast
    let ?f = "node_frame d nd"
    have rm: "slots_ok l (ss_datasize s) p (Suc (uiPutFrameCount s)) (remove1 (nd_position nd) (ss_frameaddr s @ [w]))
        (add_mset (slot_of nd2) (add_mset (w, ?n) (mset (map slot_of nds))))"
      using slots_remove [OF w(5), of "nd_position nd" "nd_len nd"] nds by (simp add: slot_of_def add_mset_commute)
    have slots: "slots_ok l (ss_datasize s) (ss_position s) (uiPutFrameCount s) (ss_frameaddr s)
        (mset (map slot_of (ss_nodes s)))" by (rule sort_inv_slots [OF inv])
    have m: "nd_position nd \<in> set (ss_frameaddr s)"
      using slots_remove [OF slots, of "nd_position nd" "nd_len nd"] nds by (simp add: slot_of_def)
    let ?as = "remove1 (nd_position nd) (ss_frameaddr s) @ [w]"
    have as: "remove1 (nd_position nd) (ss_frameaddr s @ [w]) = ?as" using m by (simp add: remove1_append)
    have addr: "CFrameaddrList (ss_frameaddr s) w (nd_position nd) 1 = Some (0, ?as)"
      using m by (auto simp: CFrameaddrList_def)
    have hs: "held s = ?f # map (node_frame d) (nd2 # nds)" using w(2) nds by simp
    then have "okf ?f" "length fs < cap" using sink by auto
    then obtain k1 where k1: "cb k ?f = Some (0, k1)" "rep k1 (fs @ [?f])" using takes sink(1) by blast
    let ?s3 = "link_end f w (?s2\<lparr>ss_frameaddr := ?as, premintimestamp := nd_timestamp nd,
        uiValidLen := sub32 (uiValidLen s) (nd_len nd), ss_nodes := nd2 # nds,
        u32PopFrameCount := Suc (u32PopFrameCount s), mintimestamp := nd_timestamp nd2\<rparr>)"
    have inv3: "sort_inv l ?s3"
      using i w(4) rm [unfolded as] wr c f(3) le nds unfolding sort_inv_def
      by (auto simp: link_end_def InsertSortEnd_def sorted_append)
    have h3: "?f # held ?s3 = held s @ [f]" using hs w(3) by (simp add: held_def link_end_def InsertSortEnd_def)
    have n3: "ss_nodes ?s3 \<noteq> []" by (simp add: link_end_def InsertSortEnd_def)
    have ok3: "\<forall>g \<in> set (held ?s3). okf g"
    proof
      fix g assume "g \<in> set (held ?s3)"
      then have "g \<in> set (held s @ [f])" using h3 by (metis list.set_intros(2))
      then show "okf g" using sink by auto
    qed
    have "length (held ?s3) = length (held s)" using h3 by (metis Suc_inject length_Cons length_append_singleton)
    then have len3: "length (fs @ [?f]) + length (held ?s3) \<le> cap" using sink(4) by simp
    obtain s' k' em where r: "pop_loop 2 cb ?s3 k1 = Some (0, s', k')" "sort_inv l s'" "ss_nodes s' \<noteq> []"
      "rep k' ((fs @ [?f]) @ em)" "em @ held s' = held ?s3"
      "premintimestamp s' = (if em = [] then premintimestamp ?s3 else sf_timestamp (last em))"
      "uiPutFrameCount s' = uiPutFrameCount ?s3" "ss_datasize s' = ss_datasize ?s3"
      using pop_loop_ok [OF inv3 n3 k1(2) ok3 len3, of 2] by blast
    have "put_end cb ?s2 f w k = Some (0, s', k')"
      using r(1) addr k1(1) late wr by (simp add: put_end_def nds PopFrameStreamSort_def)
    moreover have "(?f # em) @ held s' = held s @ [f]" using r(5) h3 by simp
    moreover have "premintimestamp s' = sf_timestamp (last (?f # em))"
      using r(6) by (simp add: link_end_def)
    moreover have "rep k' (fs @ ?f # em)" using r(4) by simp
    ultimately show ?thesis using w(1) r(2,3,7,8) wr
      by (intro exI [of _ ?s2] exI [of _ w] exI [of _ s'] exI [of _ k'] exI [of _ "?f # em"])
        (simp add: link_end_def)
  qed
qed

end

section \<open>Putting a frame for which there is room\<close>

lemma adapt_fields [simp]:
  "ss_nodes (adapt_sort_time t s) = ss_nodes s" "held (adapt_sort_time t s) = held s"
  "ss_datasize (adapt_sort_time t s) = ss_datasize s" "ss_frameaddr (adapt_sort_time t s) = ss_frameaddr s"
  "ss_position (adapt_sort_time t s) = ss_position s" "uiPutFrameCount (adapt_sort_time t s) = uiPutFrameCount s"
  "premintimestamp (adapt_sort_time t s) = premintimestamp s" "maxtimestamp (adapt_sort_time t s) = maxtimestamp s"
  "sort_inv l (adapt_sort_time t s) = sort_inv l s" "has_room (adapt_sort_time t s) n = has_room s n"
  by (simp_all add: adapt_sort_time_def Let_def held_def sort_inv_def has_room_def too_long_def)

lemma note_freesize_fields [simp]:
  "ss_nodes (note_freesize e w s) = ss_nodes s" "held (note_freesize e w s) = held s"
  "ss_datasize (note_freesize e w s) = ss_datasize s" "uiPutFrameCount (note_freesize e w s) = uiPutFrameCount s"
  "premintimestamp (note_freesize e w s) = premintimestamp s" "maxtimestamp (note_freesize e w s) = maxtimestamp s"
  "sort_inv l (note_freesize e w s) = sort_inv l s" "has_room (note_freesize e w s) n = has_room s n"
  by (simp_all add: note_freesize_def Let_def held_def sort_inv_def has_room_def too_long_def)

text \<open>After the adaptation the time since the last one is below five minutes, so the ring is
  never halved.\<close>

lemma adapt_recent: "now < 18446744073709551616 \<Longrightarrow> sub64 now (analytime (adapt_sort_time now s)) < 5 * 60"
  by (auto simp: adapt_sort_time_def Let_def sub64_def not_le)

lemma CheckStreambuff_no_shrink:
  assumes "now < 18446744073709551616"
  shows "CheckStreambuff s n now =
    (if ss_frameaddr s = [] \<or> uiPutFrameCount s \<le> 2 then Some s
     else (let wraps = ss_datasize s < wrap32 (ss_position s + n);
               s1 = (if wraps then adapt_sort_time now s else s)
           in if too_long s n then grow_or_clean now s1
              else Some (note_freesize (hd (ss_frameaddr s))
                (if wraps then n else wrap32 (ss_position s + n)) s1)))"
  using adapt_recent [OF assms, of s] by (simp add: CheckStreambuff_def Let_def)

lemma CheckStreambuff_room:
  assumes "has_room s n" and "now < 18446744073709551616" and "sort_inv l s"
  shows "\<exists>s1. CheckStreambuff s n now = Some s1 \<and> sort_inv l s1 \<and> held s1 = held s \<and>
    ss_nodes s1 = ss_nodes s \<and> ss_datasize s1 = ss_datasize s \<and> uiPutFrameCount s1 = uiPutFrameCount s \<and>
    premintimestamp s1 = premintimestamp s \<and> maxtimestamp s1 = maxtimestamp s \<and> has_room s1 n"
proof -
  have "\<not> (ss_frameaddr s = [] \<or> uiPutFrameCount s \<le> 2) \<Longrightarrow> \<not> too_long s n"
    using assms(1) by (auto simp: has_room_def)
  then show ?thesis using assms by (simp add: CheckStreambuff_no_shrink Let_def)
qed

lemma inv_half:
  assumes "sort_inv l s" and "n \<le> l"
  shows "n < ss_datasize s div 2"
proof -
  have "3 * l < ss_datasize s" "0 < l" using assms(1) by (auto simp: sort_inv_def)
  then have "3 * l < ss_datasize s" "1 \<le> l" by auto
  then have "2 * (n + 1) \<le> ss_datasize s" using assms(2) by arith
  then show ?thesis by presburger
qed

lemma inv_sorted: "sort_inv l s \<Longrightarrow> sorted (map sf_timestamp (held s))"
  by (simp add: sort_inv_def held_def comp_def)

lemma inv_premin: "sort_inv l s \<Longrightarrow> x \<in> set (held s) \<Longrightarrow> premintimestamp s \<le> sf_timestamp x"
proof -
  assume inv: "sort_inv l s" and x: "x \<in> set (held s)"
  then obtain nd where nd: "nd \<in> set (ss_nodes s)" "sf_timestamp x = nd_timestamp nd" by (auto simp: held_def)
  have "premintimestamp s \<le> nd_timestamp (hd (ss_nodes s))" "sorted (map nd_timestamp (ss_nodes s))"
    using inv nd by (auto simp: sort_inv_def)
  then show ?thesis using nd by (cases "ss_nodes s") auto
qed

definition good_frame :: "nat \<Rightarrow> sc_sortframe \<Rightarrow> bool" where
  "good_frame l f \<longleftrightarrow> 0 < length (sf_frame f) \<and> length (sf_frame f) \<le> l \<and> sf_timestamp f < 18446744073709551616"

text \<open>What one call does to the frames held and handed out: \<open>em\<close> are the frames handed out.\<close>

definition put_effect :: "ssbuf \<Rightarrow> sc_sortframe \<Rightarrow> int \<Rightarrow> sc_sortframe list \<Rightarrow> ssbuf \<Rightarrow> bool" where
  "put_effect s f r em s' \<longleftrightarrow>
     (if r = 0
      then mset (em @ held s') = add_mset f (mset (held s)) \<and> sorted (map sf_timestamp (em @ held s')) \<and>
        (ss_nodes s \<noteq> [] \<longrightarrow> premintimestamp s \<le> sf_timestamp f \<and>
           premintimestamp s' = (if em = [] then premintimestamp s else sf_timestamp (last em))) \<and>
        (ss_nodes s = [] \<longrightarrow> em = [])
      else em = [] \<and> (ss_nodes s' = [] \<or> held s' = held s \<and> premintimestamp s' = premintimestamp s))"

context frame_sink
begin

lemma put_step:
  assumes inv: "sort_inv l s" and room: "has_room s (length (sf_frame f))"
    and f: "good_frame l f" and c: "uiPutFrameCount s + 1 < 4294967296" and now: "now < 18446744073709551616"
    and sink: "rep k fs" "okf f" "\<forall>g \<in> set (held s). okf g" "length fs + length (held s) < cap"
  shows "\<exists>r s' k' em. PutFrameStreamSort cb now f s k = Some (r, s', k') \<and> sort_inv l s' \<and>
    rep k' (fs @ em) \<and> put_effect s f r em s' \<and> r \<in> {0, - 1}"
proof -
  let ?n = "length (sf_frame f)"
  have n: "0 < ?n" "?n \<le> l" "sf_timestamp f < 18446744073709551616" using f by (auto simp: good_frame_def)
  obtain s1 where s1: "CheckStreambuff s ?n now = Some s1" "sort_inv l s1" "held s1 = held s"
    "ss_nodes s1 = ss_nodes s" "uiPutFrameCount s1 = uiPutFrameCount s"
    "premintimestamp s1 = premintimestamp s" "maxtimestamp s1 = maxtimestamp s" "has_room s1 ?n"
    using CheckStreambuff_room [OF room now inv] by blast
  have put: "PutFrameStreamSort cb now f s k =
    (if ss_nodes s1 = [] then map_option (\<lambda>(r, s2). (r, s2, k)) (put_first s1 f)
     else if sf_timestamp f < maxtimestamp s1 then map_option (\<lambda>(r, s2). (r, s2, k)) (put_earlier s1 f now)
     else put_inorder cb s1 f now k)"
    using s1(1) inv_half [OF inv n(2)] by (simp add: PutFrameStreamSort_def)
  consider "ss_nodes s = []" | "ss_nodes s \<noteq> []" "sf_timestamp f < maxtimestamp s"
    | "ss_nodes s \<noteq> []" "maxtimestamp s \<le> sf_timestamp f" by linarith
  then show ?thesis
  proof cases
    case 1
    obtain s' where s': "put_first s1 f = Some (0, s')" "sort_inv l s'" "held s' = [f]"
      using put_first_ok [OF s1(2) _ n] 1 s1(4) by auto
    have "held s = []" using 1 by (simp add: held_def)
    then have "put_effect s f 0 [] s'" using s' 1 by (simp add: put_effect_def)
    then show ?thesis using put s' s1(4) 1 sink(1)
      by (intro exI [of _ 0] exI [of _ s'] exI [of _ k] exI [of _ "[]"]) simp
  next
    case 2
    obtain r s' where s': "put_earlier s1 f now = Some (r, s')" "sort_inv l s'"
      "r = 0 \<and> mset (held s') = add_mset f (mset (held s1)) \<and> premintimestamp s1 \<le> sf_timestamp f \<and>
         premintimestamp s' = premintimestamp s1 \<or>
       r = - 1 \<and> (held s' = held s1 \<and> premintimestamp s' = premintimestamp s1 \<or> ss_nodes s' = [])"
      using put_earlier_ok [OF s1(2) _ s1(8) n, of now] 2 s1(4,5,7) c by auto
    have "put_effect s f r [] s'"
      using s'(3) s1(3,6) 2 inv_sorted [OF s'(2)] by (auto simp: put_effect_def)
    moreover have "r \<in> {0, - 1}" using s'(3) by auto
    ultimately show ?thesis using put s' s1(4,7) 2 sink(1)
      by (intro exI [of _ r] exI [of _ s'] exI [of _ k] exI [of _ "[]"]) simp
  next
    case 3
    define early where "early = (uiMaxSortTime s1 \<le> wrap32 (sub64 (sf_timestamp f) (maxtimestamp s1)))"
    define s2 where "s2 = (if early
        then s1\<lparr>u32EarlyFrameCount := wrap32 (u32EarlyFrameCount s1 + 1),
                u32EarlyFrameDrop := wrap32 (u32EarlyFrameDrop s1 + 1)\<rparr>
        else s1\<lparr>u32EarlyFrameDrop := 0\<rparr>)"
    have s2: "sort_inv l s2" "held s2 = held s" "ss_nodes s2 = ss_nodes s" "has_room s2 ?n"
      "maxtimestamp s2 = maxtimestamp s" "premintimestamp s2 = premintimestamp s"
      "uiPutFrameCount s2 = uiPutFrameCount s"
      using s1 by (auto simp: s2_def sort_inv_def held_def has_room_def too_long_def Let_def)
    let ?drop = "early \<and> (60 < u32EarlyFrameDrop s2 \<or>
        10000000 < wrap32 (sub64 (sf_timestamp f) (maxtimestamp s1)))"
    have pi: "put_inorder cb s1 f now k =
      (if ?drop then Some (- 1, (CleanStreamSort s2 now)\<lparr>u32EarlyFrameDrop := 0\<rparr>, k)
       else (case MemcpyToSortBuff s2 (sf_frame f) of
               None \<Rightarrow> None | Some (s3, position) \<Rightarrow> put_end cb s3 f position k))"
      by (simp add: put_inorder_def Let_def early_def s2_def)
    show ?thesis
    proof (cases ?drop)
      case True
      have "sort_inv l ((CleanSortBuff s2 now)\<lparr>u32EarlyFrameDrop := 0\<rparr>)"
        using clean_inv [OF s2(1), of now] by (auto simp: sort_inv_def)
      then show ?thesis using put pi True s1(4,7) 3 sink(1)
        by (intro exI [of _ "- 1"] exI [of _ "(CleanStreamSort s2 now)\<lparr>u32EarlyFrameDrop := 0\<rparr>"]
            exI [of _ k] exI [of _ "[]"]) (simp add: put_effect_def CleanStreamSort_def)
    next
      case False
      obtain s3 w s' k' em where r: "MemcpyToSortBuff s2 (sf_frame f) = Some (s3, w)"
        "put_end cb s3 f w k = Some (0, s', k')" "sort_inv l s'" "rep k' (fs @ em)"
        "em @ held s' = held s2 @ [f]"
        "premintimestamp s' = (if em = [] then premintimestamp s2 else sf_timestamp (last em))"
        using put_end_ok [OF s2(1) _ s2(4) n, of k fs] 3 s2 sink c by auto
      have pm: "premintimestamp s \<le> sf_timestamp f"
        using inv 3 inv_premin [OF inv, of "node_frame (ss_pdata s) (last (ss_nodes s))"]
        by (auto simp: sort_inv_def held_def)
      have "\<forall>x \<in> set (held s). sf_timestamp x \<le> sf_timestamp f"
      proof
        fix x assume "x \<in> set (held s)"
        then obtain nd where nd: "nd \<in> set (ss_nodes s)" "sf_timestamp x = nd_timestamp nd" by (auto simp: held_def)
        have "sorted (map nd_timestamp (ss_nodes s))" "maxtimestamp s = nd_timestamp (last (ss_nodes s))"
          using inv 3(1) by (auto simp: sort_inv_def)
        then show "sf_timestamp x \<le> sf_timestamp f" using sorted_map_last [OF _ nd(1)] nd(2) 3(2) by fastforce
      qed
      then have "sorted (map sf_timestamp (em @ held s'))"
        unfolding r(5) s2(2) using inv_sorted [OF inv] by (simp add: sorted_append)
      then have "put_effect s f 0 em s'"
        using r(5,6) s2(2,6) pm 3 unfolding put_effect_def r(5) by simp
      then show ?thesis using put pi False s1(4,7) 3 r
        by (intro exI [of _ 0] exI [of _ s'] exI [of _ k'] exI [of _ em]) simp
    qed
  qed
qed

end

section \<open>Runs\<close>

text \<open>A run of puts from the state \<open>s0\<close> with the sink \<open>k0\<close>, in which every frame found room
  and the sorter was not emptied by the drop rules. \<open>acc\<close> are the frames taken (result 0), in
  the order they came.\<close>

inductive sort_run ::
  "'k sink \<Rightarrow> (sc_sortframe \<Rightarrow> bool) \<Rightarrow> ssbuf \<Rightarrow> 'k \<Rightarrow> sc_sortframe list \<Rightarrow> ssbuf \<Rightarrow> 'k \<Rightarrow> bool"
  for cb good s0 k0 where
  start: "sort_run cb good s0 k0 [] s0 k0"
| put: "sort_run cb good s0 k0 acc s k \<Longrightarrow> good f \<Longrightarrow> has_room s (length (sf_frame f)) \<Longrightarrow>
    uiPutFrameCount s + 1 < 4294967296 \<Longrightarrow> now < 18446744073709551616 \<Longrightarrow>
    PutFrameStreamSort cb now f s k = Some (r, s', k') \<Longrightarrow> ss_nodes s' \<noteq> [] \<Longrightarrow>
    sort_run cb good s0 k0 (if r = 0 then acc @ [f] else acc) s' k'"

inductive_simps sort_run_nil [simp]: "sort_run cb good s0 k0 [] s k"

lemma created_inv:
  assumes "pCreateStreamSort (Some i) now = Some s" and "0 < l" and "3 * l < si_size i"
    and "si_size i < 2147483648"
  shows "sort_inv l s \<and> ss_nodes s = [] \<and> ss_frameaddr s = [] \<and> uiPutFrameCount s = 0"
proof -
  have "s = DefaultStreamSortBuff zero_ssbuf (si_size i) (si_sort_time i) (si_max_sort_time i) now"
    using assms(1) by (auto simp: pCreateStreamSort_def split: if_splits)
  then show ?thesis
    using assms(2-4) by (auto simp: DefaultStreamSortBuff_def sort_inv_def slots_ok_def)
qed

context frame_sink
begin

lemma sort_run_ok:
  assumes "sort_run cb good s0 k0 acc s k" and "sort_inv l s0" and "ss_nodes s0 = []" and "rep k0 []"
    and "\<And>f. good f \<Longrightarrow> good_frame l f \<and> okf f" and "length acc < cap"
  shows "\<exists>log. rep k log \<and> sort_inv l s \<and> mset (log @ held s) = mset acc \<and>
    sorted (map sf_timestamp (log @ held s)) \<and> (\<forall>x \<in> set acc. good x) \<and>
    (if ss_nodes s = [] then log = [] else \<forall>x \<in> set log. sf_timestamp x \<le> premintimestamp s)"
  using assms(1,6)
proof (induction rule: sort_run.induct)
  case start
  then show ?case using assms(2-4) by (intro exI [of _ "[]"]) (simp add: held_def)
next
  case (put acc s k f now r s' k')
  from put.prems have lt: "length acc < cap" by (simp split: if_splits)
  from put.IH [OF lt] obtain log where log: "rep k log" "sort_inv l s" "mset (log @ held s) = mset acc"
    "sorted (map sf_timestamp (log @ held s))" "\<forall>x \<in> set acc. good x"
    "if ss_nodes s = [] then log = [] else \<forall>x \<in> set log. sf_timestamp x \<le> premintimestamp s"
    by blast
  have sub: "set (held s) \<subseteq> set acc" using log(3) by (metis Un_upper2 set_append set_mset_mset)
  have f: "good_frame l f" "okf f" using assms(5) put.hyps(2) by auto
  have len: "length log + length (held s) = length acc" using log(3) by (metis length_append size_mset)
  have ok: "\<forall>g \<in> set (held s). okf g" using sub log(5) assms(5) by blast
  have "length log + length (held s) < cap" using lt len by simp
  from put_step [OF log(2) put.hyps(3) f(1) put.hyps(4,5) log(1) f(2) ok this]
  obtain em where em: "sort_inv l s'" "rep k' (log @ em)" "put_effect s f r em s'"
    using put.hyps(6) by auto
  show ?case
  proof (cases "r = 0")
    case False
    then have "em = []" "held s' = held s" "premintimestamp s' = premintimestamp s"
      using em(3) put.hyps(7) by (auto simp: put_effect_def)
    moreover have "ss_nodes s \<noteq> []" using calculation(2) put.hyps(7) by (auto simp: held_def)
    ultimately show ?thesis using log em put.hyps(7) False by (intro exI [of _ log]) simp
  next
    case True
    have e: "mset (em @ held s') = add_mset f (mset (held s))" "sorted (map sf_timestamp (em @ held s'))"
      "ss_nodes s \<noteq> [] \<Longrightarrow> premintimestamp s \<le> sf_timestamp f"
      "ss_nodes s \<noteq> [] \<Longrightarrow> premintimestamp s' = (if em = [] then premintimestamp s else sf_timestamp (last em))"
      "ss_nodes s = [] \<Longrightarrow> em = []"
      using em(3) True by (auto simp: put_effect_def)
    have m: "mset ((log @ em) @ held s') = mset (acc @ [f])" using e(1) log(3) by simp
    have st: "set (em @ held s') = insert f (set (held s))"
      using e(1) by (metis set_mset_add_mset_insert set_mset_mset)
    have old: "sf_timestamp x \<le> sf_timestamp y" if "x \<in> set log" "y \<in> set (em @ held s')" for x y
    proof (cases "ss_nodes s = []")
      case True
      then show ?thesis using log(6) that by simp
    next
      case False
      have "y = f \<or> y \<in> set (held s)" using st that(2) by blast
      then show ?thesis
      proof
        assume "y = f"
        then show ?thesis using False log(6) that(1) e(3) by fastforce
      next
        assume "y \<in> set (held s)"
        then show ?thesis using log(4) that(1) by (simp add: sorted_append)
      qed
    qed
    have "sorted (map sf_timestamp (log @ em @ held s'))"
      using e(2) log(4) old unfolding map_append [of _ log "em @ held s'"] sorted_append
      by (fastforce simp: sorted_append)
    moreover have "\<forall>x \<in> set (log @ em). sf_timestamp x \<le> premintimestamp s'"
    proof (cases "ss_nodes s = []")
      case True
      then show ?thesis using log(6) e(5) by simp
    next
      case False
      show ?thesis
      proof (cases "em = []")
        case True
        then show ?thesis using False log(6) e(4) by simp
      next
        case em_ne: False
        have "sorted (map sf_timestamp em)" using e(2) by (simp add: sorted_append)
        then have "sf_timestamp x \<le> sf_timestamp (last em)" if "x \<in> set em" for x
          using sorted_map_last that by fastforce
        moreover have "sf_timestamp x \<le> sf_timestamp (last em)" if "x \<in> set log" for x
          using old [OF that, of "last em"] em_ne by simp
        ultimately show ?thesis using e(4) False em_ne by auto
      qed
    qed
    ultimately show ?thesis using m em log(5) put.hyps(2,7) True
      by (intro exI [of _ "log @ em"]) simp
  qed
qed

end

section \<open>Growing the ring\<close>

lemma chain_sum: "chain lo L hi \<Longrightarrow> lo + sum_list (map snd L) \<le> hi"
  by (induction L arbitrary: lo) fastforce+

lemma layout_sum:
  assumes "layout d pos L"
  shows "sum_list (map snd L) \<le> d"
proof -
  obtain L1 L2 where "L = L1 @ L2" "chain 0 L2 pos" "chain pos L1 d"
    using assms by (auto simp: layout_def)
  then show ?thesis using chain_sum [of 0 L2 pos] chain_sum [of pos L1 d] by simp
qed

lemma node_frame_moved:
  "node_frame (mem_put d p (mem_get d0 (nd_position nd) (nd_len nd))) (nd\<lparr>nd_position := p\<rparr>) = node_frame d0 nd"
  by (simp add: node_frame_def mem_get_put_same)

lemma remalloc_loop_ok:
  "length as = length nds \<Longrightarrow> \<forall>nd \<in> set nds. 0 < nd_len nd \<and> nd_position nd + nd_len nd \<le> ss_datasize s \<Longrightarrow>
   pos + sum_list (map nd_len nds) \<le> sz \<Longrightarrow>
   \<exists>nds' d'. remalloc_loop s sz nds as pos d =
       Some (nds', map nd_position nds', pos + sum_list (map nd_len nds), d') \<and>
     chain pos (map slot_of nds') (pos + sum_list (map nd_len nds)) \<and>
     map (node_frame d') nds' = map (node_frame (ss_pdata s)) nds \<and>
     map nd_timestamp nds' = map nd_timestamp nds \<and> (\<forall>i < pos. d' i = d i)"
proof (induction nds arbitrary: as pos d)
  case Nil
  then show ?case by simp
next
  case (Cons nd nds)
  obtain a as' where as: "as = a # as'" "length as' = length nds" using Cons.prems(1) by (cases as) auto
  let ?bs = "mem_get (ss_pdata s) (nd_position nd) (nd_len nd)" and ?p = "pos + nd_len nd"
  have nb: "node_bytes s nd = Some ?bs" using Cons.prems(2) by (simp add: node_bytes_def)
  obtain nds' d' where r: "remalloc_loop s sz nds as' ?p (mem_put d pos ?bs) =
       Some (nds', map nd_position nds', ?p + sum_list (map nd_len nds), d')"
     "chain ?p (map slot_of nds') (?p + sum_list (map nd_len nds))"
     "map (node_frame d') nds' = map (node_frame (ss_pdata s)) nds"
     "map nd_timestamp nds' = map nd_timestamp nds" "\<forall>i < ?p. d' i = mem_put d pos ?bs i"
    using Cons.IH [OF as(2), of ?p "mem_put d pos ?bs"] Cons.prems(2,3) by (auto simp: add.assoc)
  let ?nd = "nd\<lparr>nd_position := pos\<rparr>"
  have "mem_get d' pos (nd_len nd) = mem_get (mem_put d pos ?bs) pos (nd_len nd)"
    using r(5) by (intro mem_get_cong) simp
  then have "node_frame d' ?nd = node_frame (ss_pdata s) nd"
    using node_frame_moved [of d pos "ss_pdata s" nd] by (simp add: node_frame_def)
  moreover have "remalloc_loop s sz (nd # nds) as pos d =
      Some (?nd # nds', map nd_position (?nd # nds'), pos + sum_list (map nd_len (nd # nds)), d')"
    using nb r(1) Cons.prems(3) by (simp add: as add.assoc)
  moreover have "chain pos (map slot_of (?nd # nds')) (pos + sum_list (map nd_len (nd # nds)))"
    using r(2) Cons.prems(2) by (simp add: slot_of_def add.assoc)
  moreover have "\<forall>i < pos. d' i = d i" using r(5) by (simp add: mem_put_outside)
  ultimately show ?case using r(3,4) by fastforce
qed

lemma remalloc_keeps:
  assumes inv: "sort_inv l s" and c: "2 < uiPutFrameCount s" and ne: "ss_nodes s \<noteq> []"
    and sz: "MIM_SORT_BUFF_LEN \<le> sz" "ss_datasize s < sz" "sz < 2147483648"
  shows "\<exists>s'. RemallocSortBuff s sz now = Some (Some s') \<and> sort_inv l s' \<and> held s' = held s \<and>
    ss_datasize s' = sz \<and> premintimestamp s' = 0"
proof -
  have i: "3 * l < ss_datasize s" "ss_position s < ss_datasize s" using inv by (auto simp: sort_inv_def)
  obtain L where L: "map fst L = ss_frameaddr s" "mset L = mset (map slot_of (ss_nodes s))"
    "layout (ss_datasize s) (ss_position s) L"
    using sort_inv_slots [OF inv] by (auto simp: slots_ok_def)
  have len: "length (ss_frameaddr s) = length (ss_nodes s)"
    using slots_length [OF sort_inv_slots [OF inv]] by simp
  have each: "\<forall>nd \<in> set (ss_nodes s). 0 < nd_len nd \<and> nd_position nd + nd_len nd \<le> ss_datasize s"
  proof
    fix nd assume "nd \<in> set (ss_nodes s)"
    then have "slot_of nd \<in> set L" using L(2) by (metis image_eqI list.set_map set_mset_mset)
    then show "0 < nd_len nd \<and> nd_position nd + nd_len nd \<le> ss_datasize s"
      using layout_mem [OF L(3)] i(2) by (simp add: slot_of_def)
  qed
  have "mset (map snd L) = mset (map nd_len (ss_nodes s))"
  proof -
    have "mset (map snd L) = image_mset snd (mset (map slot_of (ss_nodes s)))"
      by (simp only: mset_map [of snd] L(2))
    then show ?thesis by (simp add: image_mset.compositionality slot_of_def comp_def)
  qed
  then have "sum_list (map snd L) = sum_list (map nd_len (ss_nodes s))" by (metis sum_mset_sum_list)
  then have total: "0 + sum_list (map nd_len (ss_nodes s)) \<le> ss_datasize s" using layout_sum [OF L(3)] by simp
  define new where "new = DefaultStreamSortBuff zero_ssbuf sz (uiSortTime s) (uiMaxSortTime s) now"
  let ?S = "sum_list (map nd_len (ss_nodes s))"
  have tot2: "0 + ?S \<le> sz" using total sz(2) by simp
  obtain nds' d' where r: "remalloc_loop s sz (ss_nodes s) (ss_frameaddr s) 0 (ss_pdata new) =
       Some (nds', map nd_position nds', ?S, d')"
     "chain 0 (map slot_of nds') ?S" "map (node_frame d') nds' = held s"
     "map nd_timestamp nds' = map nd_timestamp (ss_nodes s)"
    using remalloc_loop_ok [OF len each tot2, of "ss_pdata new"] by (auto simp: held_def)
  define s' where "s' = new\<lparr>ss_nodes := nds', ss_pdata := d', ss_position := ?S,
      uiPutFrameCount := uiPutFrameCount s, uiValidLen := uiValidLen s,
      maxtimestamp := maxtimestamp s, mintimestamp := mintimestamp s,
      u32EarlyFrameCount := u32EarlyFrameCount s, u32LateFrameCount := u32LateFrameCount s,
      u32PopFrameCount := u32PopFrameCount s, ss_frameaddr := map nd_position nds',
      uiAnalyTime := uiAnalyTime s, freesize := sub32 sz ?S,
      uiSortTimeBak := uiSortTimeBak s, freetime := now, analytime := now\<rparr>"
  have R: "RemallocSortBuff s sz now = Some (Some s')"
    using r(1) sz(1) by (simp add: RemallocSortBuff_def pCreateStreamSort_def new_def s'_def)
  have f: "ss_nodes s' = nds'" "ss_pdata s' = d'" "ss_position s' = ?S" "uiPutFrameCount s' = uiPutFrameCount s"
    "maxtimestamp s' = maxtimestamp s" "mintimestamp s' = mintimestamp s" "premintimestamp s' = 0"
    "u32PopFrameCount s' = u32PopFrameCount s" "ss_frameaddr s' = map nd_position nds'" "ss_datasize s' = sz"
    by (simp_all add: s'_def new_def DefaultStreamSortBuff_def zero_ssbuf_def)
  have ln: "length nds' = length (ss_nodes s)" using r(4) by (metis length_map)
  have "slots_ok l sz ?S (uiPutFrameCount s) (map nd_position nds') (mset (map slot_of nds'))"
    unfolding slots_ok_def layout_def using r(2) c tot2
    by (intro exI [of _ "map slot_of nds'"] conjI exI [of _ "[]"] exI [of _ "map slot_of nds'"])
      (auto simp: slot_of_def comp_def)
  moreover have "sorted (map nd_timestamp nds')" using inv r(4) by (simp add: sort_inv_def)
  moreover have "\<forall>nd \<in> set nds'. nd_timestamp nd < 18446744073709551616"
  proof
    fix nd assume "nd \<in> set nds'"
    then have "nd_timestamp nd \<in> set (map nd_timestamp (ss_nodes s))" using r(4) by (metis image_eqI list.set_map)
    then show "nd_timestamp nd < 18446744073709551616" using inv by (auto simp: sort_inv_def)
  qed
  moreover have "nds' \<noteq> []" using ln ne by auto
  moreover have "nd_timestamp (hd nds') = mintimestamp s" "nd_timestamp (last nds') = maxtimestamp s"
  proof -
    have "hd (map nd_timestamp nds') = hd (map nd_timestamp (ss_nodes s))"
      "last (map nd_timestamp nds') = last (map nd_timestamp (ss_nodes s))" by (simp_all add: r(4))
    then show "nd_timestamp (hd nds') = mintimestamp s" "nd_timestamp (last nds') = maxtimestamp s"
      using inv ne \<open>nds' \<noteq> []\<close> by (auto simp: sort_inv_def hd_map last_map)
  qed
  moreover have "0 < l" "3 * l < sz" "?S < sz" using inv i sz total by (auto simp: sort_inv_def)
  ultimately have "sort_inv l s'" using inv ln sz unfolding sort_inv_def f by auto
  then show ?thesis using R f r(3) by (auto simp: held_def)
qed

section \<open>What the sorter guarantees, and where it fails\<close>

text \<open>C2: Growing the ring keeps every held frame, with its bytes, in the same order, and the
  invariant of the sorter; but the time stamp of the last frame handed out is forgotten, so
  the guard against going back in time no longer holds after it.\<close>

theorem grow_keeps_frames:
  assumes "sort_inv l s" and "2 < uiPutFrameCount s" and "ss_nodes s \<noteq> []"
    and "MIM_SORT_BUFF_LEN \<le> ss_datasize s" and "ss_datasize s \<le> MAX_SORT_BUFF_LEN"
  shows "\<exists>s'. grow_or_clean now s = Some s' \<and> sort_inv l s' \<and> held s' = held s \<and>
    ss_datasize s' = ss_datasize s * 3 div 2 \<and> premintimestamp s' = 0"
proof -
  have d: "1048576 \<le> ss_datasize s" "ss_datasize s \<le> 8388608"
    using assms(4,5) by (simp_all add: MIM_SORT_BUFF_LEN_def MAX_SORT_BUFF_LEN_def)
  then have "wrap32 (ss_datasize s * 3) = ss_datasize s * 3" by (simp add: wrap_simps)
  moreover have "MIM_SORT_BUFF_LEN \<le> ss_datasize s * 3 div 2" "ss_datasize s < ss_datasize s * 3 div 2"
    "ss_datasize s * 3 div 2 < 2147483648" using d by (simp_all add: MIM_SORT_BUFF_LEN_def)
  ultimately show ?thesis
    using remalloc_keeps [OF assms(1-3), of "ss_datasize s * 3 div 2" now] assms(5)
    by (auto simp: grow_or_clean_def)
qed

text \<open>The branch of \<open>CheckStreambuff\<close> that halves a ring found too big is never taken:
  its time test uses the field that the lines above have just refreshed. The size of the ring
  never falls.\<close>

theorem ring_never_shrinks:
  assumes "now < 18446744073709551616" and "ss_datasize s < 2147483648"
    and "CheckStreambuff s n now = Some s'"
  shows "ss_datasize s \<le> ss_datasize s'"
proof -
  have "ss_datasize s \<le> ss_datasize s1"
    if "grow_or_clean now s2 = Some s1" "ss_datasize s2 = ss_datasize s" for s1 s2
  proof (cases "MAX_SORT_BUFF_LEN < ss_datasize s2")
    case True
    then show ?thesis using that by (auto simp: grow_or_clean_def)
  next
    case False
    then have "wrap32 (ss_datasize s2 * 3) = ss_datasize s2 * 3"
      by (simp add: wrap_simps MAX_SORT_BUFF_LEN_def)
    then show ?thesis using that False
      by (auto simp: grow_or_clean_def RemallocSortBuff_def pCreateStreamSort_def
          DefaultStreamSortBuff_def split: option.splits if_splits)
  qed
  then show ?thesis using assms(3)
    by (auto simp: CheckStreambuff_no_shrink [OF assms(1)] Let_def split: if_splits)
qed

theorem ring_never_shrinks_witness:
  "ss_datasize zero_ssbuf \<le> ss_datasize zero_ssbuf"
  by (rule ring_never_shrinks [of 7 zero_ssbuf 3])
     (simp_all add: CheckStreambuff_def zero_ssbuf_def)

text \<open>The adaptation of the sort time lacks an \<open>else\<close>: a surplus above 200 ms is
  reduced twice, by 300 ms in all. With a sort time below 300 ms the unsigned value wraps to more
  than an hour, and no frame is due any more.\<close>

theorem sort_time_underflow:
  assumes "300 \<le> sub64 now (analytime s)" and "0 < uiAnalyTime s"
    and "uiAnalyTime s + 200000 < uiSortTime s" and "uiSortTime s < 300000"
    and "uiSortTimeBak s \<le> 20000"
  shows "uiSortTime (adapt_sort_time now s) = 4294967296 - (300000 - uiSortTime s)"
  using assms by (auto simp: adapt_sort_time_def Let_def sub32_def)

theorem sort_time_underflow_witness:
  "uiSortTime (adapt_sort_time 300 (zero_ssbuf\<lparr>uiSortTime := 250000, uiAnalyTime := 20000,
     uiSortTimeBak := 20000\<rparr>)) = 4294917296"
  using sort_time_underflow [of 300 "zero_ssbuf\<lparr>uiSortTime := 250000, uiAnalyTime := 20000, uiSortTimeBak := 20000\<rparr>"]
  by (simp add: zero_ssbuf_def sub64_def)

text \<open>For the first three frames the sorter does not check that they fit: here the third one
  overwrites the first, whose node now yields the bytes of the third.\<close>

theorem third_frame_overwrites_first:
  "(do {
      (_, s1, _) \<leftarrow> PutFrameStreamSort (\<lambda>k f. Some (0, k)) 0
        \<lparr>sf_frame = [1, 1, 1, 1], sf_timestamp = 1, sf_type = FRAME_I, sf_priority = 1\<rparr>
        (DefaultStreamSortBuff zero_ssbuf 10 20000 0 0) ();
      (_, s2, _) \<leftarrow> PutFrameStreamSort (\<lambda>k f. Some (0, k)) 0
        \<lparr>sf_frame = [2, 2, 2, 2], sf_timestamp = 2, sf_type = FRAME_P, sf_priority = 1\<rparr> s1 ();
      (r, s3, _) \<leftarrow> PutFrameStreamSort (\<lambda>k f. Some (0, k)) 0
        \<lparr>sf_frame = [3, 3, 3, 3], sf_timestamp = 3, sf_type = FRAME_P, sf_priority = 1\<rparr> s2 ();
      Some (r, map sf_frame (held s3))
    }) = Some (0, [[3, 3, 3, 3], [2, 2, 2, 2], [3, 3, 3, 3]])"
  by code_simp

text \<open>When the sink refuses a frame in \<open>PopFrameStreamSort\<close>, its address has already
  been deleted but its node stays at the head: from then on every frame that is due to push it out
  is refused with -1, whatever the sink would say.\<close>

theorem pop_error_wedges:
  assumes "3 < sub32 (uiPutFrameCount s) (u32PopFrameCount s)"
    and "uiSortTime s < wrap32 (sub64 (maxtimestamp s) (mintimestamp s))"
    and "ss_nodes s = nd # nd2 # nds" and "distinct (ss_frameaddr s)"
    and "nd_position nd \<in> set (ss_frameaddr s)" and "tl (ss_frameaddr s) \<noteq> []"
    and "cb k (node_frame (ss_pdata s) nd) = Some (e, k1)" and "e < 0"
  shows "\<exists>s'. PopFrameStreamSort cb s k = Some (e, s', k1) \<and> ss_nodes s' = ss_nodes s \<and>
    (\<forall>f w cb2 k2. uiSortTime s' < wrap32 (sub64 (sf_timestamp f) (mintimestamp s')) \<longrightarrow>
       put_end cb2 s' f w k2 = Some (- 1, s', k2))"
proof -
  let ?s = "s\<lparr>ss_frameaddr := remove1 (nd_position nd) (ss_frameaddr s), premintimestamp := nd_timestamp nd\<rparr>"
  have a: "CFrameaddrList (ss_frameaddr s) 0 (nd_position nd) 2 = Some (0, remove1 (nd_position nd) (ss_frameaddr s))"
    using assms(5,6) by (auto simp: CFrameaddrList_def)
  have "remove1 (nd_position nd) (ss_frameaddr s) \<noteq> []"
    using assms(5,6) by (cases "ss_frameaddr s"; cases "tl (ss_frameaddr s)") auto
  then have b: "CFrameaddrList (remove1 (nd_position nd) (ss_frameaddr s)) w (nd_position nd) 1 =
      Some (- 2, remove1 (nd_position nd) (ss_frameaddr s))" for w
    using assms(4) by (simp add: CFrameaddrList_def)
  have "PopFrameStreamSort cb s k = Some (e, ?s, k1)"
    using assms a by (simp add: PopFrameStreamSort_def numeral_2_eq_2 Let_def)
  moreover have "put_end cb2 ?s f w k2 = Some (- 1, ?s, k2)"
    if "uiSortTime ?s < wrap32 (sub64 (sf_timestamp f) (mintimestamp ?s))" for f w cb2 k2
    using that b assms(3) by (simp add: put_end_def)
  ultimately show ?thesis using assms(3) by (intro exI [of _ ?s] conjI allI impI) simp_all
qed

theorem pop_error_wedges_witness:
  "let n = (\<lambda>i. \<lparr>nd_position = i, nd_len = 1, nd_timestamp = 10 * i, nd_type = FRAME_P, nd_priority = 1\<rparr>);
       s = zero_ssbuf\<lparr>ss_nodes := [n 0, n 1, n 2, n 3], ss_frameaddr := [0, 1, 2, 3], ss_datasize := 100,
         ss_position := 4, uiPutFrameCount := 4, maxtimestamp := 30, uiSortTime := 20\<rparr>
   in \<exists>s'. PopFrameStreamSort (\<lambda>k f. Some (- 2, k)) s () = Some (- 2, s', ()) \<and> ss_nodes s' = ss_nodes s \<and>
    (\<forall>f w cb2 k2. uiSortTime s' < wrap32 (sub64 (sf_timestamp f) (mintimestamp s')) \<longrightarrow>
       put_end (cb2 :: unit sink) s' f w k2 = Some (- 1, s', k2))"
  unfolding Let_def
  by (rule pop_error_wedges
      [where nd = "\<lparr>nd_position = 0, nd_len = 1, nd_timestamp = 0, nd_type = FRAME_P, nd_priority = 1\<rparr>"])
     (simp_all add: zero_ssbuf_def sub32_def sub64_def wrap32_def)

theorem grow_keeps_frames_witness:
  "let n = (\<lambda>i. \<lparr>nd_position = i, nd_len = 1, nd_timestamp = 10 * i, nd_type = FRAME_P, nd_priority = 1\<rparr>);
       s = zero_ssbuf\<lparr>ss_nodes := [n 0, n 1, n 2], ss_frameaddr := [0, 1, 2], ss_datasize := 1048576,
         ss_position := 3, uiPutFrameCount := 3, maxtimestamp := 20, premintimestamp := 0\<rparr>
   in \<exists>s'. grow_or_clean 0 s = Some s' \<and> sort_inv 1 s' \<and> held s' = held s \<and>
    ss_datasize s' = ss_datasize s * 3 div 2 \<and> premintimestamp s' = 0"
proof -
  have "slots_ok 1 1048576 3 3 [0, 1, 2] {#(0, 1), (1, 1), (2, 1)#}"
    unfolding slots_ok_def layout_def
    by (intro exI [of _ "[(0, 1), (1, 1), (2, 1)]"] conjI exI [of _ "[]"] exI [of _ "[(0, 1), (1, 1), (2, 1)]"]) simp_all
  then show ?thesis unfolding Let_def
    by (intro grow_keeps_frames)
       (simp_all add: sort_inv_def zero_ssbuf_def slot_of_def MIM_SORT_BUFF_LEN_def MAX_SORT_BUFF_LEN_def)
qed

text \<open>The count of frames dropped in a row as too late is not reset by a frame in order nor
  by the emptying of the sorter it causes: once 61 were dropped, one more late frame empties the
  sorter again, however many good frames came between.\<close>

theorem late_drop_not_reset:
  "(let f = (\<lambda>t. \<lparr>sf_frame = [1], sf_timestamp = t, sf_type = FRAME_P, sf_priority = 1\<rparr>);
        s = (DefaultStreamSortBuff zero_ssbuf 100 20000 0 0)\<lparr>u32LateFrameDrop := 60\<rparr>
    in do {
      (_, s1, _) \<leftarrow> PutFrameStreamSort (\<lambda>k f. Some (0, k)) 0 (f 5000000) s ();
      (_, s2, _) \<leftarrow> PutFrameStreamSort (\<lambda>k f. Some (0, k)) 0 (f 5000001) s1 ();
      (r, s3, _) \<leftarrow> PutFrameStreamSort (\<lambda>k f. Some (0, k)) 0 (f 1000000) s2 ();
      (r4, s4, _) \<leftarrow> PutFrameStreamSort (\<lambda>k f. Some (0, k)) 0 (f 9000000) s3 ();
      (r5, s5, _) \<leftarrow> PutFrameStreamSort (\<lambda>k f. Some (0, k)) 0 (f 9000001) s4 ();
      (r6, s6, _) \<leftarrow> PutFrameStreamSort (\<lambda>k f. Some (0, k)) 0 (f 5000000) s5 ();
      Some (r, length (ss_nodes s3), r4, r5, length (ss_nodes s5), r6, length (ss_nodes s6))
    }) = Some (- 1, 0, 0, 0, 2, - 1, 0)"
  by code_simp

end
