(* ===== verification/StreamBuff.thy ===== *)
theory StreamBuff
  imports CodecDef
begin

text \<open>
  The frame ring of mgw-core/buffer/stream_buff.c: one block of memory holding a header
  (\<open>SmemoryHead\<close>), a table of \<open>uiMaxValidFrames\<close> frame descriptors
  (\<open>SmemoryFrame\<close>) and a ring of \<open>datasize\<close> payload bytes. A writer appends frames
  (\<open>PutOneFrameToBuff\<close>); each reader has its own read counter and pulls frames
  (\<open>GetOneFrameFromBuff\<close>, \<open>GetOneFrameFromBuff2\<close>).

  The three parts lie in one allocation in this order, so a descriptor index past the table is
  an access to the payload bytes. The model follows the LP64 layout of the structs: a descriptor
  has 40 bytes, \<open>ucValidFlag\<close> at offset 0 and \<open>position\<close> at offset 4.
\<close>

section \<open>Memory layout\<close>

record smemory_frame =
  fr_valid :: bool
  fr_position :: nat
  fr_len :: nat
  fr_timestamp :: nat
  fr_type :: frame_t
  fr_priority :: int

record smem =
  magic :: nat
  datasize :: nat
  uiWritFrameCount :: nat
  uiMaxValidFrames :: nat
  n32WriterPid :: int
  ucWriterCount :: nat
  ucReaderCount :: nat
  bLock :: nat
  priv_data :: nat
  frames :: "smemory_frame list"
  pstuData :: mem

record mem_reader =
  u32RdFrameCount :: nat
  breIframe :: bool
  bReadByTime :: bool

definition zero_frame :: smemory_frame where
  "zero_frame = \<lparr>fr_valid = False, fr_position = 0, fr_len = 0, fr_timestamp = 0,
     fr_type = FRAME_I, fr_priority = 0\<rparr>"

text \<open>\<open>InitMemoryParam\<close> on a block whose header is \<open>m\<close> (all zero when freshly
  allocated); \<open>nframes\<close> and \<open>sz\<close> are the arguments \<open>frames\<close> and \<open>size\<close>.\<close>

definition InitMemoryParam :: "smem \<Rightarrow> nat \<Rightarrow> nat \<Rightarrow> nat \<Rightarrow> smem" where
  "InitMemoryParam m nframes sz priv =
     (let h = (if magic m \<noteq> 0x12348756
               then m\<lparr>n32WriterPid := 0, bLock := 0\<rparr>
               else m\<lparr>bLock := 0\<rparr>)
      in h\<lparr>magic := 0x12348756, datasize := sz, uiMaxValidFrames := nframes,
           ucReaderCount := 0, ucWriterCount := 0, uiWritFrameCount := 0, priv_data := priv,
           frames := replicate nframes zero_frame\<rparr>)"

definition zero_smem :: smem where
  "zero_smem = \<lparr>magic = 0, datasize = 0, uiWritFrameCount = 0, uiMaxValidFrames = 0,
     n32WriterPid = 0, ucWriterCount = 0, ucReaderCount = 0, bLock = 0, priv_data = 0,
     frames = [], pstuData = (\<lambda>_. 0)\<rparr>"

section \<open>Invalidating overwritten frames\<close>

text \<open>Access to descriptor \<open>idx\<close>: inside the table, or, past its end, in the payload
  bytes that follow it.\<close>

definition frame_pos :: "smem \<Rightarrow> nat \<Rightarrow> nat option" where
  "frame_pos m idx =
     (if idx < length (frames m) then Some (fr_position (frames m ! idx))
      else (let off = 40 * (idx - length (frames m))
            in if off + 8 \<le> datasize m then Some (mem_le32 (pstuData m) (off + 4)) else None))"

definition clear_valid :: "smem \<Rightarrow> nat \<Rightarrow> smem option" where
  "clear_valid m idx =
     (if idx < length (frames m)
      then Some (m\<lparr>frames := (frames m)[idx := (frames m ! idx)\<lparr>fr_valid := False\<rparr>]\<rparr>)
      else (let off = 40 * (idx - length (frames m))
            in if off < datasize m then Some (m\<lparr>pstuData := (pstuData m)(off := 0)\<rparr>) else None))"

definition in_cover :: "nat \<Rightarrow> nat \<Rightarrow> nat \<Rightarrow> bool" where
  "in_cover pos_s pos_e npos_s =
     (if pos_s < pos_e then pos_s \<le> npos_s \<and> npos_s \<le> pos_e
      else pos_s \<le> npos_s \<or> npos_s \<le> pos_e)"

text \<open>The loop of \<open>CheckBuffDataCover\<close>; the first argument is the number of iterations
  left, the second the descriptor index \<open>next + i\<close>.\<close>

fun cover_loop :: "nat \<Rightarrow> nat \<Rightarrow> nat \<Rightarrow> nat \<Rightarrow> smem \<Rightarrow> smem option" where
  "cover_loop 0 idx pos_s pos_e m = Some m"
| "cover_loop (Suc k) idx pos_s pos_e m =
     (case frame_pos m idx of
        None \<Rightarrow> None
      | Some npos_s \<Rightarrow>
          if in_cover pos_s pos_e npos_s
          then (case clear_valid m idx of
                  None \<Rightarrow> None
                | Some m' \<Rightarrow> cover_loop k (Suc idx) pos_s pos_e m')
          else Some m)"

definition CheckBuffDataCover :: "nat \<Rightarrow> nat \<Rightarrow> nat \<Rightarrow> smem \<Rightarrow> smem option" where
  "CheckBuffDataCover pos_s pos_e nxt m =
     cover_loop (sub32 (uiMaxValidFrames m) 2) nxt pos_s pos_e m"

section \<open>Writing a frame\<close>

text \<open>Copying the payload into the ring: the new block, the position after it, and the
  written range \<open>pos_s\<close>, \<open>pos_e\<close>.\<close>

definition put_payload :: "smem \<Rightarrow> nat \<Rightarrow> bytes \<Rightarrow> (mem \<times> nat \<times> nat \<times> nat) option" where
  "put_payload m position bs =
     (let framelen = length bs in
      if wrap32 (position + framelen) \<le> datasize m
      then (if position + framelen \<le> datasize m
            then (let e = position + framelen
                  in Some (mem_put (pstuData m) position bs,
                           if e = datasize m then 0 else e, position, e))
            else None)
      else (if position \<le> datasize m
            then (let left = datasize m - position; len = framelen - left
                  in if len \<le> datasize m
                     then Some (mem_put (mem_put (pstuData m) position (take left bs)) 0 (drop left bs),
                                len, position, len)
                     else None)
            else None))"

definition put_frame :: "smem \<Rightarrow> bytes \<Rightarrow> nat \<Rightarrow> frame_t \<Rightarrow> int \<Rightarrow> (int \<times> smem) option" where
  "put_frame m pframe timestamp frametype priority =
     (if uiMaxValidFrames m = 0 then None
      else
       (let w = uiWritFrameCount m mod uiMaxValidFrames m;
            wnext = (w + 1) mod uiMaxValidFrames m;
            framelen = length pframe
        in if datasize m div 2 \<le> framelen then Some (- 2, m)
           else if length (frames m) \<le> w then None
           else (case put_payload m (fr_position (frames m ! w)) pframe of
                   None \<Rightarrow> None
                 | Some (d, position, pos_s, pos_e) \<Rightarrow>
                     (let m1 = m\<lparr>pstuData := d,
                                 frames := (frames m)[w := (frames m ! w)
                                   \<lparr>fr_len := framelen, fr_type := frametype,
                                    fr_timestamp := timestamp, fr_priority := priority,
                                    fr_valid := True\<rparr>]\<rparr>
                      in case CheckBuffDataCover pos_s pos_e wnext m1 of
                           None \<Rightarrow> None
                         | Some m2 \<Rightarrow>
                             Some (0, m2\<lparr>frames := (frames m2)[wnext := (frames m2 ! wnext)
                                           \<lparr>fr_position := position\<rparr>],
                                        uiWritFrameCount := wrap32 (uiWritFrameCount m2 + 1)\<rparr>)))))"

text \<open>\<open>PutOneFrameToBuff\<close>: \<open>None\<close> arguments are NULL pointers. The \<open>framelen\<close>
  bytes copied are the first bytes behind \<open>pframe\<close>; the time stamp is stored as unsigned
  64-bit.\<close>

definition PutOneFrameToBuff ::
  "smem option \<Rightarrow> bytes option \<Rightarrow> nat \<Rightarrow> int \<Rightarrow> frame_t \<Rightarrow> int \<Rightarrow> (int \<times> smem option) option" where
  "PutOneFrameToBuff pcontext pframe framelen timestamp frametype priority =
     (case pcontext of
        None \<Rightarrow> Some (- 1, None)
      | Some m \<Rightarrow>
          (case pframe of
             None \<Rightarrow> Some (- 1, Some m)
           | Some bs \<Rightarrow>
               if length bs < framelen then None
               else map_option (\<lambda>(r, m'). (r, Some m'))
                      (put_frame m (take framelen bs) (nat (timestamp mod 2 ^ 64)) frametype priority)))"

section \<open>Positioning a reader\<close>

text \<open>The loop of \<open>JumpToOldestIFrame\<close>: iterations left, index \<open>i\<close>; the result is
  the new read counter, or \<open>None\<close> for the return value -1.\<close>

fun oldest_loop :: "nat \<Rightarrow> nat \<Rightarrow> nat \<Rightarrow> smem \<Rightarrow> nat option" where
  "oldest_loop 0 i rd m = None"
| "oldest_loop (Suc k) i rd m =
     (let iTempPos = uiWritFrameCount m;
          maxf = uiMaxValidFrames m;
          f = frames m ! (wrap32 (iTempPos + i) mod maxf)
      in if fr_valid f \<and> fr_type f = FRAME_I
         then (let p = s32 (sub32 (wrap32 (iTempPos + i)) maxf);
                   iNewPos = (if p < 0 then 0 else nat p)
               in if iNewPos < rd \<and> rd < iTempPos then oldest_loop k (Suc i) rd m
                  else Some iNewPos)
         else oldest_loop k (Suc i) rd m)"

definition JumpToOldestIFrame :: "mem_reader \<Rightarrow> smem \<Rightarrow> int \<times> mem_reader" where
  "JumpToOldestIFrame pRead m =
     (if uiWritFrameCount m = 0 then (0, pRead\<lparr>u32RdFrameCount := 0\<rparr>)
      else (case oldest_loop (uiMaxValidFrames m) 0 (u32RdFrameCount pRead) m of
              None \<Rightarrow> (- 1, pRead)
            | Some p \<Rightarrow> (0, pRead\<lparr>u32RdFrameCount := p\<rparr>)))"

text \<open>The loop of \<open>JumpTonewestIFrame\<close>, counting down; the first argument is
  \<open>i + 1\<close>.\<close>

fun newest_loop :: "nat \<Rightarrow> int \<Rightarrow> nat \<Rightarrow> smem \<Rightarrow> nat option" where
  "newest_loop 0 mn rd m = None"
| "newest_loop (Suc i) mn rd m =
     (if mn < int i
      then (let f = frames m ! (i mod uiMaxValidFrames m)
            in if fr_valid f \<and> fr_type f = FRAME_I
               then (if rd \<le> i then Some i else None)
               else newest_loop i mn rd m)
      else None)"

definition JumpTonewestIFrame :: "mem_reader \<Rightarrow> smem \<Rightarrow> int \<times> mem_reader" where
  "JumpTonewestIFrame pRead m =
     (if uiWritFrameCount m = 0 then (0, pRead\<lparr>u32RdFrameCount := 0\<rparr>)
      else
       (let wc = uiWritFrameCount m; rd = u32RdFrameCount pRead;
            diff = s32 (sub32 wc rd);
            mn = (if diff > 0 then s32 rd else s32 (sub32 wc (uiMaxValidFrames m)))
        in case newest_loop (nat (s32 wc)) mn rd m of
             None \<Rightarrow> (- 1, pRead)
           | Some p \<Rightarrow> (0, pRead\<lparr>u32RdFrameCount := p\<rparr>)))"

text \<open>\<open>CheckBuffDuration\<close> on a reader's context. The comparison is unsigned.\<close>

definition CheckBuffDuration :: "(mem_reader \<times> smem) option \<Rightarrow> nat option" where
  "CheckBuffDuration pcontext =
     (case pcontext of
        None \<Rightarrow> Some 0
      | Some (pRead, m) \<Rightarrow>
          (let wcount = sub32 (uiWritFrameCount m) 1 in
           if wcount \<le> u32RdFrameCount pRead then Some 0
           else if uiMaxValidFrames m = 0 then None
           else (let rp = u32RdFrameCount pRead mod uiMaxValidFrames m;
                     w = wcount mod uiMaxValidFrames m
                 in if rp < length (frames m) \<and> w < length (frames m)
                    then Some (sub64 (fr_timestamp (frames m ! w)) (fr_timestamp (frames m ! rp)))
                    else None)))"

section \<open>Reading a frame\<close>

text \<open>The out parameters of \<open>GetOneFrameFromBuff\<close>: the bytes written to \<open>*pframe\<close>,
  and the values of \<open>*timestamp\<close>, \<open>*frametype\<close> and \<open>*priority\<close>.\<close>

record frame_out =
  fo_data :: bytes
  fo_timestamp :: nat
  fo_type :: frame_t
  fo_priority :: int

definition ring_read :: "smem \<Rightarrow> smemory_frame \<Rightarrow> bytes option" where
  "ring_read m f =
     (if wrap32 (fr_position f + fr_len f) \<le> datasize m
      then (if fr_position f + fr_len f \<le> datasize m
            then Some (mem_get (pstuData m) (fr_position f) (fr_len f)) else None)
      else (if fr_position f \<le> datasize m
            then (let left = datasize m - fr_position f; len = fr_len f - left
                  in if len \<le> datasize m
                     then Some (mem_get (pstuData m) (fr_position f) left @ mem_get (pstuData m) 0 len)
                     else None)
            else None))"

text \<open>The part both readers share: bring the read counter to a readable frame. \<open>Inl\<close> is
  an early return with this value, \<open>Inr\<close> the descriptor index \<open>rp\<close>. The arguments
  \<open>slow\<close>, \<open>fast\<close> are the codes the caller returns for a slow and a fast reader, and
  \<open>back5\<close> is how it backs up for the first key frame.\<close>

definition seek_reader ::
  "int \<Rightarrow> int \<Rightarrow> (nat \<Rightarrow> nat \<Rightarrow> nat) \<Rightarrow> mem_reader \<Rightarrow> smem \<Rightarrow> (mem_reader \<times> (int + nat)) option" where
  "seek_reader slow fast back5 pRead m =
     (let wc = uiWritFrameCount m; rd = u32RdFrameCount pRead in
      if wc = rd then Some (pRead, Inl fast)
      else if uiMaxValidFrames m = 0 then None
      else if wc < rd then Some (snd (JumpToOldestIFrame pRead m), Inl fast)
      else
       (let (e1, r1) = (if uiMaxValidFrames m < wc - rd then JumpToOldestIFrame pRead m else (0, pRead))
        in if e1 = - 1 then Some (r1, Inl slow)
           else
            (let (e2, r2) = (if breIframe r1
                             then (let (e, r) = JumpTonewestIFrame
                                     (r1\<lparr>u32RdFrameCount := back5 wc (u32RdFrameCount r1)\<rparr>) m
                                   in if e < 0 then (e, r) else (e, r\<lparr>breIframe := False\<rparr>))
                             else (0, r1))
             in if e2 < 0 then Some (r2, Inl 0)
                else
                 (let rp = u32RdFrameCount r2 mod uiMaxValidFrames m
                  in if fr_valid (frames m ! rp) then Some (r2, Inr rp)
                     else (let (e3, r3) = JumpToOldestIFrame r2 m
                           in if e3 = - 1 then Some (r3, Inl slow)
                              else Some (r3, Inr (u32RdFrameCount r3 mod uiMaxValidFrames m)))))))"

definition back5_guarded :: "nat \<Rightarrow> nat \<Rightarrow> nat" where
  "back5_guarded wc rd = (if wc \<ge> 5 then wc - 5 else rd)"

definition back5_plain :: "nat \<Rightarrow> nat \<Rightarrow> nat" where
  "back5_plain wc rd = sub32 wc 5"

definition get_frame ::
  "mem_reader \<Rightarrow> smem \<Rightarrow> nat \<Rightarrow> frame_out \<Rightarrow> (int \<times> mem_reader \<times> frame_out) option" where
  "get_frame pRead m maxframelen out =
     (case seek_reader FRAME_CONSUME_SLOW FRAME_CONSUME_FAST back5_guarded pRead m of
        None \<Rightarrow> None
      | Some (r, Inl e) \<Rightarrow> Some (e, r, out)
      | Some (r, Inr rp) \<Rightarrow>
          (let f = frames m ! rp in
           if fr_len f > maxframelen then Some (0, r, out)
           else if bReadByTime r \<and> fo_timestamp out \<noteq> 0 \<and>
                   fo_timestamp out < fr_timestamp f \<and>
                   2000 < fr_timestamp f - fo_timestamp out
           then Some (FRAME_CONSUME_SLOW, r, out\<lparr>fo_timestamp := fr_timestamp f\<rparr>)
           else (case ring_read m f of
                   None \<Rightarrow> None
                 | Some bs \<Rightarrow>
                     Some (int (fr_len f),
                           r\<lparr>u32RdFrameCount := wrap32 (u32RdFrameCount r + 1)\<rparr>,
                           \<lparr>fo_data = bs, fo_timestamp = fr_timestamp f,
                            fo_type = fr_type f, fo_priority = fr_priority f\<rparr>))))"

text \<open>\<open>GetOneFrameFromBuff\<close>: a NULL context is the return value -1.\<close>

definition GetOneFrameFromBuff ::
  "(mem_reader \<times> smem) option \<Rightarrow> nat \<Rightarrow> frame_out \<Rightarrow> (int \<times> mem_reader option \<times> frame_out) option" where
  "GetOneFrameFromBuff pcontext maxframelen out =
     (case pcontext of
        None \<Rightarrow> Some (- 1, None, out)
      | Some (pRead, m) \<Rightarrow>
          map_option (\<lambda>(e, r, o'). (e, Some r, o')) (get_frame pRead m maxframelen out))"

text \<open>\<open>GetOneFrameFromBuff2\<close> does not copy: it returns one or two slices of the ring,
  given here as offset and length (\<open>faddr\<close>), with the time stamp and type.\<close>

definition ring_slices :: "smem \<Rightarrow> smemory_frame \<Rightarrow> (nat \<times> nat) list" where
  "ring_slices m f =
     (if wrap32 (fr_position f + fr_len f) \<le> datasize m
      then [(fr_position f, fr_len f)]
      else (let left = sub32 (datasize m) (fr_position f)
            in [(fr_position f, left), (0, sub32 (fr_len f) left)]))"

definition GetOneFrameFromBuff2 ::
  "mem_reader \<Rightarrow> smem \<Rightarrow> (int \<times> mem_reader \<times> ((nat \<times> nat) list \<times> nat \<times> frame_t) option) option" where
  "GetOneFrameFromBuff2 pRead m =
     (case seek_reader 0 0 back5_plain pRead m of
        None \<Rightarrow> None
      | Some (r, Inl e) \<Rightarrow> Some (e, r, None)
      | Some (r, Inr rp) \<Rightarrow>
          (let f = frames m ! rp
           in Some (int (fr_len f),
                    r\<lparr>u32RdFrameCount := wrap32 (u32RdFrameCount r + 1)\<rparr>,
                    Some (ring_slices m f, fr_timestamp f, fr_type f))))"

section \<open>The ring as a window on the log of written frames\<close>

text \<open>
  The abstract view: the log of all frames written so far. Frame \<open>k\<close> starts at the sum of
  the lengths before it, taken modulo the ring size, and its descriptor is \<open>k\<close> modulo the
  table size. The invariant below says that the last \<open>uiMaxValidFrames - 1\<close> frames of the log
  are intact. It needs the sizing rule \<open>uiMaxValidFrames * L < datasize\<close> for the longest
  frame length \<open>L\<close>: then the descriptor table wraps before the payload ring does.
\<close>

type_synonym log_frame = "bytes \<times> nat \<times> frame_t \<times> int"

definition offs :: "log_frame list \<Rightarrow> nat \<Rightarrow> nat" where
  "offs fs k = sum_list (take k (map (\<lambda>f. length (fst f)) fs))"

fun desc_of :: "log_frame \<Rightarrow> nat \<Rightarrow> smemory_frame" where
  "desc_of (bs, ts, ty, pr) pos = \<lparr>fr_valid = True, fr_position = pos, fr_len = length bs,
     fr_timestamp = ts, fr_type = ty, fr_priority = pr\<rparr>"

definition holds_frame :: "smem \<Rightarrow> log_frame list \<Rightarrow> nat \<Rightarrow> bool" where
  "holds_frame m fs k \<longleftrightarrow>
     frames m ! (k mod uiMaxValidFrames m) = desc_of (fs ! k) (offs fs k mod datasize m) \<and>
     (\<forall>j < length (fst (fs ! k)). pstuData m ((offs fs k + j) mod datasize m) = fst (fs ! k) ! j)"

definition sized :: "nat \<Rightarrow> nat \<Rightarrow> nat \<Rightarrow> bool" where
  "sized n d l \<longleftrightarrow> 3 \<le> n \<and> 0 < l \<and> n * l < d \<and> d < 2147483648"

definition ring_inv :: "smem \<Rightarrow> nat \<Rightarrow> log_frame list \<Rightarrow> bool" where
  "ring_inv m l fs \<longleftrightarrow>
     sized (uiMaxValidFrames m) (datasize m) l \<and>
     length (frames m) = uiMaxValidFrames m \<and>
     uiWritFrameCount m = length fs \<and> length fs < 2147483648 \<and>
     (\<forall>f \<in> set fs. 0 < length (fst f) \<and> length (fst f) \<le> l) \<and>
     fr_position (frames m ! (length fs mod uiMaxValidFrames m)) = offs fs (length fs) mod datasize m \<and>
     (\<forall>j. length fs < j \<and> j < uiMaxValidFrames m \<longrightarrow> fr_position (frames m ! j) = 0) \<and>
     (uiMaxValidFrames m \<le> length fs \<longrightarrow>
        frames m ! (length fs mod uiMaxValidFrames m) =
          desc_of (fs ! (length fs - uiMaxValidFrames m)) (offs fs (length fs) mod datasize m)) \<and>
     (\<forall>k < length fs. length fs < k + uiMaxValidFrames m \<longrightarrow> holds_frame m fs k)"

subsection \<open>Offsets\<close>

lemma offs_0 [simp]: "offs fs 0 = 0"
  by (simp add: offs_def)

lemma offs_append [simp]: "k \<le> length fs \<Longrightarrow> offs (fs @ gs) k = offs fs k"
  by (simp add: offs_def)

lemma offs_snoc: "offs (fs @ [f]) (Suc (length fs)) = offs fs (length fs) + length (fst f)"
  by (simp add: offs_def)

lemma offs_Suc: "k < length fs \<Longrightarrow> offs fs (Suc k) = offs fs k + length (fst (fs ! k))"
  by (simp add: offs_def sum_list_take_Suc)

lemma offs_mono: "i \<le> j \<Longrightarrow> offs fs i \<le> offs fs j"
  unfolding offs_def by (rule sum_list_take_mono)

lemma offs_diff:
  assumes "i \<le> j" and "\<forall>f \<in> set fs. length (fst f) \<le> l"
  shows "offs fs j \<le> offs fs i + (j - i) * l"
  unfolding offs_def by (rule sum_list_take_diff [OF assms(1)]) (use assms(2) in auto)

subsection \<open>Positions modulo the ring size\<close>

lemma mod_neq_within:
  fixes a b d :: nat
  assumes "a < b" and "b - a < d"
  shows "a mod d \<noteq> b mod d"
proof
  assume "a mod d = b mod d"
  with assms(1) have "d dvd b - a" by (metis mod_eq_dvd_iff_nat less_imp_le)
  then have "d \<le> b - a" using assms(1) by (intro dvd_imp_le) auto
  with assms(2) show False by simp
qed

lemma not_in_cover:
  assumes "a < b" and "b + l - a < d" and "0 < l"
  shows "\<not> in_cover (b mod d) (if b mod d + l \<le> d then b mod d + l else b mod d + l - d) (a mod d)"
proof -
  define s where "s = b mod d"
  define e where "e = b - a"
  have e: "0 < e" "e + l < d" and a: "a = b - e" using assms by (auto simp: e_def)
  have s: "s < d" using e by (simp add: s_def)
  have b: "b = d * (b div d) + s" by (simp add: s_def)
  have am: "a mod d = (if e \<le> s then s - e else s + d - e)"
  proof (cases "e \<le> s")
    case True
    define r where "r = s - e"
    have "a = d * (b div d) + r" "r < d" using a b True s by (simp_all add: r_def)
    then have "a mod d = r" by simp
    then show ?thesis using True by (simp add: r_def)
  next
    case False
    have "0 < b div d"
    proof (rule ccontr)
      assume "\<not> 0 < b div d"
      then have "b = s" using b by simp
      then show False using False assms(1) by (simp add: e_def)
    qed
    then obtain q where q: "b div d = Suc q" using gr0_implies_Suc by blast
    define r where "r = s + d - e"
    have "b = d * q + d + s" using b q by simp
    then have "a = d * q + r" "r < d" using a False e by (simp_all add: r_def)
    then have "a mod d = r" by simp
    then show ?thesis using False by (simp add: r_def)
  qed
  show ?thesis
    unfolding s_def [symmetric] am in_cover_def using e s assms(3) by auto
qed

lemma put_payload_ring:
  assumes p: "p < datasize m" and l: "length bs \<le> datasize m" and d: "datasize m < 2147483648"
  obtains d' where
    "put_payload m p bs = Some (d', (p + length bs) mod datasize m, p,
       if p + length bs \<le> datasize m then p + length bs else p + length bs - datasize m)"
    "\<And>j. j < length bs \<Longrightarrow> d' ((p + j) mod datasize m) = bs ! j"
    "\<And>i. i < datasize m \<Longrightarrow> \<forall>j < length bs. i \<noteq> (p + j) mod datasize m \<Longrightarrow> d' i = pstuData m i"
proof (cases "p + length bs \<le> datasize m")
  case True
  have eq: "put_payload m p bs = Some (mem_put (pstuData m) p bs, (p + length bs) mod datasize m, p, p + length bs)"
    using True p d by (auto simp: put_payload_def Let_def wrap_simps)
  show ?thesis
  proof (rule that)
    show "put_payload m p bs = Some (mem_put (pstuData m) p bs, (p + length bs) mod datasize m, p,
       if p + length bs \<le> datasize m then p + length bs else p + length bs - datasize m)"
      using eq True by simp
    show "mem_put (pstuData m) p bs ((p + j) mod datasize m) = bs ! j" if "j < length bs" for j
      using that True by (simp add: mem_put_def)
    show "mem_put (pstuData m) p bs i = pstuData m i"
      if "i < datasize m" "\<forall>j < length bs. i \<noteq> (p + j) mod datasize m" for i
    proof (rule mem_put_outside, rule ccontr)
      assume "\<not> (i < p \<or> p + length bs \<le> i)"
      then have "i - p < length bs" "i = (p + (i - p)) mod datasize m" using that(1) by auto
      with that(2) show False by blast
    qed
  qed
next
  case False
  define left where "left = datasize m - p"
  have left: "left < length bs" "length bs - left \<le> p" "p + left = datasize m"
    using False p l by (auto simp: left_def)
  let ?d = "mem_put (mem_put (pstuData m) p (take left bs)) 0 (drop left bs)"
  have pm: "(p + length bs) mod datasize m = length bs - left"
  proof -
    have "p + length bs = datasize m + (length bs - left)" using left by simp
    moreover have "length bs - left < datasize m" using left p by linarith
    ultimately show ?thesis by simp
  qed
  show ?thesis
  proof (rule that)
    have "p + length bs < 4294967296" "datasize m < p + length bs"
      "length bs - (datasize m - p) \<le> datasize m"
      using p l d False by linarith+
    then show "put_payload m p bs = Some (?d, (p + length bs) mod datasize m, p,
       if p + length bs \<le> datasize m then p + length bs else p + length bs - datasize m)"
      using p pm by (simp add: put_payload_def Let_def wrap32_id left_def)
    show "?d ((p + j) mod datasize m) = bs ! j" if j: "j < length bs" for j
    proof (cases "j < left")
      case True
      then have "(p + j) mod datasize m = p + j" using left by simp
      then show ?thesis using True left j by (simp add: mem_put_def)
    next
      case jl: False
      have "p + j = datasize m + (j - left)" using jl left by simp
      moreover have "j - left < datasize m" using j left p by linarith
      ultimately have "(p + j) mod datasize m = j - left" by simp
      moreover have "j - left < length (drop left bs)" using jl j by simp
      ultimately show ?thesis using jl left by (simp add: mem_put_inside)
    qed
    show "?d i = pstuData m i"
      if i: "i < datasize m" "\<forall>j < length bs. i \<noteq> (p + j) mod datasize m" for i
    proof -
      have "i < p"
      proof (rule ccontr)
        assume "\<not> i < p"
        then have "i - p < length bs" "i = (p + (i - p)) mod datasize m" using i(1) left by auto
        with i(2) show False by blast
      qed
      moreover have "length bs - left \<le> i"
      proof (rule ccontr)
        assume "\<not> length bs - left \<le> i"
        then have "i + left < length bs" by simp
        moreover have "(p + (i + left)) mod datasize m = i"
          using left i(1) by (simp add: add.left_commute [of p i left])
        ultimately show False using i(2) by force
      qed
      ultimately show ?thesis by (simp add: mem_put_def)
    qed
  qed
qed

subsection \<open>The covering loop\<close>

text \<open>Inside the table the loop cannot fail, and it only clears validity flags.\<close>

lemma cover_loop_table:
  "idx + k \<le> length (frames m) \<Longrightarrow>
   \<exists>m'. cover_loop k idx s e m = Some m' \<and> m' = m\<lparr>frames := frames m'\<rparr> \<and>
     length (frames m') = length (frames m) \<and>
     (\<forall>j < length (frames m). frames m' ! j = frames m ! j \<or>
        idx \<le> j \<and> j < idx + k \<and> frames m' ! j = (frames m ! j)\<lparr>fr_valid := False\<rparr>)"
proof (induction k arbitrary: idx m)
  case 0
  then show ?case by simp
next
  case (Suc k)
  show ?case
  proof (cases "in_cover s e (fr_position (frames m ! idx))")
    case False
    then show ?thesis using Suc.prems by (simp add: frame_pos_def)
  next
    case True
    let ?m = "m\<lparr>frames := (frames m)[idx := (frames m ! idx)\<lparr>fr_valid := False\<rparr>]\<rparr>"
    obtain m' where m': "cover_loop k (Suc idx) s e ?m = Some m'" "m' = ?m\<lparr>frames := frames m'\<rparr>"
      "length (frames m') = length (frames m)"
      "\<And>j. j < length (frames m) \<Longrightarrow> frames m' ! j = frames ?m ! j \<or>
        Suc idx \<le> j \<and> j < Suc idx + k \<and> frames m' ! j = (frames ?m ! j)\<lparr>fr_valid := False\<rparr>"
      using Suc.IH [of "Suc idx" ?m] Suc.prems by auto
    have "frames m' ! j = frames m ! j \<or>
        idx \<le> j \<and> j < idx + Suc k \<and> frames m' ! j = (frames m ! j)\<lparr>fr_valid := False\<rparr>"
      if "j < length (frames m)" for j
      using m'(4) [OF that] that by (cases "j = idx") auto
    then show ?thesis
      using m' True Suc.prems by (auto simp: frame_pos_def clear_valid_def)
  qed
qed

lemma cover_loop_stop:
  "idx < length (frames m) \<Longrightarrow> \<not> in_cover s e (fr_position (frames m ! idx)) \<Longrightarrow>
   cover_loop k idx s e m = Some m"
  by (cases k) (simp_all add: frame_pos_def)

subsection \<open>Writing keeps the window\<close>

lemma sized_half:
  assumes "sized n d l" and "len \<le> l"
  shows "len < d div 2"
proof -
  have "3 * l \<le> n * l" using assms(1) by (simp add: sized_def)
  then have "3 * l < d" "0 < l" using assms(1) unfolding sized_def by linarith+
  then have "3 * l + 1 \<le> d" "1 \<le> l" by auto
  then have "2 * (len + 1) \<le> d" using assms(2) by arith
  then show ?thesis by presburger
qed

lemma sized_table:
  assumes "sized n d l"
  shows "n < 2147483648"
proof -
  have "n * 1 \<le> n * l" using assms by (intro mult_le_mono2) (simp add: sized_def)
  then show ?thesis using assms unfolding sized_def by linarith
qed

lemma window_span:
  assumes "ring_inv m l fs" and "k \<le> length fs"
  shows "offs fs (length fs) - offs fs k \<le> (length fs - k) * l"
  using offs_diff [of k "length fs" fs l] assms by (auto simp: ring_inv_def)

lemma mod_Suc_neq: "2 \<le> n \<Longrightarrow> Suc k mod n \<noteq> k mod (n::nat)"
  using mod_neq_within [of k "Suc k" n] by simp

text \<open>The first descriptor the covering loop looks at: never written yet and at position 0,
  or the oldest frame of the window, which the new frame does not reach.\<close>

lemma put_cover_free:
  assumes inv: "ring_inv m l fs" and bs: "0 < length bs" "length bs \<le> l" and fs: "fs \<noteq> []"
  defines "s \<equiv> offs fs (length fs) mod datasize m"
  shows "\<not> in_cover s (if s + length bs \<le> datasize m then s + length bs else s + length bs - datasize m)
     (fr_position (frames m ! (Suc (length fs) mod uiMaxValidFrames m)))"
proof -
  let ?N = "uiMaxValidFrames m" and ?D = "datasize m" and ?W = "length fs"
  have sz: "3 \<le> ?N" "?N * l < ?D" "0 < l" using inv by (auto simp: ring_inv_def sized_def)
  have len: "\<forall>f \<in> set fs. 0 < length (fst f) \<and> length (fst f) \<le> l" using inv by (simp add: ring_inv_def)
  have pos: "0 < offs fs ?W"
    using fs len by (cases fs) (auto simp: offs_def)
  show ?thesis
  proof (cases "Suc ?W < ?N")
    case True
    have "offs fs ?W \<le> ?W * l" using window_span [OF inv, of 0] by simp
    moreover have "Suc ?W * l \<le> ?N * l" using True by (intro mult_le_mono1) simp
    ultimately have "offs fs ?W + length bs < ?D" using bs sz by simp
    moreover have "fr_position (frames m ! Suc ?W) = 0"
      using inv True by (auto simp: ring_inv_def)
    ultimately show ?thesis using True pos bs by (simp add: s_def in_cover_def)
  next
    case False
    define k where "k = Suc ?W - ?N"
    have k: "k < ?W" "?W < k + ?N" "Suc ?W = k + ?N" "k \<le> ?W" using False sz by (auto simp: k_def)
    have "holds_frame m fs k" using inv k by (auto simp: ring_inv_def)
    moreover have "Suc ?W mod ?N = k mod ?N" using k(3) by simp
    ultimately have p: "fr_position (frames m ! (Suc ?W mod ?N)) = offs fs k mod ?D"
      by (cases "fs ! k") (simp add: holds_frame_def)
    have "offs fs k < offs fs ?W"
    proof -
      have "offs fs (Suc k) = offs fs k + length (fst (fs ! k))" using k by (simp add: offs_Suc)
      moreover have "0 < length (fst (fs ! k))" using len k by simp
      moreover have "offs fs (Suc k) \<le> offs fs ?W" using k by (intro offs_mono) simp
      ultimately show ?thesis by linarith
    qed
    moreover have "offs fs ?W + length bs - offs fs k < ?D"
    proof -
      have "offs fs ?W - offs fs k \<le> (?W - k) * l" using window_span [OF inv] k by simp
      moreover have "(?W - k) * l + l = ?N * l" using k sz
        by (metis Suc_diff_le add_diff_cancel_left' add.commute mult_Suc)
      ultimately show ?thesis using bs sz \<open>offs fs k < offs fs ?W\<close> by linarith
    qed
    ultimately show ?thesis unfolding p s_def using bs by (intro not_in_cover) auto
  qed
qed

text \<open>The state after a successful write of one frame, in one piece.\<close>

lemma put_frame_ok:
  assumes inv: "ring_inv m l fs" and bs: "0 < length bs" "length bs \<le> l"
    and w: "length fs + 1 < 2147483648"
  shows "\<exists>m'. put_frame m bs ts ty pr = Some (0, m') \<and> ring_inv m' l (fs @ [(bs, ts, ty, pr)]) \<and>
    uiMaxValidFrames m' = uiMaxValidFrames m \<and> datasize m' = datasize m"
proof -
  let ?N = "uiMaxValidFrames m" and ?D = "datasize m" and ?W = "length fs"
  let ?fs = "fs @ [(bs, ts, ty, pr)]"
  have sz: "sized ?N ?D l" and fl: "length (frames m) = ?N" and wc: "uiWritFrameCount m = ?W"
    and d: "?D < 2147483648" "3 \<le> ?N" "?N * l < ?D"
    using inv by (auto simp: ring_inv_def sized_def)
  define w where "w = ?W mod ?N"
  define wn where "wn = Suc ?W mod ?N"
  define s where "s = offs fs ?W mod ?D"
  define e where "e = (if s + length bs \<le> ?D then s + length bs else s + length bs - ?D)"
  have wn: "Suc w mod ?N = wn" by (simp add: w_def wn_def mod_Suc_eq)
  have idx: "w < ?N" "wn < ?N" "wn \<noteq> w"
    using d(2) mod_Suc_neq [of ?N ?W] by (auto simp: w_def wn_def)
  have pw: "fr_position (frames m ! w) = s" using inv by (simp add: ring_inv_def w_def s_def)
  have half: "length bs < ?D div 2" using sized_half [OF sz bs(2)] .
  have sD: "s < ?D" using d(3) by (simp add: s_def)
  have lD: "length bs \<le> ?D" using half by linarith
  obtain d' where pp: "put_payload m s bs = Some (d', (s + length bs) mod ?D, s, e)"
    and new: "\<And>j. j < length bs \<Longrightarrow> d' ((s + j) mod ?D) = bs ! j"
    and old: "\<And>i. i < ?D \<Longrightarrow> \<forall>j < length bs. i \<noteq> (s + j) mod ?D \<Longrightarrow> d' i = pstuData m i"
    by (rule put_payload_ring [OF sD lD d(1), folded e_def]) blast
  define f1 where "f1 = (frames m)[w := (frames m ! w)\<lparr>fr_len := length bs, fr_type := ty,
      fr_timestamp := ts, fr_priority := pr, fr_valid := True\<rparr>]"
  define m1 where "m1 = m\<lparr>pstuData := d', frames := f1\<rparr>"
  have f1: "length f1 = ?N" "\<And>j. j < ?N \<Longrightarrow> j \<noteq> w \<Longrightarrow> f1 ! j = frames m ! j"
    "f1 ! w = desc_of (bs, ts, ty, pr) s"
    using idx fl pw by (auto simp: f1_def)
  have sub: "sub32 ?N 2 = ?N - 2" using sized_table [OF sz] d(2) by (simp add: wrap_simps)
  obtain f2 where cov: "CheckBuffDataCover s e wn m1 = Some (m1\<lparr>frames := f2\<rparr>)"
    and f2: "length f2 = ?N" "f2 ! w = f1 ! w"
      "\<And>j. j < ?N \<Longrightarrow> fr_position (f2 ! j) = fr_position (f1 ! j)"
      "\<And>k. k < ?W \<Longrightarrow> f2 ! (k mod ?N) = f1 ! (k mod ?N)"
  proof (cases "fs = []")
    case True
    then have w0: "w = 0" "wn = 1" using d(2) by (auto simp: w_def wn_def)
    have "1 + (?N - 2) \<le> length (frames m1)" using f1(1) d(2) by (simp add: m1_def)
    from cover_loop_table [OF this, of s e] obtain m2 where m2:
      "cover_loop (?N - 2) 1 s e m1 = Some m2" "m2 = m1\<lparr>frames := frames m2\<rparr>"
      "length (frames m2) = length (frames m1)"
      "\<forall>j < length (frames m1). frames m2 ! j = frames m1 ! j \<or>
        1 \<le> j \<and> j < 1 + (?N - 2) \<and> frames m2 ! j = (frames m1 ! j)\<lparr>fr_valid := False\<rparr>" by blast
    have m1: "frames m1 = f1" "length (frames m1) = ?N" using f1(1) by (simp_all add: m1_def)
    have "fr_position (frames m2 ! j) = fr_position (f1 ! j)" if "j < ?N" for j
      using m2(4) that m1 by auto
    moreover have "frames m2 ! w = f1 ! w" using m2(4) idx(1) w0 m1 by auto
    moreover have "CheckBuffDataCover s e wn m1 = Some (m1\<lparr>frames := frames m2\<rparr>)"
      using m2(1,2) w0 sub by (simp add: CheckBuffDataCover_def m1_def)
    ultimately show ?thesis using that [of "frames m2"] m2(3) m1 True by simp
  next
    case False
    have "\<not> in_cover s e (fr_position (frames m1 ! wn))"
      using put_cover_free [OF inv bs False, folded s_def wn_def, folded e_def] idx f1(2) [of wn]
      by (simp add: m1_def)
    then have "CheckBuffDataCover s e wn m1 = Some m1"
      unfolding CheckBuffDataCover_def by (rule cover_loop_stop [rotated]) (simp add: m1_def f1(1) idx)
    then show ?thesis using that [of f1] f1(1) by (simp add: m1_def)
  qed
  define m' where "m' = m1\<lparr>frames := f2[wn := (f2 ! wn)\<lparr>fr_position := (s + length bs) mod ?D\<rparr>],
      uiWritFrameCount := Suc ?W\<rparr>"
  have put: "put_frame m bs ts ty pr = Some (0, m')"
    using d(2) half pp cov idx fl wc w pw wn
    by (simp add: put_frame_def Let_def w_def [symmetric] wn_def [symmetric] m'_def m1_def f1_def wrap_simps)
  have nth': "frames m' ! j = (if j = wn then (f2 ! wn)\<lparr>fr_position := (s + length bs) mod ?D\<rparr> else f2 ! j)"
    if "j < ?N" for j using that f2(1) by (simp add: m'_def)
  have o': "offs ?fs (Suc ?W) mod ?D = (s + length bs) mod ?D"
    by (simp add: offs_snoc s_def mod_add_left_eq)
  have holds: "holds_frame m' ?fs k" if k: "k < Suc ?W" "Suc ?W < k + ?N" for k
  proof (cases "k = ?W")
    case True
    have "pstuData m' ((offs ?fs k + j) mod ?D) = bs ! j" if "j < length bs" for j
      using new [OF that] True by (simp add: m'_def m1_def s_def mod_add_left_eq)
    moreover have "frames m' ! (k mod ?N) = desc_of (bs, ts, ty, pr) s"
      using nth' [OF idx(1)] idx(3) f2(2) f1(3) True by (simp add: w_def)
    ultimately show ?thesis using True by (simp add: holds_frame_def m'_def m1_def s_def)
  next
    case False
    then have kW: "k < ?W" "?W < k + ?N" using k by auto
    have hold: "holds_frame m fs k" using inv kW by (simp add: ring_inv_def)
    have kn: "k mod ?N < ?N" using d(2) by simp
    have "k mod ?N \<noteq> wn" unfolding wn_def using k by (intro mod_neq_within) auto
    moreover have "k mod ?N \<noteq> w" unfolding w_def using kW by (intro mod_neq_within) auto
    ultimately have fr: "frames m' ! (k mod ?N) = frames m ! (k mod ?N)"
      using nth' [OF kn] f2(4) [OF kW(1)] f1(2) [OF kn] by simp
    have "pstuData m' ((offs fs k + j) mod ?D) = fst (fs ! k) ! j"
      if j: "j < length (fst (fs ! k))" for j
    proof -
      have "offs fs k + j < offs fs (Suc k)" using j kW by (simp add: offs_Suc)
      then have lt: "offs fs k + j < offs fs ?W" using offs_mono [of "Suc k" ?W fs] kW by simp
      have "(?W - k) * l + l \<le> ?N * l" using kW d(2)
        by (metis Suc_leI add.commute le_diff_conv mult_Suc mult_le_mono1 less_diff_conv2 less_imp_le_nat)
      then have span: "offs fs ?W + length bs < offs fs k + ?D"
        using window_span [OF inv, of k] kW bs(2) d(3) by linarith
      have "(offs fs k + j) mod ?D \<noteq> (s + i) mod ?D" if "i < length bs" for i
      proof -
        have "(offs fs k + j) mod ?D \<noteq> (offs fs ?W + i) mod ?D"
          using lt span that by (intro mod_neq_within) auto
        then show ?thesis by (simp add: s_def mod_add_left_eq)
      qed
      then have "d' ((offs fs k + j) mod ?D) = pstuData m ((offs fs k + j) mod ?D)"
        using d(3) by (intro old) auto
      then show ?thesis using hold j by (simp add: holds_frame_def m'_def m1_def)
    qed
    then show ?thesis using hold fr kW
      by (simp add: holds_frame_def m'_def m1_def nth_append)
  qed
  have "ring_inv m' l ?fs"
  proof -
    have "fr_position (frames m' ! (Suc ?W mod ?N)) = offs ?fs (Suc ?W) mod ?D"
      using nth' [OF idx(2)] o' by (simp add: wn_def)
    moreover have "fr_position (frames m' ! j) = 0" if "Suc ?W < j" "j < ?N" for j
    proof -
      have "j \<noteq> wn" "j \<noteq> w" using that by (auto simp: wn_def w_def)
      then show ?thesis
        using nth' [OF that(2)] f2(3) [OF that(2)] f1(2) [OF that(2)] inv that by (simp add: ring_inv_def)
    qed
    moreover have "frames m' ! (Suc ?W mod ?N) = desc_of (?fs ! (Suc ?W - ?N)) (offs ?fs (Suc ?W) mod ?D)"
      if "?N \<le> Suc ?W"
    proof -
      define k where "k = Suc ?W - ?N"
      have k: "k < ?W" "?W < k + ?N" "k mod ?N = wn"
        using that d(2) mod_add_self2 [of k ?N] by (auto simp: k_def wn_def)
      have "holds_frame m fs k" using inv k by (simp add: ring_inv_def)
      then have "f2 ! wn = desc_of (fs ! k) (offs fs k mod ?D)"
        using f2(4) [OF k(1)] f1(2) [OF idx(2,3)] k(3) by (simp add: holds_frame_def)
      then have "frames m' ! wn = desc_of (fs ! k) (offs ?fs (Suc ?W) mod ?D)"
        using nth' [OF idx(2)] o' by (cases "fs ! k") simp
      then show ?thesis using k(1) by (simp add: k_def nth_append wn_def)
    qed
    moreover have "uiMaxValidFrames m' = ?N" "datasize m' = ?D" "length (frames m') = ?N"
      "uiWritFrameCount m' = Suc ?W" using f2(1) by (auto simp: m'_def m1_def)
    ultimately show ?thesis
      unfolding ring_inv_def using inv bs w holds by (auto simp: ring_inv_def less_Suc_eq)
  qed
  then show ?thesis using put by (auto simp: m'_def m1_def)
qed

subsection \<open>Runs of the writer\<close>

fun put_frames :: "smem \<Rightarrow> log_frame list \<Rightarrow> smem option" where
  "put_frames m [] = Some m"
| "put_frames m ((bs, ts, ty, pr) # fs) =
     (case put_frame m bs ts ty pr of
        None \<Rightarrow> None
      | Some (e, m') \<Rightarrow> put_frames m' fs)"

lemma put_frames_inv:
  "ring_inv m l gs \<Longrightarrow> \<forall>f \<in> set fs. 0 < length (fst f) \<and> length (fst f) \<le> l \<Longrightarrow>
   length gs + length fs < 2147483648 \<Longrightarrow>
   \<exists>m'. put_frames m fs = Some m' \<and> ring_inv m' l (gs @ fs) \<and>
     uiMaxValidFrames m' = uiMaxValidFrames m \<and> datasize m' = datasize m"
proof (induction fs arbitrary: m gs)
  case Nil
  then show ?case by simp
next
  case (Cons f fs)
  obtain bs ts ty pr where f: "f = (bs, ts, ty, pr)" by (cases f)
  obtain m1 where m1: "put_frame m bs ts ty pr = Some (0, m1)" "ring_inv m1 l (gs @ [f])"
    "uiMaxValidFrames m1 = uiMaxValidFrames m" "datasize m1 = datasize m"
    using put_frame_ok [OF Cons.prems(1), of bs ts ty pr] Cons.prems(2,3) f by auto
  then show ?case using Cons.IH [OF m1(2)] Cons.prems(2,3) f by simp
qed

lemma init_inv:
  assumes "sized n d l"
  shows "ring_inv (InitMemoryParam m n d p) l []"
  using assms by (auto simp: ring_inv_def InitMemoryParam_def Let_def zero_frame_def sized_def)

lemma init_sizes [simp]:
  "uiMaxValidFrames (InitMemoryParam m n d p) = n" "datasize (InitMemoryParam m n d p) = d"
  "uiWritFrameCount (InitMemoryParam m n d p) = 0"
  by (simp_all add: InitMemoryParam_def Let_def)

subsection \<open>Reading inside the window\<close>

lemma ring_read_holds:
  assumes inv: "ring_inv m l fs" and h: "holds_frame m fs k" and k: "k < length fs"
  shows "ring_read m (desc_of (fs ! k) (offs fs k mod datasize m)) = Some (fst (fs ! k))"
proof -
  obtain bs ts ty pr where f: "fs ! k = (bs, ts, ty, pr)" by (cases "fs ! k")
  let ?D = "datasize m"
  define s where "s = offs fs k mod ?D"
  have bl: "length bs \<le> l" using inv k f nth_mem [OF k] by (fastforce simp: ring_inv_def)
  have sz: "sized (uiMaxValidFrames m) ?D l" using inv by (simp add: ring_inv_def)
  have d: "0 < ?D" "?D < 2147483648" using sz by (auto simp: sized_def)
  have s: "s < ?D" using d by (simp add: s_def)
  have half: "length bs < ?D div 2" using sized_half [OF sz bl] .
  have b: "pstuData m ((s + j) mod ?D) = bs ! j" if "j < length bs" for j
    using h that f by (simp add: holds_frame_def s_def mod_add_left_eq)
  show ?thesis
  proof (cases "s + length bs \<le> ?D")
    case True
    have "mem_get (pstuData m) s (length bs) = bs"
    proof (rule mem_get_eqI)
      fix i assume i: "i < length bs"
      then show "pstuData m (s + i) = bs ! i" using b [OF i] True by simp
    qed simp
    then show ?thesis using True d f s by (simp add: ring_read_def wrap_simps s_def [symmetric])
  next
    case False
    let ?left = "?D - s"
    have left: "?left < length bs" "length bs - ?left \<le> ?D" "s + length bs < 4294967296"
      using False s half d by linarith+
    have "mem_get (pstuData m) s ?left = take ?left bs"
    proof (rule mem_get_eqI)
      fix i assume i: "i < ?left"
      then show "pstuData m (s + i) = take ?left bs ! i" using b [of i] left by simp
    qed (use left in simp)
    moreover have "mem_get (pstuData m) 0 (length bs - ?left) = drop ?left bs"
    proof (rule mem_get_eqI)
      fix i assume i: "i < length bs - ?left"
      have "(s + (?left + i)) mod ?D = i" using i s half by simp
      then show "pstuData m (0 + i) = drop ?left bs ! i" using b [of "?left + i"] i left by simp
    qed simp
    ultimately show ?thesis
      using False left f s by (simp add: ring_read_def wrap_simps s_def [symmetric])
  qed
qed

lemma seek_window:
  assumes inv: "ring_inv m l fs" and k: "k < length fs" "length fs < k + uiMaxValidFrames m"
    and r: "u32RdFrameCount r = k" "\<not> breIframe r"
  shows "seek_reader slow fast back5 r m = Some (r, Inr (k mod uiMaxValidFrames m)) \<and>
    frames m ! (k mod uiMaxValidFrames m) = desc_of (fs ! k) (offs fs k mod datasize m) \<and>
    holds_frame m fs k"
proof -
  have h: "holds_frame m fs k" using inv k by (simp add: ring_inv_def)
  have v: "fr_valid (desc_of f p)" for f p by (cases f) simp
  have "uiWritFrameCount m = length fs" "0 < uiMaxValidFrames m"
    using inv by (auto simp: ring_inv_def sized_def)
  then show ?thesis using h v k r by (auto simp: seek_reader_def Let_def holds_frame_def)
qed

lemma get_frame_window:
  assumes inv: "ring_inv m l fs" and k: "k < length fs" "length fs < k + uiMaxValidFrames m"
    and r: "u32RdFrameCount r = k" "\<not> breIframe r" "\<not> bReadByTime r"
    and f: "fs ! k = (bs, ts, ty, pr)" and x: "length bs \<le> maxframelen"
  shows "get_frame r m maxframelen out = Some (int (length bs), r\<lparr>u32RdFrameCount := Suc k\<rparr>,
     \<lparr>fo_data = bs, fo_timestamp = ts, fo_type = ty, fo_priority = pr\<rparr>)"
proof -
  note sw = seek_window [OF inv k r(1,2)]
  have h: "holds_frame m fs k" using sw by simp
  have "length fs < 2147483648" using inv by (simp add: ring_inv_def)
  then show ?thesis
    using sw ring_read_holds [OF inv h k(1)] f x r k
    by (simp add: get_frame_def wrap_simps Let_def)
qed

fun read_frames :: "nat \<Rightarrow> mem_reader \<Rightarrow> smem \<Rightarrow> nat \<Rightarrow> frame_out \<Rightarrow> log_frame list option" where
  "read_frames 0 r m mx out = Some []"
| "read_frames (Suc n) r m mx out =
     (case get_frame r m mx out of
        None \<Rightarrow> None
      | Some (e, r', o') \<Rightarrow>
          map_option (Cons (fo_data o', fo_timestamp o', fo_type o', fo_priority o'))
            (read_frames n r' m mx o'))"

lemma read_frames_window:
  "ring_inv m l fs \<Longrightarrow> k + n \<le> length fs \<Longrightarrow> length fs < k + uiMaxValidFrames m \<Longrightarrow>
   \<not> breIframe r \<Longrightarrow> \<not> bReadByTime r \<Longrightarrow> l \<le> mx \<Longrightarrow> u32RdFrameCount r = k \<Longrightarrow>
   read_frames n r m mx out = Some (take n (drop k fs))"
proof (induction n arbitrary: k r out)
  case 0
  then show ?case by simp
next
  case (Suc n)
  have k: "k < length fs" using Suc.prems by simp
  obtain bs ts ty pr where f: "fs ! k = (bs, ts, ty, pr)" by (cases "fs ! k")
  have "length bs \<le> mx"
    using Suc.prems(1,6) f nth_mem [OF k] by (fastforce simp: ring_inv_def)
  note g = get_frame_window [OF Suc.prems(1) k Suc.prems(3,7,4,5) f this, of out]
  have "drop k fs = (bs, ts, ty, pr) # drop (Suc k) fs" using k f by (metis Cons_nth_drop_Suc)
  then show ?case
    using g Suc.prems by (simp add: Suc.IH [where k = "Suc k"])
qed

subsection \<open>Where a reader jumps to\<close>

definition is_key :: "log_frame list \<Rightarrow> nat \<Rightarrow> bool" where
  "is_key fs k = (fst (snd (snd (fs ! k))) = FRAME_I)"

text \<open>Type and validity of the descriptors of the last \<open>uiMaxValidFrames\<close> frames; the
  oldest of them has lost its position already.\<close>

lemma window_desc:
  assumes inv: "ring_inv m l fs" and k: "k < length fs" "length fs \<le> k + uiMaxValidFrames m"
  shows "\<exists>p. frames m ! (k mod uiMaxValidFrames m) = desc_of (fs ! k) p"
proof (cases "length fs = k + uiMaxValidFrames m")
  case True
  then have "length fs mod uiMaxValidFrames m = k mod uiMaxValidFrames m" by simp
  then show ?thesis using inv True by (auto simp: ring_inv_def)
next
  case False
  then show ?thesis using inv k by (fastforce simp: ring_inv_def holds_frame_def)
qed

lemma desc_key:
  "fr_valid (desc_of f p)" "fr_type (desc_of f p) = fst (snd (snd f))"
  by (cases f, simp)+

lemma window_key:
  assumes "ring_inv m l fs" and "k < length fs" and "length fs \<le> k + uiMaxValidFrames m"
  shows "fr_valid (frames m ! (k mod uiMaxValidFrames m)) \<and>
    (fr_type (frames m ! (k mod uiMaxValidFrames m)) = FRAME_I \<longleftrightarrow> is_key fs k)"
  using window_desc [OF assms] by (auto simp: desc_key is_key_def)

lemma oldest_loop_find:
  assumes inv: "ring_inv m l fs" and W: "uiMaxValidFrames m \<le> length fs"
    "length fs + uiMaxValidFrames m < 2147483648"
    and rd: "rd + uiMaxValidFrames m \<le> length fs"
  shows "i + n = uiMaxValidFrames m \<Longrightarrow>
    oldest_loop n i rd m = find (is_key fs) [length fs - uiMaxValidFrames m + i..<length fs]"
proof (induction n arbitrary: i)
  case 0
  then show ?case using W by simp
next
  case (Suc n)
  let ?N = "uiMaxValidFrames m"
  define k where "k = length fs - ?N + i"
  have k: "k < length fs" "length fs \<le> k + ?N" "length fs + i = k + ?N"
    using Suc.prems W by (auto simp: k_def)
  have ix: "(length fs + i) mod ?N = k mod ?N" using k(3) by simp
  have up: "[k..<length fs] = k # [Suc k..<length fs]" using k(1) by (simp add: upt_conv_Cons)
  have "?N < 4294967296" "uiWritFrameCount m = length fs" using W inv by (auto simp: ring_inv_def)
  moreover have "s32 (sub32 (length fs + i) ?N) = int k" "length fs + i < 4294967296"
    using k Suc.prems W by (auto simp: sub32_def s32_def)
  ultimately show ?case
    using window_key [OF inv k(1,2)] Suc.IH [of "Suc i"] Suc.prems up rd k
    by (auto simp: Let_def wrap_simps ix k_def [symmetric])
qed

lemma oldest_jump:
  assumes inv: "ring_inv m l fs" and W: "length fs + uiMaxValidFrames m < 2147483648"
    and rd: "u32RdFrameCount r + uiMaxValidFrames m \<le> length fs"
  shows "JumpToOldestIFrame r m =
    (case find (is_key fs) [length fs - uiMaxValidFrames m..<length fs] of
       None \<Rightarrow> (- 1, r) | Some k \<Rightarrow> (0, r\<lparr>u32RdFrameCount := k\<rparr>))"
proof -
  have N: "uiMaxValidFrames m \<le> length fs" using rd by simp
  have "uiWritFrameCount m = length fs" "0 < length fs" using inv N by (auto simp: ring_inv_def sized_def)
  then show ?thesis
    using oldest_loop_find [OF inv N W rd, of 0] by (simp add: JumpToOldestIFrame_def)
qed

lemma newest_loop_find:
  assumes inv: "ring_inv m l fs" and rd: "length fs \<le> Suc rd + uiMaxValidFrames m"
  shows "j \<le> length fs \<Longrightarrow> newest_loop j (int rd) rd m = find (is_key fs) (rev [Suc rd..<j])"
proof (induction j)
  case 0
  then show ?case by simp
next
  case (Suc j)
  show ?case
  proof (cases "rd < j")
    case True
    then have "rev [Suc rd..<Suc j] = j # rev [Suc rd..<j]" by simp
    then show ?thesis
      using window_key [OF inv, of j] Suc True rd by (auto simp: Let_def)
  next
    case False
    then show ?thesis by simp
  qed
qed

lemma newest_jump:
  assumes inv: "ring_inv m l fs" and rd: "u32RdFrameCount r < length fs"
    "length fs \<le> Suc (u32RdFrameCount r) + uiMaxValidFrames m"
  shows "JumpTonewestIFrame r m =
    (case find (is_key fs) (rev [Suc (u32RdFrameCount r)..<length fs]) of
       None \<Rightarrow> (- 1, r) | Some k \<Rightarrow> (0, r\<lparr>u32RdFrameCount := k\<rparr>))"
proof -
  have w: "uiWritFrameCount m = length fs" "length fs < 2147483648" using inv by (auto simp: ring_inv_def)
  have "s32 (sub32 (length fs) (u32RdFrameCount r)) > 0" "s32 (u32RdFrameCount r) = int (u32RdFrameCount r)"
    "s32 (length fs) = int (length fs)"
    using rd w by (auto simp: s32_def sub32_def Let_def)
  then show ?thesis
    using newest_loop_find [OF inv rd(2), of "length fs"] w rd(1)
    by (auto simp: JumpTonewestIFrame_def Let_def)
qed

section \<open>What the buffer guarantees to its readers\<close>

text \<open>C1: A buffer whose payload ring is larger than its descriptor table times the longest
  frame delivers faithfully: after any sequence of writes, a reader in the window of the last
  \<open>uiMaxValidFrames - 1\<close> frames reads exactly the frames written, in order, with their bytes,
  time stamps, types and priorities, across every wrap of the two rings.\<close>

theorem stream_buff_delivers:
  assumes "sized n d l" and "\<forall>f \<in> set fs. 0 < length (fst f) \<and> length (fst f) \<le> l"
    and "length fs < 2147483648" and "l \<le> mx"
    and "k + j \<le> length fs" and "length fs < k + n"
    and "u32RdFrameCount r = k" and "\<not> breIframe r" and "\<not> bReadByTime r"
  shows "\<exists>m. put_frames (InitMemoryParam m0 n d p) fs = Some m \<and>
    read_frames j r m mx out = Some (take j (drop k fs))"
proof -
  obtain m where m: "put_frames (InitMemoryParam m0 n d p) fs = Some m" "ring_inv m l fs"
    "uiMaxValidFrames m = n"
    using put_frames_inv [OF init_inv [OF assms(1)], where fs = fs] assms(2,3) by auto
  then show ?thesis
    using read_frames_window [OF m(2) assms(5) _ assms(8,9,4,7)] assms(6) by simp
qed

theorem stream_buff_delivers_witness:
  "\<exists>m. put_frames (InitMemoryParam zero_smem 3 16 0)
       [([1, 2, 3, 4, 5], 10, FRAME_I, 1), ([6, 7], 20, FRAME_P, 1), ([8, 9, 10, 11], 30, FRAME_P, 1),
        ([12, 13, 14, 15, 16], 40, FRAME_I, 2), ([17, 18, 19], 50, FRAME_P, 1)] = Some m \<and>
     read_frames 2 \<lparr>u32RdFrameCount = 3, breIframe = False, bReadByTime = False\<rparr> m 5
       \<lparr>fo_data = [], fo_timestamp = 0, fo_type = FRAME_I, fo_priority = 0\<rparr> =
     Some [([12, 13, 14, 15, 16], 40, FRAME_I, 2), ([17, 18, 19], 50, FRAME_P, 1)]"
  using stream_buff_delivers [of 3 16 5 "[([1, 2, 3, 4, 5], 10, FRAME_I, 1), ([6, 7], 20, FRAME_P, 1),
    ([8, 9, 10, 11], 30, FRAME_P, 1), ([12, 13, 14, 15, 16], 40, FRAME_I, 2), ([17, 18, 19], 50, FRAME_P, 1)]"
    5 3 2 "\<lparr>u32RdFrameCount = 3, breIframe = False, bReadByTime = False\<rparr>" zero_smem 0
    "\<lparr>fo_data = [], fo_timestamp = 0, fo_type = FRAME_I, fo_priority = 0\<rparr>"]
  by (simp add: sized_def)

text \<open>A reader that fell more than the table behind resumes at the oldest key frame still in
  the table and reads it intact, unless that is the very oldest descriptor; when no key frame is
  left it is told it is slow and stays where it is.\<close>

theorem slow_reader_resumes:
  assumes inv: "ring_inv m l fs" and W: "length fs + uiMaxValidFrames m < 2147483648"
    and slow: "u32RdFrameCount r + uiMaxValidFrames m < length fs"
    and r: "\<not> breIframe r" "\<not> bReadByTime r" and mx: "l \<le> mx"
  shows "case find (is_key fs) [length fs - uiMaxValidFrames m..<length fs] of
      None \<Rightarrow> get_frame r m mx out = Some (FRAME_CONSUME_SLOW, r, out)
    | Some k \<Rightarrow> length fs < k + uiMaxValidFrames m \<longrightarrow>
        get_frame r m mx out = Some (int (length (fst (fs ! k))), r\<lparr>u32RdFrameCount := Suc k\<rparr>,
          \<lparr>fo_data = fst (fs ! k), fo_timestamp = fst (snd (fs ! k)), fo_type = FRAME_I,
           fo_priority = snd (snd (snd (fs ! k)))\<rparr>)"
proof -
  let ?N = "uiMaxValidFrames m"
  have wc: "uiWritFrameCount m = length fs" and N: "0 < ?N" using inv by (auto simp: ring_inv_def sized_def)
  have j: "JumpToOldestIFrame r m = (case find (is_key fs) [length fs - ?N..<length fs] of
       None \<Rightarrow> (- 1, r) | Some k \<Rightarrow> (0, r\<lparr>u32RdFrameCount := k\<rparr>))"
    using slow by (intro oldest_jump [OF inv W]) simp
  have lag: "?N < length fs - u32RdFrameCount r" "u32RdFrameCount r < length fs" using slow by linarith+
  show ?thesis
  proof (cases "find (is_key fs) [length fs - ?N..<length fs]")
    case None
    then show ?thesis using j lag wc N
      by (simp add: get_frame_def seek_reader_def)
  next
    case (Some k)
    have k: "k < length fs" "is_key fs k" using Some by (auto simp: find_Some_iff)
    show ?thesis
    proof (cases "length fs < k + ?N")
      case in_win: True
      obtain bs ts pr where f: "fs ! k = (bs, ts, FRAME_I, pr)"
        using k(2) by (cases "fs ! k") (auto simp: is_key_def)
      have bl: "length bs \<le> mx" using inv mx f nth_mem [OF k(1)] by (fastforce simp: ring_inv_def)
      let ?r = "r\<lparr>u32RdFrameCount := k\<rparr>"
      have "get_frame ?r m mx out = Some (int (length bs), ?r\<lparr>u32RdFrameCount := Suc k\<rparr>,
         \<lparr>fo_data = bs, fo_timestamp = ts, fo_type = FRAME_I, fo_priority = pr\<rparr>)"
        using get_frame_window [OF inv k(1) in_win _ _ _ f bl, of ?r] r by simp
      moreover have "\<not> ?N < length fs - k" "k \<noteq> length fs" using in_win k(1) by linarith+
      then have "seek_reader s q b r m = seek_reader s q b ?r m" for s q b
        using j lag wc N Some r k(1) by (simp add: seek_reader_def Let_def)
      ultimately show ?thesis using Some f by (simp add: get_frame_def)
    qed (simp add: Some)
  qed
qed

theorem slow_reader_resumes_witness:
  "\<exists>m. put_frames (InitMemoryParam zero_smem 3 16 0)
       [([1], 10, FRAME_I, 1), ([6], 20, FRAME_P, 1), ([8, 9], 30, FRAME_P, 1),
        ([12, 13], 40, FRAME_I, 2), ([17, 18, 19], 50, FRAME_P, 1)] = Some m \<and>
     get_frame \<lparr>u32RdFrameCount = 1, breIframe = False, bReadByTime = False\<rparr> m 5
       \<lparr>fo_data = [], fo_timestamp = 0, fo_type = FRAME_I, fo_priority = 0\<rparr> =
     Some (2, \<lparr>u32RdFrameCount = 4, breIframe = False, bReadByTime = False\<rparr>,
       \<lparr>fo_data = [12, 13], fo_timestamp = 40, fo_type = FRAME_I, fo_priority = 2\<rparr>)"
proof -
  let ?fs = "[([1], 10, FRAME_I, 1), ([6], 20, FRAME_P, 1), ([8, 9], 30, FRAME_P, 1),
        ([12, 13], 40, FRAME_I, 2), ([17, 18, 19], 50, FRAME_P, 1)] :: log_frame list"
  have "sized 3 16 5" by (simp add: sized_def)
  from put_frames_inv [OF init_inv [OF this, of zero_smem 0], of ?fs] obtain m where
    m: "put_frames (InitMemoryParam zero_smem 3 16 0) ?fs = Some m" "ring_inv m 5 ?fs"
      "uiMaxValidFrames m = 3" by auto
  have f: "find (is_key ?fs) [length ?fs - uiMaxValidFrames m..<length ?fs] = Some 3"
    unfolding m(3) by code_simp
  let ?r = "\<lparr>u32RdFrameCount = 1, breIframe = False, bReadByTime = False\<rparr>"
  have "get_frame ?r m 5 out = Some (2, ?r\<lparr>u32RdFrameCount := 4\<rparr>,
      \<lparr>fo_data = [12, 13], fo_timestamp = 40, fo_type = FRAME_I, fo_priority = 2\<rparr>)" for out
    using slow_reader_resumes [OF m(2), of ?r 5 out] m(3) unfolding f option.case by simp
  then show ?thesis by (intro exI [of _ m] conjI m(1)) simp
qed

text \<open>The descriptor that the writer will fill next already carries the next position but
  keeps the length, type and validity of the frame it held. A reader exactly
  \<open>uiMaxValidFrames\<close> frames behind is not treated as slow, so it is handed bytes that are not
  those of its frame.\<close>

theorem reader_at_table_size_reads_garbage:
  "map_option (\<lambda>m. get_frame \<lparr>u32RdFrameCount = 0, breIframe = False, bReadByTime = False\<rparr> m 5
       \<lparr>fo_data = [], fo_timestamp = 0, fo_type = FRAME_I, fo_priority = 0\<rparr>)
     (put_frames (InitMemoryParam zero_smem 3 16 0)
       [([1, 2, 3], 10, FRAME_I, 1), ([4, 5, 6], 20, FRAME_P, 1), ([7, 8, 9], 30, FRAME_P, 1)]) =
   Some (Some (3, \<lparr>u32RdFrameCount = 1, breIframe = False, bReadByTime = False\<rparr>,
     \<lparr>fo_data = [0, 0, 0], fo_timestamp = 10, fo_type = FRAME_I, fo_priority = 1\<rparr>))"
  by code_simp

text \<open>The scan that invalidates overwritten frames does not wrap its index at the end of the
  descriptor table: it treats payload bytes as descriptors and clears one of them, so a frame that
  was just written reads back changed. Here the ring is too small for its table, which the code
  does not check.\<close>

theorem cover_scan_corrupts_payload:
  "map_option (\<lambda>m. get_frame \<lparr>u32RdFrameCount = 2, breIframe = False, bReadByTime = False\<rparr> m 5
       \<lparr>fo_data = [], fo_timestamp = 0, fo_type = FRAME_I, fo_priority = 0\<rparr>)
     (put_frames (InitMemoryParam zero_smem 4 12 0)
       [([9, 9, 9, 9, 0], 10, FRAME_I, 1), ([0, 0, 0, 9, 9], 20, FRAME_P, 1), ([1, 2, 3, 4, 5], 30, FRAME_I, 1)]) =
   Some (Some (5, \<lparr>u32RdFrameCount = 3, breIframe = False, bReadByTime = False\<rparr>,
     \<lparr>fo_data = [1, 2, 0, 4, 5], fo_timestamp = 30, fo_type = FRAME_I, fo_priority = 1\<rparr>))"
  by code_simp

text \<open>A reader that has just joined starts at the newest key frame among the last four
  written, reads it intact and continues behind it. When there is none it gets 0 and keeps looking,
  or is told it is slow when the whole table holds no key frame.\<close>

theorem new_reader_joins:
  assumes inv: "ring_inv m l fs" and W: "length fs + uiMaxValidFrames m < 2147483648"
    and n: "5 < uiMaxValidFrames m" "5 \<le> length fs"
    and r: "u32RdFrameCount r = 0" "breIframe r" "\<not> bReadByTime r" and mx: "l \<le> mx"
  shows "case find (is_key fs) (rev [length fs - 4..<length fs]) of
      Some k \<Rightarrow> get_frame r m mx out = Some (int (length (fst (fs ! k))),
          r\<lparr>u32RdFrameCount := Suc k, breIframe := False\<rparr>,
          \<lparr>fo_data = fst (fs ! k), fo_timestamp = fst (snd (fs ! k)), fo_type = FRAME_I,
           fo_priority = snd (snd (snd (fs ! k)))\<rparr>)
    | None \<Rightarrow> get_frame r m mx out =
        (if uiMaxValidFrames m < length fs \<and>
            find (is_key fs) [length fs - uiMaxValidFrames m..<length fs] = None
         then Some (FRAME_CONSUME_SLOW, r, out)
         else Some (0, r\<lparr>u32RdFrameCount := length fs - 5\<rparr>, out))"
proof -
  let ?N = "uiMaxValidFrames m" and ?W = "length fs"
  let ?old = "find (is_key fs) [?W - ?N..<?W]" and ?new = "find (is_key fs) (rev [?W - 4..<?W])"
  have wc: "uiWritFrameCount m = ?W" using inv by (simp add: ring_inv_def)
  have e: "Suc (?W - 5) = ?W - 4" using n(2) by simp
  have nj: "JumpTonewestIFrame (r'\<lparr>u32RdFrameCount := ?W - 5\<rparr>) m =
      (case ?new of None \<Rightarrow> (- 1, r'\<lparr>u32RdFrameCount := ?W - 5\<rparr>)
       | Some k \<Rightarrow> (0, r'\<lparr>u32RdFrameCount := k\<rparr>))" for r'
    using newest_jump [OF inv, of "r'\<lparr>u32RdFrameCount := ?W - 5\<rparr>"] n e by (cases ?new) simp_all
  have oj: "?N < ?W \<Longrightarrow> JumpToOldestIFrame r m =
      (case ?old of None \<Rightarrow> (- 1, r) | Some k \<Rightarrow> (0, r\<lparr>u32RdFrameCount := k\<rparr>))"
    using oldest_jump [OF inv W] r by simp
  show ?thesis
  proof (cases ?new)
    case None
    then show ?thesis
      using nj [of r] nj [of "r\<lparr>u32RdFrameCount := _\<rparr>"] oj wc n r
      by (cases ?old) (auto simp: get_frame_def seek_reader_def Let_def back5_guarded_def)
  next
    case (Some k)
    have "k \<in> set (rev [?W - 4..<?W])" "is_key fs k"
      using find_SomeD [OF Some] by simp_all
    then have k: "k < ?W" "?W < k + ?N" "is_key fs k" using n by auto
    have "?old \<noteq> None" using k by (auto simp: find_None_iff)
    obtain bs ts pr where f: "fs ! k = (bs, ts, FRAME_I, pr)"
      using k(3) by (cases "fs ! k") (auto simp: is_key_def)
    have bl: "length bs \<le> mx" using inv mx f nth_mem [OF k(1)] by (fastforce simp: ring_inv_def)
    let ?r = "r\<lparr>u32RdFrameCount := k, breIframe := False\<rparr>"
    have g: "get_frame ?r m mx out = Some (int (length bs), ?r\<lparr>u32RdFrameCount := Suc k\<rparr>,
       \<lparr>fo_data = bs, fo_timestamp = ts, fo_type = FRAME_I, fo_priority = pr\<rparr>)"
      using get_frame_window [OF inv k(1,2) _ _ _ f bl, of ?r] r by simp
    have sk: "seek_reader s q b ?r m = Some (?r, Inr (k mod ?N))" for s q b
      using seek_window [OF inv k(1,2), of ?r] by simp
    have "fr_valid (frames m ! (k mod ?N))" using window_key [OF inv k(1)] k(2) by simp
    then have "seek_reader s q back5_guarded r m = Some (?r, Inr (k mod ?N))" for s q
      using nj [of r] nj [of "r\<lparr>u32RdFrameCount := _\<rparr>"] oj wc n r Some \<open>?old \<noteq> None\<close>
      by (cases ?old) (auto simp: seek_reader_def Let_def back5_guarded_def)
    then have "get_frame r m mx out = get_frame ?r m mx out"
      using sk by (simp add: get_frame_def)
    then show ?thesis using g Some f by simp
  qed
qed

theorem new_reader_joins_witness:
  "\<exists>m. put_frames (InitMemoryParam zero_smem 6 16 0) (replicate 7 ([1, 2], 10, FRAME_I, 1)) = Some m \<and>
     get_frame \<lparr>u32RdFrameCount = 0, breIframe = True, bReadByTime = False\<rparr> m 5
       \<lparr>fo_data = [], fo_timestamp = 0, fo_type = FRAME_I, fo_priority = 0\<rparr> =
     Some (2, \<lparr>u32RdFrameCount = 7, breIframe = False, bReadByTime = False\<rparr>,
       \<lparr>fo_data = [1, 2], fo_timestamp = 10, fo_type = FRAME_I, fo_priority = 1\<rparr>)"
proof -
  let ?fs = "replicate 7 ([1, 2], 10, FRAME_I, 1) :: log_frame list"
  have "sized 6 16 2" by (simp add: sized_def)
  from put_frames_inv [OF init_inv [OF this, of zero_smem 0], of ?fs] obtain m where
    m: "put_frames (InitMemoryParam zero_smem 6 16 0) ?fs = Some m" "ring_inv m 2 ?fs"
      "uiMaxValidFrames m = 6" by auto
  have f: "find (is_key ?fs) (rev [length ?fs - 4..<length ?fs]) = Some 6" by code_simp
  let ?r = "\<lparr>u32RdFrameCount = 0, breIframe = True, bReadByTime = False\<rparr>"
  have "get_frame ?r m 5 out = Some (2, \<lparr>u32RdFrameCount = 7, breIframe = False, bReadByTime = False\<rparr>,
      \<lparr>fo_data = [1, 2], fo_timestamp = 10, fo_type = FRAME_I, fo_priority = 1\<rparr>)" for out
    using new_reader_joins [OF m(2), of ?r 5 out] m(3) unfolding f option.case by simp
  then show ?thesis by (intro exI [of _ m] conjI m(1)) simp
qed

text \<open>A frame longer than the reader's buffer is not dropped, against what the comment above
  the check says: the counter stays, so every later call returns 0 again, whatever the reader's
  out parameters are, for as long as nothing new is written.\<close>

theorem oversize_frame_blocks_reader:
  assumes "ring_inv m l fs" and "k < length fs" and "length fs < k + uiMaxValidFrames m"
    and "u32RdFrameCount r = k" and "\<not> breIframe r"
    and "mx < length (fst (fs ! k))"
  shows "get_frame r m mx out = Some (0, r, out)"
proof -
  have "fr_len (frames m ! (k mod uiMaxValidFrames m)) = length (fst (fs ! k))"
    using seek_window [OF assms(1-5)] by (cases "fs ! k") simp
  then show ?thesis using seek_window [OF assms(1-5)] assms(6) by (simp add: get_frame_def Let_def)
qed

theorem oversize_frame_blocks_reader_witness:
  "\<exists>m. put_frames (InitMemoryParam zero_smem 6 16 0) (replicate 3 ([1, 2], 10, FRAME_I, 1)) = Some m \<and>
     get_frame \<lparr>u32RdFrameCount = 1, breIframe = False, bReadByTime = False\<rparr> m 1
       \<lparr>fo_data = [], fo_timestamp = 0, fo_type = FRAME_I, fo_priority = 0\<rparr> =
     Some (0, \<lparr>u32RdFrameCount = 1, breIframe = False, bReadByTime = False\<rparr>,
       \<lparr>fo_data = [], fo_timestamp = 0, fo_type = FRAME_I, fo_priority = 0\<rparr>)"
proof -
  let ?fs = "replicate 3 ([1, 2], 10, FRAME_I, 1) :: log_frame list"
  have "sized 6 16 2" by (simp add: sized_def)
  from put_frames_inv [OF init_inv [OF this, of zero_smem 0], of ?fs] obtain m where
    m: "put_frames (InitMemoryParam zero_smem 6 16 0) ?fs = Some m" "ring_inv m 2 ?fs"
      "uiMaxValidFrames m = 6" by auto
  then show ?thesis
    using oversize_frame_blocks_reader [OF m(2), of 1
      "\<lparr>u32RdFrameCount = 1, breIframe = False, bReadByTime = False\<rparr>" 1
      "\<lparr>fo_data = [], fo_timestamp = 0, fo_type = FRAME_I, fo_priority = 0\<rparr>"] by simp
qed

end
