(* ===== verification/BuffRegistry.thy ===== *)
theory BuffRegistry
  imports StreamBuff
begin

text \<open>
  The named buffers of mgw-core/buffer: the linked list of list_function.c, the global registry
  of malloc_memory.c on top of it, and the contexts that \<open>CreateStreamBuff\<close> and
  \<open>DeleteStreamBuff\<close> (stream_buff.c) open and close on a registered buffer.

  A list is given by its nodes from \<open>phead\<close> on. A field that the code leaves uninitialised is
  \<open>None\<close>, and comparing it is undefined behaviour. Buffers live at addresses of a heap;
  allocation succeeds and returns a fresh address.
\<close>

section \<open>The linked list\<close>

record sc_node =
  sc_pbuff :: "nat option"
  sc_name :: "string option"
  sc_uid :: "int option"

text \<open>C strings: \<open>strncmp\<close> over \<open>n\<close> characters finds no difference, and
  \<open>snprintf\<close> into an array of \<open>n\<close>.\<close>

definition strncmp_eq :: "nat \<Rightarrow> string \<Rightarrow> string \<Rightarrow> bool" where
  "strncmp_eq n a b \<longleftrightarrow> take n a = take n b"

definition snprintf_s :: "nat \<Rightarrow> string \<Rightarrow> string" where
  "snprintf_s n s = take (n - 1) s"

definition list_init :: "sc_node list" where
  "list_init = [\<lparr>sc_pbuff = None, sc_name = Some (snprintf_s 64 ''list_head''), sc_uid = Some (- 1)\<rparr>]"

definition list_en :: "sc_node list option \<Rightarrow> nat option \<Rightarrow> string \<Rightarrow> int \<times> sc_node list option" where
  "list_en phead pbuff name =
     (case (phead, pbuff) of
        (Some ns, Some b) \<Rightarrow> (1, Some (ns @ [\<lparr>sc_pbuff = Some b, sc_name = Some (snprintf_s 64 name), sc_uid = None\<rparr>]))
      | _ \<Rightarrow> (0, phead))"

text \<open>\<open>list_de\<close>: the outer \<open>None\<close> is a comparison with an uninitialised name, the inner
  one the NULL result.\<close>

fun list_de :: "sc_node list \<Rightarrow> string \<Rightarrow> sc_node option option" where
  "list_de [] name = Some None"
| "list_de (n # ns) name =
     (case sc_name n of
        None \<Rightarrow> None
      | Some nm \<Rightarrow> if strncmp_eq 64 nm name then Some (Some n) else list_de ns name)"

text \<open>\<open>list_free\<close> unlinks and frees the first match. Freeing the head leaves the caller with a
  dangling list: that is \<open>None\<close>.\<close>

fun unlink_name :: "sc_node list \<Rightarrow> string \<Rightarrow> (int \<times> sc_node list) option" where
  "unlink_name [] name = Some (0, [])"
| "unlink_name (n # ns) name =
     (case sc_name n of
        None \<Rightarrow> None
      | Some nm \<Rightarrow> if strncmp_eq 64 nm name then Some (1, ns)
                  else map_option (\<lambda>(r, ns'). (r, n # ns')) (unlink_name ns name))"

definition list_free :: "sc_node list \<Rightarrow> string \<Rightarrow> (int \<times> sc_node list) option" where
  "list_free phead name =
     (case phead of
        [] \<Rightarrow> Some (0, [])
      | h # ns \<Rightarrow>
          (case sc_name h of
             None \<Rightarrow> None
           | Some nm \<Rightarrow> if strncmp_eq 64 nm name then None
                       else map_option (\<lambda>(r, ns'). (r, h # ns')) (unlink_name ns name)))"

definition list_delect2 :: "sc_node list \<Rightarrow> int \<times> sc_node list" where
  "list_delect2 phead = (1, [])"

definition list_en2 :: "sc_node list option \<Rightarrow> nat option \<Rightarrow> int \<Rightarrow> int \<times> sc_node list option" where
  "list_en2 phead pbuff uid =
     (case (phead, pbuff) of
        (Some ns, Some b) \<Rightarrow> (1, Some (ns @ [\<lparr>sc_pbuff = Some b, sc_name = None, sc_uid = Some uid\<rparr>]))
      | _ \<Rightarrow> (0, phead))"

text \<open>\<open>list_de2\<close> takes the first node behind the head.\<close>

definition list_de2 :: "sc_node list \<Rightarrow> int \<times> sc_node list \<times> nat option" where
  "list_de2 phead =
     (case phead of
        h # n # ns \<Rightarrow> (1, h # ns, sc_pbuff n)
      | _ \<Rightarrow> (0, phead, None))"

fun list_de_2 :: "sc_node list \<Rightarrow> int \<Rightarrow> (int \<times> nat option) option" where
  "list_de_2 [] uid = Some (0, None)"
| "list_de_2 (n # ns) uid =
     (case sc_uid n of
        None \<Rightarrow> None
      | Some u \<Rightarrow> if u = uid then Some (1, sc_pbuff n) else list_de_2 ns uid)"

definition list_tra_buff :: "sc_node list \<Rightarrow> int \<times> sc_node list" where
  "list_tra_buff pnode = (case pnode of _ # n # ns \<Rightarrow> (1, n # ns) | _ \<Rightarrow> (0, []))"

fun unlink_uid :: "sc_node list \<Rightarrow> int \<Rightarrow> (int \<times> sc_node list) option" where
  "unlink_uid [] uid = Some (0, [])"
| "unlink_uid (n # ns) uid =
     (case sc_uid n of
        None \<Rightarrow> None
      | Some u \<Rightarrow> if u = uid then Some (1, ns)
                 else map_option (\<lambda>(r, ns'). (r, n # ns')) (unlink_uid ns uid))"

definition list_free2 :: "sc_node list \<Rightarrow> int \<Rightarrow> (int \<times> sc_node list) option" where
  "list_free2 phead uid =
     (case phead of
        [] \<Rightarrow> Some (0, [])
      | h # ns \<Rightarrow>
          (case sc_uid h of
             None \<Rightarrow> None
           | Some u \<Rightarrow> if u = uid then None
                      else map_option (\<lambda>(r, ns'). (r, h # ns')) (unlink_uid ns uid)))"

section \<open>The registry of buffers\<close>

datatype io_mode = IO_MODE_READ | IO_MODE_WRITE

record registry =
  g_memory_head :: "sc_node list option"
  g_memory_nu :: int
  heap :: "nat \<Rightarrow> smem option"
  fresh :: nat

definition empty_registry :: registry where
  "empty_registry = \<lparr>g_memory_head = None, g_memory_nu = 0, heap = (\<lambda>_. None), fresh = 1\<rparr>"

text \<open>A new buffer: allocated, initialised, entered into the list.\<close>

definition new_buffer :: "string \<Rightarrow> nat \<Rightarrow> nat \<Rightarrow> nat \<Rightarrow> registry \<Rightarrow> nat option \<times> registry" where
  "new_buffer name sz nframes priv g =
     (let a = fresh g;
          g1 = g\<lparr>heap := (heap g)(a := Some (InitMemoryParam zero_smem nframes sz priv)), fresh := a + 1\<rparr>;
          g2 = (if g_memory_head g1 = None then g1\<lparr>g_memory_head := Some list_init, g_memory_nu := 1\<rparr> else g1);
          (ok, hd') = list_en (g_memory_head g2) (Some a) name
      in if ok = 0 then (None, g2\<lparr>heap := (heap g2)(a := None)\<rparr>)
         else (Some a, g2\<lparr>g_memory_head := hd', g_memory_nu := g_memory_nu g2 + 1\<rparr>))"

text \<open>\<open>CreateMallocMemory\<close>: the address of the buffer, or NULL.\<close>

definition CreateMallocMemory ::
  "string \<Rightarrow> nat \<Rightarrow> nat \<Rightarrow> io_mode \<Rightarrow> nat \<Rightarrow> registry \<Rightarrow> (nat option \<times> registry) option" where
  "CreateMallocMemory name sz nframes mode priv g =
     (case g_memory_head g of
        None \<Rightarrow> Some (new_buffer name sz nframes priv g)
      | Some ns \<Rightarrow>
          (case list_de ns name of
             None \<Rightarrow> None
           | Some None \<Rightarrow> Some (new_buffer name sz nframes priv g)
           | Some (Some n) \<Rightarrow>
               if mode = IO_MODE_WRITE
               then (case Option.bind (sc_pbuff n) (heap g) of
                       None \<Rightarrow> None
                     | Some m \<Rightarrow> if ucWriterCount m > 0 then Some (None, g) else Some (sc_pbuff n, g))
               else Some (sc_pbuff n, g)))"

definition DeleteMallocMemory :: "string \<Rightarrow> registry \<Rightarrow> (int \<times> registry) option" where
  "DeleteMallocMemory name g =
     (case g_memory_head g of
        None \<Rightarrow> Some (0, g)
      | Some ns \<Rightarrow>
          (case list_de ns name of
             None \<Rightarrow> None
           | Some found \<Rightarrow>
               (case (case found of
                        None \<Rightarrow> Some g
                      | Some n \<Rightarrow>
                          (case list_free ns name of
                             None \<Rightarrow> None
                           | Some (_, ns') \<Rightarrow>
                               Some (g\<lparr>heap := (case sc_pbuff n of None \<Rightarrow> heap g | Some a \<Rightarrow> (heap g)(a := None)),
                                       g_memory_head := Some ns'\<rparr>))) of
                  None \<Rightarrow> None
                | Some g1 \<Rightarrow>
                    (let g2 = g1\<lparr>g_memory_nu := g_memory_nu g1 - 1\<rparr>
                     in Some (0, if g_memory_nu g2 = 1 then g2\<lparr>g_memory_nu := 0, g_memory_head := None\<rparr> else g2)))))"

section \<open>Contexts\<close>

record buff_context =
  bc_name :: string
  bc_userid :: string
  bc_mode :: io_mode
  bc_buf :: nat
  bc_reader :: "mem_reader option"

text \<open>\<open>CreateStreamBuff\<close> on a heap buffer (\<open>type\<close> not 0; shared memory is not modelled).
  The counters of readers and writers are unsigned chars.\<close>

definition CreateStreamBuff ::
  "nat \<Rightarrow> string \<Rightarrow> string \<Rightarrow> nat \<Rightarrow> io_mode \<Rightarrow> bool \<Rightarrow> nat option \<Rightarrow> registry \<Rightarrow>
   (buff_context option \<times> registry) option" where
  "CreateStreamBuff sz name ident nframes mode read_bytime priv g =
     (if sz = 0 then Some (None, g)
      else
       (let nm = snprintf_s 64 name;
            source = (if mode = IO_MODE_WRITE then (case priv of None \<Rightarrow> 0 | Some p \<Rightarrow> p) else 0)
        in case CreateMallocMemory nm sz nframes mode source g of
             None \<Rightarrow> None
           | Some (None, g1) \<Rightarrow> Some (None, g1)
           | Some (Some a, g1) \<Rightarrow>
               (case heap g1 a of
                  None \<Rightarrow> None
                | Some m \<Rightarrow>
                    if mode = IO_MODE_READ
                    then Some (Some \<lparr>bc_name = nm, bc_userid = snprintf_s 32 ident, bc_mode = mode, bc_buf = a,
                                 bc_reader = Some \<lparr>u32RdFrameCount = 0, breIframe = True, bReadByTime = read_bytime\<rparr>\<rparr>,
                               g1\<lparr>heap := (heap g1)(a := Some (m\<lparr>ucReaderCount := (ucReaderCount m + 1) mod 256\<rparr>))\<rparr>)
                    else if ucWriterCount m > 0 then Some (None, g1)
                    else Some (Some \<lparr>bc_name = nm, bc_userid = snprintf_s 32 ident, bc_mode = mode, bc_buf = a,
                                 bc_reader = None\<rparr>,
                               g1\<lparr>heap := (heap g1)(a := Some (m\<lparr>ucWriterCount := (ucWriterCount m + 1) mod 256\<rparr>))\<rparr>))))"

definition DeleteStreamBuff :: "buff_context \<Rightarrow> registry \<Rightarrow> (int \<times> registry) option" where
  "DeleteStreamBuff c g =
     (case heap g (bc_buf c) of
        None \<Rightarrow> None
      | Some m \<Rightarrow>
          (let m1 = (if bc_mode c = IO_MODE_WRITE then m\<lparr>ucWriterCount := (ucWriterCount m + 255) mod 256\<rparr>
                     else m\<lparr>ucReaderCount := (ucReaderCount m + 255) mod 256\<rparr>);
               g1 = g\<lparr>heap := (heap g)(bc_buf c := Some m1)\<rparr>
           in if ucReaderCount m1 = 0 \<and> ucWriterCount m1 = 0 then DeleteMallocMemory (bc_name c) g1
              else Some (0, g1)))"

section \<open>The registry as a map from names to buffers\<close>

text \<open>The abstract registry \<open>rs\<close>: names and addresses in the order registered.\<close>

definition mk_node :: "string \<times> nat \<Rightarrow> sc_node" where
  "mk_node x = \<lparr>sc_pbuff = Some (snd x), sc_name = Some (fst x), sc_uid = None\<rparr>"

definition name_ok :: "string \<Rightarrow> bool" where
  "name_ok nm \<longleftrightarrow> length nm \<le> 63 \<and> nm \<noteq> ''list_head''"

definition reg_rep :: "registry \<Rightarrow> (string \<times> nat) list \<Rightarrow> bool" where
  "reg_rep g rs \<longleftrightarrow>
     (if rs = [] then g_memory_head g = None \<and> g_memory_nu g = 0
      else g_memory_head g = Some (list_init @ map mk_node rs) \<and> g_memory_nu g = int (Suc (length rs))) \<and>
     distinct (map fst rs) \<and> distinct (map snd rs) \<and>
     (\<forall>x \<in> set rs. name_ok (fst x) \<and> snd x < fresh g) \<and>
     (\<forall>a. heap g a \<noteq> None \<longleftrightarrow> a \<in> snd ` set rs)"

definition users :: "io_mode \<Rightarrow> buff_context list \<Rightarrow> nat \<Rightarrow> nat" where
  "users md cs a = length (filter (\<lambda>c. bc_buf c = a \<and> bc_mode c = md) cs)"

definition ctx_ok :: "registry \<Rightarrow> buff_context list \<Rightarrow> (string \<times> nat) list \<Rightarrow> bool" where
  "ctx_ok g cs rs \<longleftrightarrow>
     (\<forall>c \<in> set cs. (bc_name c, bc_buf c) \<in> set rs) \<and>
     (\<forall>a \<in> snd ` set rs. \<exists>m. heap g a = Some m \<and> ucReaderCount m = users IO_MODE_READ cs a \<and>
        ucWriterCount m = users IO_MODE_WRITE cs a \<and> users IO_MODE_WRITE cs a \<le> 1 \<and>
        0 < users IO_MODE_READ cs a + users IO_MODE_WRITE cs a)"

lemma img_fst: "(x, b) \<in> S \<Longrightarrow> x \<in> fst ` S"
  by force

lemma strncmp_short: "length a \<le> 63 \<Longrightarrow> length b \<le> 63 \<Longrightarrow> strncmp_eq 64 a b \<longleftrightarrow> a = b"
  by (simp add: strncmp_eq_def)

lemma name_trunc: "length (snprintf_s 64 name) \<le> 63"
  by (simp add: snprintf_s_def)

lemma snprintf_id: "length nm \<le> 63 \<Longrightarrow> snprintf_s 64 nm = nm"
  by (simp add: snprintf_s_def)

lemma list_de_map:
  assumes "length nm \<le> 63"
  shows "\<forall>x \<in> set rs. name_ok (fst x) \<Longrightarrow>
    list_de (map mk_node rs) nm = Some (map_option (\<lambda>a. mk_node (nm, a)) (map_of rs nm))"
  by (induction rs) (use assms in \<open>auto simp: mk_node_def strncmp_short name_ok_def\<close>)

lemma list_de_registry:
  assumes "name_ok nm" and "\<forall>x \<in> set rs. name_ok (fst x)"
  shows "list_de (list_init @ map mk_node rs) nm = Some (map_option (\<lambda>a. mk_node (nm, a)) (map_of rs nm))"
proof -
  have "\<not> strncmp_eq 64 (snprintf_s 64 ''list_head'') nm"
    using assms(1) by (auto simp: snprintf_s_def strncmp_eq_def name_ok_def)
  then show ?thesis using list_de_map [of nm rs] assms by (simp add: list_init_def name_ok_def)
qed

lemma unlink_map:
  assumes "length nm \<le> 63"
  shows "\<forall>x \<in> set rs. name_ok (fst x) \<Longrightarrow> distinct (map fst rs) \<Longrightarrow>
    unlink_name (map mk_node rs) nm =
      Some (if nm \<in> fst ` set rs then 1 else 0, map mk_node (filter (\<lambda>x. fst x \<noteq> nm) rs))"
proof (induction rs)
  case Nil
  then show ?case by simp
next
  case (Cons x rs)
  show ?case
  proof (cases "fst x = nm")
    case True
    then have "filter (\<lambda>x. fst x \<noteq> nm) rs = rs" using Cons.prems(2) by (auto simp: filter_id_conv dest: img_fst)
    then show ?thesis using True assms by (simp add: mk_node_def strncmp_short)
  next
    case False
    then show ?thesis using Cons assms by (auto simp: mk_node_def strncmp_short name_ok_def)
  qed
qed

lemma list_free_registry:
  assumes "name_ok nm" and "\<forall>x \<in> set rs. name_ok (fst x)" and "distinct (map fst rs)"
  shows "list_free (list_init @ map mk_node rs) nm =
    Some (if nm \<in> fst ` set rs then 1 else 0, list_init @ map mk_node (filter (\<lambda>x. fst x \<noteq> nm) rs))"
proof -
  have "\<not> strncmp_eq 64 (snprintf_s 64 ''list_head'') nm"
    using assms(1) by (auto simp: snprintf_s_def strncmp_eq_def name_ok_def)
  then show ?thesis using unlink_map [of nm rs] assms by (simp add: list_init_def list_free_def name_ok_def)
qed

lemma new_buffer_rep:
  assumes rep: "reg_rep g rs" and nm: "name_ok nm" "nm \<notin> fst ` set rs"
  shows "\<exists>g'. new_buffer nm sz nf p g = (Some (fresh g), g') \<and> reg_rep g' (rs @ [(nm, fresh g)]) \<and>
    heap g' = (heap g)(fresh g := Some (InitMemoryParam zero_smem nf sz p)) \<and> fresh g \<notin> snd ` set rs"
proof -
  have f: "fresh g \<notin> snd ` set rs" using rep by (auto simp: reg_rep_def)
  have tr: "snprintf_s 64 nm = nm" using nm(1) by (simp add: snprintf_id name_ok_def)
  show ?thesis
    using rep nm f tr unfolding reg_rep_def
    by (auto simp: new_buffer_def Let_def list_en_def mk_node_def less_Suc_eq split: if_splits)
qed

lemma create_rep:
  assumes rep: "reg_rep g rs" and nm: "name_ok nm"
  shows "CreateMallocMemory nm sz nf md p g =
    (case map_of rs nm of
       None \<Rightarrow> Some (new_buffer nm sz nf p g)
     | Some a \<Rightarrow> if md = IO_MODE_WRITE \<and> ucWriterCount (the (heap g a)) > 0 then Some (None, g) else Some (Some a, g))"
proof (cases "rs = []")
  case True
  then show ?thesis using rep by (simp add: reg_rep_def CreateMallocMemory_def)
next
  case False
  have hd: "g_memory_head g = Some (list_init @ map mk_node rs)" "\<forall>x \<in> set rs. name_ok (fst x)"
    using rep False by (auto simp: reg_rep_def)
  show ?thesis
  proof (cases "map_of rs nm")
    case None
    then show ?thesis using list_de_registry [OF nm hd(2)] hd(1) by (simp add: CreateMallocMemory_def)
  next
    case (Some a)
    then have "a \<in> snd ` set rs" by (force dest: map_of_SomeD)
    then have "heap g a \<noteq> None" using rep unfolding reg_rep_def by blast
    then show ?thesis using list_de_registry [OF nm hd(2)] hd(1) Some
      by (auto simp: CreateMallocMemory_def mk_node_def)
  qed
qed

lemma delete_rep:
  assumes rep: "reg_rep g rs" and m: "(nm, a) \<in> set rs"
  shows "\<exists>g'. DeleteMallocMemory nm g = Some (0, g') \<and> reg_rep g' (filter (\<lambda>x. fst x \<noteq> nm) rs) \<and>
    heap g' = (heap g)(a := None)"
proof -
  let ?rs = "filter (\<lambda>x. fst x \<noteq> nm) rs"
  have r: "g_memory_head g = Some (list_init @ map mk_node rs)" "\<forall>x \<in> set rs. name_ok (fst x)"
    "g_memory_nu g = int (Suc (length rs))" "distinct (map fst rs)" "distinct (map snd rs)"
    using rep m by (auto simp: reg_rep_def split: if_splits)
  have nm: "name_ok nm" "map_of rs nm = Some a" using r m by auto
  have fst: "nm \<in> fst ` set rs" using m by force
  have len: "length rs = Suc (length ?rs)"
  proof -
    have "filter (\<lambda>x. fst x = nm) rs = [(nm, a)]" using r(4) m
    proof (induction rs)
      case (Cons x rs)
      then show ?case by (cases x; cases "fst x = nm") (auto simp: filter_empty_conv dest: img_fst)
    qed simp
    then show ?thesis using sum_length_filter_compl [of "\<lambda>x. fst x = nm" rs] by simp
  qed
  have snd: "snd ` set ?rs = snd ` set rs - {a}"
  proof
    show "snd ` set ?rs \<subseteq> snd ` set rs - {a}"
    proof
      fix b assume "b \<in> snd ` set ?rs"
      then obtain n where n: "(n, b) \<in> set rs" "n \<noteq> nm" by auto
      then have "b \<noteq> a" using r(5) m by (metis distinct_map inj_onD prod.inject snd_conv)
      then show "b \<in> snd ` set rs - {a}" using n by force
    qed
    show "snd ` set rs - {a} \<subseteq> snd ` set ?rs"
    proof
      fix b assume "b \<in> snd ` set rs - {a}"
      then obtain n where n: "(n, b) \<in> set rs" "b \<noteq> a" by auto
      then have "n \<noteq> nm" using r(4) m by (metis eq_key_imp_eq_value)
      then show "b \<in> snd ` set ?rs" using n by force
    qed
  qed
  define h where "h = (heap g)(a := None)"
  define g' where "g' = (if ?rs = [] then g\<lparr>heap := h, g_memory_head := None, g_memory_nu := 0\<rparr>
    else g\<lparr>heap := h, g_memory_head := Some (list_init @ map mk_node ?rs), g_memory_nu := int (Suc (length ?rs))\<rparr>)"
  have "DeleteMallocMemory nm g = Some (0, g')"
    using r(1,3) nm list_de_registry [OF nm(1) r(2)] list_free_registry [OF nm(1) r(2,4)] fst len
    by (auto simp: DeleteMallocMemory_def mk_node_def Let_def g'_def h_def)
  moreover have "reg_rep g' ?rs"
  proof -
    have "heap g' b \<noteq> None \<longleftrightarrow> b \<in> snd ` set ?rs" for b
      unfolding snd using rep by (auto simp: g'_def h_def reg_rep_def)
    moreover have "distinct (map fst ?rs)" "distinct (map snd ?rs)"
      using r(4,5) by (simp_all add: distinct_map_filter)
    moreover have "fresh g' = fresh g" by (simp add: g'_def)
    ultimately show ?thesis using rep unfolding reg_rep_def by (auto simp: g'_def)
  qed
  ultimately show ?thesis by (auto simp: g'_def h_def)
qed

section \<open>Opening, closing and using buffers\<close>

lemma cover_loop_counts:
  "cover_loop k i s e m = Some m' \<Longrightarrow>
   ucReaderCount m' = ucReaderCount m \<and> ucWriterCount m' = ucWriterCount m"
  by (induction k arbitrary: i m)
     (auto simp: clear_valid_def Let_def split: option.splits if_splits)

lemma put_frame_counts:
  assumes "put_frame m bs ts ty pr = Some (e, m')"
  shows "ucReaderCount m' = ucReaderCount m \<and> ucWriterCount m' = ucWriterCount m"
  using assms
  by (auto simp: put_frame_def Let_def CheckBuffDataCover_def dest!: cover_loop_counts
      split: if_splits option.splits prod.splits)

text \<open>The states reachable by opening buffers (for reading or writing, under any name but that
  of the list head), writing frames to open ones and closing them. The readers of a buffer are
  counted in a byte, so the number of open contexts stays below 256.\<close>

inductive reach :: "registry \<Rightarrow> buff_context list \<Rightarrow> bool" where
  init: "reach empty_registry []"
| create: "reach g cs \<Longrightarrow> length cs < 255 \<Longrightarrow> snprintf_s 64 name \<noteq> ''list_head'' \<Longrightarrow>
    CreateStreamBuff sz name ident nf md bt p g = Some (co, g') \<Longrightarrow>
    reach g' (case co of None \<Rightarrow> cs | Some c \<Rightarrow> c # cs)"
| use: "reach g cs \<Longrightarrow> c \<in> set cs \<Longrightarrow> heap g (bc_buf c) = Some m \<Longrightarrow>
    put_frame m bs ts ty pr = Some (e, m') \<Longrightarrow> reach (g\<lparr>heap := (heap g)(bc_buf c := Some m')\<rparr>) cs"
| delete: "reach g cs \<Longrightarrow> c \<in> set cs \<Longrightarrow> DeleteStreamBuff c g = Some (r, g') \<Longrightarrow>
    reach g' (remove1 c cs)"

lemma users_Cons [simp]:
  "users md (c # cs) a = users md cs a + (if bc_buf c = a \<and> bc_mode c = md then 1 else 0)"
  by (simp add: users_def)

lemma users_remove1:
  "c \<in> set cs \<Longrightarrow> users md (remove1 c cs) a = users md cs a - (if bc_buf c = a \<and> bc_mode c = md then 1 else 0)"
  by (simp add: users_def filter_remove1 length_remove1)

lemma users_pos: "c \<in> set cs \<Longrightarrow> 0 < users (bc_mode c) cs (bc_buf c)"
  by (auto simp: users_def filter_empty_conv)

lemma users_le: "users md cs a \<le> length cs"
  by (simp add: users_def)

lemma users_none: "\<forall>c \<in> set cs. bc_buf c \<noteq> a \<Longrightarrow> users md cs a = 0"
  by (simp add: users_def filter_empty_conv)

lemma reg_rep_heap:
  "reg_rep g rs \<Longrightarrow> a \<in> snd ` set rs \<Longrightarrow> reg_rep (g\<lparr>heap := (heap g)(a := Some m)\<rparr>) rs"
  by (auto simp: reg_rep_def)

lemma open_keeps:
  assumes rep: "reg_rep g rs" and ok: "ctx_ok g cs rs" and a: "(nm, a) \<in> set rs"
    and m: "heap g a = Some m" and len: "length cs < 255"
    and c: "bc_name c = nm" "bc_buf c = a" "bc_mode c = IO_MODE_WRITE \<Longrightarrow> ucWriterCount m = 0"
  defines "m1 \<equiv> (if bc_mode c = IO_MODE_READ then m\<lparr>ucReaderCount := (ucReaderCount m + 1) mod 256\<rparr>
    else m\<lparr>ucWriterCount := (ucWriterCount m + 1) mod 256\<rparr>)"
  shows "reg_rep (g\<lparr>heap := (heap g)(a := Some m1)\<rparr>) rs \<and> ctx_ok (g\<lparr>heap := (heap g)(a := Some m1)\<rparr>) (c # cs) rs"
proof -
  have aS: "a \<in> snd ` set rs" using a by force
  then have "ucReaderCount m = users IO_MODE_READ cs a" "ucWriterCount m = users IO_MODE_WRITE cs a"
    using ok m by (auto simp: ctx_ok_def)
  moreover have "users IO_MODE_READ cs a < 255" using users_le [of IO_MODE_READ cs a] len by simp
  ultimately have "ctx_ok (g\<lparr>heap := (heap g)(a := Some m1)\<rparr>) (c # cs) rs"
    using ok a c unfolding ctx_ok_def by (cases "bc_mode c") (auto simp: m1_def)
  then show ?thesis using reg_rep_heap [OF rep aS] by blast
qed

lemma create_opens:
  assumes "sz \<noteq> 0" and "CreateMallocMemory (snprintf_s 64 name) sz nf md
      (if md = IO_MODE_WRITE then (case p of None \<Rightarrow> 0 | Some p \<Rightarrow> p) else 0) g = Some (Some a, g1)"
    and "heap g1 a = Some m" and "md = IO_MODE_WRITE \<Longrightarrow> ucWriterCount m = 0"
  shows "\<exists>c. CreateStreamBuff sz name ident nf md bt p g =
      Some (Some c, g1\<lparr>heap := (heap g1)(a := Some (if bc_mode c = IO_MODE_READ
         then m\<lparr>ucReaderCount := (ucReaderCount m + 1) mod 256\<rparr>
         else m\<lparr>ucWriterCount := (ucWriterCount m + 1) mod 256\<rparr>))\<rparr>) \<and>
    bc_buf c = a \<and> bc_name c = snprintf_s 64 name \<and> bc_mode c = md"
  using assms by (cases md) (simp_all add: CreateStreamBuff_def Let_def)

lemma create_keeps:
  assumes rep: "reg_rep g rs" and ok: "ctx_ok g cs rs" and len: "length cs < 255"
    and nm: "snprintf_s 64 name \<noteq> ''list_head''"
    and cr: "CreateStreamBuff sz name ident nf md bt p g = Some (co, g')"
  shows "\<exists>rs'. reg_rep g' rs' \<and> ctx_ok g' (case co of None \<Rightarrow> cs | Some c \<Rightarrow> c # cs) rs'"
proof (cases "sz = 0")
  case True
  then show ?thesis using rep ok cr by (auto simp: CreateStreamBuff_def)
next
  case sz: False
  define n where "n = snprintf_s 64 name"
  have n: "name_ok n" using nm name_trunc by (simp add: name_ok_def n_def)
  define src where "src = (if md = IO_MODE_WRITE then (case p of None \<Rightarrow> 0 | Some p \<Rightarrow> p) else 0)"
  note cm = create_rep [OF rep n, of sz nf md src]
  show ?thesis
  proof (cases "map_of rs n")
    case None
    then have nn: "n \<notin> fst ` set rs" by (simp add: map_of_eq_None_iff)
    let ?a = "fresh g" and ?m = "InitMemoryParam zero_smem nf sz src"
    obtain g1 where g1: "new_buffer n sz nf src g = (Some ?a, g1)" "reg_rep g1 (rs @ [(n, ?a)])"
      "heap g1 = (heap g)(?a := Some ?m)" "?a \<notin> snd ` set rs"
      using new_buffer_rep [OF rep n nn] by blast
    have free: "users mo cs ?a = 0" for mo
      using ok g1(4) by (intro users_none) (force simp: ctx_ok_def)
    have m0: "ucReaderCount ?m = 0" "ucWriterCount ?m = 0" by (simp_all add: InitMemoryParam_def Let_def)
    have "CreateMallocMemory n sz nf md src g = Some (Some ?a, g1)" using cm None g1(1) by simp
    from create_opens [OF sz this [unfolded n_def src_def], of ?m ident bt] obtain c where
      c: "co = Some c" "bc_buf c = ?a" "bc_name c = n" "bc_mode c = md"
      "g' = g1\<lparr>heap := (heap g1)(?a := Some (if md = IO_MODE_READ then ?m\<lparr>ucReaderCount := 1\<rparr>
         else ?m\<lparr>ucWriterCount := 1\<rparr>))\<rparr>"
      using cr g1(3) m0 by (auto simp: n_def)
    have "reg_rep g' (rs @ [(n, ?a)])" unfolding c(5) by (rule reg_rep_heap [OF g1(2)]) simp
    moreover have "ctx_ok g' (c # cs) (rs @ [(n, ?a)])"
      using ok c g1(3,4) free m0 unfolding ctx_ok_def by (cases md) auto
    ultimately show ?thesis using c(1) by auto
  next
    case (Some a)
    then have a: "(n, a) \<in> set rs" by (rule map_of_SomeD)
    then obtain m where m: "heap g a = Some m" "ucWriterCount m = users IO_MODE_WRITE cs a"
      using ok by (force simp: ctx_ok_def)
    show ?thesis
    proof (cases "md = IO_MODE_WRITE \<and> ucWriterCount m > 0")
      case True
      then have "CreateMallocMemory n sz nf md src g = Some (None, g)" using cm Some m by simp
      then have "co = None" "g' = g"
        using cr sz unfolding n_def src_def by (simp_all add: CreateStreamBuff_def Let_def)
      then show ?thesis using rep ok by auto
    next
      case False
      have "CreateMallocMemory n sz nf md src g = Some (Some a, g)" using cm Some m(1) False by auto
      from create_opens [OF sz this [unfolded n_def src_def] m(1), of ident bt] obtain c where
        c: "co = Some c" "bc_buf c = a" "bc_name c = n" "bc_mode c = md"
        "g' = g\<lparr>heap := (heap g)(a := Some (if bc_mode c = IO_MODE_READ
           then m\<lparr>ucReaderCount := (ucReaderCount m + 1) mod 256\<rparr>
           else m\<lparr>ucWriterCount := (ucWriterCount m + 1) mod 256\<rparr>))\<rparr>"
        using cr False by (auto simp: n_def)
      show ?thesis using open_keeps [OF rep ok a m(1) len c(3,2)] False c(1,4,5) by auto
    qed
  qed
qed

lemma delete_keeps:
  assumes rep: "reg_rep g rs" and ok: "ctx_ok g cs rs" and c: "c \<in> set cs" and len: "length cs < 256"
  shows "\<exists>r g' rs'. DeleteStreamBuff c g = Some (r, g') \<and> reg_rep g' rs' \<and> ctx_ok g' (remove1 c cs) rs'"
proof -
  let ?a = "bc_buf c" and ?R = "users IO_MODE_READ cs (bc_buf c)" and ?W = "users IO_MODE_WRITE cs (bc_buf c)"
  have a: "(bc_name c, ?a) \<in> set rs" "?a \<in> snd ` set rs" using ok c by (force simp: ctx_ok_def)+
  obtain m where m: "heap g ?a = Some m" "ucReaderCount m = ?R" "ucWriterCount m = ?W" "?W \<le> 1"
    using ok a(2) by (auto simp: ctx_ok_def)
  have le: "?R < 256" using users_le [of IO_MODE_READ cs ?a] len by simp
  define m1 where "m1 = (if bc_mode c = IO_MODE_WRITE then m\<lparr>ucWriterCount := (ucWriterCount m + 255) mod 256\<rparr>
      else m\<lparr>ucReaderCount := (ucReaderCount m + 255) mod 256\<rparr>)"
  have dec: "(x + 255) mod 256 = x - 1" if "0 < x" "x < 256" for x :: nat
    using that by (cases x) simp_all
  have m1: "ucReaderCount m1 = users IO_MODE_READ (remove1 c cs) ?a"
    "ucWriterCount m1 = users IO_MODE_WRITE (remove1 c cs) ?a"
    using m le users_pos [OF c] dec by (cases "bc_mode c"; simp add: m1_def users_remove1 [OF c])+
  define g1 where "g1 = g\<lparr>heap := (heap g)(?a := Some m1)\<rparr>"
  have rep1: "reg_rep g1 rs" unfolding g1_def by (rule reg_rep_heap [OF rep a(2)])
  have others: "users mo (remove1 c cs) b = users mo cs b" if "b \<noteq> ?a" for mo b
    using that by (simp add: users_remove1 [OF c])
  show ?thesis
  proof (cases "ucReaderCount m1 = 0 \<and> ucWriterCount m1 = 0")
    case False
    have "DeleteStreamBuff c g = Some (0, g1)"
      using m(1) False by (auto simp: DeleteStreamBuff_def Let_def m1_def [symmetric] g1_def)
    moreover have "ctx_ok g1 (remove1 c cs) rs"
      unfolding ctx_ok_def
    proof (intro conjI ballI)
      fix d assume "d \<in> set (remove1 c cs)"
      then show "(bc_name d, bc_buf d) \<in> set rs" using ok notin_set_remove1 by (force simp: ctx_ok_def)
    next
      fix b assume b: "b \<in> snd ` set rs"
      have "users IO_MODE_WRITE (remove1 c cs) ?a \<le> 1" using m(4) by (simp add: users_remove1 [OF c])
      then show "\<exists>m. heap g1 b = Some m \<and> ucReaderCount m = users IO_MODE_READ (remove1 c cs) b \<and>
          ucWriterCount m = users IO_MODE_WRITE (remove1 c cs) b \<and> users IO_MODE_WRITE (remove1 c cs) b \<le> 1 \<and>
          0 < users IO_MODE_READ (remove1 c cs) b + users IO_MODE_WRITE (remove1 c cs) b"
        using ok b m1 False others by (cases "b = ?a") (auto simp: ctx_ok_def g1_def)
    qed
    ultimately show ?thesis using rep1 by blast
  next
    case True
    obtain g2 where g2: "DeleteMallocMemory (bc_name c) g1 = Some (0, g2)"
      "reg_rep g2 (filter (\<lambda>x. fst x \<noteq> bc_name c) rs)" "heap g2 = (heap g1)(?a := None)"
      using delete_rep [OF rep1 a(1)] by blast
    have "DeleteStreamBuff c g = Some (0, g2)"
      using m(1) True g2(1) by (simp add: DeleteStreamBuff_def Let_def m1_def [symmetric] g1_def [symmetric])
    moreover have "ctx_ok g2 (remove1 c cs) (filter (\<lambda>x. fst x \<noteq> bc_name c) rs)"
      unfolding ctx_ok_def
    proof (intro conjI ballI)
      fix d assume d: "d \<in> set (remove1 c cs)"
      then have d': "(bc_name d, bc_buf d) \<in> set rs" using ok notin_set_remove1 by (force simp: ctx_ok_def)
      have "bc_name d \<noteq> bc_name c"
      proof
        assume "bc_name d = bc_name c"
        moreover have "distinct (map fst rs)" using rep by (simp add: reg_rep_def)
        ultimately have "bc_buf d = ?a" using d' a(1) by (metis eq_key_imp_eq_value)
        then show False using users_pos [OF d] m1 True by (cases "bc_mode d") auto
      qed
      then show "(bc_name d, bc_buf d) \<in> set (filter (\<lambda>x. fst x \<noteq> bc_name c) rs)" using d' by simp
    next
      fix b assume "b \<in> snd ` set (filter (\<lambda>x. fst x \<noteq> bc_name c) rs)"
      then obtain n where n: "(n, b) \<in> set rs" "n \<noteq> bc_name c" by auto
      have "distinct (map snd rs)" using rep by (simp add: reg_rep_def)
      then have "b \<noteq> ?a" using n a(1) by (metis distinct_map inj_onD prod.inject snd_conv)
      then show "\<exists>m. heap g2 b = Some m \<and> ucReaderCount m = users IO_MODE_READ (remove1 c cs) b \<and>
          ucWriterCount m = users IO_MODE_WRITE (remove1 c cs) b \<and> users IO_MODE_WRITE (remove1 c cs) b \<le> 1 \<and>
          0 < users IO_MODE_READ (remove1 c cs) b + users IO_MODE_WRITE (remove1 c cs) b"
        using ok n(1) others g2(3) by (force simp: ctx_ok_def g1_def)
    qed
    ultimately show ?thesis using g2(2) by blast
  qed
qed

lemma reach_rep:
  "reach g cs \<Longrightarrow> (\<exists>rs. reg_rep g rs \<and> ctx_ok g cs rs) \<and> length cs < 256"
proof (induction rule: reach.induct)
  case init
  then show ?case by (auto simp: reg_rep_def ctx_ok_def empty_registry_def intro!: exI [of _ "[]"])
next
  case (create g cs name sz ident nf md bt p co g')
  then obtain rs where "reg_rep g rs" "ctx_ok g cs rs" by blast
  from create_keeps [OF this create.hyps(2-4)] create.hyps(2) show ?case
    by (cases co) auto
next
  case (use g cs c m bs ts ty pr e m')
  then obtain rs where rs: "reg_rep g rs" "ctx_ok g cs rs" by blast
  have a: "bc_buf c \<in> snd ` set rs" using rs(2) use.hyps(2) by (force simp: ctx_ok_def)
  have "ctx_ok (g\<lparr>heap := (heap g)(bc_buf c := Some m')\<rparr>) cs rs"
    using rs(2) put_frame_counts [OF use.hyps(4)] use.hyps(3) unfolding ctx_ok_def by auto
  then show ?case using reg_rep_heap [OF rs(1) a] use.IH by blast
next
  case (delete g cs c r g')
  then show ?case using delete_keeps [of g _ cs c] by (fastforce simp: length_remove1)
qed

text \<open>C3: No buffer is freed under its users and none is leaked: in every state reached by
  opening, using and closing contexts, each open context has its buffer allocated and can be
  closed, a buffer has at most one writer, two contexts share a buffer exactly when their
  (truncated) names agree, and once all are closed the registry and the heap are empty.\<close>

theorem buffers_live_with_contexts:
  assumes "reach g cs"
  shows "(\<forall>c \<in> set cs. heap g (bc_buf c) \<noteq> None \<and> DeleteStreamBuff c g \<noteq> None) \<and>
    (\<forall>a. length (filter (\<lambda>c. bc_buf c = a \<and> bc_mode c = IO_MODE_WRITE) cs) \<le> 1) \<and>
    (\<forall>c \<in> set cs. \<forall>d \<in> set cs. bc_buf c = bc_buf d \<longleftrightarrow> bc_name c = bc_name d) \<and>
    (cs = [] \<longrightarrow> g_memory_head g = None \<and> g_memory_nu g = 0 \<and> heap g = (\<lambda>_. None))"
proof -
  obtain rs where rep: "reg_rep g rs" and ok: "ctx_ok g cs rs" and len: "length cs < 256"
    using reach_rep [OF assms] by blast
  have mem: "(bc_name c, bc_buf c) \<in> set rs" if "c \<in> set cs" for c using ok that by (auto simp: ctx_ok_def)
  have inj: "distinct (map fst rs)" "distinct (map snd rs)" using rep by (auto simp: reg_rep_def)
  have "heap g (bc_buf c) \<noteq> None \<and> DeleteStreamBuff c g \<noteq> None" if "c \<in> set cs" for c
  proof -
    have "bc_buf c \<in> snd ` set rs" using mem [OF that] by force
    then show ?thesis using delete_keeps [OF rep ok that len] rep by (auto simp: reg_rep_def)
  qed
  moreover have "users IO_MODE_WRITE cs a \<le> 1" for a
  proof (cases "a \<in> snd ` set rs")
    case True
    then show ?thesis using ok by (auto simp: ctx_ok_def)
  next
    case False
    then have "users IO_MODE_WRITE cs a = 0" using mem by (intro users_none) force
    then show ?thesis by simp
  qed
  moreover have "bc_buf c = bc_buf d \<longleftrightarrow> bc_name c = bc_name d" if "c \<in> set cs" "d \<in> set cs" for c d
    using mem [OF that(1)] mem [OF that(2)] inj
    by (metis distinct_map eq_key_imp_eq_value inj_onD prod.inject snd_conv)
  moreover have "rs = []" if "cs = []"
  proof (rule ccontr)
    assume "rs \<noteq> []"
    then obtain x where "x \<in> set rs" by (cases rs) auto
    then have "snd x \<in> snd ` set rs" by simp
    then show False using ok that unfolding ctx_ok_def users_def by force
  qed
  ultimately show ?thesis using rep unfolding users_def by (auto simp: reg_rep_def)
qed

theorem buffers_live_with_contexts_witness:
  "\<exists>g c. reach g [c] \<and> heap g (bc_buf c) \<noteq> None \<and> bc_name c = ''cam''"
proof -
  let ?c = "\<lparr>bc_name = ''cam'', bc_userid = ''u'', bc_mode = IO_MODE_WRITE, bc_buf = 1, bc_reader = None\<rparr>"
  obtain g where "CreateStreamBuff 16 ''cam'' ''u'' 3 IO_MODE_WRITE False None empty_registry = Some (Some ?c, g)"
    by (simp add: CreateStreamBuff_def Let_def CreateMallocMemory_def empty_registry_def new_buffer_def
        list_en_def snprintf_s_def InitMemoryParam_def zero_smem_def)
  then have r: "reach g [?c]"
    using reach.create [OF reach.init, of "''cam''" 16 "''u''" 3 IO_MODE_WRITE False None "Some ?c" g]
    by (simp add: snprintf_s_def)
  then show ?thesis using buffers_live_with_contexts [OF r] by (intro exI [of _ g] exI [of _ ?c]) simp
qed

end
