(* ===== verification/RingBuffer.thy ===== *)
theory RingBuffer
  imports StreamSort BuffRegistry
begin

text \<open>
  The ring buffer object of mgw-core/buffer/ring-buffer.c: a buffer context, and for a writer the
  sorter in front of it, with \<open>datacallback\<close> as the sorter's sink. The buffer contents
  \<open>m\<close> are shared between contexts and passed beside the object; \<open>now\<close> is the time of the
  call. Writing is under \<open>write_mutex\<close>, so each write is one step.
\<close>

section \<open>The sink\<close>

definition RING_BUFFER_MAX_FRAMESIZE :: nat where "RING_BUFFER_MAX_FRAMESIZE = 500 * 1024"

definition RING_BUFFER_SIZE_DEF :: nat where "RING_BUFFER_SIZE_DEF = 10 * 1024 * 1024"

definition RING_BUFFER_CAP_DEF :: nat where "RING_BUFFER_CAP_DEF = 30"

definition SORT_SIZE_DEF :: nat where "SORT_SIZE_DEF = 4 * 1024 * 1024"

definition SORT_TIME_DEF :: nat where "SORT_TIME_DEF = 20 * 1000"

definition datacallback :: "smem sink" where
  "datacallback m f =
     (case PutOneFrameToBuff (Some m) (Some (sf_frame f)) (length (sf_frame f)) (int (sf_timestamp f))
             (sf_type f) (sf_priority f) of
        Some (r, Some m') \<Rightarrow> Some (r, m')
      | _ \<Rightarrow> None)"

section \<open>The object\<close>

text \<open>The settings read by \<open>mgw_rb_create\<close>; integers are \<open>long long\<close>.\<close>

record rb_settings =
  st_io_mode :: string
  st_sort :: bool
  st_heap_mem :: bool
  st_read_by_time :: bool
  st_mem_size :: int
  st_capacity :: int
  st_min_delay :: int
  st_max_delay :: int
  st_stream_name :: string
  st_user_id :: string

text \<open>\<open>mgw_rb_get_default\<close>: keys it does not set read as 0 or the empty string.\<close>

definition mgw_rb_get_default :: rb_settings where
  "mgw_rb_get_default = \<lparr>st_io_mode = '''', st_sort = True, st_heap_mem = False, st_read_by_time = True,
     st_mem_size = int RING_BUFFER_SIZE_DEF, st_capacity = int RING_BUFFER_CAP_DEF,
     st_min_delay = 0, st_max_delay = 0, st_stream_name = '''', st_user_id = ''''\<rparr>"

record ring_buffer =
  rb_sort :: bool
  rb_refs :: int
  rb_bc :: buff_context
  rb_sort_list :: "ssbuf option"

definition mgw_rb_destroy :: "ring_buffer \<Rightarrow> registry \<Rightarrow> registry option" where
  "mgw_rb_destroy rb g = map_option snd (DeleteStreamBuff (rb_bc rb) g)"

text \<open>\<open>mgw_rb_create\<close>. An \<open>io_mode\<close> that is neither read nor write leaves the mode
  uninitialised. \<open>shm\<close> opens a context on shared memory, which is not modelled.\<close>

definition mgw_rb_create ::
  "(rb_settings \<Rightarrow> io_mode \<Rightarrow> registry \<Rightarrow> (buff_context option \<times> registry) option) \<Rightarrow>
   rb_settings option \<Rightarrow> nat option \<Rightarrow> nat \<Rightarrow> registry \<Rightarrow> (ring_buffer option \<times> registry) option" where
  "mgw_rb_create shm settings source now g =
     (let st = (case settings of None \<Rightarrow> mgw_rb_get_default | Some st \<Rightarrow> st);
          min_delay = nat (st_min_delay st mod 2 ^ 64);
          max_delay = nat (st_max_delay st mod 2 ^ 64)
      in case (if st_io_mode st = ''read'' then Some IO_MODE_READ
               else if st_io_mode st = ''write'' then Some IO_MODE_WRITE else None) of
           None \<Rightarrow> None
         | Some io \<Rightarrow>
             (case (if st_heap_mem st
                    then CreateStreamBuff (to_u32 (st_mem_size st)) (st_stream_name st) (st_user_id st)
                           (to_u32 (st_capacity st)) io (st_read_by_time st) source g
                    else shm st io g) of
                None \<Rightarrow> None
              | Some (None, g1) \<Rightarrow> Some (None, g1)
              | Some (Some bc, g1) \<Rightarrow>
                  (let rb = \<lparr>rb_sort = st_sort st, rb_refs = 0, rb_bc = bc, rb_sort_list = None\<rparr> in
                   if io = IO_MODE_WRITE \<and> st_sort st
                   then (case pCreateStreamSort (Some \<lparr>si_size = SORT_SIZE_DEF,
                                 si_sort_time = (if min_delay > 0 then wrap32 min_delay else SORT_TIME_DEF),
                                 si_max_sort_time = (if max_delay > 0 then wrap32 max_delay else 0)\<rparr>) now of
                           None \<Rightarrow> map_option (\<lambda>g2. (None, g2)) (mgw_rb_destroy rb g1)
                         | Some s \<Rightarrow> Some (Some (rb\<lparr>rb_sort_list := Some s\<rparr>), g1))
                   else Some (Some rb, g1))))"

definition mgw_rb_addref :: "ring_buffer \<Rightarrow> ring_buffer" where
  "mgw_rb_addref rb = rb\<lparr>rb_refs := rb_refs rb + 1\<rparr>"

text \<open>\<open>mgw_rb_release\<close>: the object is gone when the result is \<open>None\<close>.\<close>

definition mgw_rb_release :: "ring_buffer \<Rightarrow> registry \<Rightarrow> (ring_buffer option \<times> registry) option" where
  "mgw_rb_release rb g =
     (if rb_refs rb - 1 = - 1 then map_option (\<lambda>g'. (None, g')) (mgw_rb_destroy rb g)
      else Some (Some (rb\<lparr>rb_refs := rb_refs rb - 1\<rparr>), g))"

section \<open>Writing and reading packets\<close>

definition packet_frame :: "encoder_packet \<Rightarrow> frame_t" where
  "packet_frame p = (case pk_type p of
     ENCODER_VIDEO \<Rightarrow> if pk_keyframe p then FRAME_I else FRAME_P
   | ENCODER_AUDIO \<Rightarrow> FRAME_AAC)"

definition size_t_of :: "int \<Rightarrow> nat" where
  "size_t_of r = nat (r mod 2 ^ 64)"

text \<open>A sorter that has been destroyed under the object (after a failed reallocation) is
  \<open>None\<close>, and so is a packet with fewer bytes than its size.\<close>

definition mgw_rb_write_packet ::
  "ring_buffer option \<Rightarrow> smem \<Rightarrow> encoder_packet option \<Rightarrow> nat \<Rightarrow> (nat \<times> ring_buffer option \<times> smem) option" where
  "mgw_rb_write_packet data m packet now =
     (case (data, packet) of
        (Some rb, Some p) \<Rightarrow>
          if rb_sort rb
          then (case (rb_sort_list rb, pk_data p) of
                  (Some s, Some bs) \<Rightarrow>
                    if length bs < wrap32 (pk_size p) then None
                    else (case PutFrameStreamSort datacallback now
                                 \<lparr>sf_frame = take (wrap32 (pk_size p)) bs, sf_timestamp = nat (pk_pts p mod 2 ^ 64),
                                  sf_type = packet_frame p, sf_priority = pk_priority p\<rparr> s m of
                            None \<Rightarrow> None
                          | Some (r, s', m') \<Rightarrow>
                              Some (size_t_of r, Some (rb\<lparr>rb_sort_list := Some s'\<rparr>), m'))
                | _ \<Rightarrow> None)
          else (case PutOneFrameToBuff (Some m) (pk_data p) (wrap32 (pk_size p)) (pk_pts p) (packet_frame p) (pk_priority p) of
                  Some (r, Some m') \<Rightarrow> Some (size_t_of r, Some rb, m')
                | _ \<Rightarrow> None)
      | _ \<Rightarrow> Some (size_t_of (- 1), data, m))"

text \<open>\<open>mgw_rb_read_packet\<close>: \<open>pk_data\<close> of the argument is the caller's buffer.\<close>

definition i64 :: "nat \<Rightarrow> int" where
  "i64 n = (if n < 2 ^ 63 then int n else int n - 2 ^ 64)"

definition mgw_rb_read_packet ::
  "ring_buffer option \<Rightarrow> smem \<Rightarrow> encoder_packet option \<Rightarrow> (int \<times> ring_buffer option \<times> encoder_packet option) option" where
  "mgw_rb_read_packet data m packet =
     (case (data, packet) of
        (Some rb, Some p) \<Rightarrow>
          if bc_mode (rb_bc rb) = IO_MODE_WRITE then Some (FRAME_CONSUME_PERR, data, packet)
          else (case bc_reader (rb_bc rb) of
                  None \<Rightarrow> None
                | Some r \<Rightarrow>
                    (case GetOneFrameFromBuff (Some (r, m)) RING_BUFFER_MAX_FRAMESIZE
                            \<lparr>fo_data = (case pk_data p of None \<Rightarrow> [] | Some bs \<Rightarrow> bs),
                             fo_timestamp = nat (pk_pts p mod 2 ^ 64),
                             fo_type = FRAME_UNKNOWN, fo_priority = pk_priority p\<rparr> of
                       None \<Rightarrow> None
                     | Some (n, r', out) \<Rightarrow>
                         Some (n, Some (rb\<lparr>rb_bc := (rb_bc rb)\<lparr>bc_reader := r'\<rparr>\<rparr>),
                           Some (p\<lparr>pk_data := Some (fo_data out), pk_pts := i64 (fo_timestamp out),
                                   pk_type := (if fo_type out = FRAME_AAC then ENCODER_AUDIO else ENCODER_VIDEO),
                                   pk_keyframe := (fo_type out = FRAME_I \<or> fo_type out = FRAME_IDR),
                                   pk_priority := fo_priority out, pk_size := size_t_of n\<rparr>))))
      | _ \<Rightarrow> Some (FRAME_CONSUME_PERR, data, packet))"

section \<open>The ring is a sink of the sorter\<close>

definition log_of :: "sc_sortframe \<Rightarrow> log_frame" where
  "log_of f = (sf_frame f, sf_timestamp f, sf_type f, sf_priority f)"

lemma datacallback_put:
  "sf_timestamp f < 18446744073709551616 \<Longrightarrow>
   datacallback m f = put_frame m (sf_frame f) (sf_timestamp f) (sf_type f) (sf_priority f)"
  by (auto simp: datacallback_def PutOneFrameToBuff_def nat_mod_distrib split: option.splits)

text \<open>A buffer of \<open>n\<close> descriptors has taken the frames \<open>fs\<close>, none longer than
  \<open>l\<close>.\<close>

definition buff_log :: "nat \<Rightarrow> nat \<Rightarrow> smem \<Rightarrow> sc_sortframe list \<Rightarrow> bool" where
  "buff_log l n m fs \<longleftrightarrow> ring_inv m l (map log_of fs) \<and> uiMaxValidFrames m = n"

lemma datacallback_takes:
  assumes "buff_log l n m fs" and "good_frame l f" and "length fs < 2147483647"
  shows "\<exists>m'. datacallback m f = Some (0, m') \<and> buff_log l n m' (fs @ [f])"
proof -
  have inv: "ring_inv m l (map log_of fs)" "uiMaxValidFrames m = n" using assms(1) by (auto simp: buff_log_def)
  obtain m' where "put_frame m (sf_frame f) (sf_timestamp f) (sf_type f) (sf_priority f) = Some (0, m')"
    "ring_inv m' l (map log_of fs @ [(sf_frame f, sf_timestamp f, sf_type f, sf_priority f)])"
    "uiMaxValidFrames m' = n"
    using put_frame_ok [OF inv(1), of "sf_frame f" "sf_timestamp f" "sf_type f" "sf_priority f"] assms(2,3) inv(2)
    by (auto simp: good_frame_def)
  then show ?thesis using assms(2) by (simp add: datacallback_put good_frame_def log_of_def buff_log_def)
qed

interpretation ring: frame_sink datacallback "buff_log l n" "good_frame l" 2147483647
  for l n
  by unfold_locales (rule datacallback_takes)

text \<open>C4: Sorting and buffering together: whatever order the frames arrive in, as long as each
  finds room in the sorter and the sorter is not emptied, the frames that have left it form a log
  in time-stamp order, together with those still held they are exactly the frames taken in, and a
  reader in the window reads exactly that log, bytes and all.\<close>

theorem sorted_stream_delivers:
  assumes "pCreateStreamSort (Some i) t = Some s0" and "3 * l < si_size i" and "si_size i < 2147483648"
    and "sized n d l" and "l \<le> mx"
    and "sort_run datacallback (good_frame l) s0 (InitMemoryParam m0 n d p) acc s m"
    and "length acc < 2147483647"
  shows "\<exists>log. sorted (map sf_timestamp (log @ held s)) \<and> mset (log @ held s) = mset acc \<and>
    (\<forall>j r. u32RdFrameCount r + j \<le> length log \<and> length log < u32RdFrameCount r + n \<and>
       \<not> breIframe r \<and> \<not> bReadByTime r \<longrightarrow>
       read_frames j r m mx out = Some (take j (drop (u32RdFrameCount r) (map log_of log))))"
proof -
  have l: "0 < l" using assms(4) by (simp add: sized_def)
  have s0: "sort_inv l s0" "ss_nodes s0 = []" using created_inv [OF assms(1) l assms(2,3)] by auto
  have i0: "buff_log l n (InitMemoryParam m0 n d p) []" using init_inv [OF assms(4)] by (simp add: buff_log_def)
  obtain log where log: "ring_inv m l (map log_of log)" "uiMaxValidFrames m = n" "mset (log @ held s) = mset acc"
    "sorted (map sf_timestamp (log @ held s))"
    using ring.sort_run_ok [OF assms(6) s0 i0 _ assms(7)] unfolding buff_log_def by blast
  then show ?thesis using log read_frames_window [OF log(1)] assms(5) by fastforce
qed

theorem sorted_stream_delivers_witness:
  "let f = (\<lambda>t b. \<lparr>sf_frame = [b, 7], sf_timestamp = t, sf_type = FRAME_I, sf_priority = 1\<rparr>) in
   \<exists>s m log. sort_run datacallback (good_frame 2) (DefaultStreamSortBuff zero_ssbuf 4194304 20 0 0)
       (InitMemoryParam zero_smem 3 16 0) [f 10 1, f 30 2, f 20 3, f 50 4] s m \<and>
     sorted (map sf_timestamp (log @ held s)) \<and> mset (log @ held s) = mset [f 10 1, f 30 2, f 20 3, f 50 4] \<and>
     (\<forall>j r. u32RdFrameCount r + j \<le> length log \<and> length log < u32RdFrameCount r + 3 \<and>
       \<not> breIframe r \<and> \<not> bReadByTime r \<longrightarrow>
       read_frames j r m 2 \<lparr>fo_data = [], fo_timestamp = 0, fo_type = FRAME_I, fo_priority = 0\<rparr> =
         Some (take j (drop (u32RdFrameCount r) (map log_of log))))"
proof -
  let ?f = "\<lambda>t b. \<lparr>sf_frame = [b, 7], sf_timestamp = t, sf_type = FRAME_I, sf_priority = 1\<rparr> :: sc_sortframe"
  let ?s0 = "DefaultStreamSortBuff zero_ssbuf 4194304 20 0 0" and ?m0 = "InitMemoryParam zero_smem 3 16 0"
  let ?go = "\<lambda>f (s, m). Option.bind (PutFrameStreamSort datacallback 0 f s m)
    (\<lambda>(r, s', m'). if r = 0 \<and> ss_nodes s' \<noteq> [] \<and> uiPutFrameCount s < 9 \<and> has_room s 2 then Some (s', m') else None)"
  have "Option.bind (Option.bind (Option.bind (?go (?f 10 1) (?s0, ?m0)) (?go (?f 30 2)))
      (?go (?f 20 3))) (?go (?f 50 4)) \<noteq> None"
    by code_simp
  then obtain s1 m1 s2 m2 s3 m3 s4 m4 where go: "?go (?f 10 1) (?s0, ?m0) = Some (s1, m1)"
    "?go (?f 30 2) (s1, m1) = Some (s2, m2)" "?go (?f 20 3) (s2, m2) = Some (s3, m3)"
    "?go (?f 50 4) (s3, m3) = Some (s4, m4)"
    by (auto simp: bind_eq_Some_conv simp del: One_nat_def split: if_splits)
  have step: "sort_run datacallback (good_frame 2) ?s0 ?m0 (acc @ [f]) s' m'"
    if "sort_run datacallback (good_frame 2) ?s0 ?m0 acc s m" "?go f (s, m) = Some (s', m')" "good_frame 2 f"
      "length (sf_frame f) = 2" for acc s m f s' m'
    using sort_run.put [OF that(1,3), of 0 0 s' m'] that(2,4)
    by (auto simp: bind_eq_Some_conv split: if_splits)
  have g: "good_frame 2 (?f t b)" if "t < 100" for t b using that by (simp add: good_frame_def)
  have run: "sort_run datacallback (good_frame 2) ?s0 ?m0 [?f 10 1, ?f 30 2, ?f 20 3, ?f 50 4] s4 m4"
    using step [OF step [OF step [OF step [OF sort_run.start go(1)] go(2)] go(3)] go(4)] g by simp
  have cr: "pCreateStreamSort (Some \<lparr>si_size = 4194304, si_sort_time = 20, si_max_sort_time = 0\<rparr>) 0 = Some ?s0"
    by (simp add: pCreateStreamSort_def MIM_SORT_BUFF_LEN_def)
  show ?thesis unfolding Let_def
    using sorted_stream_delivers [OF cr _ _ _ _ run, of 2
      "\<lparr>fo_data = [], fo_timestamp = 0, fo_type = FRAME_I, fo_priority = 0\<rparr>"] run
    by (auto simp: sized_def)
qed

text \<open>Without the sorter a packet comes back as it was written: a reader that has caught up
  reads the next packet with its bytes, size, presentation time, kind, priority and, for video, its
  key-frame flag.\<close>

theorem packet_roundtrip:
  assumes "ring_inv m l fs" and "length fs + 1 < 2147483648" and "l \<le> RING_BUFFER_MAX_FRAMESIZE"
    and "\<not> rb_sort w" and "pk_data p = Some bs" and "pk_size p = length bs" and "0 < length bs" and "length bs \<le> l"
    and "- 9223372036854775808 \<le> pk_pts p" and "pk_pts p < 9223372036854775808"
    and "bc_mode (rb_bc rd) = IO_MODE_READ" and "bc_reader (rb_bc rd) = Some r"
    and "u32RdFrameCount r = length fs" and "\<not> breIframe r" and "\<not> bReadByTime r"
  shows "\<exists>w' m' rd' q. mgw_rb_write_packet (Some w) m (Some p) now = Some (0, w', m') \<and>
    mgw_rb_read_packet (Some rd) m' (Some p0) = Some (int (length bs), rd', Some q) \<and>
    pk_data q = pk_data p \<and> pk_size q = pk_size p \<and> pk_pts q = pk_pts p \<and> pk_type q = pk_type p \<and>
    pk_priority q = pk_priority p \<and> (pk_type p = ENCODER_VIDEO \<longrightarrow> pk_keyframe q = pk_keyframe p)"
proof -
  let ?t = "nat (pk_pts p mod 2 ^ 64)"
  have len: "length bs < 2147483648"
    using assms(3,8) by (simp add: RING_BUFFER_MAX_FRAMESIZE_def)
  obtain m' where put: "put_frame m bs ?t (packet_frame p) (pk_priority p) = Some (0, m')"
    and inv: "ring_inv m' l (fs @ [(bs, ?t, packet_frame p, pk_priority p)])"
    using put_frame_ok [OF assms(1,7,8,2), of ?t "packet_frame p" "pk_priority p"] by blast
  have N: "3 \<le> uiMaxValidFrames m'" using inv by (auto simp: ring_inv_def sized_def)
  have wr: "mgw_rb_write_packet (Some w) m (Some p) now = Some (0, Some w, m')"
    using assms(4-6) put len by (simp add: mgw_rb_write_packet_def PutOneFrameToBuff_def wrap_simps size_t_of_def)
  have ll: "length bs \<le> RING_BUFFER_MAX_FRAMESIZE" using assms(3,8) by simp
  have g: "get_frame r m' RING_BUFFER_MAX_FRAMESIZE out = Some (int (length bs), r\<lparr>u32RdFrameCount := Suc (length fs)\<rparr>,
      \<lparr>fo_data = bs, fo_timestamp = ?t, fo_type = packet_frame p, fo_priority = pk_priority p\<rparr>)" for out
    using get_frame_window [OF inv _ _ assms(13-15) _ ll, of ?t "packet_frame p" "pk_priority p" out] N by simp
  have t: "i64 ?t = pk_pts p"
  proof (cases "0 \<le> pk_pts p")
    case False
    have "pk_pts p mod 2 ^ 64 = (pk_pts p + 2 ^ 64) mod 2 ^ 64" by simp
    also have "\<dots> = pk_pts p + 2 ^ 64" using False assms(9) by (intro mod_pos_pos_trivial) auto
    finally show ?thesis using False assms(9) by (simp add: i64_def)
  qed (use assms(10) in \<open>simp add: i64_def\<close>)
  have "size_t_of (int (length bs)) = length bs" using len by (simp add: size_t_of_def nat_mod_distrib)
  then show ?thesis
    using wr g assms(5,6,11,12) t
    by (simp add: mgw_rb_read_packet_def GetOneFrameFromBuff_def packet_frame_def
        split: encoder_type.splits)
qed

theorem packet_roundtrip_witness:
  "let c = \<lparr>bc_name = ''cam'', bc_userid = ''u'', bc_mode = IO_MODE_READ, bc_buf = 1,
         bc_reader = Some \<lparr>u32RdFrameCount = 0, breIframe = False, bReadByTime = False\<rparr>\<rparr>;
       w = \<lparr>rb_sort = False, rb_refs = 0, rb_bc = c\<lparr>bc_mode := IO_MODE_WRITE, bc_reader := None\<rparr>, rb_sort_list = None\<rparr>;
       rd = w\<lparr>rb_bc := c\<rparr>;
       p = \<lparr>pk_data = Some [5, 6], pk_size = 2, pk_pts = - 40, pk_dts = 0, pk_type = ENCODER_VIDEO,
         pk_keyframe = True, pk_priority = 2\<rparr>
   in \<exists>w' m' rd' q. mgw_rb_write_packet (Some w) (InitMemoryParam zero_smem 3 16 0) (Some p) 0 = Some (0, w', m') \<and>
    mgw_rb_read_packet (Some rd) m' (Some p) = Some (2, rd', Some q) \<and>
    pk_data q = Some [5, 6] \<and> pk_size q = 2 \<and> pk_pts q = - 40 \<and> pk_type q = ENCODER_VIDEO \<and>
    pk_priority q = 2 \<and> pk_keyframe q"
proof -
  let ?c = "\<lparr>bc_name = ''cam'', bc_userid = ''u'', bc_mode = IO_MODE_READ, bc_buf = 1,
         bc_reader = Some \<lparr>u32RdFrameCount = 0, breIframe = False, bReadByTime = False\<rparr>\<rparr>"
  let ?w = "\<lparr>rb_sort = False, rb_refs = 0, rb_bc = ?c\<lparr>bc_mode := IO_MODE_WRITE, bc_reader := None\<rparr>, rb_sort_list = None\<rparr>"
  let ?p = "\<lparr>pk_data = Some [5, 6], pk_size = 2, pk_pts = - 40, pk_dts = 0, pk_type = ENCODER_VIDEO,
         pk_keyframe = True, pk_priority = 2\<rparr>"
  have "sized 3 16 2" by (simp add: sized_def)
  from packet_roundtrip [OF init_inv [OF this, of zero_smem 0], of ?w ?p "[5, 6]" "?w\<lparr>rb_bc := ?c\<rparr>"
      "\<lparr>u32RdFrameCount = 0, breIframe = False, bReadByTime = False\<rparr>" 0 ?p]
  show ?thesis by (simp add: Let_def RING_BUFFER_MAX_FRAMESIZE_def)
qed

end
