(* ===== verification/DArray.thy ===== *)
theory DArray
  imports Prelude
begin

text \<open>
  The dynamic array of mgw-core/util/darray.h and source/darray.c. A block of \<open>capacity\<close>
  elements is a list of that length whose entries are \<open>None\<close> while uninitialised; the NULL
  array is the empty block. Elements are values, so \<open>memcmp\<close> is equality, and the element of
  zero bytes is \<open>0\<close>. Reading an uninitialised element or leaving the block is \<open>None\<close>.
  An array argument is passed by value: the caller's array is not the one being changed. Sizes in
  bytes do not overflow.
\<close>

section \<open>Blocks\<close>

type_synonym 'a block = "'a option list"

definition blk_read :: "'a block \<Rightarrow> nat \<Rightarrow> nat \<Rightarrow> 'a block option" where
  "blk_read b i n = (if i + n \<le> length b then Some (take n (drop i b)) else None)"

definition blk_write :: "'a block \<Rightarrow> nat \<Rightarrow> 'a block \<Rightarrow> 'a block option" where
  "blk_write b i xs = (if i + length xs \<le> length b
     then Some (take i b @ xs @ drop (i + length xs) b) else None)"

definition blk_move :: "'a block \<Rightarrow> nat \<Rightarrow> nat \<Rightarrow> nat \<Rightarrow> 'a block option" where
  "blk_move b to from n = Option.bind (blk_read b from n) (blk_write b to)"

section \<open>Operations\<close>

record 'a darray =
  da_array :: "'a option list"
  da_num :: nat

definition da_capacity :: "'a darray \<Rightarrow> nat" where
  "da_capacity d = length (da_array d)"

definition darray_init :: "'a darray" where
  "darray_init = \<lparr>da_array = [], da_num = 0\<rparr>"

definition darray_free :: "'a darray \<Rightarrow> 'a darray" where
  "darray_free d = \<lparr>da_array = [], da_num = 0\<rparr>"

text \<open>\<open>darray_end\<close>: the index of the last element, or NULL.\<close>

definition darray_end :: "'a darray \<Rightarrow> nat option" where
  "darray_end d = (if da_num d = 0 then None else Some (da_num d - 1))"

definition darray_reserve :: "'a darray \<Rightarrow> nat \<Rightarrow> 'a darray option" where
  "darray_reserve d cap =
     (if cap = 0 \<or> cap \<le> da_num d then Some d
      else map_option (\<lambda>xs. d\<lparr>da_array := xs @ replicate (cap - da_num d) None\<rparr>)
             (blk_read (da_array d) 0 (da_num d)))"

definition darray_ensure_capacity :: "'a darray \<Rightarrow> nat \<Rightarrow> 'a darray" where
  "darray_ensure_capacity d new_size =
     (if new_size \<le> da_capacity d then d
      else (let new_cap = max new_size (if da_capacity d = 0 then new_size else da_capacity d * 2)
            in d\<lparr>da_array := da_array d @ replicate (new_cap - da_capacity d) None\<rparr>))"

definition darray_resize :: "'a::zero darray \<Rightarrow> nat \<Rightarrow> 'a darray option" where
  "darray_resize d sz =
     (if sz = da_num d then Some d
      else if sz = 0 then Some (d\<lparr>da_num := 0\<rparr>)
      else (let d1 = (darray_ensure_capacity d sz)\<lparr>da_num := sz\<rparr>
            in if da_num d < sz
               then map_option (\<lambda>b. d1\<lparr>da_array := b\<rparr>)
                      (blk_write (da_array d1) (da_num d) (replicate (sz - da_num d) (Some 0)))
               else Some d1))"

definition darray_copy_array :: "'a::zero darray \<Rightarrow> 'a list \<Rightarrow> 'a darray option" where
  "darray_copy_array d xs =
     Option.bind (darray_resize d (length xs)) (\<lambda>d1.
       map_option (\<lambda>b. d1\<lparr>da_array := b\<rparr>) (blk_write (da_array d1) 0 (map Some xs)))"

definition darray_copy :: "'a::zero darray \<Rightarrow> 'a darray \<Rightarrow> 'a darray option" where
  "darray_copy dst da =
     (if da_num da = 0 then Some (darray_free dst)
      else Option.bind (darray_resize dst (da_num da)) (\<lambda>d1.
        Option.bind (blk_read (da_array da) 0 (da_num da)) (\<lambda>xs.
          map_option (\<lambda>b. d1\<lparr>da_array := b\<rparr>) (blk_write (da_array d1) 0 xs))))"

definition darray_move :: "'a darray \<Rightarrow> 'a darray \<Rightarrow> 'a darray \<times> 'a darray" where
  "darray_move dst src = (src, \<lparr>da_array = [], da_num = 0\<rparr>)"

text \<open>\<open>darray_find\<close>: the loop from \<open>i\<close> on; the result \<open>None\<close> inside is
  \<open>DARRAY_INVALID\<close>.\<close>

fun find_loop :: "'a block \<Rightarrow> 'a \<Rightarrow> nat \<Rightarrow> nat \<Rightarrow> nat option option" where
  "find_loop b x i 0 = Some None"
| "find_loop b x i (Suc n) =
     (if i < length b
      then (case b ! i of None \<Rightarrow> None
            | Some y \<Rightarrow> if y = x then Some (Some i) else find_loop b x (Suc i) n)
      else None)"

definition darray_find :: "'a darray \<Rightarrow> 'a \<Rightarrow> nat \<Rightarrow> nat option option" where
  "darray_find d x idx =
     (if idx \<le> da_num d then find_loop (da_array d) x idx (da_num d - idx) else None)"

definition darray_push_back :: "'a darray \<Rightarrow> 'a \<Rightarrow> (nat \<times> 'a darray) option" where
  "darray_push_back d x =
     (let d1 = darray_ensure_capacity (d\<lparr>da_num := da_num d + 1\<rparr>) (da_num d + 1)
      in map_option (\<lambda>b. (da_num d1 - 1, d1\<lparr>da_array := b\<rparr>)) (blk_write (da_array d1) (da_num d1 - 1) [Some x]))"

definition darray_push_back_new :: "'a::zero darray \<Rightarrow> 'a darray option" where
  "darray_push_back_new d = map_option snd (darray_push_back d 0)"

text \<open>An \<open>array\<close> of \<open>None\<close> is the NULL pointer.\<close>

definition darray_push_back_array :: "'a::zero darray \<Rightarrow> 'a list option \<Rightarrow> (nat \<times> 'a darray) option" where
  "darray_push_back_array d array =
     (case array of
        None \<Rightarrow> Some (da_num d, d)
      | Some xs \<Rightarrow>
          if xs = [] then Some (da_num d, d)
          else Option.bind (darray_resize d (da_num d + length xs)) (\<lambda>d1.
            map_option (\<lambda>b. (da_num d, d1\<lparr>da_array := b\<rparr>)) (blk_write (da_array d1) (da_num d) (map Some xs))))"

definition darray_contents :: "'a darray \<Rightarrow> 'a list option" where
  "darray_contents d = map_option (map the) (blk_read (da_array d) 0 (da_num d))"

definition darray_push_back_darray :: "'a::zero darray \<Rightarrow> 'a darray \<Rightarrow> (nat \<times> 'a darray) option" where
  "darray_push_back_darray d da =
     (if da_array da = [] then Some (da_num d, d)
      else Option.bind (darray_contents da) (\<lambda>xs. darray_push_back_array d (Some xs)))"

definition darray_insert :: "'a darray \<Rightarrow> nat \<Rightarrow> 'a \<Rightarrow> 'a darray option" where
  "darray_insert d idx x =
     (if da_num d < idx then None
      else if idx = da_num d then map_option snd (darray_push_back d x)
      else (let d1 = darray_ensure_capacity (d\<lparr>da_num := da_num d + 1\<rparr>) (da_num d + 1)
            in Option.bind (blk_move (da_array d1) (idx + 1) idx (da_num d - idx)) (\<lambda>b.
                 map_option (\<lambda>b'. d1\<lparr>da_array := b'\<rparr>) (blk_write b idx [Some x]))))"

text \<open>\<open>darray_insert_new\<close> takes the address of the element before it makes room: when the
  block is moved, the following \<open>memmove\<close> and \<open>memset\<close> access freed memory.\<close>

definition darray_insert_new :: "'a::zero darray \<Rightarrow> nat \<Rightarrow> 'a darray option" where
  "darray_insert_new d idx =
     (if da_num d < idx then None
      else if idx = da_num d then darray_push_back_new d
      else if da_capacity d < da_num d + 1 then None
      else (let d1 = d\<lparr>da_num := da_num d + 1\<rparr>
            in Option.bind (blk_move (da_array d1) (idx + 1) idx (da_num d - idx)) (\<lambda>b.
                 map_option (\<lambda>b'. d1\<lparr>da_array := b'\<rparr>) (blk_write b idx [Some 0]))))"

definition darray_insert_array :: "'a::zero darray \<Rightarrow> nat \<Rightarrow> 'a list \<Rightarrow> 'a darray option" where
  "darray_insert_array d idx xs =
     (if xs = [] \<or> da_num d \<le> idx then None
      else Option.bind (darray_resize d (da_num d + length xs)) (\<lambda>d1.
        Option.bind (blk_move (da_array d1) (idx + length xs) idx (da_num d - idx)) (\<lambda>b.
          map_option (\<lambda>b'. d1\<lparr>da_array := b'\<rparr>) (blk_write b idx (map Some xs)))))"

definition darray_insert_darray :: "'a::zero darray \<Rightarrow> nat \<Rightarrow> 'a darray \<Rightarrow> 'a darray option" where
  "darray_insert_darray d idx da = Option.bind (darray_contents da) (darray_insert_array d idx)"

definition darray_erase :: "'a darray \<Rightarrow> nat \<Rightarrow> 'a darray option" where
  "darray_erase d idx =
     (if da_num d \<le> idx then None
      else if da_num d - 1 = 0 then Some (d\<lparr>da_num := 0\<rparr>)
      else map_option (\<lambda>b. d\<lparr>da_num := da_num d - 1, da_array := b\<rparr>)
             (blk_move (da_array d) idx (idx + 1) (da_num d - 1 - idx)))"

definition darray_erase_item :: "'a darray \<Rightarrow> 'a \<Rightarrow> 'a darray option" where
  "darray_erase_item d x =
     (case darray_find d x 0 of
        None \<Rightarrow> None
      | Some None \<Rightarrow> Some d
      | Some (Some i) \<Rightarrow> darray_erase d i)"

definition darray_erase_range :: "'a darray \<Rightarrow> nat \<Rightarrow> nat \<Rightarrow> 'a darray option" where
  "darray_erase_range d s e =
     (if s \<le> da_num d \<and> e \<le> da_num d \<and> s < e
      then (if e - s = 1 then darray_erase d s
            else if e - s = da_num d then Some (d\<lparr>da_num := 0\<rparr>)
            else map_option (\<lambda>b. d\<lparr>da_array := b, da_num := da_num d - (e - s)\<rparr>)
                   (blk_move (da_array d) s e (da_num d - e)))
      else None)"

definition darray_pop_back :: "'a darray \<Rightarrow> 'a darray option" where
  "darray_pop_back d = (if da_num d = 0 then None else darray_erase d (da_num d - 1))"

definition darray_join :: "'a::zero darray \<Rightarrow> 'a darray \<Rightarrow> ('a darray \<times> 'a darray) option" where
  "darray_join d da = map_option (\<lambda>x. (snd x, darray_free da)) (darray_push_back_darray d da)"

definition darray_split ::
  "'a::zero darray \<Rightarrow> 'a darray \<Rightarrow> 'a darray \<Rightarrow> nat \<Rightarrow> ('a darray \<times> 'a darray) option" where
  "darray_split dst1 dst2 da idx =
     (if da_num da < idx then None
      else Option.bind (darray_copy darray_init da) (\<lambda>tmp.
        Option.bind (darray_contents tmp) (\<lambda>xs.
          if da_num da = 0 then Some (darray_free dst1, darray_free dst2)
          else Option.bind (if idx \<noteq> 0 then darray_copy_array (darray_free dst1) xs else Some (darray_free dst1)) (\<lambda>d1.
            Option.bind (if idx < da_num tmp - 1 then darray_copy_array (darray_free dst2) (drop idx xs)
                         else Some (darray_free dst2)) (\<lambda>d2.
              Some (d1, d2))))))"

definition darray_move_item :: "'a darray \<Rightarrow> nat \<Rightarrow> nat \<Rightarrow> 'a darray option" where
  "darray_move_item d from to =
     (if from = to then Some d
      else Option.bind (blk_read (da_array d) from 1) (\<lambda>tmp.
        Option.bind (if to < from then blk_move (da_array d) (to + 1) to (from - to)
                     else blk_move (da_array d) from (from + 1) (to - from)) (\<lambda>b.
          map_option (\<lambda>b'. d\<lparr>da_array := b'\<rparr>) (blk_write b to tmp))))"

definition darray_swap :: "'a darray \<Rightarrow> nat \<Rightarrow> nat \<Rightarrow> 'a darray option" where
  "darray_swap d a b =
     (if da_num d \<le> a \<or> da_num d \<le> b then None
      else if a = b then Some d
      else Option.bind (blk_read (da_array d) a 1) (\<lambda>x.
        Option.bind (blk_read (da_array d) b 1) (\<lambda>y.
          Option.bind (blk_write (da_array d) a y) (\<lambda>c.
            map_option (\<lambda>c'. d\<lparr>da_array := c'\<rparr>) (blk_write c b x)))))"

section \<open>Arrays as lists\<close>

text \<open>The array \<open>d\<close> holds the elements \<open>xs\<close>.\<close>

definition da_rep :: "'a darray \<Rightarrow> 'a list \<Rightarrow> bool" where
  "da_rep d xs \<longleftrightarrow> da_num d = length xs \<and> (\<exists>rest. da_array d = map Some xs @ rest)"

lemma da_repI: "da_num d = length xs \<Longrightarrow> da_array d = map Some xs @ rest \<Longrightarrow> da_rep d xs"
  by (auto simp: da_rep_def)

lemma da_repE:
  assumes "da_rep d xs"
  obtains rest where "da_num d = length xs" "da_array d = map Some xs @ rest"
  using assms by (auto simp: da_rep_def)

lemma blk_read_mid: "n = length b \<Longrightarrow> i = length a \<Longrightarrow> blk_read (a @ b @ c) i n = Some b"
  by (simp add: blk_read_def)

lemma blk_write_mid: "length b = length b' \<Longrightarrow> i = length a \<Longrightarrow> blk_write (a @ b @ c) i b' = Some (a @ b' @ c)"
  by (simp add: blk_write_def)

lemma blk_read_one: "i < length b \<Longrightarrow> blk_read b i 1 = Some [b ! i]"
  by (simp add: blk_read_def take_Suc_conv_app_nth)

lemma blk_write_one: "i < length b \<Longrightarrow> blk_write b i [x] = Some (b[i := x])"
  by (simp add: blk_write_def upd_conv_take_nth_drop)

lemma blk_open:
  assumes "length u = length ys" and "n = length q" and "i = length p" and "k = length ys"
  shows "Option.bind (blk_move (p @ q @ u @ r) (i + k) i n) (\<lambda>b. blk_write b i ys) = Some (p @ ys @ q @ r)"
  using assms by (simp add: blk_move_def blk_read_def blk_write_def)

lemma blk_close:
  "i = length p \<Longrightarrow> k = length x \<Longrightarrow> n = length q \<Longrightarrow>
   \<exists>t. blk_move (p @ x @ q @ r) i (i + k) n = Some (p @ q @ t)"
  by (simp add: blk_move_def blk_read_def blk_write_def)

lemma ensure_capacity:
  "\<exists>pad. da_array (darray_ensure_capacity d n) = da_array d @ pad \<and> n \<le> length (da_array d @ pad) \<and>
     da_num (darray_ensure_capacity d n) = da_num d"
  by (auto simp: darray_ensure_capacity_def da_capacity_def Let_def max_def)

text \<open>Room for \<open>k\<close> more elements behind the contents.\<close>

lemma ensure_room:
  assumes "da_array d = map Some xs @ rest"
  obtains u pad where "da_array (darray_ensure_capacity d (length xs + k)) = map Some xs @ u @ pad" "length u = k"
proof -
  obtain p where p: "da_array (darray_ensure_capacity d (length xs + k)) = da_array d @ p"
    "length xs + k \<le> length (da_array d @ p)" using ensure_capacity by blast
  then have "k \<le> length (rest @ p)" using assms by simp
  moreover have "da_array (darray_ensure_capacity d (length xs + k)) =
      map Some xs @ take k (rest @ p) @ drop k (rest @ p)"
    unfolding append_take_drop_id using p(1) assms by simp
  moreover have "length (take k (rest @ p)) = k" using calculation(1) by simp
  ultimately show thesis by (intro that)
qed

lemma resize_grow:
  assumes "da_rep d xs" and "0 < k"
  obtains d' pad where "darray_resize d (length xs + k) = Some d'" "da_num d' = length xs + k"
    "da_array d' = map Some xs @ replicate k (Some 0) @ pad"
proof -
  obtain rest where d: "da_num d = length xs" "da_array d = map Some xs @ rest" using assms(1) by (rule da_repE)
  obtain u pad where u: "da_array (darray_ensure_capacity d (length xs + k)) = map Some xs @ u @ pad" "length u = k"
    using ensure_room [OF d(2)] by blast
  then show thesis
    using that [of "(darray_ensure_capacity d (length xs + k))\<lparr>da_num := length xs + k,
        da_array := map Some xs @ replicate k (Some 0) @ pad\<rparr>" pad] assms(2) d(1)
    by (simp add: darray_resize_def Let_def blk_write_mid)
qed

lemma resize_shrink:
  assumes "da_rep d xs" and "n \<le> length xs"
  shows "\<exists>d'. darray_resize d n = Some d' \<and> da_rep d' (take n xs) \<and> da_num d' = n"
proof -
  obtain rest where d: "da_num d = length xs" "da_array d = map Some xs @ rest" using assms(1) by (rule da_repE)
  obtain p where p: "da_array (darray_ensure_capacity d n) = da_array d @ p" using ensure_capacity by blast
  have m: "map Some xs = map Some (take n xs) @ map Some (drop n xs)" by (simp flip: map_append)
  consider "n = length xs" | "n = 0" "xs \<noteq> []" | "0 < n" "n < length xs" using assms(2) by fastforce
  then show ?thesis
  proof cases
    case 3
    then have "darray_resize d n = Some ((darray_ensure_capacity d n)\<lparr>da_num := n\<rparr>)"
      using d(1) by (simp add: darray_resize_def Let_def)
    then show ?thesis using 3 p d(2) m by (simp add: da_rep_def)
  qed (use d in \<open>auto simp: darray_resize_def da_rep_def\<close>)
qed

lemma resize_rep:
  assumes "da_rep d xs"
  shows "\<exists>d'. darray_resize d n = Some d' \<and> da_rep d' (take n xs @ replicate (n - length xs) 0)"
proof (cases "n \<le> length xs")
  case True
  then show ?thesis using resize_shrink [OF assms True] by auto
next
  case False
  then obtain d' pad where "darray_resize d (length xs + (n - length xs)) = Some d'" "da_num d' = length xs + (n - length xs)"
    "da_array d' = map Some xs @ replicate (n - length xs) (Some 0) @ pad"
    using resize_grow [OF assms, of "n - length xs"] by auto
  then show ?thesis using False by (auto simp: da_rep_def)
qed

lemma push_back_rep:
  assumes "da_rep d xs"
  shows "\<exists>d'. darray_push_back d x = Some (length xs, d') \<and> da_rep d' (xs @ [x])"
proof -
  obtain rest where d: "da_num d = length xs" "da_array d = map Some xs @ rest" using assms by (rule da_repE)
  let ?d = "d\<lparr>da_num := length xs + 1\<rparr>"
  obtain u pad where u: "da_array (darray_ensure_capacity ?d (length xs + 1)) = map Some xs @ u @ pad" "length u = 1"
    using ensure_room [of ?d xs rest 1] d(2) by auto
  have n: "da_num (darray_ensure_capacity ?d (length xs + 1)) = length xs + 1"
    using ensure_capacity [of ?d "length xs + 1"] by auto
  have "blk_write (map Some xs @ u @ pad) (length xs) [Some x] = Some (map Some xs @ [Some x] @ pad)"
    using u(2) by (intro blk_write_mid) simp_all
  then show ?thesis using u(1) n d(1) by (auto simp: darray_push_back_def Let_def da_rep_def)
qed

lemma push_back_array_rep:
  assumes "da_rep d xs"
  shows "\<exists>d'. darray_push_back_array d (Some ys) = Some (length xs, d') \<and> da_rep d' (xs @ ys)"
proof (cases "ys = []")
  case True
  then show ?thesis using assms by (auto simp: darray_push_back_array_def da_rep_def)
next
  case False
  obtain d1 pad where d1: "darray_resize d (length xs + length ys) = Some d1" "da_num d1 = length xs + length ys"
    "da_array d1 = map Some xs @ replicate (length ys) (Some 0) @ pad"
    using resize_grow [OF assms, of "length ys"] False by auto
  then show ?thesis using assms False
    by (auto simp: darray_push_back_array_def blk_write_mid da_rep_def)
qed

lemma insert_rep:
  assumes "da_rep d xs" and "idx \<le> length xs"
  shows "\<exists>d'. darray_insert d idx x = Some d' \<and> da_rep d' (take idx xs @ x # drop idx xs)"
proof (cases "idx = length xs")
  case True
  then show ?thesis using push_back_rep [OF assms(1), of x] assms(1) by (auto simp: darray_insert_def da_rep_def)
next
  case False
  obtain rest where d: "da_num d = length xs" "da_array d = map Some xs @ rest" using assms(1) by (rule da_repE)
  let ?d = "d\<lparr>da_num := length xs + 1\<rparr>" and ?p = "map Some (take idx xs)" and ?q = "map Some (drop idx xs)"
  obtain u pad where u: "da_array (darray_ensure_capacity ?d (length xs + 1)) = map Some xs @ u @ pad" "length u = 1"
    using ensure_room [of ?d xs rest 1] d(2) by auto
  have n: "da_num (darray_ensure_capacity ?d (length xs + 1)) = length xs + 1"
    using ensure_capacity [of ?d "length xs + 1"] by auto
  have "map Some xs = ?p @ ?q" by (simp flip: map_append)
  then have "Option.bind (blk_move (map Some xs @ u @ pad) (idx + 1) idx (length xs - idx)) (\<lambda>b. blk_write b idx [Some x])
      = Some (?p @ [Some x] @ ?q @ pad)"
    using blk_open [of u "[Some x]" "length xs - idx" ?q idx ?p 1 pad] u(2) assms(2) by simp
  then obtain b where b: "blk_move (map Some xs @ u @ pad) (idx + 1) idx (length xs - idx) = Some b"
    "blk_write b idx [Some x] = Some (?p @ [Some x] @ ?q @ pad)" by (auto simp: bind_eq_Some_conv)
  then show ?thesis
    using u(1) n d(1) False assms(2) by (auto simp: darray_insert_def Let_def da_rep_def)
qed

lemma insert_array_rep:
  assumes "da_rep d xs" and "idx < length xs" and "ys \<noteq> []"
  shows "\<exists>d'. darray_insert_array d idx ys = Some d' \<and> da_rep d' (take idx xs @ ys @ drop idx xs)"
proof -
  let ?p = "map Some (take idx xs)" and ?q = "map Some (drop idx xs)"
  obtain d1 pad where d1: "darray_resize d (length xs + length ys) = Some d1" "da_num d1 = length xs + length ys"
    "da_array d1 = map Some xs @ replicate (length ys) (Some 0) @ pad"
    using resize_grow [OF assms(1), of "length ys"] assms(3) by auto
  have "da_array d1 = ?p @ ?q @ replicate (length ys) (Some 0) @ pad"
    unfolding d1(3) append_assoc [symmetric] by (simp flip: map_append)
  then have "Option.bind (blk_move (da_array d1) (idx + length ys) idx (length xs - idx)) (\<lambda>b. blk_write b idx (map Some ys))
      = Some (?p @ map Some ys @ ?q @ pad)"
    by (simp only:, intro blk_open) (use assms(2) in simp_all)
  then obtain b where b: "blk_move (da_array d1) (idx + length ys) idx (length xs - idx) = Some b"
    "blk_write b idx (map Some ys) = Some (?p @ map Some ys @ ?q @ pad)" by (auto simp: bind_eq_Some_conv)
  then show ?thesis
    using d1(1,2) assms by (auto simp: darray_insert_array_def da_rep_def)
qed

lemma erase_rep:
  assumes "da_rep d xs" and "i < length xs"
  shows "\<exists>d'. darray_erase d i = Some d' \<and> da_rep d' (take i xs @ drop (Suc i) xs)"
proof -
  obtain rest where d: "da_num d = length xs" "da_array d = map Some xs @ rest" using assms(1) by (rule da_repE)
  show ?thesis
  proof (cases "length xs = 1")
    case True
    then show ?thesis using d assms(2) by (auto simp: darray_erase_def da_rep_def)
  next
    case False
    let ?p = "map Some (take i xs)" and ?q = "map Some (drop (Suc i) xs)"
    have "xs = take i xs @ xs ! i # drop (Suc i) xs" using assms(2) by (simp add: id_take_nth_drop)
    then have "map Some xs = ?p @ [Some (xs ! i)] @ ?q" by (metis append_Cons append_Nil list.map(2) map_append)
    then obtain t where "blk_move (da_array d) i (i + 1) (length xs - 1 - i) = Some (?p @ ?q @ t)"
      using blk_close [of i ?p 1 "[Some (xs ! i)]" "length xs - 1 - i" ?q rest] d(2) assms(2) by auto
    then show ?thesis using d(1) assms(2) False by (auto simp: darray_erase_def da_rep_def)
  qed
qed

lemma erase_range_rep:
  assumes "da_rep d xs" and "s < e" and "e \<le> length xs"
  shows "\<exists>d'. darray_erase_range d s e = Some d' \<and> da_rep d' (take s xs @ drop e xs)"
proof -
  obtain rest where d: "da_num d = length xs" "da_array d = map Some xs @ rest" using assms(1) by (rule da_repE)
  consider "e = Suc s" | "e \<noteq> Suc s" "e - s = length xs" | "e \<noteq> Suc s" "e - s \<noteq> length xs" by blast
  then show ?thesis
  proof cases
    case 1
    then show ?thesis using erase_rep [OF assms(1), of s] assms d(1) by (auto simp: darray_erase_range_def)
  next
    case 2
    then have "s = 0" "e = length xs" using assms by auto
    then show ?thesis using 2 d assms by (auto simp: darray_erase_range_def da_rep_def)
  next
    case 3
    let ?p = "map Some (take s xs)" and ?x = "map Some (take (e - s) (drop s xs))" and ?q = "map Some (drop e xs)"
    have "drop (e - s) (drop s xs) = drop e xs" using assms(2) by simp
    then have "xs = take s xs @ take (e - s) (drop s xs) @ drop e xs" by (metis append_take_drop_id)
    then have "map Some xs = ?p @ ?x @ ?q" by (metis map_append)
    then obtain t where "blk_move (da_array d) s (s + (e - s)) (length xs - e) = Some (?p @ ?q @ t)"
      using blk_close [of s ?p "e - s" ?x "length xs - e" ?q rest] d(2) assms by auto
    then show ?thesis using d(1) assms 3 by (auto simp: darray_erase_range_def da_rep_def)
  qed
qed

lemma find_loop_spec:
  "b = map Some xs @ rest \<Longrightarrow> i + n = length xs \<Longrightarrow>
   find_loop b x i n = Some (find (\<lambda>j. xs ! j = x) [i..<length xs])"
proof (induction n arbitrary: i)
  case 0
  then show ?case by simp
next
  case (Suc n)
  then have "[i..<length xs] = i # [Suc i..<length xs]" by (simp add: upt_conv_Cons)
  then show ?case using Suc by (simp add: nth_append)
qed

lemma find_rep:
  "da_rep d xs \<Longrightarrow> i \<le> length xs \<Longrightarrow> darray_find d x i = Some (find (\<lambda>j. xs ! j = x) [i..<length xs])"
  by (auto simp: darray_find_def da_rep_def find_loop_spec)

lemma swap_rep:
  assumes "da_rep d xs" and "a < length xs" and "b < length xs"
  shows "\<exists>d'. darray_swap d a b = Some d' \<and> da_rep d' (xs[a := xs ! b, b := xs ! a])"
proof -
  obtain rest where d: "da_num d = length xs" "da_array d = map Some xs @ rest" using assms(1) by (rule da_repE)
  show ?thesis
  proof (cases "a = b")
    case True
    then show ?thesis using assms by (auto simp: darray_swap_def da_rep_def)
  next
    case False
    have "(map Some xs @ rest)[a := Some (xs ! b), b := Some (xs ! a)] = map Some (xs[a := xs ! b, b := xs ! a]) @ rest"
      using assms by (simp add: list_update_append map_update)
    then show ?thesis using d assms(2,3) False
      by (auto simp: darray_swap_def blk_read_one blk_write_one nth_append da_rep_def simp del: One_nat_def)
  qed
qed

lemma contents_rep: "da_rep d xs \<Longrightarrow> darray_contents d = Some xs"
  by (auto simp: da_rep_def darray_contents_def blk_read_def)

lemma copy_array_rep:
  assumes "da_rep d ys"
  shows "\<exists>d'. darray_copy_array d xs = Some d' \<and> da_rep d' xs"
proof -
  obtain d1 where d1: "darray_resize d (length xs) = Some d1"
    "da_rep d1 (take (length xs) ys @ replicate (length xs - length ys) 0)"
    using resize_rep [OF assms, of "length xs"] by blast
  then obtain rest where r: "da_num d1 = length xs"
    "da_array d1 = [] @ map Some (take (length xs) ys @ replicate (length xs - length ys) 0) @ rest"
    by (auto simp: da_rep_def)
  have "blk_write (da_array d1) 0 (map Some xs) = Some ([] @ map Some xs @ rest)"
    unfolding r(2) by (rule blk_write_mid) simp_all
  then show ?thesis using d1(1) r(1) by (auto simp: darray_copy_array_def da_rep_def)
qed

section \<open>Properties\<close>

text \<open>C5: The array operations implement the list operations: appending, inserting, erasing,
  resizing (with zeroed new elements), searching and swapping, with every read and write inside
  the block.\<close>

theorem darray_implements_lists:
  fixes d :: "'a::zero darray"
  assumes "da_rep d xs"
  shows "(\<exists>d'. darray_push_back d x = Some (length xs, d') \<and> da_rep d' (xs @ [x])) \<and>
    (\<exists>d'. darray_push_back_array d (Some ys) = Some (length xs, d') \<and> da_rep d' (xs @ ys)) \<and>
    (\<exists>d'. darray_resize d n = Some d' \<and> da_rep d' (take n xs @ replicate (n - length xs) 0)) \<and>
    (i \<le> length xs \<longrightarrow> (\<exists>d'. darray_insert d i x = Some d' \<and> da_rep d' (take i xs @ x # drop i xs))) \<and>
    (i < length xs \<and> ys \<noteq> [] \<longrightarrow>
       (\<exists>d'. darray_insert_array d i ys = Some d' \<and> da_rep d' (take i xs @ ys @ drop i xs))) \<and>
    (i < length xs \<longrightarrow> (\<exists>d'. darray_erase d i = Some d' \<and> da_rep d' (take i xs @ drop (Suc i) xs))) \<and>
    (i < j \<and> j \<le> length xs \<longrightarrow>
       (\<exists>d'. darray_erase_range d i j = Some d' \<and> da_rep d' (take i xs @ drop j xs))) \<and>
    (i \<le> length xs \<longrightarrow> darray_find d x i = Some (find (\<lambda>k. xs ! k = x) [i..<length xs])) \<and>
    (i < length xs \<and> j < length xs \<longrightarrow>
       (\<exists>d'. darray_swap d i j = Some d' \<and> da_rep d' (xs[i := xs ! j, j := xs ! i])))"
  using push_back_rep [OF assms] push_back_array_rep [OF assms] resize_rep [OF assms]
    insert_rep [OF assms] insert_array_rep [OF assms] erase_rep [OF assms] erase_range_rep [OF assms]
    find_rep [OF assms] swap_rep [OF assms]
  by (intro conjI impI) simp_all

theorem darray_implements_lists_witness:
  "\<exists>d'. darray_insert \<lparr>da_array = [Some 1, Some 2, None], da_num = 2\<rparr> 1 (9 :: nat) = Some d' \<and> da_rep d' [1, 9, 2]"
proof -
  have "da_rep \<lparr>da_array = [Some 1, Some 2, None], da_num = 2\<rparr> [1, 2 :: nat]" by (simp add: da_rep_def)
  from darray_implements_lists [OF this, of 9 "[]" 0 1 0] show ?thesis by simp
qed

text \<open>\<open>darray_split\<close> does not split: its first result is the whole array instead of the
  part before \<open>idx\<close>, and an index of the last element leaves the second result empty.\<close>

theorem darray_split_copies_all:
  fixes da :: "'a::zero darray"
  assumes "da_rep da xs" and "0 < idx" and "idx \<le> length xs"
  shows "\<exists>e1 e2. darray_split d1 d2 da idx = Some (e1, e2) \<and> da_rep e1 xs \<and>
    da_rep e2 (if idx < length xs - 1 then drop idx xs else [])"
proof -
  have free: "da_rep (darray_free d) []" for d :: "'a darray" by (simp add: da_rep_def darray_free_def)
  have n: "da_num da = length xs" "xs \<noteq> []" using assms by (auto simp: da_rep_def)
  have init: "da_rep (darray_init :: 'a darray) []" by (simp add: da_rep_def darray_init_def)
  have "darray_copy darray_init da = darray_copy_array darray_init xs"
    using assms(1) n by (auto simp: darray_copy_def darray_copy_array_def da_rep_def blk_read_def)
  then obtain t where t: "darray_copy darray_init da = Some t" "da_rep t xs"
    using copy_array_rep [OF init, of xs] by auto
  obtain e1 where e1: "darray_copy_array (darray_free d1) xs = Some e1" "da_rep e1 xs"
    using copy_array_rep [OF free] by blast
  obtain e2 where e2: "darray_copy_array (darray_free d2) (drop idx xs) = Some e2" "da_rep e2 (drop idx xs)"
    using copy_array_rep [OF free] by blast
  have "da_num t = length xs" using t(2) by (simp add: da_rep_def)
  then show ?thesis
    using t e1 e2 n assms(2,3) contents_rep [OF t(2)] free [of d2]
    by (auto simp: darray_split_def)
qed

theorem darray_split_copies_all_witness:
  "\<exists>e1 e2. darray_split darray_init darray_init \<lparr>da_array = [Some 1, Some 2, Some 3], da_num = 3\<rparr> 2 = Some (e1, e2) \<and>
     da_rep e1 [1, 2, 3 :: nat] \<and> da_rep e2 []"
proof -
  have "da_rep \<lparr>da_array = [Some 1, Some 2, Some 3], da_num = 3\<rparr> [1, 2, 3 :: nat]" by (simp add: da_rep_def)
  from darray_split_copies_all [OF this, of 2 darray_init darray_init] show ?thesis by simp
qed

text \<open>\<open>darray_insert_new\<close> on a full array, before its end, touches the block it has just
  freed; with spare capacity it inserts a zero element.\<close>

theorem darray_insert_new_full:
  fixes d :: "'a::zero darray"
  assumes "da_rep d xs" and "idx < length xs"
  shows "if da_capacity d = length xs then darray_insert_new d idx = None
    else \<exists>d'. darray_insert_new d idx = Some d' \<and> da_rep d' (take idx xs @ 0 # drop idx xs)"
proof -
  obtain rest where d: "da_num d = length xs" "da_array d = map Some xs @ rest" using assms(1) by (rule da_repE)
  show ?thesis
  proof (cases rest)
    case Nil
    then show ?thesis using d assms(2) by (simp add: darray_insert_new_def da_capacity_def)
  next
    case (Cons r rest')
    let ?p = "map Some (take idx xs)" and ?q = "map Some (drop idx xs)"
    have "da_array d = ?p @ ?q @ [r] @ rest'"
      unfolding d(2) Cons append_assoc [symmetric] by (simp flip: map_append)
    then have "Option.bind (blk_move (da_array d) (idx + 1) idx (length xs - idx)) (\<lambda>b. blk_write b idx [Some 0])
        = Some (?p @ [Some 0] @ ?q @ rest')"
      by (simp only:, intro blk_open) (use assms(2) in simp_all)
    then obtain b where b: "blk_move (da_array d) (idx + 1) idx (length xs - idx) = Some b"
      "blk_write b idx [Some 0] = Some (?p @ [Some 0] @ ?q @ rest')" by (auto simp: bind_eq_Some_conv)
    then show ?thesis using d Cons assms(2)
      by (auto simp: darray_insert_new_def da_capacity_def da_rep_def)
  qed
qed

theorem darray_insert_new_full_witness:
  "darray_insert_new \<lparr>da_array = [Some 1, Some (2 :: nat)], da_num = 2\<rparr> 1 = None"
proof -
  have "da_rep \<lparr>da_array = [Some 1, Some 2], da_num = 2\<rparr> [1, 2 :: nat]" by (simp add: da_rep_def)
  from darray_insert_new_full [OF this, of 1] show ?thesis by (simp add: da_capacity_def)
qed

end
