(* ===== verification/Serializer.thy ===== *)
theory Serializer
  imports DArray
begin

text \<open>
  The serializer of mgw-core/util/source/serializer.c, a record of callbacks with integer writers
  on top of it, and the in-memory output of array-serializer.c that is its only provider. The
  callbacks are functions on the provider's state; \<open>None\<close> as a callback is the NULL pointer.
\<close>

section \<open>The serializer\<close>

datatype serialize_seek_type = SERIALIZE_SEEK_START | SERIALIZE_SEEK_CURRENT | SERIALIZE_SEEK_END

record 'o serializer =
  sr_data :: 'o
  sr_read :: "('o \<Rightarrow> nat \<Rightarrow> (bytes \<times> 'o) option) option"
  sr_write :: "('o \<Rightarrow> bytes \<Rightarrow> (nat \<times> 'o) option) option"
  sr_seek :: "('o \<Rightarrow> int \<Rightarrow> serialize_seek_type \<Rightarrow> (int \<times> 'o)) option"
  sr_get_pos :: "('o \<Rightarrow> int) option"

text \<open>\<open>s_read\<close> returns the bytes read; reading nothing leaves the state alone.\<close>

definition s_read :: "'o serializer \<Rightarrow> nat \<Rightarrow> (bytes \<times> 'o serializer) option" where
  "s_read s n =
     (case sr_read s of
        None \<Rightarrow> Some ([], s)
      | Some rd \<Rightarrow> if n = 0 then Some ([], s)
                  else map_option (\<lambda>(bs, o'). (bs, s\<lparr>sr_data := o'\<rparr>)) (rd (sr_data s) n))"

definition s_write :: "'o serializer \<Rightarrow> bytes \<Rightarrow> (nat \<times> 'o serializer) option" where
  "s_write s data =
     (case sr_write s of
        None \<Rightarrow> Some (0, s)
      | Some wr \<Rightarrow> if data = [] then Some (0, s)
                  else map_option (\<lambda>(n, o'). (n, s\<lparr>sr_data := o'\<rparr>)) (wr (sr_data s) data))"

text \<open>\<open>serialize\<close> writes when it can and reads otherwise; the bytes are those read.\<close>

definition serialize :: "'o serializer option \<Rightarrow> bytes \<Rightarrow> (nat \<times> bytes \<times> 'o serializer option) option" where
  "serialize s data =
     (case s of
        None \<Rightarrow> Some (0, data, None)
      | Some s \<Rightarrow>
          (case sr_write s of
             Some wr \<Rightarrow> map_option (\<lambda>(n, o'). (n, data, Some (s\<lparr>sr_data := o'\<rparr>))) (wr (sr_data s) data)
           | None \<Rightarrow>
               (case sr_read s of
                  Some rd \<Rightarrow> map_option (\<lambda>(bs, o'). (length bs, bs, Some (s\<lparr>sr_data := o'\<rparr>)))
                               (rd (sr_data s) (length data))
                | None \<Rightarrow> Some (0, data, Some s))))"

definition serializer_seek :: "'o serializer option \<Rightarrow> int \<Rightarrow> serialize_seek_type \<Rightarrow> int \<times> 'o serializer option" where
  "serializer_seek s off ty =
     (case s of
        None \<Rightarrow> (- 1, None)
      | Some s \<Rightarrow>
          (case sr_seek s of
             None \<Rightarrow> (- 1, Some s)
           | Some sk \<Rightarrow> (let (r, o') = sk (sr_data s) off ty in (r, Some (s\<lparr>sr_data := o'\<rparr>)))))"

definition serializer_get_pos :: "'o serializer \<Rightarrow> int" where
  "serializer_get_pos s = (case sr_get_pos s of None \<Rightarrow> - 1 | Some gp \<Rightarrow> gp (sr_data s))"

section \<open>Integers\<close>

definition s_w8 :: "'o serializer \<Rightarrow> byte \<Rightarrow> 'o serializer option" where
  "s_w8 s b = map_option snd (s_write s [b])"

definition s_wl16 :: "'o serializer \<Rightarrow> u16 \<Rightarrow> 'o serializer option" where
  "s_wl16 s v = do { s \<leftarrow> s_w8 s (ucast v); s_w8 s (ucast (drop_bit 8 v)) }"

definition s_wl24 :: "'o serializer \<Rightarrow> u32 \<Rightarrow> 'o serializer option" where
  "s_wl24 s v = do { s \<leftarrow> s_w8 s (ucast v); s_wl16 s (ucast (drop_bit 8 v)) }"

definition s_wl32 :: "'o serializer \<Rightarrow> u32 \<Rightarrow> 'o serializer option" where
  "s_wl32 s v = do { s \<leftarrow> s_wl16 s (ucast v); s_wl16 s (ucast (drop_bit 16 v)) }"

definition s_wl64 :: "'o serializer \<Rightarrow> u64 \<Rightarrow> 'o serializer option" where
  "s_wl64 s v = do { s \<leftarrow> s_wl32 s (ucast v); s_wl32 s (ucast (drop_bit 32 v)) }"

definition s_wb16 :: "'o serializer \<Rightarrow> u16 \<Rightarrow> 'o serializer option" where
  "s_wb16 s v = do { s \<leftarrow> s_w8 s (ucast (drop_bit 8 v)); s_w8 s (ucast v) }"

definition s_wb24 :: "'o serializer \<Rightarrow> u32 \<Rightarrow> 'o serializer option" where
  "s_wb24 s v = do { s \<leftarrow> s_wb16 s (ucast (drop_bit 8 v)); s_w8 s (ucast v) }"

definition s_wb32 :: "'o serializer \<Rightarrow> u32 \<Rightarrow> 'o serializer option" where
  "s_wb32 s v = do { s \<leftarrow> s_wb16 s (ucast (drop_bit 16 v)); s_wb16 s (ucast v) }"

definition s_wb64 :: "'o serializer \<Rightarrow> u64 \<Rightarrow> 'o serializer option" where
  "s_wb64 s v = do { s \<leftarrow> s_wb32 s (ucast (drop_bit 32 v)); s_wb32 s (ucast v) }"

text \<open>Floating-point values are written as the integer of their bits, which is the argument.\<close>

definition s_wlf :: "'o serializer \<Rightarrow> u32 \<Rightarrow> 'o serializer option" where
  "s_wlf s f = s_wl32 s f"

definition s_wld :: "'o serializer \<Rightarrow> u64 \<Rightarrow> 'o serializer option" where
  "s_wld s d = s_wl64 s d"

definition s_wbf :: "'o serializer \<Rightarrow> u32 \<Rightarrow> 'o serializer option" where
  "s_wbf s f = s_wb32 s f"

definition s_wbd :: "'o serializer \<Rightarrow> u64 \<Rightarrow> 'o serializer option" where
  "s_wbd s d = s_wb64 s d"

section \<open>What the writers append\<close>

definition le_bytes :: "nat \<Rightarrow> 'a::len word \<Rightarrow> bytes" where
  "le_bytes n v = map (\<lambda>i. ucast (drop_bit (8 * i) v)) [0..<n]"

definition be_bytes :: "nat \<Rightarrow> 'a::len word \<Rightarrow> bytes" where
  "be_bytes n v = rev (le_bytes n v)"

text \<open>The value of a sequence of bytes, least significant first.\<close>

fun le_val :: "bytes \<Rightarrow> nat" where
  "le_val [] = 0"
| "le_val (b # bs) = unat b + 256 * le_val bs"

definition be_val :: "bytes \<Rightarrow> nat" where
  "be_val bs = le_val (rev bs)"

lemma le_bytes_ucast:
  fixes v :: "'a::len word"
  assumes "8 * n \<le> LENGTH('b::len)"
  shows "le_bytes n (ucast v :: 'b word) = le_bytes n v"
proof -
  have "(ucast (drop_bit (8 * i) (ucast v :: 'b word)) :: byte) = ucast (drop_bit (8 * i) v)" if "i < n" for i
    using that assms by (intro bit_word_eqI) (auto simp: bit_simps)
  then show ?thesis by (simp add: le_bytes_def)
qed

lemma le_bytes_add: "le_bytes (m + n) v = le_bytes m v @ le_bytes n (drop_bit (8 * m) v)"
proof (induction n)
  case (Suc n)
  have "le_bytes (Suc k) w = le_bytes k w @ [ucast (drop_bit (8 * k) w)]" for k and w :: "'a::len word"
    by (simp add: le_bytes_def)
  then show ?case using Suc by (simp add: drop_bit_drop_bit algebra_simps)
qed (simp add: le_bytes_def)

lemma le_bytes_1: "le_bytes 1 v = [ucast v]"
  by (simp add: le_bytes_def)

lemma le_bytes_split:
  fixes v :: "'a::len word"
  assumes "8 * m \<le> LENGTH('b::len)" and "8 * n \<le> LENGTH('c::len)" and "k = 8 * m" and "j = m + n"
  shows "le_bytes m (ucast v :: 'b word) @ le_bytes n (ucast (drop_bit k v) :: 'c word) = le_bytes j v"
  using assms by (simp add: le_bytes_ucast le_bytes_add)

lemma be_bytes_split:
  fixes v :: "'a::len word"
  assumes "8 * m \<le> LENGTH('b::len)" and "8 * n \<le> LENGTH('c::len)" and "k = 8 * m" and "j = m + n"
  shows "be_bytes n (ucast (drop_bit k v) :: 'c word) @ be_bytes m (ucast v :: 'b word) = be_bytes j v"
  unfolding be_bytes_def rev_append [symmetric] le_bytes_split [OF assms] ..

lemma length_le_bytes [simp]: "length (le_bytes n v) = n"
  by (simp add: le_bytes_def)

lemma length_be_bytes [simp]: "length (be_bytes n v) = n"
  by (simp add: be_bytes_def)

lemma le_val_le_bytes: "le_val (le_bytes n v) = unat v mod 2 ^ (8 * n)"
proof (induction n arbitrary: v)
  case 0
  then show ?case by (simp add: le_bytes_def)
next
  case (Suc n)
  have "le_bytes (1 + n) v = [ucast v] @ le_bytes n (drop_bit 8 v)" unfolding le_bytes_add le_bytes_1 by simp
  then have "le_val (le_bytes (Suc n) v) = unat v mod 256 + 256 * (unat v div 256 mod 2 ^ (8 * n))"
    using Suc by (simp add: unsigned_ucast_eq take_bit_eq_mod unat_drop_bit_eq drop_bit_eq_div [where ?'a = nat])
  also have "\<dots> = unat v mod (256 * 2 ^ (8 * n))" by (simp add: mod_mult2_eq)
  finally show ?case by (simp add: power_add)
qed

lemma be_val_be_bytes: "be_val (be_bytes n v) = unat v mod 2 ^ (8 * n)"
  by (simp add: be_val_def be_bytes_def le_val_le_bytes)

lemma unat_mod_full:
  "unat (v :: u32) mod 4294967296 = unat v" "unat (w :: u64) mod 18446744073709551616 = unat w"
  "unat (h :: u16) mod 65536 = unat h"
  using unsigned_less [of v, where ?'a = nat] unsigned_less [of w, where ?'a = nat]
    unsigned_less [of h, where ?'a = nat] by simp_all

text \<open>The interface: a provider whose \<open>write\<close> appends to what \<open>rep\<close> says it holds, and
  whose position is the number of bytes held.\<close>

locale byte_writer =
  fixes wr :: "'o \<Rightarrow> bytes \<Rightarrow> (nat \<times> 'o) option"
    and pos :: "'o \<Rightarrow> int"
    and rep :: "'o \<Rightarrow> bytes \<Rightarrow> bool"
  assumes wr_appends: "rep x bs \<Longrightarrow> data \<noteq> [] \<Longrightarrow> \<exists>x'. wr x data = Some (length data, x') \<and> rep x' (bs @ data)"
    and pos_length: "rep x bs \<Longrightarrow> pos x = int (length bs)"
begin

definition ser :: "'o serializer \<Rightarrow> bytes \<Rightarrow> bool" where
  "ser s bs \<longleftrightarrow> sr_write s = Some wr \<and> sr_get_pos s = Some pos \<and> rep (sr_data s) bs"

lemma get_pos_ser: "ser s bs \<Longrightarrow> serializer_get_pos s = int (length bs)"
  by (simp add: ser_def serializer_get_pos_def pos_length)

lemma write_ser: "ser s bs \<Longrightarrow> \<exists>s'. s_write s data = Some (length data, s') \<and> ser s' (bs @ data)"
  using wr_appends [of "sr_data s" bs data] by (cases "data = []") (auto simp: ser_def s_write_def)

lemma w8_ser: "ser s bs \<Longrightarrow> \<exists>s'. s_w8 s b = Some s' \<and> ser s' (bs @ [b])"
  using write_ser [of s bs "[b]"] by (auto simp: s_w8_def)

text \<open>A step that appends \<open>xs\<close>.\<close>

definition appends :: "('o serializer \<Rightarrow> 'o serializer option) \<Rightarrow> bytes \<Rightarrow> bool" where
  "appends f xs \<longleftrightarrow> (\<forall>s bs. ser s bs \<longrightarrow> (\<exists>s'. f s = Some s' \<and> ser s' (bs @ xs)))"

lemma appendsD: "appends f xs \<Longrightarrow> ser s bs \<Longrightarrow> \<exists>s'. f s = Some s' \<and> ser s' (bs @ xs)"
  by (simp add: appends_def)

lemma appends_bind:
  assumes "appends f xs" and "appends g ys"
  shows "appends (\<lambda>s. Option.bind (f s) g) (xs @ ys)"
  unfolding appends_def
proof (intro allI impI)
  fix s bs
  assume "ser s bs"
  then obtain s1 where "f s = Some s1" "ser s1 (bs @ xs)" using appendsD [OF assms(1)] by blast
  then show "\<exists>s'. Option.bind (f s) g = Some s' \<and> ser s' (bs @ xs @ ys)"
    using appendsD [OF assms(2)] by fastforce
qed

lemma appends_w8: "appends (\<lambda>s. s_w8 s b) [b]"
  using w8_ser by (simp add: appends_def)

lemma appends_write: "appends (\<lambda>s. map_option snd (s_write s data)) data"
  using write_ser by (fastforce simp: appends_def)

lemma appends_eq: "appends f xs \<Longrightarrow> xs = ys \<Longrightarrow> appends f ys"
  by simp

lemma appends_wl16: "appends (\<lambda>s. s_wl16 s v) (le_bytes 2 v)"
  unfolding s_wl16_def
  by (rule appends_eq [OF appends_bind [OF appends_w8 appends_w8]])
     (use le_bytes_split [where 'b = 8 and 'c = 8 and m = 1 and n = 1 and v = v] in \<open>simp add: le_bytes_1 del: One_nat_def\<close>)

lemma appends_wl24: "appends (\<lambda>s. s_wl24 s v) (le_bytes 3 v)"
  unfolding s_wl24_def
  by (rule appends_eq [OF appends_bind [OF appends_w8 appends_wl16]])
     (use le_bytes_split [where 'b = 8 and 'c = 16 and m = 1 and n = 2 and v = v] in \<open>simp add: le_bytes_1 del: One_nat_def\<close>)

lemma appends_wl32: "appends (\<lambda>s. s_wl32 s v) (le_bytes 4 v)"
  unfolding s_wl32_def
  by (rule appends_eq [OF appends_bind [OF appends_wl16 appends_wl16]]) (simp add: le_bytes_split)

lemma appends_wl64: "appends (\<lambda>s. s_wl64 s v) (le_bytes 8 v)"
  unfolding s_wl64_def
  by (rule appends_eq [OF appends_bind [OF appends_wl32 appends_wl32]]) (simp add: le_bytes_split)

lemma appends_wb16: "appends (\<lambda>s. s_wb16 s v) (be_bytes 2 v)"
  unfolding s_wb16_def
  by (rule appends_eq [OF appends_bind [OF appends_w8 appends_w8]])
     (use be_bytes_split [where 'b = 8 and 'c = 8 and m = 1 and n = 1 and v = v] in
       \<open>simp add: be_bytes_def le_bytes_1 del: One_nat_def\<close>)

lemma appends_wb24: "appends (\<lambda>s. s_wb24 s v) (be_bytes 3 v)"
  unfolding s_wb24_def
  by (rule appends_eq [OF appends_bind [OF appends_wb16 appends_w8]])
     (use be_bytes_split [where 'b = 8 and 'c = 16 and m = 1 and n = 2 and v = v] in
       \<open>simp add: be_bytes_def le_bytes_1 del: One_nat_def\<close>)

lemma appends_wb32: "appends (\<lambda>s. s_wb32 s v) (be_bytes 4 v)"
  unfolding s_wb32_def
  by (rule appends_eq [OF appends_bind [OF appends_wb16 appends_wb16]]) (simp add: be_bytes_split)

lemma appends_wb64: "appends (\<lambda>s. s_wb64 s v) (be_bytes 8 v)"
  unfolding s_wb64_def
  by (rule appends_eq [OF appends_bind [OF appends_wb32 appends_wb32]]) (simp add: be_bytes_split)

lemmas appends_rules = appends_bind appends_w8 appends_write appends_wb16 appends_wb24 appends_wb32

end

section \<open>Output to memory\<close>

definition array_output_write :: "byte darray \<Rightarrow> bytes \<Rightarrow> (nat \<times> byte darray) option" where
  "array_output_write output data =
     map_option (\<lambda>(n, d). (length data, d)) (darray_push_back_array output (Some data))"

definition array_output_get_pos :: "byte darray \<Rightarrow> int" where
  "array_output_get_pos d = int (da_num d)"

definition array_output_serializer_init :: "byte darray serializer" where
  "array_output_serializer_init = \<lparr>sr_data = darray_init, sr_read = None, sr_write = Some array_output_write,
     sr_seek = None, sr_get_pos = Some array_output_get_pos\<rparr>"

definition array_output_serializer_free :: "byte darray \<Rightarrow> byte darray" where
  "array_output_serializer_free d = darray_free d"

interpretation array_out: byte_writer array_output_write array_output_get_pos da_rep
proof unfold_locales
  fix x :: "byte darray" and bs data
  assume "da_rep x bs"
  then show "\<exists>x'. array_output_write x data = Some (length data, x') \<and> da_rep x' (bs @ data)"
    using push_back_array_rep [of x bs data] by (auto simp: array_output_write_def)
qed (simp add: array_output_get_pos_def da_rep_def)

lemma init_ser: "array_out.ser array_output_serializer_init []"
  by (simp add: array_out.ser_def array_output_serializer_init_def darray_init_def da_rep_def)

lemma contents_ser: "array_out.ser s bs \<Longrightarrow> darray_contents (sr_data s) = Some bs"
  by (auto simp: array_out.ser_def da_rep_def darray_contents_def blk_read_def o_def)

text \<open>The integer writers are inverse to reading the bytes back: on the in-memory output
  they append as many bytes as the type has, which read in the announced order give the value.\<close>

theorem writers_roundtrip:
  assumes "da_rep (sr_data s) bs" and "sr_write s = Some array_output_write" and "sr_get_pos s = Some array_output_get_pos"
  shows "(\<exists>s' xs. s_wb32 s v = Some s' \<and> da_rep (sr_data s') (bs @ xs) \<and> length xs = 4 \<and> be_val xs = unat v) \<and>
    (\<exists>s' xs. s_wl32 s v = Some s' \<and> da_rep (sr_data s') (bs @ xs) \<and> length xs = 4 \<and> le_val xs = unat v) \<and>
    (\<exists>s' xs. s_wb64 s w = Some s' \<and> da_rep (sr_data s') (bs @ xs) \<and> length xs = 8 \<and> be_val xs = unat w) \<and>
    (\<exists>s' xs. s_wl64 s w = Some s' \<and> da_rep (sr_data s') (bs @ xs) \<and> length xs = 8 \<and> le_val xs = unat w) \<and>
    (\<exists>s' xs. s_wb24 s v = Some s' \<and> da_rep (sr_data s') (bs @ xs) \<and> length xs = 3 \<and> be_val xs = unat v mod 2 ^ 24) \<and>
    (\<exists>s' xs. s_wb16 s h = Some s' \<and> da_rep (sr_data s') (bs @ xs) \<and> length xs = 2 \<and> be_val xs = unat h)"
proof -
  have s: "array_out.ser s bs" using assms by (simp add: array_out.ser_def)
  have app: "\<exists>s' xs. f s = Some s' \<and> da_rep (sr_data s') (bs @ xs) \<and> length xs = n \<and> g xs = r"
    if "array_out.appends f ys" "length ys = n" "g ys = r" for f ys n g and r :: nat
    using array_out.appendsD [OF that(1) s] that(2,3) by (auto simp: array_out.ser_def)
  show ?thesis
    by (intro conjI app [OF array_out.appends_wb32] app [OF array_out.appends_wl32]
        app [OF array_out.appends_wb64] app [OF array_out.appends_wl64]
        app [OF array_out.appends_wb24] app [OF array_out.appends_wb16])
       (simp_all add: be_val_be_bytes le_val_le_bytes unat_mod_full)
qed

theorem writers_roundtrip_witness:
  "\<exists>s' xs. s_wb32 array_output_serializer_init 0x12345678 = Some s' \<and> da_rep (sr_data s') xs \<and>
     length xs = 4 \<and> be_val xs = 0x12345678"
  using writers_roundtrip [of array_output_serializer_init "[]" "0x12345678" 0 0]
  by (auto simp: array_output_serializer_init_def darray_init_def da_rep_def)

end
