(* ===== verification/FlvMux.thy ===== *)
theory FlvMux
  imports Serializer CodecDef
begin

text \<open>
  FLV tags, src/plugins/formats/flv-mux.c: video, audio and metadata tags written through the
  serializer. The AMF body of the metadata tag comes from librtmp and is an argument.
\<close>

definition RTMP_PACKET_TYPE_AUDIO :: byte where "RTMP_PACKET_TYPE_AUDIO = 0x08"

definition RTMP_PACKET_TYPE_VIDEO :: byte where "RTMP_PACKET_TYPE_VIDEO = 0x09"

definition RTMP_PACKET_TYPE_INFO :: byte where "RTMP_PACKET_TYPE_INFO = 0x12"

text \<open>\<open>get_ms_time\<close>: unsigned 64-bit arithmetic, cut to \<open>int32_t\<close>.\<close>

definition get_ms_time :: "int \<Rightarrow> nat \<Rightarrow> int option" where
  "get_ms_time timebase_den val =
     (if timebase_den = 0 then None
      else Some (s32 (wrap64 (val * 1000) div nat (timebase_den mod 2 ^ 64))))"

definition pos32 :: "'o serializer \<Rightarrow> u32" where
  "pos32 s = word_of_int (serializer_get_pos s)"

text \<open>The bytes of a packet; fewer than its size is an access out of bounds.\<close>

definition packet_bytes :: "encoder_packet \<Rightarrow> bytes option" where
  "packet_bytes p = (case pk_data p of
     None \<Rightarrow> None
   | Some bs \<Rightarrow> if length bs < pk_size p then None else Some (take (pk_size p) bs))"

definition flv_video :: "'o serializer \<Rightarrow> encoder_packet \<Rightarrow> bool \<Rightarrow> 'o serializer option" where
  "flv_video s p is_header =
     (if pk_data p = None \<or> pk_size p = 0 then Some s
      else (let time_ms = (word_of_int (pk_pts p) :: u32) in do {
        s \<leftarrow> s_w8 s RTMP_PACKET_TYPE_VIDEO;
        s \<leftarrow> s_wb24 s (of_nat (pk_size p) + 5);
        s \<leftarrow> s_wb24 s time_ms;
        s \<leftarrow> s_w8 s (ucast (drop_bit 24 time_ms AND 0x7F));
        s \<leftarrow> s_wb24 s 0;
        s \<leftarrow> s_w8 s (if pk_keyframe p then 0x17 else 0x27);
        s \<leftarrow> s_w8 s (if is_header then 0 else 1);
        s \<leftarrow> s_wb24 s 0;
        bs \<leftarrow> packet_bytes p;
        s \<leftarrow> map_option snd (s_write s bs);
        s_wb32 s (pos32 s - 1)
      }))"

definition flv_audio :: "'o serializer \<Rightarrow> encoder_packet \<Rightarrow> bool \<Rightarrow> 'o serializer option" where
  "flv_audio s p is_header =
     (let extra_byte = (if is_header then 0 else 2) in
      if pk_data p = None \<or> pk_size p = 0 then Some s
      else (let time_ms = (word_of_int (pk_pts p) :: u32) in do {
        s \<leftarrow> s_w8 s RTMP_PACKET_TYPE_AUDIO;
        s \<leftarrow> s_wb24 s (of_nat (pk_size p) + extra_byte);
        s \<leftarrow> s_wb24 s time_ms;
        s \<leftarrow> s_w8 s (ucast (drop_bit 24 time_ms AND 0x7F));
        s \<leftarrow> s_wb24 s 0;
        s \<leftarrow> (if is_header then Some s else do { s \<leftarrow> s_w8 s 0xaf; s_w8 s 1 });
        bs \<leftarrow> packet_bytes p;
        s \<leftarrow> map_option snd (s_write s bs);
        s_wb32 s (pos32 s - 1)
      }))"

definition flv_packet_mux :: "encoder_packet \<Rightarrow> bool \<Rightarrow> bytes option" where
  "flv_packet_mux p is_header = do {
     s \<leftarrow> (case pk_type p of
            ENCODER_VIDEO \<Rightarrow> flv_video array_output_serializer_init p is_header
          | ENCODER_AUDIO \<Rightarrow> flv_audio array_output_serializer_init p is_header);
     darray_contents (sr_data s) }"

definition flv_meta_data :: "bytes \<Rightarrow> bool \<Rightarrow> bytes option" where
  "flv_meta_data meta write_header = do {
     s \<leftarrow> (if write_header
          then do {
            s \<leftarrow> map_option snd (s_write array_output_serializer_init [0x46, 0x4C, 0x56]);
            s \<leftarrow> s_w8 s 1;
            s \<leftarrow> s_w8 s 5;
            s \<leftarrow> s_wb32 s 9;
            s_wb32 s 0 }
          else Some array_output_serializer_init);
     let start_pos = pos32 s;
     s \<leftarrow> s_w8 s RTMP_PACKET_TYPE_INFO;
     s \<leftarrow> s_wb24 s (of_nat (length meta));
     s \<leftarrow> s_wb32 s 0;
     s \<leftarrow> s_wb24 s 0;
     s \<leftarrow> map_option snd (s_write s meta);
     s \<leftarrow> s_wb32 s (pos32 s - start_pos - 1);
     darray_contents (sr_data s) }"

section \<open>Reading a tag\<close>

record flv_tag =
  tag_type :: byte
  tag_time :: nat
  tag_stream :: nat
  tag_body :: bytes
  tag_trailer :: nat

text \<open>The FLV tag layout: type, 24-bit body size, 24-bit time and its high byte, 24-bit stream
  id, body, 32-bit size of the tag. The result has the rest of the input.\<close>

definition parse_tag :: "bytes \<Rightarrow> (flv_tag \<times> bytes) option" where
  "parse_tag bs =
     (let n = be_val (take 3 (drop 1 bs)) in
      if length bs < 15 + n then None
      else Some (\<lparr>tag_type = hd bs,
                  tag_time = be_val (take 3 (drop 4 bs)) + 16777216 * unat (bs ! 7),
                  tag_stream = be_val (take 3 (drop 8 bs)),
                  tag_body = take n (drop 11 bs),
                  tag_trailer = be_val (take 4 (drop (11 + n) bs))\<rparr>, drop (15 + n) bs))"

definition tag_bytes :: "byte \<Rightarrow> u32 \<Rightarrow> bytes \<Rightarrow> u32 \<Rightarrow> bytes" where
  "tag_bytes ty t body trailer =
     [ty] @ be_bytes 3 (of_nat (length body) :: u32) @ be_bytes 3 t @ [ucast (drop_bit 24 t AND 0x7F)] @
     be_bytes 3 (0 :: u32) @ body @ be_bytes 4 trailer"

lemma be_bytes3_zero: "be_bytes 3 (0 :: u32) = [0, 0, 0]"
  by (simp add: be_bytes_def le_bytes_def numeral_3_eq_3)

lemma be_bytes4_zero: "be_bytes 4 (0 :: u32) = [0, 0, 0, 0]"
  by (simp add: be_bytes_def le_bytes_def numeral_eq_Suc)

lemma time_split:
  fixes t :: u32
  shows "unat t mod 16777216 + 16777216 * unat (ucast (drop_bit 24 t AND 0x7F) :: byte) = unat t mod 2147483648"
proof -
  have "drop_bit 24 t AND 0x7F = take_bit 7 (drop_bit 24 t)" by (simp add: take_bit_eq_mask mask_eq_exp_minus_1)
  then have "unat (ucast (drop_bit 24 t AND 0x7F) :: byte) = take_bit 8 (take_bit 7 (unat t div 16777216))"
    by (simp add: unsigned_ucast_eq unsigned_take_bit_eq unat_drop_bit_eq drop_bit_eq_div [where ?'a = nat])
  also have "\<dots> = unat t div 16777216 mod 128" by (simp add: take_bit_eq_mod)
  finally show ?thesis using mod_mult2_eq [of "unat t" 16777216 128] by simp
qed

lemma length3: "length xs = 3 \<Longrightarrow> \<exists>a b c. xs = [a, b, c]"
  by (auto simp: numeral_3_eq_3 length_Suc_conv)

lemma parse_tag_bytes:
  assumes "length body < 16777216"
  shows "parse_tag (tag_bytes ty t body trailer @ rest) =
    Some (\<lparr>tag_type = ty, tag_time = unat t mod 2147483648, tag_stream = 0, tag_body = body,
           tag_trailer = unat trailer\<rparr>, rest)"
proof -
  let ?n = "be_bytes 3 (of_nat (length body) :: u32)" and ?t = "be_bytes 3 t" and ?tr = "be_bytes 4 trailer"
  let ?h = "ucast (drop_bit 24 t AND 0x7F) :: byte"
  have n: "be_val ?n = length body" using assms by (simp add: be_val_be_bytes unat_of_nat)
  obtain a b c where abc: "?n = [a, b, c]" using length3 [of ?n] by auto
  obtain d e f where def: "?t = [d, e, f]" using length3 [of ?t] by auto
  have tm: "be_val [d, e, f] + 16777216 * unat ?h = unat t mod 2147483648"
    using time_split [of t] be_val_be_bytes [of 3 t] def by simp
  have z: "be_val [0, 0, 0] = 0" by (simp add: be_val_def)
  have tr: "be_val ?tr = unat trailer" by (simp add: be_val_be_bytes unat_mod_full)
  have bs: "tag_bytes ty t body trailer @ rest =
      [ty, a, b, c, d, e, f, ?h, 0, 0, 0] @ body @ ?tr @ rest"
    by (simp add: tag_bytes_def abc def be_bytes3_zero)
  have abc': "be_val [a, b, c] = length body" using n abc by simp
  define L where "L = [ty, a, b, c, d, e, f, ?h, 0, 0, 0] @ body @ ?tr @ rest"
  have d11: "drop 11 L = body @ ?tr @ rest" "length L = 15 + length body + length rest" by (simp_all add: L_def)
  have dn: "drop (11 + length body) L = ?tr @ rest"
    using d11(1) by (metis add.commute append_eq_conv_conj drop_drop)
  then have d15: "drop (15 + length body) L = rest"
  proof -
    have "drop (15 + length body) L = drop 4 (drop (11 + length body) L)" by (simp add: add.commute)
    then show ?thesis unfolding dn by simp
  qed
  have f: "take 3 (drop 1 L) = [a, b, c]" "take 3 (drop 4 L) = [d, e, f]" "L ! 7 = ?h" "hd L = ty"
    "take 3 (drop 8 L) = [0, 0, 0]" by (simp_all add: L_def)
  show ?thesis
    unfolding bs L_def [symmetric] parse_tag_def Let_def f abc' d11 dn d15 tm z using tr by simp
qed

section \<open>The tags written\<close>

definition video_body :: "encoder_packet \<Rightarrow> bool \<Rightarrow> bytes \<Rightarrow> bytes" where
  "video_body p is_header bs = [if pk_keyframe p then 0x17 else 0x27, if is_header then 0 else 1, 0, 0, 0] @ bs"

definition audio_body :: "bool \<Rightarrow> bytes \<Rightarrow> bytes" where
  "audio_body is_header bs = (if is_header then [] else [0xaf, 1]) @ bs"

context byte_writer
begin

text \<open>A step that appends \<open>xs\<close> to \<open>bs\<close>.\<close>

definition appends_to :: "bytes \<Rightarrow> ('o serializer \<Rightarrow> 'o serializer option) \<Rightarrow> bytes \<Rightarrow> bool" where
  "appends_to bs f xs \<longleftrightarrow> (\<forall>s. ser s bs \<longrightarrow> (\<exists>s'. f s = Some s' \<and> ser s' (bs @ xs)))"

lemma appends_to_step: "appends f xs \<Longrightarrow> appends_to bs f xs"
  by (simp add: appends_to_def appends_def)

lemma appends_to_bind:
  assumes "appends_to bs f xs" and "appends_to (bs @ xs) g ys"
  shows "appends_to bs (\<lambda>s. Option.bind (f s) g) (xs @ ys)"
  unfolding appends_to_def
proof (intro allI impI)
  fix s
  assume "ser s bs"
  then obtain s1 where "f s = Some s1" "ser s1 (bs @ xs)" using assms(1) by (auto simp: appends_to_def)
  then show "\<exists>s'. Option.bind (f s) g = Some s' \<and> ser s' (bs @ xs @ ys)"
    using assms(2) by (fastforce simp: appends_to_def)
qed

lemma appends_to_eq: "appends_to bs f xs \<Longrightarrow> xs = ys \<Longrightarrow> appends_to bs f ys"
  by simp

lemma appends_to_first:
  "appends f xs \<Longrightarrow> appends_to (bs @ xs) g ys \<Longrightarrow> appends_to bs (\<lambda>s. Option.bind (f s) g) (xs @ ys)"
  by (rule appends_to_bind [OF appends_to_step])

lemma appends_to_trailer:
  "appends_to bs (\<lambda>s. s_wb32 s (pos32 s - c)) (be_bytes 4 (of_nat (length bs) - c))"
  unfolding appends_to_def
proof (intro allI impI)
  fix s
  assume s: "ser s bs"
  then have "pos32 s = of_nat (length bs)" by (simp add: pos32_def get_pos_ser)
  then show "\<exists>s'. s_wb32 s (pos32 s - c) = Some s' \<and> ser s' (bs @ be_bytes 4 (of_nat (length bs) - c))"
    using appendsD [OF appends_wb32 s, of "of_nat (length bs) - c"] by simp
qed

lemma appends_aac: "appends (\<lambda>s. Option.bind (s_w8 s 0xaf) (\<lambda>s. s_w8 s 1)) [0xaf, 1]"
  using appends_bind [OF appends_w8 appends_w8, of "0xaf" 1] by simp

lemma appends_Some: "appends Some []"
  by (simp add: appends_def)

lemmas append_steps = appends_to_first [OF appends_w8] appends_to_first [OF appends_wb24]
  appends_to_first [OF appends_write] appends_to_first [OF appends_aac] appends_to_first [OF appends_Some]
  appends_to_first [OF appends_wb32] appends_to_trailer

lemma flv_video_appends:
  assumes d: "pk_data p = Some d" and n: "0 < pk_size p" "pk_size p \<le> length d" and s: "ser s bs"
  shows "\<exists>s'. flv_video s p h = Some s' \<and> ser s' (bs @ tag_bytes RTMP_PACKET_TYPE_VIDEO (word_of_int (pk_pts p))
    (video_body p h (take (pk_size p) d)) (of_nat (length bs + 16 + pk_size p) - 1))"
proof -
  have pb: "packet_bytes p = Some (take (pk_size p) d)" using d n by (simp add: packet_bytes_def)
  have c: "(pk_data p = None \<or> pk_size p = 0) = False" using d n by simp
  have "appends_to bs (\<lambda>s. flv_video s p h) (tag_bytes RTMP_PACKET_TYPE_VIDEO (word_of_int (pk_pts p))
      (video_body p h (take (pk_size p) d)) (of_nat (length bs + 16 + pk_size p) - 1))"
    unfolding flv_video_def Let_def pb c if_False Option.bind.simps
    by (rule appends_to_eq, (rule append_steps)+)
       (use n in \<open>simp add: tag_bytes_def video_body_def be_bytes3_zero min_def algebra_simps\<close>)
  then show ?thesis using s by (auto simp: appends_to_def)
qed

lemma flv_audio_appends:
  assumes d: "pk_data p = Some d" and n: "0 < pk_size p" "pk_size p \<le> length d" and s: "ser s bs"
  shows "\<exists>s'. flv_audio s p h = Some s' \<and> ser s' (bs @ tag_bytes RTMP_PACKET_TYPE_AUDIO (word_of_int (pk_pts p))
    (audio_body h (take (pk_size p) d)) (of_nat (length bs + 11 + length (audio_body h (take (pk_size p) d))) - 1))"
proof -
  have pb: "packet_bytes p = Some (take (pk_size p) d)" using d n by (simp add: packet_bytes_def)
  have c: "(pk_data p = None \<or> pk_size p = 0) = False" using d n by simp
  have "appends_to bs (\<lambda>s. flv_audio s p h) (tag_bytes RTMP_PACKET_TYPE_AUDIO (word_of_int (pk_pts p))
      (audio_body h (take (pk_size p) d)) (of_nat (length bs + 11 + length (audio_body h (take (pk_size p) d))) - 1))"
  proof (cases h)
    case True
    then have h: "h = True" by simp
    show ?thesis
      unfolding flv_audio_def Let_def pb c if_False Option.bind.simps h if_True
      by (rule appends_to_eq, (rule append_steps)+)
         (use n in \<open>simp add: tag_bytes_def audio_body_def be_bytes3_zero min_def algebra_simps\<close>)
  next
    case False
    then have h: "h = False" by simp
    show ?thesis
      unfolding flv_audio_def Let_def pb c if_False Option.bind.simps h if_False
      by (rule appends_to_eq, (rule append_steps)+)
         (use n in \<open>simp add: tag_bytes_def audio_body_def be_bytes3_zero min_def algebra_simps\<close>)
  qed
  then show ?thesis using s by (auto simp: appends_to_def)
qed

end

text \<open>What \<open>flv_meta_data\<close> writes before the tag.\<close>

definition flv_header :: bytes where
  "flv_header = [0x46, 0x4C, 0x56, 1, 5, 0, 0, 0, 9, 0, 0, 0, 0]"

context byte_writer
begin

lemma meta_tag_appends:
  assumes "ser s bs"
  shows "\<exists>s'. do {
     s \<leftarrow> s_w8 s RTMP_PACKET_TYPE_INFO;
     s \<leftarrow> s_wb24 s (of_nat (length meta));
     s \<leftarrow> s_wb32 s 0;
     s \<leftarrow> s_wb24 s 0;
     s \<leftarrow> map_option snd (s_write s meta);
     s_wb32 s (pos32 s - (of_nat (length bs) + 1)) } = Some s' \<and>
   ser s' (bs @ tag_bytes RTMP_PACKET_TYPE_INFO 0 meta (of_nat (11 + length meta) - 1))"
proof -
  have "appends_to bs (\<lambda>s. do {
     s \<leftarrow> s_w8 s RTMP_PACKET_TYPE_INFO;
     s \<leftarrow> s_wb24 s (of_nat (length meta));
     s \<leftarrow> s_wb32 s 0;
     s \<leftarrow> s_wb24 s 0;
     s \<leftarrow> map_option snd (s_write s meta);
     s_wb32 s (pos32 s - (of_nat (length bs) + 1)) })
    (tag_bytes RTMP_PACKET_TYPE_INFO 0 meta (of_nat (11 + length meta) - 1))"
    by (rule appends_to_eq, (rule append_steps)+)
       (simp add: tag_bytes_def be_bytes3_zero be_bytes4_zero algebra_simps)
  then show ?thesis using assms by (simp add: appends_to_def)
qed

lemma flv_header_appends:
  "ser s [] \<Longrightarrow> \<exists>s'. do {
     s \<leftarrow> map_option snd (s_write s [0x46, 0x4C, 0x56]);
     s \<leftarrow> s_w8 s 1;
     s \<leftarrow> s_w8 s 5;
     s \<leftarrow> s_wb32 s 9;
     s_wb32 s 0 } = Some s' \<and> ser s' flv_header"
proof -
  have "appends (\<lambda>s. do {
     s \<leftarrow> map_option snd (s_write s [0x46, 0x4C, 0x56]);
     s \<leftarrow> s_w8 s 1;
     s \<leftarrow> s_w8 s 5;
     s \<leftarrow> s_wb32 s 9;
     s_wb32 s 0 }) flv_header"
    by (rule appends_eq, (rule appends_bind appends_write appends_w8 appends_wb32)+) (code_simp)
  from appendsD [OF this] show "ser s [] \<Longrightarrow> ?thesis" by fastforce
qed

end

lemma length_tag_bytes: "length (tag_bytes ty t body trailer) = 15 + length body"
  by (simp add: tag_bytes_def)

text \<open>The tag of a packet.\<close>

definition packet_body :: "encoder_packet \<Rightarrow> bool \<Rightarrow> bytes \<Rightarrow> bytes" where
  "packet_body p h bs = (if pk_type p = ENCODER_VIDEO then video_body p h bs else audio_body h bs)"

lemma flv_packet_mux_bytes:
  assumes "pk_data p = Some d" and "0 < pk_size p" "pk_size p \<le> length d"
  shows "flv_packet_mux p h = Some (tag_bytes
    (if pk_type p = ENCODER_VIDEO then RTMP_PACKET_TYPE_VIDEO else RTMP_PACKET_TYPE_AUDIO) (word_of_int (pk_pts p))
    (packet_body p h (take (pk_size p) d)) (of_nat (11 + length (packet_body p h (take (pk_size p) d))) - 1))"
proof (cases "pk_type p")
  case ENCODER_VIDEO
  then show ?thesis
    using array_out.flv_video_appends [OF assms init_ser, of h] assms
    by (auto simp: flv_packet_mux_def packet_body_def video_body_def min_def contents_ser)
next
  case ENCODER_AUDIO
  then show ?thesis
    using array_out.flv_audio_appends [OF assms init_ser, of h]
    by (auto simp: flv_packet_mux_def packet_body_def contents_ser)
qed

lemma length_packet_body: "length (packet_body p h bs) \<le> length bs + 5"
  by (simp add: packet_body_def video_body_def audio_body_def)

text \<open>C6: A muxed packet parses back as one FLV tag with its type, the low 31 bits of its time,
  the codec bytes and payload, and nothing after it. The size field at the end is 10 more than
  the body, one less than the tag's 11-byte header and body.\<close>

theorem flv_packet_parses:
  assumes "pk_data p = Some d" and "0 < pk_size p" "pk_size p \<le> length d" and "pk_size p + 5 < 2 ^ 24"
  shows "\<exists>out. flv_packet_mux p h = Some out \<and>
    parse_tag out = Some (\<lparr>tag_type = (case pk_type p of ENCODER_VIDEO \<Rightarrow> 0x09 | ENCODER_AUDIO \<Rightarrow> 0x08),
       tag_time = nat (pk_pts p mod 2 ^ 31), tag_stream = 0,
       tag_body = packet_body p h (take (pk_size p) d),
       tag_trailer = length (packet_body p h (take (pk_size p) d)) + 10\<rparr>, [])"
proof -
  let ?b = "packet_body p h (take (pk_size p) d)"
  have b: "length ?b < 16777216" using length_packet_body [of p h "take (pk_size p) d"] assms by simp
  have tr: "unat (of_nat (11 + length ?b) - 1 :: u32) = length ?b + 10"
  proof -
    have "of_nat (11 + length ?b) - 1 = (of_nat (length ?b + 10) :: u32)" by simp
    then show ?thesis using b by (simp only: unat_of_nat) simp
  qed
  have tm: "unat (word_of_int (pk_pts p) :: u32) mod 2147483648 = nat (pk_pts p mod 2147483648)"
  proof -
    have "int (unat (word_of_int (pk_pts p) :: u32) mod 2147483648) = pk_pts p mod 4294967296 mod 2147483648"
      by (simp add: zmod_int uint_word_of_int)
    also have "\<dots> = pk_pts p mod 2147483648" by (simp add: mod_mod_cancel)
    finally show ?thesis by simp
  qed
  show ?thesis
    using parse_tag_bytes [OF b, of "if pk_type p = ENCODER_VIDEO then RTMP_PACKET_TYPE_VIDEO else RTMP_PACKET_TYPE_AUDIO"
        "word_of_int (pk_pts p)" "of_nat (11 + length ?b) - 1" "[]"]
      flv_packet_mux_bytes [OF assms(1-3), of h] tr tm
    by (cases "pk_type p") (simp_all add: RTMP_PACKET_TYPE_VIDEO_def RTMP_PACKET_TYPE_AUDIO_def)
qed

theorem flv_packet_parses_witness:
  "\<exists>out. flv_packet_mux \<lparr>pk_data = Some [0, 0, 0, 1, 0x65], pk_size = 5, pk_pts = 2 ^ 31 + 40, pk_dts = 0,
      pk_type = ENCODER_VIDEO, pk_keyframe = True, pk_priority = 0\<rparr> False = Some out \<and>
    parse_tag out = Some (\<lparr>tag_type = 0x09, tag_time = 40, tag_stream = 0,
      tag_body = [0x17, 1, 0, 0, 0, 0, 0, 0, 1, 0x65], tag_trailer = 20\<rparr>, [])"
  using flv_packet_parses [of "\<lparr>pk_data = Some [0, 0, 0, 1, 0x65], pk_size = 5, pk_pts = 2 ^ 31 + 40, pk_dts = 0,
      pk_type = ENCODER_VIDEO, pk_keyframe = True, pk_priority = 0\<rparr>" "[0, 0, 0, 1, 0x65]" False]
  by (simp add: packet_body_def video_body_def)

text \<open>The metadata is one script tag at time 0 around the AMF body, after the 13-byte file
  header when that is asked for; its size field counts from the start of the tag.\<close>

theorem flv_meta_data_parses:
  assumes "length meta < 2 ^ 24"
  shows "\<exists>out. flv_meta_data meta write_header = Some ((if write_header then flv_header else []) @ out) \<and>
    parse_tag out = Some (\<lparr>tag_type = 0x12, tag_time = 0, tag_stream = 0, tag_body = meta,
      tag_trailer = length meta + 10\<rparr>, [])"
proof -
  let ?tag = "tag_bytes RTMP_PACKET_TYPE_INFO 0 meta (of_nat (11 + length meta) - 1)"
  let ?h = "if write_header then flv_header else []"
  obtain s where s: "(if write_header
        then do {
            s \<leftarrow> map_option snd (s_write array_output_serializer_init [0x46, 0x4C, 0x56]);
            s \<leftarrow> s_w8 s 1;
            s \<leftarrow> s_w8 s 5;
            s \<leftarrow> s_wb32 s 9;
            s_wb32 s 0 }
          else Some array_output_serializer_init) = Some s" "array_out.ser s ?h"
    using array_out.flv_header_appends [OF init_ser] init_ser by (cases write_header) auto
  have p: "pos32 s = of_nat (length ?h)" using array_out.get_pos_ser [OF s(2)] by (simp add: pos32_def)
  obtain s' where s': "do {
     s \<leftarrow> s_w8 s RTMP_PACKET_TYPE_INFO;
     s \<leftarrow> s_wb24 s (of_nat (length meta));
     s \<leftarrow> s_wb32 s 0;
     s \<leftarrow> s_wb24 s 0;
     s \<leftarrow> map_option snd (s_write s meta);
     s_wb32 s (pos32 s - (of_nat (length ?h) + 1)) } = Some s'" "array_out.ser s' (?h @ ?tag)"
    using array_out.meta_tag_appends [OF s(2), of meta] by blast
  have "flv_meta_data meta write_header = Option.bind (Some s') (\<lambda>s. darray_contents (sr_data s))"
    unfolding flv_meta_data_def s(1) s'(1) [symmetric] Option.bind.simps Let_def p diff_diff_add Option.bind_assoc ..
  then have m: "flv_meta_data meta write_header = Some (?h @ ?tag)" using contents_ser [OF s'(2)] by simp
  have "unat (of_nat (11 + length meta) - 1 :: u32) = length meta + 10"
  proof -
    have "of_nat (11 + length meta) - 1 = (of_nat (length meta + 10) :: u32)" by simp
    then show ?thesis using assms by (simp only: unat_of_nat) simp
  qed
  then show ?thesis
    using m parse_tag_bytes [of meta RTMP_PACKET_TYPE_INFO 0 "of_nat (11 + length meta) - 1" "[]"] assms
    by (simp add: RTMP_PACKET_TYPE_INFO_def)
qed

theorem flv_meta_data_parses_witness:
  "\<exists>out. flv_meta_data [2, 0, 1] True = Some (flv_header @ out) \<and>
    parse_tag out = Some (\<lparr>tag_type = 0x12, tag_time = 0, tag_stream = 0, tag_body = [2, 0, 1], tag_trailer = 13\<rparr>, [])"
  using flv_meta_data_parses [of "[2, 0, 1]" True] by simp

end
