(* ===== verification/AvcStartcode.thy ===== *)
theory AvcStartcode
  imports Serializer
begin

text \<open>
  The search for H.264 start codes in mgw-core/util/source/codec-common.c: a byte loop up to an
  aligned address, then four bytes at a time with a test for a zero byte in a 32-bit word, then a
  byte loop. Pointers into the data are offsets from its start; \<open>al\<close> is the low two bits of the
  address of offset 0. The theory proves that the search finds the first start code.
\<close>

section \<open>The search\<close>

text \<open>A read at an offset.\<close>

definition rd :: "bytes \<Rightarrow> nat \<Rightarrow> byte option" where
  "rd xs i = (if i < length xs then Some (xs ! i) else None)"

text \<open>A byte that must be \<open>v\<close> before the rest of a conjunction is looked at.\<close>

definition rd_is :: "bytes \<Rightarrow> nat \<Rightarrow> byte \<Rightarrow> bool option \<Rightarrow> bool option" where
  "rd_is xs i v k = Option.bind (rd xs i) (\<lambda>b. if b = v then k else Some False)"

definition is_code :: "bytes \<Rightarrow> nat \<Rightarrow> bool option" where
  "is_code xs p = rd_is xs p 0 (rd_is xs (p + 1) 0 (rd_is xs (p + 2) 1 (Some True)))"

text \<open>The byte loop from \<open>p\<close> while \<open>p < a\<close> and \<open>p < end - 3\<close>: the offset of a start code
  (\<open>Inl\<close>) or the offset where the loop stops (\<open>Inr\<close>). The code lowers and raises \<open>end\<close>
  between the loops; the bounds here are relative to the \<open>end\<close> passed in.\<close>

function scan_bytes :: "bytes \<Rightarrow> nat \<Rightarrow> nat \<Rightarrow> nat \<Rightarrow> (nat + nat) option" where
  "scan_bytes xs p a e =
     (if p < a \<and> p + 3 < e
      then Option.bind (is_code xs p) (\<lambda>f. if f then Some (Inl p) else scan_bytes xs (p + 1) a e)
      else Some (Inr p))"
  by pat_completeness auto
termination by (relation "measure (\<lambda>(xs, p, a, e). e - p)") auto

declare scan_bytes.simps [simp del]

definition load32 :: "bytes \<Rightarrow> nat \<Rightarrow> u32 option" where
  "load32 xs p = (if p + 4 \<le> length xs then Some (of_nat (le_val (take 4 (drop p xs)))) else None)"

definition has_zero_byte :: "u32 \<Rightarrow> bool" where
  "has_zero_byte x = ((x - 0x01010101) AND (NOT x) AND 0x80808080 \<noteq> 0)"

text \<open>The tests on a word with a zero byte, in the order of the code.\<close>

definition word_code :: "bytes \<Rightarrow> nat \<Rightarrow> nat option option" where
  "word_code xs p = do {
     f0 \<leftarrow> rd_is xs (p + 1) 0 (rd_is xs p 0 (rd_is xs (p + 2) 1 (Some True)));
     if f0 then Some (Some p) else do {
     f1 \<leftarrow> rd_is xs (p + 1) 0 (rd_is xs (p + 2) 0 (rd_is xs (p + 3) 1 (Some True)));
     if f1 then Some (Some (p + 1)) else do {
     f2 \<leftarrow> rd_is xs (p + 3) 0 (rd_is xs (p + 2) 0 (rd_is xs (p + 4) 1 (Some True)));
     if f2 then Some (Some (p + 2)) else do {
     f3 \<leftarrow> rd_is xs (p + 3) 0 (rd_is xs (p + 4) 0 (rd_is xs (p + 5) 1 (Some True)));
     Some (if f3 then Some (p + 3) else None) }}}}"

function scan_words :: "bytes \<Rightarrow> nat \<Rightarrow> nat \<Rightarrow> (nat + nat) option" where
  "scan_words xs p e =
     (if p + 6 < e
      then do {
        x \<leftarrow> load32 xs p;
        r \<leftarrow> (if has_zero_byte x then word_code xs p else Some None);
        (case r of Some q \<Rightarrow> Some (Inl q) | None \<Rightarrow> scan_words xs (p + 4) e) }
      else Some (Inr p))"
  by pat_completeness auto
termination by (relation "measure (\<lambda>(xs, p, e). e - p)") auto

declare scan_words.simps [simp del]

definition ff_avc_find_startcode_internal :: "bytes \<Rightarrow> nat \<Rightarrow> nat \<Rightarrow> nat \<Rightarrow> nat option" where
  "ff_avc_find_startcode_internal xs al p e =
     Option.bind (scan_bytes xs p (p + 4 - (p + al) mod 4) e) (\<lambda>r1. case r1 of
       Inl q \<Rightarrow> Some q
     | Inr p1 \<Rightarrow> Option.bind (scan_words xs p1 e) (\<lambda>r2. case r2 of
         Inl q \<Rightarrow> Some q
       | Inr p2 \<Rightarrow> Option.bind (scan_bytes xs p2 e e) (\<lambda>r3. case r3 of
           Inl q \<Rightarrow> Some q
         | Inr _ \<Rightarrow> Some e)))"

definition mgw_avc_find_startcode :: "bytes \<Rightarrow> nat \<Rightarrow> nat \<Rightarrow> nat \<Rightarrow> nat option" where
  "mgw_avc_find_startcode xs al p e = do {
     out \<leftarrow> ff_avc_find_startcode_internal xs al p e;
     if p < out \<and> out < e
     then map_option (\<lambda>b. if b = 0 then out - 1 else out) (rd xs (out - 1))
     else Some out }"

section \<open>A word without a zero byte\<close>

lemma bit_of_int:
  fixes k q r :: int
  assumes "k = 2 ^ m * q + r" and "0 \<le> r" and "r < 2 ^ m" and "m < 32"
  shows "bit (word_of_int k :: u32) m \<longleftrightarrow> odd q"
proof -
  have "k div 2 ^ m = q" using assms(1-3) by simp
  then show ?thesis using assms(4) by (simp add: bit_word_of_int_iff bit_iff_odd [of k])
qed

lemma zero_byte_bit:
  fixes lo hi :: nat
  assumes x: "x = lo + 256 ^ k * (256 * hi)" and lo: "lo < 256 ^ k" and k: "k < 4"
    and c': "256 ^ k \<le> 255 * lo + 1"
  shows "has_zero_byte (of_nat x)"
proof -
  let ?m = "8 * k + 7"
  let ?c = "0x01010101 :: int"
  have "(256 ^ k - 1) div 255 \<le> 255 * lo div 255" by (intro div_le_mono) (use c' in simp)
  then have c: "(256 ^ k - 1) div 255 \<le> lo" by simp
  have L: "int lo < 256 ^ k" using lo of_nat_less_iff [where ?'a = int, of lo "256 ^ k"] by simp
  let ?lc = "int ((256 ^ k - 1) div 255)"
  have p: "(2 :: int) ^ (8 * k) = 256 ^ k" "(2 :: int) ^ (k * 8) = 256 ^ k"
    by (simp_all add: power_mult mult.commute [of k])
  have ch: "?c = ?lc + 256 ^ k * ((256 ^ (4 - k) - 1) div 255)"
  proof -
    consider "k = 0" | "k = 1" | "k = 2" | "k = 3" using k by linarith
    then show ?thesis by cases simp_all
  qed
  have h: "(256 ^ (4 - k) - 1) div 255 = (1 + 256 * ((256 ^ (3 - k) - 1) div 255) :: int)"
  proof -
    consider "k = 0" | "k = 1" | "k = 2" | "k = 3" using k by linarith
    then show ?thesis by cases simp_all
  qed
  have e: "int x - ?c = 2 ^ ?m * (2 * (int hi - (256 ^ (3 - k) - 1) div 255) - 1) + (127 * 256 ^ k + (int lo - ?lc))"
    unfolding ch h x by (simp add: power_add p algebra_simps)
  have r: "0 \<le> 127 * 256 ^ k + (int lo - ?lc)" "127 * 256 ^ k + (int lo - ?lc) < 2 ^ ?m"
    subgoal using c by (simp add: add_nonneg_nonneg)
    subgoal
    proof -
      have "127 * B + (l - int c) < B * 2 ^ 7" if "l < B" for B l :: int and c using that by simp
      from this [OF L] show ?thesis unfolding power_add p(1) .
    qed
    done
  have s: "bit (word_of_int (int x - ?c) :: u32) ?m"
    by (rule iffD2 [OF bit_of_int [OF e r]]) (use k in simp_all)
  have e': "int x = 2 ^ ?m * (2 * int hi) + int lo" unfolding x by (simp add: power_add p)
  have r': "0 \<le> int lo" "int lo < 2 ^ ?m"
  proof -
    have "l < B * 2 ^ 7" if "l < B" "0 \<le> l" for B l :: int using that by simp
    from this [OF L] show "int lo < 2 ^ ?m" unfolding power_add p(1) by simp
  qed simp
  have n: "\<not> bit (word_of_int (int x) :: u32) ?m"
    by (subst bit_of_int [OF e' r']) (use k in simp_all)
  have "bit (0x80808080 :: u32) ?m"
  proof -
    consider "k = 0" | "k = 1" | "k = 2" | "k = 3" using k by linarith
    then show ?thesis by cases (simp_all add: bit_simps)
  qed
  then have "bit ((of_nat x - 0x01010101) AND (NOT (of_nat x)) AND (0x80808080 :: u32)) ?m"
    using s n k by (simp add: bit_and_iff bit_not_iff)
  then show ?thesis unfolding has_zero_byte_def by (metis bit_0_eq bot_apply bot_bool_def)
qed

lemma le_val_append: "le_val (xs @ ys) = le_val xs + 256 ^ length xs * le_val ys"
  by (induction xs) (simp_all add: algebra_simps)

lemma le_val_less: "le_val xs < 256 ^ length xs"
proof (induction xs)
  case (Cons b xs)
  have "unat b < 256" using unsigned_less [of b, where ?'a = nat] by simp
  then show ?case using Cons by simp
qed simp

lemma le_val_nonzero: "0 \<notin> set xs \<Longrightarrow> 256 ^ length xs \<le> 255 * le_val xs + 1"
proof (induction xs)
  case (Cons b xs)
  have "1 \<le> unat b" using Cons.prems by (simp add: unat_gt_0 Suc_le_eq)
  moreover have "256 ^ length xs \<le> 255 * le_val xs + 1" using Cons by simp
  ultimately show ?case by simp
qed simp

lemma has_zero_byte_take:
  assumes "length ws = 4" and "0 \<in> set ws"
  shows "has_zero_byte (of_nat (le_val ws))"
proof -
  obtain as bs where ws: "ws = as @ 0 # bs" "0 \<notin> set as" using assms(2) by (metis split_list_first)
  show ?thesis
  proof (rule zero_byte_bit)
    show "le_val ws = le_val as + 256 ^ length as * (256 * le_val bs)" by (simp add: ws le_val_append)
    show "le_val as < 256 ^ length as" by (rule le_val_less)
    show "length as < 4" using assms(1) ws by simp
    show "256 ^ length as \<le> 255 * le_val as + 1" by (rule le_val_nonzero [OF ws(2)])
  qed
qed

section \<open>The first start code\<close>

definition code_at :: "bytes \<Rightarrow> nat \<Rightarrow> bool" where
  "code_at xs i \<longleftrightarrow> xs ! i = 0 \<and> xs ! (i + 1) = 0 \<and> xs ! (i + 2) = 1"

text \<open>The first start code from \<open>p\<close> that is followed by a byte before \<open>e\<close>.\<close>

definition first_code :: "bytes \<Rightarrow> nat \<Rightarrow> nat \<Rightarrow> nat" where
  "first_code xs p e = (case find (code_at xs) [p..<e - 3] of Some i \<Rightarrow> i | None \<Rightarrow> e)"

definition no_code :: "bytes \<Rightarrow> nat \<Rightarrow> nat \<Rightarrow> bool" where
  "no_code xs p q \<longleftrightarrow> (\<forall>i. p \<le> i \<longrightarrow> i < q \<longrightarrow> \<not> code_at xs i)"

text \<open>The outcome of a scan from \<open>p\<close>: a start code with none before it, or the offset of the first
  byte not looked at.\<close>

definition scanned :: "bytes \<Rightarrow> nat \<Rightarrow> nat \<Rightarrow> nat + nat \<Rightarrow> bool" where
  "scanned xs p e r = (case r of
     Inl q \<Rightarrow> p \<le> q \<and> q + 3 < e \<and> code_at xs q \<and> no_code xs p q
   | Inr q \<Rightarrow> p \<le> q \<and> no_code xs p q)"

lemma rd_Some: "i < length xs \<Longrightarrow> rd xs i = Some (xs ! i)"
  by (simp add: rd_def)

lemma rd_is_Some: "i < length xs \<Longrightarrow> rd_is xs i v k = (if xs ! i = v then k else Some False)"
  by (simp add: rd_is_def rd_def)

lemma is_code_Some: "p + 2 < length xs \<Longrightarrow> is_code xs p = Some (code_at xs p)"
  by (simp add: is_code_def rd_is_Some code_at_def)

lemma no_code_step: "no_code xs p q \<longleftrightarrow> q \<le> p \<or> \<not> code_at xs p \<and> no_code xs (Suc p) q"
proof (cases "q \<le> p")
  case False
  have "(\<forall>i. p \<le> i \<longrightarrow> P i) \<longleftrightarrow> P p \<and> (\<forall>i. Suc p \<le> i \<longrightarrow> P i)" for P
    by (metis Suc_le_eq le_less order_refl)
  from this [of "\<lambda>i. i < q \<longrightarrow> \<not> code_at xs i"] False show ?thesis by (simp add: no_code_def)
qed (simp add: no_code_def)

lemma scan_bytes_scanned:
  assumes "e \<le> length xs"
  shows "\<exists>r. scan_bytes xs p a e = Some r \<and> scanned xs p e r \<and> (\<forall>q. r = Inr q \<longrightarrow> a \<le> q \<or> e \<le> q + 3)"
  using assms
proof (induction xs p a e rule: scan_bytes.induct)
  case (1 xs p a e)
  show ?case
  proof (cases "p < a \<and> p + 3 < e")
    case True
    then have c: "is_code xs p = Some (code_at xs p)" using 1(2) by (intro is_code_Some) simp
    show ?thesis
    proof (cases "code_at xs p")
      case False
      then show ?thesis
        using 1(1) [OF True, of False] True 1(2) c
        by (subst scan_bytes.simps) (auto simp: scanned_def no_code_step [of xs p] split: sum.splits)
    qed (use True c in \<open>subst scan_bytes.simps, auto simp: scanned_def no_code_def\<close>)
  qed (subst scan_bytes.simps, auto simp: scanned_def no_code_def)
qed

lemma code_at_offsets:
  "code_at xs (p + 1) \<longleftrightarrow> xs ! (p + 1) = 0 \<and> xs ! (p + 2) = 0 \<and> xs ! (p + 3) = 1"
  "code_at xs (p + 2) \<longleftrightarrow> xs ! (p + 2) = 0 \<and> xs ! (p + 3) = 0 \<and> xs ! (p + 4) = 1"
  "code_at xs (p + 3) \<longleftrightarrow> xs ! (p + 3) = 0 \<and> xs ! (p + 4) = 0 \<and> xs ! (p + 5) = 1"
  by (simp_all add: code_at_def eval_nat_numeral)

lemma word_code_Some:
  assumes "p + 5 < length xs"
  shows "word_code xs p = Some (if code_at xs p then Some p else if code_at xs (p + 1) then Some (p + 1)
    else if code_at xs (p + 2) then Some (p + 2) else if code_at xs (p + 3) then Some (p + 3) else None)"
  using assms unfolding word_code_def code_at_offsets unfolding code_at_def by (simp add: rd_is_Some)

lemma no_code_4:
  "no_code xs p (p + 4) \<longleftrightarrow> \<not> code_at xs p \<and> \<not> code_at xs (p + 1) \<and> \<not> code_at xs (p + 2) \<and> \<not> code_at xs (p + 3)"
proof -
  have "{p..<p + 4} = {p, p + 1, p + 2, p + 3}" by auto
  moreover have "no_code xs p (p + 4) \<longleftrightarrow> (\<forall>i \<in> {p..<p + 4}. \<not> code_at xs i)" by (auto simp: no_code_def)
  ultimately show ?thesis by simp
qed

lemma no_codes:
  "no_code xs p p"
  "no_code xs p (p + 1) \<longleftrightarrow> \<not> code_at xs p"
  "no_code xs p (p + 2) \<longleftrightarrow> \<not> code_at xs p \<and> \<not> code_at xs (p + 1)"
  "no_code xs p (p + 3) \<longleftrightarrow> \<not> code_at xs p \<and> \<not> code_at xs (p + 1) \<and> \<not> code_at xs (p + 2)"
proof -
  have "{p..<p + 2} = {p, p + 1}" "{p..<p + 3} = {p, p + 1, p + 2}" by auto
  moreover have "no_code xs p q \<longleftrightarrow> (\<forall>i \<in> {p..<q}. \<not> code_at xs i)" for q by (auto simp: no_code_def)
  ultimately show "no_code xs p p" "no_code xs p (p + 1) \<longleftrightarrow> \<not> code_at xs p"
    "no_code xs p (p + 2) \<longleftrightarrow> \<not> code_at xs p \<and> \<not> code_at xs (p + 1)"
    "no_code xs p (p + 3) \<longleftrightarrow> \<not> code_at xs p \<and> \<not> code_at xs (p + 1) \<and> \<not> code_at xs (p + 2)"
    by simp_all
qed

lemma load32_Some:
  "p + 4 \<le> length xs \<Longrightarrow> load32 xs p = Some (of_nat (le_val [xs ! p, xs ! (p + 1), xs ! (p + 2), xs ! (p + 3)]))"
proof -
  assume a: "p + 4 \<le> length xs"
  have "drop p xs = xs ! p # xs ! (p + 1) # xs ! (p + 2) # xs ! (p + 3) # drop (p + 4) xs"
    using a Cons_nth_drop_Suc [of p xs] Cons_nth_drop_Suc [of "p + 1" xs]
      Cons_nth_drop_Suc [of "p + 2" xs] Cons_nth_drop_Suc [of "p + 3" xs] by (simp add: numeral_eq_Suc)
  then show ?thesis using a by (simp add: load32_def)
qed

lemma no_zero_no_code:
  assumes "p + 4 \<le> length xs" and "load32 xs p = Some x" and "\<not> has_zero_byte x"
  shows "no_code xs p (p + 4)"
proof -
  have "0 \<notin> set [xs ! p, xs ! (p + 1), xs ! (p + 2), xs ! (p + 3)]"
    using assms has_zero_byte_take [of "[xs ! p, xs ! (p + 1), xs ! (p + 2), xs ! (p + 3)]"]
    by (auto simp: load32_Some)
  then show ?thesis unfolding no_code_4 code_at_offsets unfolding code_at_def by auto
qed

lemma no_code_trans: "no_code xs p q \<Longrightarrow> no_code xs q r \<Longrightarrow> no_code xs p r"
  by (meson no_code_def not_le)

lemma scan_words_step:
  assumes "p + 6 < e" and "e \<le> length xs"
  shows "scan_words xs p e = (if no_code xs p (p + 4) then scan_words xs (p + 4) e
    else map_option Inl (the (word_code xs p)))"
proof -
  obtain x where x: "load32 xs p = Some x" using assms load32_Some by fastforce
  have w: "word_code xs p = Some (if code_at xs p then Some p else if code_at xs (p + 1) then Some (p + 1)
    else if code_at xs (p + 2) then Some (p + 2) else if code_at xs (p + 3) then Some (p + 3) else None)"
    using assms by (intro word_code_Some) simp
  show ?thesis
  proof (cases "has_zero_byte x")
    case True
    then show ?thesis using x assms(1) by (subst scan_words.simps) (simp add: w no_code_4)
  next
    case False
    then have "no_code xs p (p + 4)" using no_zero_no_code [OF _ x] assms by simp
    then show ?thesis using x assms(1) False by (subst scan_words.simps) simp
  qed
qed

lemma scan_words_scanned:
  assumes "e \<le> length xs"
  shows "\<exists>r. scan_words xs p e = Some r \<and> scanned xs p e r"
  using assms
proof (induction xs p e rule: scan_words.induct)
  case (1 xs p e)
  show ?case
  proof (cases "p + 6 < e")
    case True
    show ?thesis
    proof (cases "no_code xs p (p + 4)")
      case n: True
      have "\<exists>r. scan_words xs (p + 4) e = Some r \<and> scanned xs (p + 4) e r"
      proof -
        obtain x where x: "load32 xs p = Some x" using True 1(2) load32_Some by fastforce
        have "(if has_zero_byte x then word_code xs p else Some None) = Some None"
          using n True 1(2) by (simp add: word_code_Some no_code_4)
        then show ?thesis using 1(1) [OF True x, of None] 1(2) by simp
      qed
      then show ?thesis
        using scan_words_step [OF True 1(2)] n no_code_trans [OF n]
        by (auto simp: scanned_def split: sum.splits)
    next
      case False
      have "word_code xs p \<noteq> None" "p + 5 < length xs" using True 1(2) by (simp_all add: word_code_Some)
      with False show ?thesis
        using scan_words_step [OF True 1(2)] True
        by (auto simp: word_code_Some no_code_4 scanned_def no_codes [simplified])
    qed
  qed (subst scan_words.simps, auto simp: scanned_def no_code_def)
qed

lemma find_upt_None: "find P [p..<q] = None \<longleftrightarrow> (\<forall>i. p \<le> i \<longrightarrow> i < q \<longrightarrow> \<not> P i)"
  by (auto simp: find_None_iff)

lemma find_upt_Some:
  assumes "p \<le> i" and "i < q" and "P i" and "\<And>j. p \<le> j \<Longrightarrow> j < i \<Longrightarrow> \<not> P j"
  shows "find P [p..<q] = Some i"
proof -
  have a: "find P (as @ i # bs) = Some i" if "\<forall>x \<in> set as. \<not> P x" for as bs
    using that assms(3) by (induction as) auto
  have "[p..<q] = [p..<i] @ i # [Suc i..<q]"
    using assms(1,2) upt_add_eq_append [of p i "q - i"] by (simp add: upt_conv_Cons)
  then show ?thesis using a [of "[p..<i]"] assms(4) by simp
qed

lemma scanned_first:
  "scanned xs p e (Inl q) \<Longrightarrow> first_code xs p e = q"
  "scanned xs p e (Inr q) \<Longrightarrow> e \<le> q + 3 \<Longrightarrow> first_code xs p e = e"
proof -
  assume s: "scanned xs p e (Inl q)"
  then have "find (code_at xs) [p..<e - 3] = Some q"
    by (intro find_upt_Some) (auto simp: scanned_def no_code_def)
  then show "first_code xs p e = q" by (simp add: first_code_def)
next
  assume "scanned xs p e (Inr q)" "e \<le> q + 3"
  then have "find (code_at xs) [p..<e - 3] = None" unfolding find_upt_None by (auto simp: scanned_def no_code_def)
  then show "first_code xs p e = e" by (simp add: first_code_def)
qed

lemma scanned_trans: "scanned xs p e (Inr q) \<Longrightarrow> scanned xs q e r \<Longrightarrow> scanned xs p e r"
  using no_code_trans by (fastforce simp: scanned_def split: sum.splits)

text \<open>C7: Whatever the alignment of the data, the word-wise search returns what the naive search
  returns, the first offset of the bytes 0 0 1 with a byte after them, or the end; and it reads
  nothing behind the end.\<close>

theorem find_startcode_first:
  assumes "e \<le> length xs"
  shows "ff_avc_find_startcode_internal xs al p e = Some (first_code xs p e)"
proof -
  obtain r1 where r1: "scan_bytes xs p (p + 4 - (p + al) mod 4) e = Some r1" "scanned xs p e r1"
    using scan_bytes_scanned [OF assms] by blast
  show ?thesis
  proof (cases r1)
    case (Inl q)
    then show ?thesis using r1 scanned_first(1) by (simp add: ff_avc_find_startcode_internal_def)
  next
    case p1: (Inr p1)
    obtain r2 where r2: "scan_words xs p1 e = Some r2" "scanned xs p1 e r2"
      using scan_words_scanned [OF assms] by blast
    then have s2: "scanned xs p e r2" using scanned_trans r1(2) p1 by blast
    show ?thesis
    proof (cases r2)
      case (Inl q)
      then show ?thesis using r1 p1 r2 scanned_first(1) [of xs p e q] s2 by (simp add: ff_avc_find_startcode_internal_def)
    next
      case p2: (Inr p2)
      obtain r3 where r3: "scan_bytes xs p2 e e = Some r3" "scanned xs p2 e r3" "\<forall>q. r3 = Inr q \<longrightarrow> e \<le> q + 3"
        using scan_bytes_scanned [OF assms, of p2 e] by fastforce
      then have "scanned xs p e r3" using scanned_trans s2 p2 by blast
      then show ?thesis
        using r1 p1 r2 p2 r3 scanned_first [of xs p e] by (cases r3) (simp_all add: ff_avc_find_startcode_internal_def)
    qed
  qed
qed

theorem find_startcode_first_witness:
  "ff_avc_find_startcode_internal [9, 0, 0, 0, 1, 7, 0, 0, 1, 8, 8, 8, 8] 3 5 13 = Some 6"
proof -
  have "first_code [9, 0, 0, 0, 1, 7, 0, 0, 1, 8, 8, 8, 8] 5 13 = 6" by code_simp
  then show ?thesis using find_startcode_first [of 13 "[9, 0, 0, 0, 1, 7, 0, 0, 1, 8, 8, 8, 8]" 3 5] by simp
qed

end
