(* ===== verification/AvcNal.thy ===== *)
theory AvcNal
  imports AvcStartcode CodecDef
begin

text \<open>
  H.264 streams in mgw-core/util/source/codec-common.c: the walk over the NAL units of an Annex B
  stream (key frame test, parameter sets, decoder configuration record), the search for one unit,
  and the conversion between start codes and length prefixes. Data is a block of bytes with
  offsets for pointers; for the conversions, which free and share blocks, it is a heap.
\<close>

section \<open>The walk over the units\<close>

function skip_zeros :: "bytes \<Rightarrow> nat \<Rightarrow> nat \<Rightarrow> nat option" where
  "skip_zeros xs p e =
     (if p < e then Option.bind (rd xs p) (\<lambda>b. if b = 0 then skip_zeros xs (p + 1) e else Some (p + 1))
      else Some p)"
  by pat_completeness auto
termination by (relation "measure (\<lambda>(xs, p, e). e - p)") auto

declare skip_zeros.simps [simp del]

lemma scan_bytes_range:
  "scan_bytes xs p a e = Some r \<Longrightarrow> (case r of Inl q \<Rightarrow> p \<le> q \<and> q < e | Inr q \<Rightarrow> p \<le> q)"
proof (induction xs p a e rule: scan_bytes.induct)
  case (1 xs p a e)
  show ?case
  proof (cases "p < a \<and> p + 3 < e")
    case True
    then obtain f where f: "is_code xs p = Some f" "(if f then Some (Inl p) else scan_bytes xs (p + 1) a e) = Some r"
      using 1(2) by (subst (asm) scan_bytes.simps) (auto simp: bind_Some_iff)
    then show ?thesis
      using 1(1) [OF True f(1)] True by (cases f) (auto split: sum.splits)
  qed (use 1(2) in \<open>subst (asm) scan_bytes.simps, auto\<close>)
qed

lemma word_code_range: "word_code xs p = Some (Some q) \<Longrightarrow> p \<le> q \<and> q \<le> p + 3"
  by (auto simp: word_code_def bind_Some_iff split: if_splits)

lemma scan_words_range:
  "scan_words xs p e = Some r \<Longrightarrow> (case r of Inl q \<Rightarrow> p \<le> q \<and> q < e | Inr q \<Rightarrow> p \<le> q)"
proof (induction xs p e rule: scan_words.induct)
  case (1 xs p e)
  show ?case
  proof (cases "p + 6 < e")
    case True
    then obtain x r1 where x: "load32 xs p = Some x" "(if has_zero_byte x then word_code xs p else Some None) = Some r1"
      "(case r1 of Some q \<Rightarrow> Some (Inl q) | None \<Rightarrow> scan_words xs (p + 4) e) = Some r"
      using 1(2) by (subst (asm) scan_words.simps) (auto simp: bind_Some_iff)
    show ?thesis
    proof (cases r1)
      case None
      then show ?thesis using 1(1) [OF True x(1,2)] x(3) by (auto split: sum.splits)
    next
      case (Some q)
      then show ?thesis using x word_code_range [of xs p q] True by (auto split: if_splits)
    qed
  qed (use 1(2) in \<open>subst (asm) scan_words.simps, auto\<close>)
qed

lemma find_startcode_range:
  assumes "mgw_avc_find_startcode xs al p e = Some q"
  shows "q = e \<or> p \<le> q \<and> q < e"
proof -
  obtain out where out: "ff_avc_find_startcode_internal xs al p e = Some out"
    using assms by (auto simp: mgw_avc_find_startcode_def bind_Some_iff)
  then obtain r1 where r1: "scan_bytes xs p (p + 4 - (p + al) mod 4) e = Some r1"
    by (auto simp: ff_avc_find_startcode_internal_def bind_Some_iff)
  have "out = e \<or> p \<le> out \<and> out < e"
  proof (cases r1)
    case (Inl q1)
    then show ?thesis using out r1 scan_bytes_range [OF r1] by (simp add: ff_avc_find_startcode_internal_def)
  next
    case p1: (Inr p1)
    with out r1 obtain r2 where r2: "scan_words xs p1 e = Some r2"
      by (auto simp: ff_avc_find_startcode_internal_def bind_Some_iff)
    show ?thesis
    proof (cases r2)
      case (Inl q2)
      then show ?thesis
        using out r1 p1 r2 scan_bytes_range [OF r1] scan_words_range [OF r2]
        by (simp add: ff_avc_find_startcode_internal_def)
    next
      case p2: (Inr p2)
      with out r1 p1 r2 obtain r3 where r3: "scan_bytes xs p2 e e = Some r3"
        by (auto simp: ff_avc_find_startcode_internal_def bind_Some_iff)
      then show ?thesis
        using out r1 p1 r2 p2 scan_bytes_range [OF r1] scan_words_range [OF r2] scan_bytes_range [OF r3]
        by (cases r3) (auto simp: ff_avc_find_startcode_internal_def)
    qed
  qed
  then show ?thesis using assms out
    by (auto simp: mgw_avc_find_startcode_def split: if_splits)
qed

lemma skip_zeros_range: "skip_zeros xs p e = Some q \<Longrightarrow> if p < e then p < q \<and> q \<le> e else q = p"
proof (induction xs p e rule: skip_zeros.induct)
  case (1 xs p e)
  then show ?case
    by (subst (asm) skip_zeros.simps) (fastforce simp: bind_Some_iff split: if_splits)
qed

text \<open>The walk goes up: the distance to the end falls, and a pointer behind the end comes back to
  it.\<close>

definition walk_left :: "nat \<Rightarrow> nat \<Rightarrow> nat" where
  "walk_left p e = (if p = e then 0 else if e < p then 1 else 1 + (e - p))"

lemma walk_left_less:
  "skip_zeros xs p e = Some p' \<Longrightarrow> p' \<noteq> e \<Longrightarrow> mgw_avc_find_startcode xs al p' e = Some q \<Longrightarrow>
   walk_left q e < walk_left p e"
  using skip_zeros_range [of xs p e p'] find_startcode_range [of xs al p' e q]
  by (auto simp: walk_left_def split: if_splits)

function keyframe_loop :: "bytes \<Rightarrow> nat \<Rightarrow> nat \<Rightarrow> nat \<Rightarrow> bool option" where
  "keyframe_loop xs al p e =
     Option.bind (skip_zeros xs p e) (\<lambda>p'.
       if p' = e then Some False
       else Option.bind (rd xs p') (\<lambda>b.
         if b AND 0x1F = 5 \<or> b AND 0x1F = 1 then Some (b AND 0x1F = 5)
         else Option.bind (mgw_avc_find_startcode xs al p' e) (\<lambda>q. keyframe_loop xs al q e)))"
  by pat_completeness auto
termination by (relation "measure (\<lambda>(xs, al, p, e). walk_left p e)") (auto intro: walk_left_less)

declare keyframe_loop.simps [simp del]

definition mgw_avc_keyframe :: "bytes \<Rightarrow> nat \<Rightarrow> nat \<Rightarrow> bool option" where
  "mgw_avc_keyframe xs al sz = Option.bind (mgw_avc_find_startcode xs al 0 sz) (\<lambda>p. keyframe_loop xs al p sz)"

text \<open>The last parameter sets of the data, each as offset and size.\<close>

function sps_pps_loop :: "bytes \<Rightarrow> nat \<Rightarrow> nat \<Rightarrow> nat \<Rightarrow> (nat \<times> nat) option \<Rightarrow> (nat \<times> nat) option \<Rightarrow>
    ((nat \<times> nat) option \<times> (nat \<times> nat) option) option" where
  "sps_pps_loop xs al p e sps pps =
     Option.bind (skip_zeros xs p e) (\<lambda>p'.
       if p' = e then Some (sps, pps)
       else Option.bind (mgw_avc_find_startcode xs al p' e) (\<lambda>q. Option.bind (rd xs p') (\<lambda>b.
         if b AND 0x1F = 7 then sps_pps_loop xs al q e (Some (p', q - p')) pps
         else if b AND 0x1F = 8 then sps_pps_loop xs al q e sps (Some (p', q - p'))
         else sps_pps_loop xs al q e sps pps)))"
  by pat_completeness auto
termination by (relation "measure (\<lambda>(xs, al, p, e, s, t). walk_left p e)") (auto intro: walk_left_less)

declare sps_pps_loop.simps [simp del]

definition get_avc_sps_pps :: "bytes \<Rightarrow> nat \<Rightarrow> nat \<Rightarrow> ((nat \<times> nat) option \<times> (nat \<times> nat) option) option" where
  "get_avc_sps_pps xs al sz =
     Option.bind (mgw_avc_find_startcode xs al 0 sz) (\<lambda>p. sps_pps_loop xs al p sz None None)"

text \<open>The decoder configuration record; the inner \<open>None\<close> is the result 0.\<close>

definition mgw_parse_avc_header :: "bytes \<Rightarrow> nat \<Rightarrow> nat \<Rightarrow> bytes option option" where
  "mgw_parse_avc_header xs al sz = do {
     (sps, pps) \<leftarrow> get_avc_sps_pps xs al sz;
     (case (sps, pps) of
        (Some (sp, sn), Some (pp, pn)) \<Rightarrow>
          if sn < 4 then Some None
          else do {
            s \<leftarrow> s_w8 array_output_serializer_init 1;
            bs \<leftarrow> read_at xs (sp + 1) 3;
            s \<leftarrow> map_option snd (s_write s bs);
            s \<leftarrow> s_w8 s 0xff;
            s \<leftarrow> s_w8 s 0xe1;
            s \<leftarrow> s_wb16 s (of_nat sn);
            bs \<leftarrow> read_at xs sp sn;
            s \<leftarrow> map_option snd (s_write s bs);
            s \<leftarrow> s_w8 s 1;
            s \<leftarrow> s_wb16 s (of_nat pn);
            bs \<leftarrow> read_at xs pp pn;
            s \<leftarrow> map_option snd (s_write s bs);
            map_option Some (darray_contents (sr_data s)) }
      | _ \<Rightarrow> Some None) }"

section \<open>Annex B streams\<close>

text \<open>A unit is the length of its start code (long or short) and its bytes.\<close>

type_synonym nal_unit = "bool \<times> bytes"

definition start_code :: "bool \<Rightarrow> bytes" where
  "start_code long = (if long then [0, 0, 0, 1] else [0, 0, 1])"

definition annexb :: "nal_unit list \<Rightarrow> bytes" where
  "annexb ns = concat (map (\<lambda>(l, n). start_code l @ n) ns)"

text \<open>What the standard asks of the bytes of a unit: no start code inside, no zero at the end.\<close>

definition good_nal :: "bytes \<Rightarrow> bool" where
  "good_nal n \<longleftrightarrow> n \<noteq> [] \<and> last n \<noteq> 0 \<and> (\<forall>i. i + 2 < length n \<longrightarrow> \<not> code_at n i)"

definition good_stream :: "nal_unit list \<Rightarrow> bool" where
  "good_stream ns \<longleftrightarrow> (\<forall>(l, n) \<in> set ns. good_nal n)"

lemma annexb_Nil: "annexb [] = []"
  by (simp add: annexb_def)

lemma annexb_Cons: "annexb ((l, n) # ns) = start_code l @ n @ annexb ns"
  by (simp add: annexb_def)

lemma good_stream_Cons: "good_stream ((l, n) # ns) \<longleftrightarrow> good_nal n \<and> good_stream ns"
  by (auto simp: good_stream_def)

lemma code_at_shift: "code_at (pre @ ys) (length pre + j) \<longleftrightarrow> code_at ys j"
  by (simp add: code_at_def nth_append)

lemma good_nal_no_code:
  assumes "good_nal n" and "j < length n"
  shows "\<not> code_at (n @ post) j"
proof -
  have l: "n ! (length n - 1) \<noteq> 0" using assms(1) by (auto simp: good_nal_def last_conv_nth)
  consider "j + 2 < length n" | "j + 2 = length n" | "j + 1 = length n" using assms(2) by linarith
  then show ?thesis
  proof cases
    case 1
    then show ?thesis using assms by (auto simp: good_nal_def code_at_def nth_append)
  next
    case 2
    then have "length n - 1 = j + 1" by simp
    then show ?thesis using l 2 by (auto simp: code_at_def nth_append)
  next
    case 3
    then have "length n - 1 = j" by simp
    then show ?thesis using l 3 by (auto simp: code_at_def nth_append)
  qed
qed

lemma first_code_eqI:
  assumes "p \<le> i" and "i + 3 < e" and "code_at xs i" and "\<And>j. p \<le> j \<Longrightarrow> j < i \<Longrightarrow> \<not> code_at xs j"
  shows "first_code xs p e = i"
  using find_upt_Some [of p i "e - 3" "code_at xs"] assms by (simp add: first_code_def)

lemma start_code_at: "code_at (start_code l @ ys) (if l then 1 else 0)"
  by (simp add: start_code_def code_at_def)

lemma long_code_at_0: "\<not> code_at (start_code True @ ys) 0"
  by (simp add: start_code_def code_at_def)

lemma find_at_code:
  assumes "n \<noteq> []"
  shows "mgw_avc_find_startcode (pre @ start_code l @ n @ post) al (length pre) (length (pre @ start_code l @ n @ post))
    = Some (length pre)"
proof -
  let ?xs = "pre @ start_code l @ n @ post"
  have "first_code ?xs (length pre) (length ?xs) = length pre + (if l then 1 else 0)"
  proof (rule first_code_eqI)
    show "code_at ?xs (length pre + (if l then 1 else 0))"
      unfolding code_at_shift by (rule start_code_at)
    show "\<not> code_at ?xs j" if "length pre \<le> j" "j < length pre + (if l then 1 else 0)" for j
    proof -
      have "j = length pre + 0" "l" using that by (auto split: if_splits)
      then show ?thesis using code_at_shift [of pre "start_code l @ n @ post" 0] long_code_at_0 by simp
    qed
  qed (use assms in \<open>auto simp: start_code_def Suc_le_eq\<close>)
  then show ?thesis
    by (simp add: mgw_avc_find_startcode_def find_startcode_first rd_def nth_append start_code_def)
qed

lemma find_from_payload:
  assumes g: "good_nal n" and gs: "good_stream ns"
  shows "mgw_avc_find_startcode (pre @ n @ annexb ns) al (length pre) (length (pre @ n @ annexb ns))
    = Some (length pre + length n)"
proof -
  let ?xs = "pre @ n @ annexb ns" and ?p = "length pre"
  have in_n: "\<not> code_at ?xs j" if "?p \<le> j" "j < ?p + length n" for j
    using good_nal_no_code [OF g, of "j - ?p" "annexb ns"] code_at_shift [of pre "n @ annexb ns" "j - ?p"] that by simp
  show ?thesis
  proof (cases ns)
    case Nil
    have "first_code ?xs ?p (length ?xs) = length ?xs"
    proof -
      have "find (code_at ?xs) [?p..<length ?xs - 3] = None"
        unfolding find_upt_None using in_n Nil by (auto simp: annexb_Nil)
      then show ?thesis by (simp add: first_code_def)
    qed
    then show ?thesis using Nil by (simp add: mgw_avc_find_startcode_def find_startcode_first annexb_Nil)
  next
    case (Cons u ns')
    obtain l m where u: "u = (l, m)" by (cases u)
    have m: "m \<noteq> []" using gs Cons u by (simp add: good_stream_Cons good_nal_def)
    let ?q = "?p + length n"
    have sh: "code_at ?xs (?q + j) \<longleftrightarrow> code_at (start_code l @ m @ annexb ns') j" for j
      using code_at_shift [of "pre @ n" "start_code l @ m @ annexb ns'" j] Cons u by (simp add: annexb_Cons)
    have f: "first_code ?xs ?p (length ?xs) = ?q + (if l then 1 else 0)"
    proof (rule first_code_eqI)
      show "code_at ?xs (?q + (if l then 1 else 0))" unfolding sh by (rule start_code_at)
      show "\<not> code_at ?xs j" if j: "?p \<le> j" "j < ?q + (if l then 1 else 0)" for j
      proof (cases "j < ?q")
        case False
        then have "j = ?q + 0" "l" using j by (auto split: if_splits)
        then show ?thesis using sh [of 0] long_code_at_0 by simp
      qed (use in_n j in auto)
    qed (use m Cons u in \<open>auto simp: annexb_Cons start_code_def Suc_le_eq\<close>)
    have "?xs ! (?q - 1) \<noteq> 0"
    proof -
      have n: "n \<noteq> []" using g by (simp add: good_nal_def)
      then have "?q - 1 = ?p + (length n - 1)" by (cases n) simp_all
      then have "?xs ! (?q - 1) = last n" using n by (simp add: nth_append last_conv_nth)
      then show ?thesis using g by (simp add: good_nal_def)
    qed
    moreover have "?xs ! ?q = 0" using Cons u by (simp add: annexb_Cons nth_append start_code_def)
    moreover have "?p < ?q" "?q + 1 < length ?xs" "annexb ns \<noteq> []" "?q - 1 < length ?xs"
      using g m Cons u by (auto simp: good_nal_def annexb_Cons start_code_def)
    ultimately show ?thesis
      using f by (simp add: mgw_avc_find_startcode_def find_startcode_first rd_def)
  qed
qed

lemma skip_start_code:
  "skip_zeros (pre @ start_code l @ ys) (length pre) (length (pre @ start_code l @ ys))
   = Some (length pre + length (start_code l))"
  by (cases l) (simp_all add: skip_zeros.simps [of "pre @ _"] rd_def nth_append start_code_def)

lemma skip_at_end: "skip_zeros xs (length xs) (length xs) = Some (length xs)"
  by (simp add: skip_zeros.simps)

text \<open>One round of a walk: over the start code, then to the end of the unit.\<close>

lemma walk_step:
  assumes "good_nal n" and "good_stream ns" and xs: "xs = pre @ start_code l @ n @ annexb ns"
  shows "skip_zeros xs (length pre) (length xs) = Some (length pre + length (start_code l))"
    and "length pre + length (start_code l) \<noteq> length xs"
    and "rd xs (length pre + length (start_code l)) = Some (hd n)"
    and "mgw_avc_find_startcode xs al (length pre + length (start_code l)) (length xs) =
      Some (length pre + length (start_code l) + length n)"
proof -
  show "skip_zeros xs (length pre) (length xs) = Some (length pre + length (start_code l))"
    unfolding xs by (rule skip_start_code)
  have n: "n \<noteq> []" using assms(1) by (simp add: good_nal_def)
  then show "length pre + length (start_code l) \<noteq> length xs" by (simp add: xs)
  show "rd xs (length pre + length (start_code l)) = Some (hd n)"
    using n by (simp add: xs rd_def nth_append hd_conv_nth)
  show "mgw_avc_find_startcode xs al (length pre + length (start_code l)) (length xs) =
      Some (length pre + length (start_code l) + length n)"
    using find_from_payload [OF assms(1,2), of "pre @ start_code l" al] by (simp add: xs)
qed

definition nal_type :: "bytes \<Rightarrow> byte" where
  "nal_type n = hd n AND 0x1F"

text \<open>A unit of a slice: the key frame test stops at the first.\<close>

definition is_slice :: "bytes \<Rightarrow> bool" where
  "is_slice n \<longleftrightarrow> nal_type n = 5 \<or> nal_type n = 1"

lemma keyframe_loop_stream:
  assumes "good_stream ns" and "xs = pre @ annexb ns"
  shows "keyframe_loop xs al (length pre) (length xs) =
    Some (case find is_slice (map snd ns) of Some n \<Rightarrow> nal_type n = 5 | None \<Rightarrow> False)"
  using assms
proof (induction ns arbitrary: pre)
  case Nil
  then show ?case by (simp add: keyframe_loop.simps annexb_Nil skip_at_end)
next
  case (Cons u ns)
  obtain l n where u: "u = (l, n)" by (cases u)
  have g: "good_nal n" "good_stream ns" using Cons.prems(1) by (simp_all add: u good_stream_Cons)
  have xs: "xs = pre @ start_code l @ n @ annexb ns" using Cons.prems(2) by (simp add: u annexb_Cons)
  note w = walk_step [OF g xs]
  have "keyframe_loop xs al (length pre + length (start_code l) + length n) (length xs) =
    Some (case find is_slice (map snd ns) of Some n \<Rightarrow> nal_type n = 5 | None \<Rightarrow> False)"
    using Cons.IH [OF g(2), of "pre @ start_code l @ n"] xs by (simp add: add.assoc)
  then show ?case
    using w by (subst keyframe_loop.simps) (simp add: u is_slice_def nal_type_def)
qed

lemma find_at_stream: "good_stream ns \<Longrightarrow> mgw_avc_find_startcode (annexb ns) al 0 (length (annexb ns)) = Some 0"
proof (cases ns)
  case Nil
  then show ?thesis by (simp add: mgw_avc_find_startcode_def find_startcode_first annexb_Nil first_code_def)
next
  case (Cons u ns')
  obtain l n where u: "u = (l, n)" by (cases u)
  assume "good_stream ns"
  then have "n \<noteq> []" using Cons u by (simp add: good_stream_Cons good_nal_def)
  from find_at_code [OF this, of "[]" l "annexb ns'" al] show ?thesis by (simp add: Cons u annexb_Cons)
qed

text \<open>On an Annex B stream of well-formed units, with short and long start codes, the key
  frame test answers whether the first slice is an IDR slice, and false without a slice; it never
  reads outside the data.\<close>

theorem keyframe_first_slice:
  assumes "good_stream ns"
  shows "mgw_avc_keyframe (annexb ns) al (length (annexb ns)) =
    Some (case find is_slice (map snd ns) of Some n \<Rightarrow> nal_type n = 5 | None \<Rightarrow> False)"
  using keyframe_loop_stream [OF assms, of _ "[]"] find_at_stream [OF assms]
  by (simp add: mgw_avc_keyframe_def)

theorem keyframe_first_slice_witness:
  "mgw_avc_keyframe [0, 0, 0, 1, 0x67, 0x42, 0, 0, 1, 0x68, 0xCE, 0, 0, 1, 0x65, 0x88] 2 16 = Some True"
proof -
  let ?ns = "[(True, [0x67, 0x42]), (False, [0x68, 0xCE]), (False, [0x65, 0x88])]"
  have "good_stream ?ns"
    by (simp add: good_stream_def good_nal_def)
  from keyframe_first_slice [OF this, of 2]
  have "mgw_avc_keyframe (annexb ?ns) 2 (length (annexb ?ns)) = Some True"
    by (simp add: is_slice_def nal_type_def)
  moreover have e: "annexb ?ns = [0, 0, 0, 1, 0x67, 0x42, 0, 0, 1, 0x68, 0xCE, 0, 0, 1, 0x65, 0x88]" by code_simp
  moreover have "length (annexb ?ns) = 16" by code_simp
  ultimately show ?thesis by metis
qed

section \<open>Parameter sets\<close>

text \<open>The last unit of a type, \<open>s\<close> if there is none.\<close>

definition last_unit :: "byte \<Rightarrow> bytes list \<Rightarrow> bytes option \<Rightarrow> bytes option" where
  "last_unit ty ns s = foldl (\<lambda>s n. if nal_type n = ty then Some n else s) s ns"

lemma last_unit_Cons: "last_unit ty (n # ns) s = last_unit ty ns (if nal_type n = ty then Some n else s)"
  by (simp add: last_unit_def)

text \<open>An offset and a size stand for the unit at that place.\<close>

definition at_place :: "bytes \<Rightarrow> (nat \<times> nat) option \<Rightarrow> bytes option \<Rightarrow> bool" where
  "at_place xs r s = (case (r, s) of
     (None, None) \<Rightarrow> True
   | (Some (p, k), Some n) \<Rightarrow> (\<exists>pre post. xs = pre @ n @ post \<and> p = length pre \<and> k = length n)
   | _ \<Rightarrow> False)"

lemma at_place_None: "at_place xs None None"
  by (simp add: at_place_def)

lemma at_place_unit: "xs = pre @ n @ post \<Longrightarrow> p = length pre \<Longrightarrow> k = length n \<Longrightarrow> at_place xs (Some (p, k)) (Some n)"
  by (auto simp: at_place_def)

lemma sps_pps_loop_stream:
  assumes "good_stream ns" and "xs = pre @ annexb ns" and "at_place xs r1 s1" and "at_place xs r2 s2"
  shows "\<exists>q1 q2. sps_pps_loop xs al (length pre) (length xs) r1 r2 = Some (q1, q2) \<and>
    at_place xs q1 (last_unit 7 (map snd ns) s1) \<and> at_place xs q2 (last_unit 8 (map snd ns) s2)"
  using assms
proof (induction ns arbitrary: pre r1 r2 s1 s2)
  case Nil
  then show ?case by (simp add: sps_pps_loop.simps annexb_Nil skip_at_end last_unit_def)
next
  case (Cons u ns)
  obtain l n where u: "u = (l, n)" by (cases u)
  have g: "good_nal n" "good_stream ns" using Cons.prems(1) by (simp_all add: u good_stream_Cons)
  have xs: "xs = pre @ start_code l @ n @ annexb ns" using Cons.prems(2) by (simp add: u annexb_Cons)
  note w = walk_step [OF g xs]
  let ?p = "length pre + length (start_code l)"
  let ?here = "Some (?p, length n)"
  have h: "at_place xs ?here (Some n)" by (rule at_place_unit [of _ "pre @ start_code l"]) (simp_all add: xs)
  have p: "xs = (pre @ start_code l @ n) @ annexb ns" "length (pre @ start_code l @ n) = ?p + length n"
    by (simp_all add: xs)
  have step: "sps_pps_loop xs al (length pre) (length xs) r1 r2 =
    sps_pps_loop xs al (?p + length n) (length xs) (if nal_type n = 7 then ?here else r1)
      (if nal_type n = 8 then ?here else r2)"
    using w by (subst sps_pps_loop.simps) (simp add: nal_type_def)
  have "at_place xs (if nal_type n = 7 then ?here else r1) (if nal_type n = 7 then Some n else s1)"
    "at_place xs (if nal_type n = 8 then ?here else r2) (if nal_type n = 8 then Some n else s2)"
    using h Cons.prems(3,4) by simp_all
  from Cons.IH [OF g(2) p(1) this] show ?case unfolding step p(2) by (simp add: u last_unit_Cons)
qed

lemma get_sps_pps_stream:
  assumes "good_stream ns"
  shows "\<exists>q1 q2. get_avc_sps_pps (annexb ns) al (length (annexb ns)) = Some (q1, q2) \<and>
    at_place (annexb ns) q1 (last_unit 7 (map snd ns) None) \<and> at_place (annexb ns) q2 (last_unit 8 (map snd ns) None)"
  using sps_pps_loop_stream [OF assms, of _ "[]", OF _ at_place_None at_place_None] find_at_stream [OF assms]
  by (simp add: get_avc_sps_pps_def)

text \<open>ISO/IEC 14496-15 5.3.3.1.2 with one set of each kind and 4-byte lengths.\<close>

definition avc_config :: "bytes \<Rightarrow> bytes \<Rightarrow> bytes" where
  "avc_config sps pps = [1] @ take 3 (tl sps) @ [0xff, 0xe1] @ be_bytes 2 (of_nat (length sps) :: u16) @ sps @
     [1] @ be_bytes 2 (of_nat (length pps) :: u16) @ pps"

context byte_writer
begin

lemma avc_config_appends:
  "appends (\<lambda>s. do {
     s \<leftarrow> s_w8 s 1;
     s \<leftarrow> map_option snd (s_write s a);
     s \<leftarrow> s_w8 s 0xff;
     s \<leftarrow> s_w8 s 0xe1;
     s \<leftarrow> s_wb16 s n;
     s \<leftarrow> map_option snd (s_write s b);
     s \<leftarrow> s_w8 s 1;
     s \<leftarrow> s_wb16 s m;
     map_option snd (s_write s c) })
   ([1] @ a @ [0xff] @ [0xe1] @ be_bytes 2 n @ b @ [1] @ be_bytes 2 m @ c)"
  by (rule appends_bind appends_write appends_w8 appends_wb16)+

end

lemma read_at_place: "read_at (pre @ n @ post) (length pre) (length n) = Some n"
  by (simp add: read_at_def)

lemma read_at_place_mid:
  "4 \<le> length n \<Longrightarrow> read_at (pre @ n @ post) (length pre + 1) 3 = Some (take 3 (tl n))"
  by (cases n) (simp_all add: read_at_def)

text \<open>C8: The decoder configuration record is built from the last SPS and the last PPS of a
  stream of well-formed units: the three profile bytes of the SPS, then both sets with 16-bit
  lengths. Without both, or with an SPS of less than 4 bytes, the result is 0.\<close>

theorem avc_header_of_stream:
  assumes "good_stream ns"
  shows "mgw_parse_avc_header (annexb ns) al (length (annexb ns)) =
    Some (case (last_unit 7 (map snd ns) None, last_unit 8 (map snd ns) None) of
            (Some sps, Some pps) \<Rightarrow> if length sps < 4 then None else Some (avc_config sps pps)
          | _ \<Rightarrow> None)"
proof -
  let ?xs = "annexb ns"
  obtain q1 q2 where q: "get_avc_sps_pps ?xs al (length ?xs) = Some (q1, q2)"
    "at_place ?xs q1 (last_unit 7 (map snd ns) None)" "at_place ?xs q2 (last_unit 8 (map snd ns) None)"
    using get_sps_pps_stream [OF assms] by blast
  show ?thesis
  proof (cases "\<exists>sps pps. last_unit 7 (map snd ns) None = Some sps \<and> last_unit 8 (map snd ns) None = Some pps \<and> 4 \<le> length sps")
    case True
    then obtain sps pps where s: "last_unit 7 (map snd ns) None = Some sps" "last_unit 8 (map snd ns) None = Some pps"
      "4 \<le> length sps" by blast
    then obtain a1 b1 a2 b2 where p: "?xs = a1 @ sps @ b1" "q1 = Some (length a1, length sps)"
      "?xs = a2 @ pps @ b2" "q2 = Some (length a2, length pps)"
      using q(2,3) by (auto simp: at_place_def split: option.splits)
    have r: "read_at ?xs (length a1) (length sps) = Some sps" "read_at ?xs (length a1 + 1) 3 = Some (take 3 (tl sps))"
      using read_at_place [of a1 sps b1] read_at_place_mid [OF s(3), of a1 b1] p(1) by simp_all
    have r2: "read_at ?xs (length a2) (length pps) = Some pps"
      using read_at_place [of a2 pps b2] p(3) by simp
    obtain s' where s': "do {
         s \<leftarrow> s_w8 array_output_serializer_init 1;
         s \<leftarrow> map_option snd (s_write s (take 3 (tl sps)));
         s \<leftarrow> s_w8 s 0xff;
         s \<leftarrow> s_w8 s 0xe1;
         s \<leftarrow> s_wb16 s (of_nat (length sps));
         s \<leftarrow> map_option snd (s_write s sps);
         s \<leftarrow> s_w8 s 1;
         s \<leftarrow> s_wb16 s (of_nat (length pps));
         map_option snd (s_write s pps) } = Some s'" "array_out.ser s' (avc_config sps pps)"
      using array_out.appendsD [OF array_out.avc_config_appends init_ser,
          of "take 3 (tl sps)" "of_nat (length sps)" sps "of_nat (length pps)" pps]
      by (auto simp: avc_config_def)
    have c: "(if length sps < 4 then a else b) = b" for a b :: "bytes option option" using s(3) by simp
    have "mgw_parse_avc_header ?xs al (length ?xs) =
      Option.bind (Some s') (\<lambda>s. map_option Some (darray_contents (sr_data s)))"
      unfolding mgw_parse_avc_header_def q(1) p(2,4) s'(1) [symmetric]
      by (simp add: r r2 c Option.bind_assoc del: One_nat_def)
    then show ?thesis using contents_ser [OF s'(2)] s by simp
  next
    case False
    then show ?thesis using q by (auto simp: mgw_parse_avc_header_def at_place_def split: option.splits)
  qed
qed

theorem avc_header_of_stream_witness:
  "mgw_parse_avc_header [0, 0, 0, 1, 0x67, 0x42, 0x10, 0x1F, 3, 0, 0, 1, 0x68, 0xCE] 0 14 =
   Some (Some [1, 0x42, 0x10, 0x1F, 0xff, 0xe1, 0, 5, 0x67, 0x42, 0x10, 0x1F, 3, 1, 0, 2, 0x68, 0xCE])"
proof -
  let ?ns = "[(True, [0x67, 0x42, 0x10, 0x1F, 3]), (False, [0x68, 0xCE])]"
  have "good_stream ?ns"
    by (auto simp: good_stream_def good_nal_def code_at_def less_Suc_eq)
  from avc_header_of_stream [OF this, of 0] have
    "mgw_parse_avc_header (annexb ?ns) 0 (length (annexb ?ns)) = Some (Some (avc_config [0x67, 0x42, 0x10, 0x1F, 3] [0x68, 0xCE]))"
    by (simp add: last_unit_def nal_type_def)
  moreover have "annexb ?ns = [0, 0, 0, 1, 0x67, 0x42, 0x10, 0x1F, 3, 0, 0, 1, 0x68, 0xCE]"
    by code_simp
  moreover have "length (annexb ?ns) = 14" by code_simp
  moreover have "avc_config [0x67, 0x42, 0x10, 0x1F, 3] [0x68, 0xCE] =
     [1, 0x42, 0x10, 0x1F, 0xff, 0xe1, 0, 5, 0x67, 0x42, 0x10, 0x1F, 3, 1, 0, 2, 0x68, 0xCE]" by code_simp
  ultimately show ?thesis by metis
qed

section \<open>One unit\<close>

definition mgw_avc_get_startcode_len :: "bytes option \<Rightarrow> nat \<Rightarrow> int option" where
  "mgw_avc_get_startcode_len data p =
     (case data of
        None \<Rightarrow> Some (- 1)
      | Some xs \<Rightarrow> do {
          b0 \<leftarrow> rd xs p;
          if b0 \<noteq> 0 then Some (- 1) else do {
          b1 \<leftarrow> rd xs (p + 1);
          if b1 \<noteq> 0 then Some (- 1) else do {
          b2 \<leftarrow> rd xs (p + 2);
          if b2 = 1 then Some 3 else if b2 \<noteq> 0 then Some (- 1) else do {
          b3 \<leftarrow> rd xs (p + 3);
          Some (if b3 = 1 then 4 else - 1) }}}})"

definition has_start_code :: "bytes \<Rightarrow> nat \<Rightarrow> bool option" where
  "has_start_code xs p = do {
     b0 \<leftarrow> rd xs p;
     if b0 \<noteq> 0 then Some False else do {
     b1 \<leftarrow> rd xs (p + 1);
     if b1 \<noteq> 0 then Some False else do {
     b2 \<leftarrow> rd xs (p + 2);
     if b2 = 1 then Some True else if b2 \<noteq> 0 then Some False else map_option (\<lambda>b. b = 1) (rd xs (p + 3)) }}}"

text \<open>The loop of \<open>mgw_avc_get_nal\<close> with its counter \<open>i\<close>, pointer \<open>p\<close> and the unit found.\<close>

function get_nal_loop :: "bytes \<Rightarrow> nat \<Rightarrow> nat \<Rightarrow> byte \<Rightarrow> nat \<Rightarrow> nat \<Rightarrow> nat option \<Rightarrow> (nat \<times> nat option) option" where
  "get_nal_loop xs sz check ty i p nal =
     (if i < check then
        Option.bind (mgw_avc_get_startcode_len (Some xs) (p + 1)) (\<lambda>sc.
          if sc < 0 then get_nal_loop xs sz check ty (i + 1) (p + 1) nal
          else (case nal of
            Some n \<Rightarrow> Some (p + 1 - n, Some n)
          | None \<Rightarrow> Option.bind (rd xs (p + 1 + nat sc)) (\<lambda>b.
              if ty = b AND 0x1F
              then if ty = 5 then Some (sub64 sz (p + 1 + nat sc), Some (p + 1 + nat sc))
                   else get_nal_loop xs sz check ty (i + 1) (p + 1 + nat sc) (Some (p + 1 + nat sc))
              else get_nal_loop xs sz check ty (i + 1) (p + 1 + nat sc) None)))
      else Some (0, nal))"
  by pat_completeness auto
termination by (relation "measure (\<lambda>(xs, sz, check, ty, i, p, nal). check - i)") auto

declare get_nal_loop.simps [simp del]

text \<open>The result is the size and the unit (\<open>None\<close> is NULL).\<close>

definition mgw_avc_get_nal :: "bytes option \<Rightarrow> nat \<Rightarrow> byte \<Rightarrow> nat \<Rightarrow> (nat \<times> nat option) option" where
  "mgw_avc_get_nal data sz ty max_check =
     (case data of
        None \<Rightarrow> Some (0, None)
      | Some xs \<Rightarrow> if sz = 0 then Some (0, None)
                   else get_nal_loop xs sz (if max_check < sz then max_check else sz) ty 0 0 None)"

definition mgw_avc_get_sps :: "bytes option \<Rightarrow> nat \<Rightarrow> (nat \<times> nat option) option" where
  "mgw_avc_get_sps data sz = mgw_avc_get_nal data sz 7 64"

definition mgw_avc_get_pps :: "bytes option \<Rightarrow> nat \<Rightarrow> (nat \<times> nat option) option" where
  "mgw_avc_get_pps data sz = mgw_avc_get_nal data sz 8 32"

definition mgw_avc_get_keyframe :: "bytes option \<Rightarrow> nat \<Rightarrow> (nat \<times> nat option) option" where
  "mgw_avc_get_keyframe data sz = mgw_avc_get_nal data sz 5 sz"

text \<open>Inside a unit there is no start code, so the scan passes over it.\<close>

lemma startcode_len_inside:
  assumes g: "good_nal n" and xs: "xs = pre @ n @ start_code True @ post" and p: "length pre \<le> p" "p < length pre + length n"
  shows "mgw_avc_get_startcode_len (Some xs) p = Some (- 1)"
proof -
  let ?y = "n @ start_code True @ post"
  define j where "j = p - length pre"
  have r: "rd xs (p + i) = Some (?y ! (j + i))" if "i < 4" for i
    using p that by (auto simp: xs rd_def nth_append j_def start_code_def)
  have nc: "\<not> code_at ?y j" using good_nal_no_code [OF g, of j] p by (simp add: j_def)
  have nc1: "\<not> code_at ?y (j + 1)" if "j + 1 < length n" using good_nal_no_code [OF g that] .
  have l: "n ! (length n - 1) \<noteq> 0" using g by (auto simp: good_nal_def last_conv_nth)
  have last: "?y ! j \<noteq> 0" if "\<not> j + 1 < length n"
  proof -
    have "j = length n - 1" "j < length n" using that p by (auto simp: j_def)
    then show ?thesis using l by (simp add: nth_append)
  qed
  show ?thesis
    using r [of 0] r [of 1] r [of 2] r [of 3] nc nc1 last
    by (cases "j + 1 < length n") (auto simp: mgw_avc_get_startcode_len_def code_at_def eval_nat_numeral)
qed

lemma get_nal_loop_inside:
  assumes "good_nal n" and xs: "xs = pre @ n @ start_code True @ post"
    and "0 < k" and "k \<le> length n" and "i + (length n - k) < check"
  shows "get_nal_loop xs sz check ty i (length pre + k - 1) (Some m) = Some (length pre + length n - m, Some m)"
  using assms(3-5)
proof (induction "length n - k" arbitrary: i k)
  case 0
  have l4: "length (start_code True) = 4" by (simp add: start_code_def)
  have "rd xs (length pre + length n + j) = Some (start_code True ! j)" if "j < 4" for j
    using that unfolding xs by (simp add: rd_def nth_append l4)
  from this [of 0] this [of 1] this [of 2] this [of 3]
  have "mgw_avc_get_startcode_len (Some xs) (length pre + length n) = Some 4"
    by (simp add: mgw_avc_get_startcode_len_def start_code_def)
  then show ?case using 0 by (subst get_nal_loop.simps) simp
next
  case (Suc d)
  have "mgw_avc_get_startcode_len (Some xs) (length pre + k) = Some (- 1)"
    using startcode_len_inside [OF assms(1) xs, of "length pre + k"] Suc.hyps(2) by simp
  then show ?case
    using Suc.hyps(1) [of "k + 1" "i + 1"] Suc.hyps(2) Suc.prems by (subst get_nal_loop.simps) simp
qed

text \<open>An SPS of less than 64 bytes at the head of the data, behind a long start code and
  before another, is found: the pointer is behind the start code and the size is its length. The
  key frame search on data that starts with a long start code and an IDR slice gives everything
  behind that start code.\<close>

theorem get_nal_at_head:
  assumes "good_nal n" and "nal_type n = 7" and "length n < 64" and "nal_type idr = 5" and "idr \<noteq> []"
    and "length idr < 2 ^ 63"
  shows "mgw_avc_get_sps (Some (start_code True @ n @ start_code True @ post))
      (length (start_code True @ n @ start_code True @ post)) = Some (length n, Some 4) \<and>
    mgw_avc_get_keyframe (Some (start_code True @ idr)) (length (start_code True @ idr)) = Some (length idr, Some 4)"
proof
  let ?xs = "start_code True @ n @ start_code True @ post"
  have n: "n \<noteq> []" using assms(1) by (simp add: good_nal_def)
  have "rd ?xs 1 = Some 0" "rd ?xs 2 = Some 0" "rd ?xs 3 = Some 1" "rd ?xs 4 = Some (hd n)"
    using n by (simp_all add: rd_def start_code_def nth_append hd_conv_nth)
  moreover from this have "mgw_avc_get_startcode_len (Some ?xs) 1 = Some 3"
    by (simp add: mgw_avc_get_startcode_len_def eval_nat_numeral)
  ultimately have "get_nal_loop ?xs s c 7 0 0 None = get_nal_loop ?xs s c 7 1 4 (Some 4)" if "0 < c" for s c
    using that assms(2) by (subst get_nal_loop.simps) (simp add: nal_type_def)
  moreover have "get_nal_loop ?xs s c 7 1 4 (Some 4) = Some (length n, Some 4)" if "length n < c" for s c
    using get_nal_loop_inside [OF assms(1), of ?xs "start_code True" post 1 1 c s 7 4] n that
    by (cases n) (simp_all add: start_code_def eval_nat_numeral)
  ultimately show "mgw_avc_get_sps (Some ?xs) (length ?xs) = Some (length n, Some 4)"
    using assms(3) by (auto simp: mgw_avc_get_sps_def mgw_avc_get_nal_def start_code_def)
next
  let ?xs = "start_code True @ idr"
  have "rd ?xs 1 = Some 0" "rd ?xs 2 = Some 0" "rd ?xs 3 = Some 1" "rd ?xs 4 = Some (hd idr)"
    using assms(5) by (simp_all add: rd_def start_code_def nth_append hd_conv_nth)
  moreover from this have "mgw_avc_get_startcode_len (Some ?xs) 1 = Some 3"
    by (simp add: mgw_avc_get_startcode_len_def eval_nat_numeral)
  ultimately show "mgw_avc_get_keyframe (Some ?xs) (length ?xs) = Some (length idr, Some 4)"
    using assms(4,6) unfolding mgw_avc_get_keyframe_def mgw_avc_get_nal_def
    by (subst get_nal_loop.simps) (simp add: nal_type_def start_code_def sub64_id)
qed

theorem get_nal_at_head_witness:
  "mgw_avc_get_sps (Some [0, 0, 0, 1, 0x67, 0x42, 0x1F, 0, 0, 0, 1, 0x68, 0xCE]) 13 = Some (3, Some 4) \<and>
   mgw_avc_get_keyframe (Some [0, 0, 0, 1, 0x65, 0x88]) 6 = Some (2, Some 4)"
proof -
  have "good_nal [0x67, 0x42, 0x1F]" by (auto simp: good_nal_def code_at_def less_Suc_eq)
  moreover have "nal_type [0x67, 0x42, 0x1F] = 7" "nal_type [0x65, 0x88] = 5" by code_simp+
  moreover have e: "start_code True @ [0x67, 0x42, 0x1F] @ start_code True @ [0x68, 0xCE] =
      [0, 0, 0, 1, 0x67, 0x42, 0x1F, 0, 0, 0, 1, 0x68, 0xCE]" "start_code True @ [0x65, 0x88] = [0, 0, 0, 1, 0x65, 0x88]"
    "length (start_code True @ [0x67, 0x42, 0x1F] @ start_code True @ [0x68, 0xCE]) = 13"
    "length (start_code True @ [0x65, 0x88]) = 6" by code_simp+
  ultimately show ?thesis
    using get_nal_at_head [of "[0x67, 0x42, 0x1F]" "[0x65, 0x88]" "[0x68, 0xCE]"] unfolding e
    by (simp only: list.size list.distinct not_False_eq_True) simp
qed

lemma get_nal_loop_overread:
  assumes "0 \<notin> set (drop 2 xs)" and "1 \<le> k" and "k < length xs" and "sz = length xs"
  shows "get_nal_loop xs sz sz ty k k None = None"
  using assms(2,3)
proof (induction "length xs - k" arbitrary: k)
  case (Suc d)
  show ?case
  proof (cases "k + 1 < length xs")
    case True
    have "xs ! (k + 1) \<in> set (drop 2 xs)"
      using True Suc.prems nth_mem [of "k - 1" "drop 2 xs"] by simp
    then have "rd xs (k + 1) = Some (xs ! (k + 1))" "xs ! (k + 1) \<noteq> 0" using True assms(1) by (auto simp: rd_def)
    then have "mgw_avc_get_startcode_len (Some xs) (k + 1) = Some (- 1)"
      by (simp add: mgw_avc_get_startcode_len_def)
    then show ?thesis
      using Suc.hyps(1) [of "k + 1"] Suc.hyps(2) Suc.prems True assms(4) by (subst get_nal_loop.simps) simp
  next
    case False
    then have "mgw_avc_get_startcode_len (Some xs) (k + 1) = None"
      by (simp add: mgw_avc_get_startcode_len_def rd_def)
    then show ?thesis using Suc.prems assms(4) by (subst get_nal_loop.simps) simp
  qed
qed simp

text \<open>A key frame behind a short start code at the head of the data is not found, because the
  scan starts at the second byte; when no start code follows, it goes on behind the end of the
  data.\<close>

theorem short_code_missed:
  assumes "0 \<notin> set n" and "n \<noteq> []" and "xs = start_code False @ n"
  shows "mgw_avc_get_keyframe (Some xs) (length xs) = None \<and>
    mgw_avc_get_startcode_len (Some xs) 0 = Some 3"
proof
  have r: "rd xs 0 = Some 0" "rd xs 1 = Some 0" "rd xs 2 = Some 1"
    by (simp_all add: assms(3) rd_def start_code_def nth_append)
  then show "mgw_avc_get_startcode_len (Some xs) 0 = Some 3"
    by (simp add: mgw_avc_get_startcode_len_def eval_nat_numeral)
  have "mgw_avc_get_startcode_len (Some xs) 1 = Some (- 1)"
    using r by (simp add: mgw_avc_get_startcode_len_def eval_nat_numeral)
  then have "get_nal_loop xs (length xs) (length xs) 5 0 0 None = get_nal_loop xs (length xs) (length xs) 5 1 1 None"
    using assms(3) by (subst get_nal_loop.simps) (simp add: start_code_def)
  also have "\<dots> = None"
    by (rule get_nal_loop_overread) (use assms in \<open>auto simp: start_code_def\<close>)
  finally show "mgw_avc_get_keyframe (Some xs) (length xs) = None"
    using assms(3) by (simp add: mgw_avc_get_keyframe_def mgw_avc_get_nal_def start_code_def)
qed

theorem short_code_missed_witness:
  "mgw_avc_get_keyframe (Some [0, 0, 1, 0x65, 0x88]) (length [0, 0, 1, 0x65, 0x88 :: byte]) = None"
  using short_code_missed [of "[0x65, 0x88]" "[0, 0, 1, 0x65, 0x88]"] by (simp add: start_code_def)

section \<open>Start codes and length prefixes\<close>

text \<open>Packets by reference: the data is the address of a block of the heap.\<close>

record packet_ref =
  pr_data :: "nat option"
  pr_size :: nat
  pr_pts :: int
  pr_dts :: int
  pr_type :: encoder_type
  pr_keyframe :: bool
  pr_priority :: int

type_synonym block_heap = "nat \<Rightarrow> bytes option"

definition put_be32 :: "bytes \<Rightarrow> nat \<Rightarrow> u32 \<Rightarrow> bytes option" where
  "put_be32 out p v =
     (if p + 4 \<le> length out
      then Some (out[p + 3 := ucast (v AND 0xff), p + 2 := ucast (drop_bit 8 v),
                     p + 1 := ucast (drop_bit 16 v), p := ucast (drop_bit 24 v)])
      else None)"

text \<open>\<open>mgw_avc_avcc2annexb\<close> copies the packet record, so both packets share the block it writes.
  The results are the answer, the destination and the heap.\<close>

definition mgw_avc_avcc2annexb ::
  "packet_ref option \<Rightarrow> packet_ref option \<Rightarrow> block_heap \<Rightarrow> (bool \<times> packet_ref option \<times> block_heap) option" where
  "mgw_avc_avcc2annexb src dst h =
     (case (src, dst) of
        (Some a, Some b) \<Rightarrow>
          (case pr_data a of
             None \<Rightarrow> Some (False, dst, h)
           | Some d \<Rightarrow> do {
               bs \<leftarrow> h d;
               if length bs < 4 then None
               else Some (True, Some a, h(d \<mapsto> bs[0 := 0, 1 := 0, 2 := 0, 3 := 1])) })
      | _ \<Rightarrow> Some (False, dst, h))"

text \<open>\<open>fresh\<close> is the address \<open>brealloc\<close> returns; the old block is freed. Less than three bytes
  with a start code of three make the size of the copy wrap.\<close>

definition mgw_avc_annexb2avcc ::
  "nat \<Rightarrow> packet_ref option \<Rightarrow> packet_ref option \<Rightarrow> block_heap \<Rightarrow> (bool \<times> packet_ref option \<times> block_heap) option" where
  "mgw_avc_annexb2avcc fresh src dst h =
     (case (src, dst) of
        (Some b, Some a) \<Rightarrow>
          (case pr_data b of
             None \<Rightarrow> Some (False, dst, h)
           | Some d \<Rightarrow>
               if pr_size b = 0 then Some (False, dst, h)
               else do {
                 bs \<leftarrow> h d;
                 sc \<leftarrow> mgw_avc_get_startcode_len (Some bs) 0;
                 if sc = 3 then
                   if pr_size b < 3 then None
                   else do {
                     old \<leftarrow> (case pr_data a of None \<Rightarrow> Some [] | Some o' \<Rightarrow> h o');
                     let h = (case pr_data a of None \<Rightarrow> h | Some o' \<Rightarrow> h(o' := None));
                     let new = take (pr_size b + 1) (old @ replicate (pr_size b + 1) 0);
                     new \<leftarrow> put_be32 new 0 (of_nat (pr_size b) - 3);
                     bs \<leftarrow> h d;
                     payload \<leftarrow> read_at bs 3 (pr_size b - 3);
                     let h = h(fresh \<mapsto> take 4 new @ payload);
                     Some (True, Some (a\<lparr>pr_size := pr_size b + 1, pr_data := Some fresh\<rparr>), h(d := None)) }
                 else if sc = 4 then do {
                   new \<leftarrow> put_be32 bs 0 (of_nat (pr_size b) - 4);
                   Some (True, Some b, h(d \<mapsto> new)) }
                 else Some (False, dst, h) })
      | _ \<Rightarrow> Some (False, dst, h))"

definition mgw_parse_hevc_header :: "nat" where
  "mgw_parse_hevc_header = 0"

definition mgw_get_vcodec_id :: "encoder_id \<Rightarrow> string option" where
  "mgw_get_vcodec_id i = (case i of
     ENCID_AAC \<Rightarrow> Some ''mp4a'' | ENCID_H264 \<Rightarrow> Some ''avc1'' | ENCID_HEVC \<Rightarrow> Some ''hev1'' | ENCID_NONE \<Rightarrow> None)"

lemma put_be32_bytes: "put_be32 (a # b # c # d # bs) 0 v = Some (be_bytes 4 v @ bs)"
proof -
  have f: "(0xff :: u32) = mask 8" by (simp add: mask_eq_exp_minus_1)
  have m: "ucast (v AND 0xff) = (ucast v :: byte)" unfolding f by (intro bit_word_eqI) (auto simp: bit_simps)
  have e: "be_bytes 4 v = [ucast (drop_bit 24 v), ucast (drop_bit 16 v), ucast (drop_bit 8 v), ucast v]"
    by (simp add: be_bytes_def le_bytes_def eval_nat_numeral)
  show ?thesis unfolding e by (simp add: put_be32_def m eval_nat_numeral)
qed

lemma startcode_len_start: "mgw_avc_get_startcode_len (Some (start_code l @ n)) 0 = Some (if l then 4 else 3)"
  by (simp add: mgw_avc_get_startcode_len_def start_code_def rd_def)

text \<open>C9: Either start code is replaced by the 32-bit big-endian length of the unit: with a short
  one in a new block, the old one freed; with a long one in place, in the block both packets now
  share. Converting back yields the long start code and the same unit.\<close>

theorem annexb_avcc_roundtrip:
  assumes "h d = Some (start_code l @ n)" and "h f = None" and "pr_data b = Some d"
    and "pr_size b = length (start_code l @ n)" and "pr_data a = None"
  shows "\<exists>r h'. mgw_avc_annexb2avcc f (Some b) (Some a) h = Some (True, Some r, h') \<and>
    pr_data r = Some (if l then d else f) \<and> pr_size r = length n + 4 \<and>
    h' (if l then d else f) = Some (be_bytes 4 (of_nat (length n) :: u32) @ n) \<and> (\<not> l \<longrightarrow> h' d = None) \<and>
    (\<exists>h''. mgw_avc_avcc2annexb (Some r) (Some b) h' = Some (True, Some r, h'') \<and>
       h'' (if l then d else f) = Some (start_code True @ n))"
proof -
  have fd: "f \<noteq> d" using assms(1,2) by auto
  have sz: "(of_nat (pr_size b) - of_nat (length (start_code l)) :: u32) = of_nat (length n)"
    by (simp add: assms(4))
  have bk: "(be_bytes 4 v @ n)[0 := 0, 1 := 0, 2 := 0, 3 := 1] = start_code True @ n" for v :: u32
    by (simp add: be_bytes_def le_bytes_def eval_nat_numeral start_code_def)
  show ?thesis
  proof (cases l)
    case True
    have "put_be32 (start_code True @ n) 0 (of_nat (pr_size b) - 4) = Some (be_bytes 4 (of_nat (length n) :: u32) @ n)"
      using sz True by (simp add: start_code_def put_be32_bytes)
    then show ?thesis
      using assms True bk startcode_len_start [of True n]
      by (simp add: mgw_avc_annexb2avcc_def mgw_avc_avcc2annexb_def start_code_def)
  next
    case False
    have p: "put_be32 (replicate (Suc (pr_size b)) 0) 0 (of_nat (pr_size b) - 3) =
      Some (be_bytes 4 (of_nat (length n) :: u32) @ replicate (length n) 0)"
      using sz False assms(4) by (simp add: start_code_def put_be32_bytes)
    have "read_at (start_code False @ n) 3 (pr_size b - 3) = Some n"
      using assms(4) False by (simp add: read_at_def start_code_def)
    then show ?thesis
      using assms False bk startcode_len_start [of False n] p fd
      by (simp add: mgw_avc_annexb2avcc_def mgw_avc_avcc2annexb_def start_code_def Let_def)
  qed
qed

theorem annexb_avcc_roundtrip_witness:
  "\<exists>r h'. mgw_avc_annexb2avcc 1 (Some \<lparr>pr_data = Some 0, pr_size = 5, pr_pts = 0, pr_dts = 0,
      pr_type = ENCODER_VIDEO, pr_keyframe = True, pr_priority = 0\<rparr>)
     (Some \<lparr>pr_data = None, pr_size = 0, pr_pts = 0, pr_dts = 0, pr_type = ENCODER_VIDEO, pr_keyframe = False, pr_priority = 0\<rparr>)
     [0 \<mapsto> [0, 0, 1, 0x65, 0x88]] = Some (True, Some r, h') \<and> pr_data r = Some 1 \<and>
     h' 1 = Some [0, 0, 0, 2, 0x65, 0x88]"
proof -
  have e: "be_bytes 4 (of_nat 2 :: u32) = [0, 0, 0, 2]" by code_simp
  show ?thesis
    using annexb_avcc_roundtrip [of "[0 \<mapsto> [0, 0, 1, 0x65, 0x88]]" 0 False "[0x65, 0x88]" 1
        "\<lparr>pr_data = Some 0, pr_size = 5, pr_pts = 0, pr_dts = 0,
           pr_type = ENCODER_VIDEO, pr_keyframe = True, pr_priority = 0\<rparr>"
        "\<lparr>pr_data = None, pr_size = 0, pr_pts = 0, pr_dts = 0, pr_type = ENCODER_VIDEO, pr_keyframe = False, pr_priority = 0\<rparr>"] e
    by (fastforce simp: start_code_def eval_nat_numeral)
qed

end
