(* ===== verification/AacHeader.thy ===== *)
theory AacHeader
  imports Serializer
begin

text \<open>
  AAC headers in mgw-core/util/source/codec-common.c: the AudioSpecificConfig, its FLV form, and
  the ADTS header, with the readers that recover their fields.
\<close>

section \<open>Headers\<close>

definition get_samplerate_index :: "u32 \<Rightarrow> byte" where
  "get_samplerate_index sampleRate =
     (if sampleRate = 96000 then 0 else if sampleRate = 88200 then 1 else if sampleRate = 64000 then 2
      else if sampleRate = 48000 then 3 else if sampleRate = 44100 then 4 else if sampleRate = 32000 then 5
      else if sampleRate = 24000 then 6 else if sampleRate = 22050 then 7 else if sampleRate = 16000 then 8
      else if sampleRate = 12000 then 9 else if sampleRate = 11025 then 10 else if sampleRate = 8000 then 11
      else if sampleRate = 7350 then 12 else 15)"

definition AUDIO_AAC_LC :: byte where "AUDIO_AAC_LC = 2"

text \<open>The bytes built in \<open>buf\<close>.\<close>

definition aac_lc_config :: "byte \<Rightarrow> u32 \<Rightarrow> bytes" where
  "aac_lc_config channels samplerate =
     (let idx = get_samplerate_index samplerate;
          b0 = (push_bit 3 AUDIO_AAC_LC AND 0xf8) OR (drop_bit 1 idx AND 7);
          b1 = push_bit 7 idx AND 0x80;
          ch = push_bit 3 channels AND 0x78 in
      if idx = 0xf
      then [b0, b1 OR (ucast (drop_bit 17 samplerate) AND 0x7f), ucast (drop_bit 9 samplerate),
            ucast (drop_bit 1 samplerate), (push_bit 7 (ucast samplerate) AND 0x80) OR ch]
      else [b0, b1 OR ch])"

text \<open>The header is copied to the block passed in, or to a new one; the block is the result.\<close>

definition copy_header :: "bytes \<Rightarrow> bytes option \<Rightarrow> (nat \<times> bytes) option" where
  "copy_header buf header = (case header of
     None \<Rightarrow> Some (length buf, buf)
   | Some h \<Rightarrow> if length h < length buf then None else Some (length buf, buf @ drop (length buf) h))"

definition mgw_get_aac_lc_header :: "byte \<Rightarrow> byte \<Rightarrow> u32 \<Rightarrow> bytes option \<Rightarrow> (nat \<times> bytes) option" where
  "mgw_get_aac_lc_header channels samplesize samplerate header =
     copy_header (aac_lc_config channels samplerate) header"

definition mgw_get_aaclc_flv_header :: "byte \<Rightarrow> byte \<Rightarrow> u32 \<Rightarrow> bytes option \<Rightarrow> (nat \<times> bytes) option" where
  "mgw_get_aaclc_flv_header channels samplesize samplerate header = do {
     (n, temp) \<leftarrow> mgw_get_aac_lc_header channels samplesize samplerate (Some (replicate 30 0));
     let b0 = (if samplesize = 8 then 0xAF AND 0xfd else 0xAF);
     let b0 = (if channels = 1 then b0 AND 0xfe else b0);
     copy_header (take (2 + n) ([b0, 0] @ temp)) header }"

definition AAC_HEADER_SIZE :: nat where "AAC_HEADER_SIZE = 7"

text \<open>\<open>out\<close> is the block written. A size of \<open>2 ^ 64 - 1\<close> is the return of -1.\<close>

definition mgw_aac_add_adts :: "u32 \<Rightarrow> int \<Rightarrow> u32 \<Rightarrow> nat \<Rightarrow> bytes option \<Rightarrow> bytes \<Rightarrow> (nat \<times> bytes) option" where
  "mgw_aac_add_adts samplerate profile channels sz data out =
     (case data of
        None \<Rightarrow> Some (2 ^ 64 - 1, out)
      | Some bs \<Rightarrow>
          if length bs < sz \<or> length out < AAC_HEADER_SIZE + sz then None
          else (let freqIdx = get_samplerate_index samplerate;
                    n = AAC_HEADER_SIZE + sz in
            Some (wrap64 (sz + AAC_HEADER_SIZE),
              [0xFF, 0xF1,
               word_of_int ((profile - 1) * 64) + push_bit 2 freqIdx + ucast (drop_bit 2 channels),
               ucast (push_bit 6 (channels AND 7)) + of_nat (n div 2 ^ 11),
               of_nat (n div 2 ^ 3),
               of_nat ((n mod 8) * 32 + 0x1F),
               0xFC] @ take sz bs @ drop n out)))"

text \<open>\<open>dst\<close> and \<open>dst_size\<close> are local to the function: only the size comes back.\<close>

definition mgw_aac_leave_adts :: "bytes \<Rightarrow> nat \<Rightarrow> nat \<Rightarrow> nat option" where
  "mgw_aac_leave_adts src src_size dst_size =
     (if length src < 2 then None
      else if (src ! 1) AND 1 = 0
      then if length src < 6 then None
           else (let packet_len = unat (src ! 3 AND 3) * 2 ^ 11 + unat (src ! 4) * 8 + unat (src ! 5 AND 0xe0) div 32 in
             Some (if src_size = packet_len then sub64 src_size 9 else dst_size))
      else Some (sub64 src_size 7))"

section \<open>Reading the AudioSpecificConfig\<close>

record asc =
  asc_object :: nat
  asc_index :: nat
  asc_rate :: nat
  asc_channels :: nat

text \<open>ISO/IEC 14496-3 1.6.2.1: 5 bits object type, 4 bits rate index, 24 bits rate when the index
  is 15, 4 bits channel configuration.\<close>

definition parse_asc :: "bytes \<Rightarrow> asc option" where
  "parse_asc bs =
     (if length bs < 2 then None
      else let v = be_val (take 2 bs); idx = v div 2 ^ 7 mod 16 in
        if idx = 15
        then if length bs < 5 then None
             else let w = be_val (take 5 bs) in
               Some \<lparr>asc_object = v div 2 ^ 11, asc_index = 15, asc_rate = w div 2 ^ 7 mod 2 ^ 24, asc_channels = w div 8 mod 16\<rparr>
        else Some \<lparr>asc_object = v div 2 ^ 11, asc_index = idx, asc_rate = 0, asc_channels = v div 8 mod 16\<rparr>)"

lemma index_less: "unat (get_samplerate_index r) < 16"
  by (simp add: get_samplerate_index_def)

lemma unat_byte: "unat (b :: byte) < 256"
  using unsigned_less [of b, where ?'a = nat] by simp

lemma byte_parts:
  fixes c idx :: byte and r :: u32
  shows "unat (push_bit 3 c AND 0x78) = 8 * (unat c mod 16)"
    and "unat (push_bit 7 idx AND 0x80) = 128 * (unat idx mod 2)"
    and "unat (drop_bit 1 idx AND 7) = unat idx div 2 mod 8"
    and "unat (ucast (drop_bit 17 r) AND 0x7f :: byte) = unat r div 2 ^ 17 mod 128"
    and "unat (ucast (drop_bit k r) :: byte) = unat r div 2 ^ k mod 256"
    and "unat (push_bit 7 (ucast r) AND 0x80 :: byte) = 128 * (unat r mod 2)"
proof -
  have m: "(7 :: byte) = mask 3" "(0x7f :: byte) = mask 7" "(0x78 :: byte) = push_bit 3 (mask 4)" "(0x80 :: byte) = push_bit 7 (mask 1)"
    by (simp_all add: mask_eq_exp_minus_1 push_bit_eq_mult)
  have p: "unat (push_bit k (take_bit j b)) = 2 ^ k * (unat b mod 2 ^ j)" if "k + j \<le> 8" for k j and b :: byte
  proof -
    have "unat b mod 2 ^ j < 2 ^ j" by simp
    then have "2 ^ k * (unat b mod 2 ^ j) < 2 ^ k * 2 ^ j" by simp
    also have "\<dots> \<le> 2 ^ 8" using that by (metis one_le_numeral power_add power_increasing)
    finally have "2 ^ k * (unat b mod 2 ^ j) < 256" by simp
    then show ?thesis
      by (simp only: unsigned_push_bit_eq unsigned_take_bit_eq) (simp add: take_bit_eq_mod push_bit_eq_mult mult.commute)
  qed
  have a: "push_bit k b AND push_bit k (mask j) = push_bit k (take_bit j b)" for k j and b :: byte
    by (simp add: take_bit_eq_mask push_bit_and)
  show "unat (push_bit 3 c AND 0x78) = 8 * (unat c mod 16)" unfolding m a using p [of 3 4 c] by simp
  show "unat (push_bit 7 idx AND 0x80) = 128 * (unat idx mod 2)" unfolding m a using p [of 7 1 idx] by simp
  have u: "unat (ucast (drop_bit k r) :: byte) = unat r div 2 ^ k mod 256" for k
    by (simp add: unsigned_ucast_eq take_bit_eq_mod unat_drop_bit_eq drop_bit_eq_div [where ?'a = nat])
  then show "unat (ucast (drop_bit k r) :: byte) = unat r div 2 ^ k mod 256" .
  show "unat (drop_bit 1 idx AND 7) = unat idx div 2 mod 8"
    unfolding m take_bit_eq_mask [symmetric] unsigned_take_bit_eq unat_drop_bit_eq
    by (simp add: take_bit_eq_mod drop_bit_eq_div)
  show "unat (ucast (drop_bit 17 r) AND 0x7f :: byte) = unat r div 2 ^ 17 mod 128"
    unfolding m take_bit_eq_mask [symmetric] unsigned_take_bit_eq u by (simp add: take_bit_eq_mod mod_mod_cancel)
  show "unat (push_bit 7 (ucast r) AND 0x80 :: byte) = 128 * (unat r mod 2)"
    unfolding m a using p [of 7 1 "ucast r"] u [of 0] by (simp add: mod_mod_cancel)
qed

lemma unat_or_disjoint:
  fixes a b :: "'a::len word"
  assumes "a AND b = 0"
  shows "unat (a OR b) = unat a + unat b"
proof -
  have "unat a AND unat b = 0" using assms by (metis unsigned_0 unsigned_and_eq)
  then show ?thesis by (simp add: unsigned_or_eq disjunctive_add_eq_or)
qed

lemma or_masks:
  fixes a b :: byte
  shows "unat ((a AND 0x80) OR (b AND 0x78)) = unat (a AND 0x80) + unat (b AND 0x78)"
    and "unat ((a AND 0xf8) OR (b AND 7)) = unat (a AND 0xf8) + unat (b AND 7)"
    and "unat ((a AND 0x80) OR (b AND 0x7f)) = unat (a AND 0x80) + unat (b AND 0x7f)"
proof -
  have d: "(a AND m) AND (b AND n) = (a AND b) AND (m AND n)" for m n by (simp add: ac_simps)
  show "unat ((a AND 0x80) OR (b AND 0x78)) = unat (a AND 0x80) + unat (b AND 0x78)"
    "unat ((a AND 0xf8) OR (b AND 7)) = unat (a AND 0xf8) + unat (b AND 7)"
    "unat ((a AND 0x80) OR (b AND 0x7f)) = unat (a AND 0x80) + unat (b AND 0x7f)"
    by (intro unat_or_disjoint, unfold d, simp)+
qed

lemma nibble_low: "(128 * m + x) div 8 mod 16 = x div 8 mod (16 :: nat)"
proof -
  have "(x + 8 * k) div 8 = x div 8 + k" for k by simp
  from this [of "16 * m"] have "(128 * m + x) div 8 = x div 8 + 16 * m" by (simp add: add.commute)
  then show ?thesis by simp
qed

lemma index_bits: "(n :: nat) = q * 2 + b \<Longrightarrow> 256 * (16 + q) + (128 * b + x) = 128 * (32 + n) + x"
  by simp

lemma be_val_bytes:
  "be_val (take 2 (a # b # xs)) = 256 * unat a + unat b"
  "be_val (take 5 [a, b, c, d, e]) = 16777216 * (256 * unat a + unat b) + (unat c * 65536 + unat d * 256 + unat e)"
  by (simp_all add: be_val_def)

text \<open>The 24 bits of an explicit rate, spread over four bytes.\<close>

lemma rate_bits:
  fixes r c w :: nat
  assumes "w = 256 * (16 + 15 div 2) + (128 * (15 mod 2) + r div 131072 mod 128)" and "c < 16"
  shows "(16777216 * w + (r div 512 mod 256 * 65536 + r div 2 mod 256 * 256 + (128 * (r mod 2) + 8 * c))) div 128
    mod 16777216 = r mod 16777216"
proof -
  have "(128 * m + 8 * c) div 128 = m" for m using assms(2) by simp
  moreover have "16777216 * w + (r div 512 mod 256 * 65536 + r div 2 mod 256 * 256 + (128 * (r mod 2) + 8 * c)) =
      128 * (131072 * w + (r div 512 mod 256 * 512 + r div 2 mod 256 * 2 + r mod 2)) + 8 * c" by simp
  ultimately have "(16777216 * w + (r div 512 mod 256 * 65536 + r div 2 mod 256 * 256 + (128 * (r mod 2) + 8 * c))) div 128 =
      131072 * w + (r div 512 mod 256 * 512 + r div 2 mod 256 * 2 + r mod 2)" by metis
  moreover have "131072 * w = 47 * 16777216 + 131072 * (r div 131072 mod 128)" using assms(1) by simp
  moreover have "r mod 16777216 = 131072 * (r div 131072 mod 128) + (r div 512 mod 256 * 512 + r div 2 mod 256 * 2 + r mod 2)"
    using mod_mult2_eq [of r 131072 128] mod_mult2_eq [of r 512 256] mod_mult2_eq [of r 2 256] by simp
  ultimately have "(16777216 * w + (r div 512 mod 256 * 65536 + r div 2 mod 256 * 256 + (128 * (r mod 2) + 8 * c))) div 128
      = 47 * 16777216 + r mod 16777216" by (simp only: add.assoc)
  then show ?thesis by (simp only: mod_mult_self3 mod_mod_trivial)
qed

text \<open>C10: The AudioSpecificConfig parses back to AAC-LC, the index of the rate, the low four bits
  of the number of channels and, for a rate that has no index, the rate itself (24 bits).\<close>

theorem asc_parses:
  "parse_asc (aac_lc_config channels r) = Some \<lparr>asc_object = 2, asc_index = unat (get_samplerate_index r),
     asc_rate = (if get_samplerate_index r = 15 then unat r mod 2 ^ 24 else 0), asc_channels = unat channels mod 16\<rparr>"
proof -
  let ?i = "get_samplerate_index r"
  let ?b0 = "(push_bit 3 AUDIO_AAC_LC AND 0xf8) OR (drop_bit 1 ?i AND 7)"
  have b0: "unat ?b0 = 16 + unat ?i div 2"
    unfolding or_masks byte_parts using index_less [of r] by (simp add: AUDIO_AAC_LC_def)
  have i15: "?i = 15 \<longleftrightarrow> unat ?i = 15" using word_unat_eq_iff [of ?i 15] by simp
  let ?n = "unat ?i"
  have n: "?n < 16" by (rule index_less)
  have v: "(256 * (16 + ?n div 2) + (128 * (?n mod 2) + x)) div 128 mod 16 = ?n"
    "(256 * (16 + ?n div 2) + (128 * (?n mod 2) + x)) div 2048 = 2"
    "(256 * (16 + ?n div 2) + (128 * (?n mod 2) + x)) div 8 mod 16 = x div 8 mod 16" if "x < 128" for x
  proof -
    have e: "256 * (16 + ?n div 2) + (128 * (?n mod 2) + x) = 128 * (32 + ?n) + x"
      by (rule index_bits) (rule div_mult_mod_eq [symmetric])
    show "(256 * (16 + ?n div 2) + (128 * (?n mod 2) + x)) div 128 mod 16 = ?n"
    proof -
      have "(128 * m + x) div 128 = m" for m using that by simp
      moreover have "(32 + k) mod 16 = k" if "k < 16" for k :: nat using mod_mult_self3 [of 2 16 k] that by simp
      ultimately show ?thesis unfolding e using n by metis
    qed
    have "?n div 2 < 8" "?n mod 2 < 2" using n by simp_all
    then show "(256 * (16 + ?n div 2) + (128 * (?n mod 2) + x)) div 2048 = 2"
      by (intro div_nat_eqI) (use that in simp_all)
    show "(256 * (16 + ?n div 2) + (128 * (?n mod 2) + x)) div 8 mod 16 = x div 8 mod 16"
      unfolding e by (rule nibble_low)
  qed
  show ?thesis
  proof (cases "?i = 15")
    case False
    have b1: "unat ((push_bit 7 ?i AND 0x80) OR (push_bit 3 channels AND 0x78)) = 128 * (?n mod 2) + 8 * (unat channels mod 16)"
      unfolding or_masks byte_parts ..
    let ?bs = "aac_lc_config channels r" and ?w = "256 * (16 + ?n div 2) + (128 * (?n mod 2) + 8 * (unat channels mod 16))"
    have bs: "length ?bs = 2" "be_val (take 2 ?bs) = ?w"
      using False b0 b1 by (simp_all add: aac_lc_config_def be_val_def Let_def)
    have m: "?w div 128 mod 16 = ?n" "?w div 2048 = 2" "?w div 8 mod 16 = unat channels mod 16"
      using v [of "8 * (unat channels mod 16)"] by simp_all
    have n15: "?n \<noteq> 15" using False i15 by simp
    show ?thesis
      unfolding parse_asc_def bs Let_def using m n15 False
      by (simp del: div_mult_self1 add: m)
  next
    case True
    let ?x = "unat r div 131072 mod 128"
    let ?w = "256 * (16 + ?n div 2) + (128 * (?n mod 2) + ?x)"
    let ?l = "unat r div 512 mod 256 * 65536 + unat r div 2 mod 256 * 256 + (128 * (unat r mod 2) + 8 * (unat channels mod 16))"
    have n15: "?n = 15" using True by simp
    have b1: "unat ((push_bit 7 ?i AND 0x80) OR (ucast (drop_bit 17 r) AND 0x7f)) = 128 * (?n mod 2) + ?x"
      unfolding or_masks byte_parts by simp
    have b4: "unat ((push_bit 7 (ucast r) AND 0x80) OR (push_bit 3 channels AND 0x78) :: byte) =
        128 * (unat r mod 2) + 8 * (unat channels mod 16)"
      unfolding or_masks byte_parts(1,6) ..
    have rate: "(16777216 * ?w + ?l) div 128 mod 16777216 = unat r mod 16777216"
      unfolding n15 by (rule rate_bits) simp_all
    have ch: "(16777216 * ?w + ?l) div 8 mod 16 = unat channels mod 16"
    proof -
      let ?m = "131072 * ?w + unat r div 512 mod 256 * 512 + unat r div 2 mod 256 * 2 + unat r mod 2"
      have "16777216 * ?w + ?l = 128 * ?m + 8 * (unat channels mod 16)" by simp
      then show ?thesis by (simp only: nibble_low) simp
    qed
    let ?bs = "aac_lc_config channels r"
    have bytes: "?bs = [?b0, (push_bit 7 ?i AND 0x80) OR (ucast (drop_bit 17 r) AND 0x7f), ucast (drop_bit 9 r),
        ucast (drop_bit 1 r), (push_bit 7 (ucast r) AND 0x80) OR (push_bit 3 channels AND 0x78)]"
      using True by (simp add: aac_lc_config_def Let_def)
    have u: "unat (ucast (drop_bit 9 r) :: byte) = unat r div 512 mod 256" "unat (ucast (drop_bit 1 r) :: byte) = unat r div 2 mod 256"
      using byte_parts(5) [where k = 9 and r = r] byte_parts(5) [where k = 1 and r = r] by simp_all
    have bs: "length ?bs = 5" "be_val (take 2 ?bs) = ?w" "be_val (take 5 ?bs) = 16777216 * ?w + ?l"
      unfolding bytes by (simp, simp only: be_val_bytes b0 b1, simp only: be_val_bytes b0 b1 b4 u)
    have m: "?w div 128 mod 16 = ?n" "?w div 2048 = 2"
      by (rule v(1), simp) (rule v(2), simp)
    define w w' where "w = ?w" and "w' = 16777216 * ?w + ?l"
    have "length ?bs = 5" "be_val (take 2 ?bs) = w" "be_val (take 5 ?bs) = w'"
      "w div 128 mod 16 = ?n" "w div 2048 = 2" "w' div 128 mod 16777216 = unat r mod 16777216"
      "w' div 8 mod 16 = unat channels mod 16"
      unfolding w_def w'_def by (fact bs m rate ch)+
    then show ?thesis using n15 True by (simp add: parse_asc_def)
  qed
qed

section \<open>Reading an ADTS frame\<close>

record adts =
  ad_profile :: nat
  ad_index :: nat
  ad_channels :: nat
  ad_length :: nat
  ad_payload :: bytes

text \<open>ISO/IEC 13818-7 6.2: the sync word, then the fields read here; a frame without checksum.\<close>

definition parse_adts :: "bytes \<Rightarrow> adts option" where
  "parse_adts bs =
     (if length bs < 7 \<or> bs ! 0 \<noteq> 0xFF \<or> bs ! 1 \<noteq> 0xF1 then None
      else let n = unat (bs ! 3) mod 4 * 2048 + unat (bs ! 4) * 8 + unat (bs ! 5) div 32 in
        Some \<lparr>ad_profile = unat (bs ! 2) div 64 + 1, ad_index = unat (bs ! 2) div 4 mod 16,
              ad_channels = unat (bs ! 2) mod 2 * 4 + unat (bs ! 3) div 64, ad_length = n,
              ad_payload = take (n - 7) (drop 7 bs)\<rparr>)"

lemma unat_byte_of_nat: "n < 256 \<Longrightarrow> unat (of_nat n :: byte) = n"
  by (simp add: unat_of_nat)

lemma adts_byte2:
  fixes ch :: u32 and idx :: byte
  assumes "1 \<le> p" "p \<le> 4" "unat idx < 16" "unat ch < 8"
  shows "unat (word_of_int ((int p - 1) * 64) + push_bit 2 idx + ucast (drop_bit 2 ch) :: byte) =
    64 * (p - 1) + 4 * unat idx + unat ch div 4"
proof -
  have i: "word_of_int ((int p - 1) * 64) = (of_nat (64 * (p - 1)) :: byte)"
    using assms(1) by (simp add: of_nat_diff algebra_simps)
  have s: "push_bit 2 idx = of_nat (4 * unat idx)" by (simp add: push_bit_eq_mult)
  have c: "ucast (drop_bit 2 ch) = (of_nat (unat ch div 4) :: byte)"
    by (metis of_nat_unat unat_drop_bit_eq drop_bit_eq_div power2_eq_square numeral_Bit0 mult_2 numeral_One one_add_one)
  have "64 * (p - 1) + 4 * unat idx + unat ch div 4 < 256"
  proof -
    have "unat ch div 4 < 2" using assms(4) by simp
    then show ?thesis using assms by simp
  qed
  then show ?thesis unfolding i s c of_nat_add [symmetric] by (rule unat_byte_of_nat)
qed

lemma adts_byte3:
  fixes ch :: u32
  assumes "unat ch < 8" "m < 4"
  shows "unat (ucast (push_bit 6 (ch AND 7)) + of_nat m :: byte) = 64 * (unat ch mod 4) + m"
proof -
  have f: "(7 :: u32) = mask 3" by (simp add: mask_eq_exp_minus_1)
  have "unat (take_bit 3 ch) = unat ch" unfolding unsigned_take_bit_eq using assms(1) by (simp add: take_bit_eq_mod)
  then have "ch AND 7 = ch" unfolding f take_bit_eq_mask [symmetric] by (simp only: word_unat_eq_iff)
  then have "push_bit 6 (ch AND 7) = of_nat (64 * unat ch)" by (simp add: push_bit_eq_mult)
  then have c: "ucast (push_bit 6 (ch AND 7)) = (of_nat (64 * (unat ch mod 4)) :: byte)"
  proof -
    have "(ucast (of_nat k :: u32) :: byte) = of_nat k" for k by (intro bit_word_eqI) (simp add: bit_simps)
    moreover have "(of_nat (64 * k) :: byte) = of_nat (64 * (k mod 4))" for k
      by (simp only: word_unat_eq_iff unat_of_nat) (simp add: mult_mod_right)
    ultimately show ?thesis using \<open>push_bit 6 (ch AND 7) = of_nat (64 * unat ch)\<close> by metis
  qed
  have "64 * (unat ch mod 4) + m < 256"
  proof -
    have "unat ch mod 4 < 4" by simp
    then show ?thesis using assms(2) by simp
  qed
  then show ?thesis unfolding c of_nat_add [symmetric] by (rule unat_byte_of_nat)
qed

text \<open>The values of the four field bytes.\<close>

definition adts_fields :: "nat \<Rightarrow> nat \<Rightarrow> nat \<Rightarrow> nat \<Rightarrow> nat \<Rightarrow> nat \<Rightarrow> nat \<Rightarrow> nat \<Rightarrow> bool" where
  "adts_fields p idx ch n b2 b3 b4 b5 \<longleftrightarrow> b2 div 64 + 1 = p \<and> b2 div 4 mod 16 = idx \<and>
     b2 mod 2 * 4 + b3 div 64 = ch \<and> b3 mod 4 * 2048 + b4 * 8 + b5 div 32 = n"

lemma adts_fields_written:
  assumes "1 \<le> p" "p \<le> 4" "idx < 16" "ch < 8" "n < 8192"
  shows "adts_fields p idx ch n (64 * (p - 1) + 4 * idx + ch div 4) (64 * (ch mod 4) + n div 2048) (n div 8 mod 256) (32 * (n mod 8) + 31)"
proof -
  have c: "ch div 4 < 2" "n div 2048 < 4" using assms by simp_all
  have b2: "(64 * (p - 1) + 4 * idx + k) div 64 = p - 1" "(64 * (p - 1) + 4 * idx + k) div 4 mod 16 = idx"
    "(64 * (p - 1) + 4 * idx + k) mod 2 = k" if "k < 2" for k
  proof -
    show "(64 * (p - 1) + 4 * idx + k) div 64 = p - 1" by (rule div_nat_eqI) (use that assms(3) in simp_all)
    have "(64 * (p - 1) + 4 * idx + k) div 4 = 16 * (p - 1) + idx" by (rule div_nat_eqI) (use that in simp_all)
    then show "(64 * (p - 1) + 4 * idx + k) div 4 mod 16 = idx" using assms(3) by simp
    have "64 * (p - 1) + 4 * idx + k = 2 * (32 * (p - 1) + 2 * idx) + k" by simp
    then show "(64 * (p - 1) + 4 * idx + k) mod 2 = k" using that by (simp only: mod_mult_self4) simp
  qed
  have b3: "(64 * c + m) div 64 = c" "(64 * c + m) mod 4 = m" if "m < 4" for c m :: nat
  proof -
    show "(64 * c + m) div 64 = c" by (rule div_nat_eqI) (use that in simp_all)
    have "64 * c + m = 4 * (16 * c) + m" by simp
    then show "(64 * c + m) mod 4 = m" using that by (simp only: mod_mult_self4) simp
  qed
  have b5: "(32 * k + 31) div 32 = k" for k :: nat by (rule div_nat_eqI) simp_all
  have n: "n div 2048 * 2048 + n div 8 mod 256 * 8 + n mod 8 = n"
  proof -
    have "n div 8 = n div 2048 * 256 + n div 8 mod 256"
      using div_mult_mod_eq [of "n div 8" 256] div_mult2_eq [of n 8 256] by simp
    moreover have "a * 2048 + b * 8 + r = k" if "q = a * 256 + b" "k = q * 8 + r" for a b q r k :: nat
      using that by simp
    ultimately show ?thesis using div_mult_mod_eq [of n 8] by metis
  qed
  show ?thesis
    unfolding adts_fields_def b2 [OF c(1)] b3 [OF c(2)] b5 using assms(1) n div_mult_mod_eq [of ch 4] by simp
qed

text \<open>C11: An ADTS frame written for a profile from 1 to 4, up to 7 channels and less than 8185
  bytes parses back: profile, rate index, channels, the frame length and the payload. The header is
  recognised as one without checksum, and the size reported when it is left off is that of the
  payload.\<close>

theorem adts_roundtrip:
  assumes "1 \<le> p" "p \<le> 4" and "unat ch < 8" and "length bs + 7 < 2 ^ 13" and "length bs + 7 \<le> length out"
  shows "\<exists>out'. mgw_aac_add_adts r (int p) ch (length bs) (Some bs) out = Some (length bs + 7, out') \<and>
    length out' = length out \<and>
    parse_adts out' = Some \<lparr>ad_profile = p, ad_index = unat (get_samplerate_index r), ad_channels = unat ch,
      ad_length = length bs + 7, ad_payload = bs\<rparr> \<and>
    mgw_aac_leave_adts out' (length bs + 7) d = Some (length bs)"
proof -
  let ?n = "length bs + 7"
  let ?idx = "get_samplerate_index r"
  define b2 b3 b4 b5 :: byte where "b2 = word_of_int ((int p - 1) * 64) + push_bit 2 ?idx + ucast (drop_bit 2 ch)"
    and "b3 = ucast (push_bit 6 (ch AND 7)) + of_nat (?n div 2048)"
    and "b4 = of_nat (?n div 8)" and "b5 = of_nat (?n mod 8 * 32 + 31)"
  define out' where "out' = [0xFF, 0xF1, b2, b3, b4, b5, 0xFC] @ bs @ drop ?n out"
  have add: "mgw_aac_add_adts r (int p) ch (length bs) (Some bs) out = Some (?n, out')"
    using assms(4,5) by (simp add: mgw_aac_add_adts_def AAC_HEADER_SIZE_def Let_def wrap64_def out'_def
        b2_def b3_def b4_def b5_def add.commute)
  have m: "?n div 2048 < 4" using assms(4) by simp
  have v: "unat b2 = 64 * (p - 1) + 4 * unat ?idx + unat ch div 4" "unat b3 = 64 * (unat ch mod 4) + ?n div 2048"
    "unat b4 = ?n div 8 mod 256" "unat b5 = 32 * (?n mod 8) + 31"
    unfolding b2_def b3_def b4_def b5_def
    using adts_byte2 [OF assms(1,2) index_less assms(3), of r] adts_byte3 [OF assms(3) m]
      unat_byte_of_nat [of "?n mod 8 * 32 + 31"] unat_of_nat [where ?'a = 8, of "?n div 8"]
    by (simp_all only: mult.commute [of 32]) simp_all
  have f: "adts_fields p (unat ?idx) (unat ch) ?n (unat b2) (unat b3) (unat b4) (unat b5)"
    unfolding v by (rule adts_fields_written) (use assms index_less in simp_all)
  have "mgw_aac_leave_adts out' ?n d = Some (length bs)"
    using assms(4) by (simp add: mgw_aac_leave_adts_def out'_def sub64_def)
  moreover have "parse_adts out' = Some \<lparr>ad_profile = p, ad_index = unat ?idx, ad_channels = unat ch,
      ad_length = ?n, ad_payload = bs\<rparr>"
    using f by (simp add: parse_adts_def out'_def adts_fields_def Let_def)
  ultimately show ?thesis using add assms(5) by (simp add: out'_def)
qed

theorem adts_roundtrip_witness:
  "\<exists>out'. mgw_aac_add_adts 44100 2 2 (length [1, 2, 3 :: byte]) (Some [1, 2, 3]) (replicate 12 0) = Some (10, out') \<and>
    parse_adts out' = Some \<lparr>ad_profile = 2, ad_index = 4, ad_channels = 2, ad_length = 10, ad_payload = [1, 2, 3]\<rparr>"
proof -
  have "unat (get_samplerate_index 44100) = 4" by (simp add: get_samplerate_index_def)
  then show ?thesis using adts_roundtrip [of 2 2 "[1, 2, 3]" "replicate 12 0" 44100] by auto
qed

end
