(* ===== verification/G711.thy ===== *)
theory G711
  imports Prelude
begin

text \<open>
  A-law and u-law, src/plugins/codecs/g7xx-codec/g711.c: the encoders of linear samples, the
  decoders, the conversions by table between the two laws and the decoder of a buffer. C
  \<open>int\<close> values are \<open>int\<close>, with \<open>>>\<close> rounding down; code words are bytes.
\<close>

section \<open>Tables and search\<close>

definition seg_end :: "int list" where
  "seg_end = [0xFF, 0x1FF, 0x3FF, 0x7FF, 0xFFF, 0x1FFF, 0x3FFF, 0x7FFF]"

definition u2a_table :: "byte list" where
  "u2a_table = [
     1, 1, 2, 2, 3, 3, 4, 4, 5, 5, 6, 6, 7, 7, 8, 8,
     9, 10, 11, 12, 13, 14, 15, 16, 17, 18, 19, 20, 21, 22, 23, 24,
     25, 27, 29, 31, 33, 34, 35, 36, 37, 38, 39, 40, 41, 42, 43, 44,
     46, 48, 49, 50, 51, 52, 53, 54, 55, 56, 57, 58, 59, 60, 61, 62,
     64, 65, 66, 67, 68, 69, 70, 71, 72, 73, 74, 75, 76, 77, 78, 79,
     81, 82, 83, 84, 85, 86, 87, 88, 89, 90, 91, 92, 93, 94, 95, 96,
     97, 98, 99, 100, 101, 102, 103, 104, 105, 106, 107, 108, 109, 110, 111, 112,
     113, 114, 115, 116, 117, 118, 119, 120, 121, 122, 123, 124, 125, 126, 127, 128]"

definition a2u_table :: "byte list" where
  "a2u_table = [
     1, 3, 5, 7, 9, 11, 13, 15, 16, 17, 18, 19, 20, 21, 22, 23,
     24, 25, 26, 27, 28, 29, 30, 31, 32, 32, 33, 33, 34, 34, 35, 35,
     36, 37, 38, 39, 40, 41, 42, 43, 44, 45, 46, 47, 48, 48, 49, 49,
     50, 51, 52, 53, 54, 55, 56, 57, 58, 59, 60, 61, 62, 63, 64, 64,
     65, 66, 67, 68, 69, 70, 71, 72, 73, 74, 75, 76, 77, 78, 79, 79,
     80, 81, 82, 83, 84, 85, 86, 87, 88, 89, 90, 91, 92, 93, 94, 95,
     96, 97, 98, 99, 100, 101, 102, 103, 104, 105, 106, 107, 108, 109, 110, 111,
     112, 113, 114, 115, 116, 117, 118, 119, 120, 121, 122, 123, 124, 125, 126, 127]"

text \<open>The index of the first entry not below \<open>val\<close>; the length of the table without one.\<close>

fun search :: "int \<Rightarrow> int list \<Rightarrow> nat" where
  "search val [] = 0"
| "search val (t # ts) = (if val \<le> t then 0 else Suc (search val ts))"

section \<open>A-law\<close>

definition linear2alaw :: "int \<Rightarrow> byte" where
  "linear2alaw pcm =
     (let (mask, v) = (if 0 \<le> pcm then (0xD5, pcm) else (0x55, - pcm - 8));
          seg = search v seg_end in
      if 8 \<le> seg then 0x7F XOR mask
      else (of_nat seg * 16 OR (if seg < 2 then word_of_int (v div 2 ^ 4 mod 16) else word_of_int (v div 2 ^ (seg + 3) mod 16)))
           XOR mask)"

definition alaw2linear :: "byte \<Rightarrow> int" where
  "alaw2linear a =
     (let a = a XOR 0x55;
          t = uint (a AND 0xf) * 2 ^ 4;
          seg = unat (a AND 0x70) div 2 ^ 4;
          t = (if seg = 0 then t + 8 else if seg = 1 then t + 0x108 else (t + 0x108) * 2 ^ (seg - 1)) in
      if a AND 0x80 \<noteq> 0 then t else - t)"

section \<open>u-law\<close>

definition BIAS :: int where "BIAS = 0x84"

definition linear2ulaw :: "int \<Rightarrow> byte" where
  "linear2ulaw pcm =
     (let (mask, v) = (if pcm < 0 then (0x7F, BIAS - pcm) else (0xFF, pcm + BIAS));
          seg = search v seg_end in
      if 8 \<le> seg then 0x7F XOR mask
      else (of_nat seg * 16 OR word_of_int (v div 2 ^ (seg + 3) mod 16)) XOR mask)"

definition ulaw2linear :: "byte \<Rightarrow> int" where
  "ulaw2linear u =
     (let u = NOT u;
          t = (uint (u AND 0xf) * 2 ^ 3 + BIAS) * 2 ^ (unat (u AND 0x70) div 2 ^ 4) in
      if u AND 0x80 \<noteq> 0 then BIAS - t else t - BIAS)"

section \<open>From law to law\<close>

definition alaw2ulaw :: "byte \<Rightarrow> byte" where
  "alaw2ulaw a =
     (if a AND 0x80 \<noteq> 0 then 0xFF XOR a2u_table ! unat (a XOR 0xD5) else 0x7F XOR a2u_table ! unat (a XOR 0x55))"

definition ulaw2alaw :: "byte \<Rightarrow> byte" where
  "ulaw2alaw u =
     (if u AND 0x80 \<noteq> 0 then 0xD5 XOR (u2a_table ! unat (0xFF XOR u) - 1)
      else 0x55 XOR (u2a_table ! unat (0x7F XOR u) - 1))"

section \<open>A buffer\<close>

datatype g711_tp = TP_ALAW | TP_ULAW

definition to_i16 :: "int \<Rightarrow> int" where
  "to_i16 i = signed_take_bit 15 i"

text \<open>The buffers are \<open>None\<close> for NULL; \<open>out\<close> is the capacity of the output in samples and
  \<open>out_len\<close> the length passed in bytes. A negative length runs the loop, whose counter is unsigned,
  over both buffers. The results are the return value, the length stored and the samples.\<close>

definition g711_decode :: "nat option \<Rightarrow> int option \<Rightarrow> bytes option \<Rightarrow> int \<Rightarrow> g711_tp \<Rightarrow>
    (int \<times> int option \<times> int list) option" where
  "g711_decode out out_len inp in_len tp =
     (case (out, out_len, inp) of
        (Some cap, Some ol, Some bs) \<Rightarrow>
          if in_len = 0 then Some (- 1, Some ol, [])
          else if ol < 2 * in_len then Some (- 2, Some ol, [])
          else if in_len < 0 \<or> length bs < nat in_len \<or> cap < nat in_len then None
          else Some (2 * in_len, Some (2 * in_len),
                 map (\<lambda>b. to_i16 (if tp = TP_ALAW then alaw2linear b else ulaw2linear b)) (take (nat in_len) bs))
      | _ \<Rightarrow> Some (- 1, out_len, []))"

section \<open>What the code words mean\<close>

text \<open>The magnitudes of the code words \<open>16 * seg + q\<close>.\<close>

definition alaw_level :: "nat \<Rightarrow> int" where
  "alaw_level n = (let s = n div 16; q = int (n mod 16) in if s = 0 then 16 * q + 8 else (16 * q + 264) * 2 ^ (s - 1))"

definition ulaw_level :: "nat \<Rightarrow> int" where
  "ulaw_level n = (8 * int (n mod 16) + 132) * 2 ^ (n div 16) - 132"

lemma alaw_levels:
  "list_all (\<lambda>n. alaw2linear (of_nat n XOR 0xD5) = alaw_level n \<and> alaw2linear (of_nat n XOR 0x55) = - alaw_level n) [0..<128]"
  by code_simp

lemma ulaw_levels:
  "list_all (\<lambda>n. ulaw2linear (of_nat n XOR 0xFF) = ulaw_level n \<and> ulaw2linear (of_nat n XOR 0x7F) = - ulaw_level n) [0..<128]"
  by code_simp

lemma code_words:
  "list_all (\<lambda>n. (of_nat (n div 16) * 16 OR word_of_int (int (n mod 16)) :: byte) = of_nat n) [0..<128]"
  by code_simp

section \<open>Quantisation\<close>

lemma search_seg_end:
  assumes "v \<le> 32767"
  shows "search v seg_end < 8" and "v < 2 ^ (search v seg_end + 8)"
    and "search v seg_end \<noteq> 0 \<Longrightarrow> 2 ^ (search v seg_end + 7) \<le> v"
  using assms by (auto simp: seg_end_def)

lemma code_word:
  assumes "s < 8" and "0 \<le> q" and "q < 16"
  shows "(of_nat s * 16 OR word_of_int q :: byte) = of_nat (16 * s + nat q)"
proof -
  have "16 * s + nat q < 128" "nat q < 16" using assms by auto
  then have "(of_nat ((16 * s + nat q) div 16) * 16 OR word_of_int (int ((16 * s + nat q) mod 16)) :: byte) = of_nat (16 * s + nat q)"
    using code_words unfolding list_all_iff by (metis atLeastLessThan_iff set_upt zero_le)
  then show ?thesis using assms \<open>nat q < 16\<close> by simp
qed

text \<open>The value of a sample in segment \<open>s\<close> up to half a step.\<close>

lemma seg_split:
  fixes v :: int
  assumes "2 ^ (s + 7) \<le> v" and "v < 2 ^ (s + 8)"
  shows "\<exists>d r. v = 2 ^ (s + 3) * d + r \<and> 0 \<le> r \<and> r < 2 ^ (s + 3) \<and> 16 \<le> d \<and> d < 32 \<and> v div 2 ^ (s + 3) = d"
proof -
  let ?k = "2 ^ (s + 3) :: int" and ?d = "v div 2 ^ (s + 3)"
  have "16 * ?k \<le> v" "v < 32 * ?k" using assms by (simp_all add: power_add)
  then have "16 \<le> ?d" "?d < 32" by (auto intro: int_le_div int_div_less)
  moreover have "v = ?k * ?d + v mod ?k" "0 \<le> v mod ?k" "v mod ?k < ?k" by simp_all
  ultimately show ?thesis by blast
qed

lemma level_parts:
  "nat q < 16 \<Longrightarrow> (16 * s + nat q) div 16 = s" "nat q < 16 \<Longrightarrow> (16 * s + nat q) mod 16 = nat q"
  by simp_all

lemma alaw_seg_error:
  assumes "1 \<le> s" and "s < 8" and "2 ^ (s + 7) \<le> v" and "v < 2 ^ (s + 8)"
  shows "\<bar>alaw_level (16 * s + nat (v div 2 ^ (s + 3) mod 16)) - v\<bar> \<le> 2 ^ (s + 2)"
proof -
  obtain d r where d: "v = 2 ^ (s + 3) * d + r" "0 \<le> r" "r < 2 ^ (s + 3)" "16 \<le> d" "d < 32" "v div 2 ^ (s + 3) = d"
    using seg_split [OF assms(3,4)] by blast
  have m: "d mod 16 = d - 16" using d(4,5) minus_mod_self2 [of d 16] mod_pos_pos_trivial [of "d - 16" 16] by simp
  obtain t where t: "s = Suc t" using assms(1) by (cases s) auto
  have "alaw_level (16 * s + nat (d - 16)) = (16 * (d - 16) + 264) * 2 ^ t"
    using d(4,5) by (simp only: alaw_level_def level_parts nat_less_iff) (simp add: t)
  then have "alaw_level (16 * s + nat (v div 2 ^ (s + 3) mod 16)) - v = 2 ^ (s + 2) - r"
    unfolding d(6) m unfolding d(1) t by (simp add: algebra_simps power_add)
  then show ?thesis using d(2,3) by (simp add: power_add)
qed

lemma ulaw_seg_error:
  assumes "s < 8" and "2 ^ (s + 7) \<le> v" and "v < 2 ^ (s + 8)"
  shows "\<bar>ulaw_level (16 * s + nat (v div 2 ^ (s + 3) mod 16)) - (v - 132)\<bar> \<le> 2 ^ (s + 2)"
proof -
  obtain d r where d: "v = 2 ^ (s + 3) * d + r" "0 \<le> r" "r < 2 ^ (s + 3)" "16 \<le> d" "d < 32" "v div 2 ^ (s + 3) = d"
    using seg_split [OF assms(2,3)] by blast
  have m: "d mod 16 = d - 16" using d(4,5) minus_mod_self2 [of d 16] mod_pos_pos_trivial [of "d - 16" 16] by simp
  have "ulaw_level (16 * s + nat (d - 16)) = (8 * (d - 16) + 132) * 2 ^ s - 132"
    using d(4,5) by (simp only: ulaw_level_def level_parts nat_less_iff) simp
  then have "ulaw_level (16 * s + nat (v div 2 ^ (s + 3) mod 16)) - (v - 132) = 2 ^ (s + 2) - r"
    unfolding d(6) m unfolding d(1) by (simp add: algebra_simps power_add)
  then show ?thesis using d(2,3) by (simp add: power_add)
qed

text \<open>The magnitude a sample is coded with, as the number of its level.\<close>

definition alaw_index :: "int \<Rightarrow> nat" where
  "alaw_index v = (let s = search v seg_end in 16 * s + nat (v div 2 ^ (if s < 2 then 4 else s + 3) mod 16))"

definition ulaw_index :: "int \<Rightarrow> nat" where
  "ulaw_index v = (let s = search v seg_end in 16 * s + nat (v div 2 ^ (s + 3) mod 16))"

lemma seg_index_less:
  assumes "v \<le> 32767"
  shows "alaw_index v < 128" and "ulaw_index v < 128"
proof -
  have "16 * s + nat (x mod 16) < 128" if "s < 8" for s and x :: int
  proof -
    have "nat (x mod 16) < 16" by (simp add: nat_less_iff)
    then show ?thesis using that by simp
  qed
  then show "alaw_index v < 128" "ulaw_index v < 128"
    using search_seg_end(1) [OF assms] by (simp_all add: alaw_index_def ulaw_index_def Let_def)
qed

lemma alaw_index_error:
  assumes "0 \<le> v" and "v \<le> 32767"
  shows "\<bar>alaw_level (alaw_index v) - v\<bar> \<le> max 8 (v div 32)"
proof (cases "search v seg_end")
  case 0
  then have v: "v < 256" using search_seg_end(2) [OF assms(2)] by simp
  then have "alaw_index v = nat (v div 16)"
    using 0 assms(1) int_div_less [of 16 v 16] by (simp add: alaw_index_def mod_pos_pos_trivial pos_imp_zdiv_nonneg_iff)
  moreover have "alaw_level (nat (v div 16)) = 16 * (v div 16) + 8"
    using v assms(1) int_div_less [of 16 v 16] by (simp add: alaw_level_def nat_less_iff pos_imp_zdiv_nonneg_iff)
  ultimately show ?thesis by (auto simp: abs_le_iff)
next
  case (Suc t)
  let ?s = "search v seg_end"
  have b: "2 ^ (?s + 7) \<le> v" "v < 2 ^ (?s + 8)" "?s < 8" using search_seg_end [OF assms(2)] Suc by auto
  have "alaw_index v = 16 * ?s + nat (v div 2 ^ (?s + 3) mod 16)"
    using Suc by (auto simp: alaw_index_def Let_def less_Suc_eq numeral_2_eq_2)
  then have "\<bar>alaw_level (alaw_index v) - v\<bar> \<le> 2 ^ (?s + 2)" using alaw_seg_error [of ?s v] b Suc by simp
  moreover have "2 ^ (?s + 2) \<le> v div 32" using b(1) by (intro int_le_div) (simp_all add: power_add)
  ultimately show ?thesis by simp
qed

lemma ulaw_index_error:
  assumes "132 \<le> v" and "v \<le> 32767"
  shows "\<bar>ulaw_level (ulaw_index v) - (v - 132)\<bar> \<le> v div 32"
proof -
  let ?s = "search v seg_end"
  have b: "2 ^ (?s + 7) \<le> v" "v < 2 ^ (?s + 8)" "?s < 8"
    using search_seg_end [OF assms(2)] assms(1) by (cases "?s = 0"; simp)+
  have "\<bar>ulaw_level (ulaw_index v) - (v - 132)\<bar> \<le> 2 ^ (?s + 2)"
    using ulaw_seg_error [OF b(3,1,2)] by (simp add: ulaw_index_def Let_def)
  moreover have "2 ^ (?s + 2) \<le> v div 32" using b(1) by (intro int_le_div) (simp_all add: power_add)
  ultimately show ?thesis by simp
qed

lemma linear2alaw_index:
  "0 \<le> x \<Longrightarrow> x \<le> 32767 \<Longrightarrow> linear2alaw x = of_nat (alaw_index x) XOR 0xD5"
  "- 32768 \<le> x \<Longrightarrow> x \<le> - 8 \<Longrightarrow> linear2alaw x = of_nat (alaw_index (- x - 8)) XOR 0x55"
proof -
  have w: "(of_nat (search v seg_end) * 16 OR (if search v seg_end < 2 then word_of_int (v div 2 ^ 4 mod 16)
      else word_of_int (v div 2 ^ (search v seg_end + 3) mod 16)) :: byte) = of_nat (alaw_index v)" if "v \<le> 32767" for v
    using code_word [OF search_seg_end(1) [OF that], of "v div 2 ^ 4 mod 16"]
      code_word [OF search_seg_end(1) [OF that], of "v div 2 ^ (search v seg_end + 3) mod 16"]
    by (simp add: alaw_index_def Let_def)
  show "0 \<le> x \<Longrightarrow> x \<le> 32767 \<Longrightarrow> linear2alaw x = of_nat (alaw_index x) XOR 0xD5"
    using search_seg_end(1) [of x] w [of x] by (simp add: linear2alaw_def Let_def)
  show "- 32768 \<le> x \<Longrightarrow> x \<le> - 8 \<Longrightarrow> linear2alaw x = of_nat (alaw_index (- x - 8)) XOR 0x55"
    using search_seg_end(1) [of "- x - 8"] w [of "- x - 8"] by (simp add: linear2alaw_def Let_def)
qed

lemma linear2ulaw_index:
  "0 \<le> x \<Longrightarrow> x \<le> 32635 \<Longrightarrow> linear2ulaw x = of_nat (ulaw_index (x + 132)) XOR 0xFF"
  "- 32635 \<le> x \<Longrightarrow> x < 0 \<Longrightarrow> linear2ulaw x = of_nat (ulaw_index (132 - x)) XOR 0x7F"
proof -
  have w: "(of_nat (search v seg_end) * 16 OR word_of_int (v div 2 ^ (search v seg_end + 3) mod 16) :: byte) = of_nat (ulaw_index v)"
    if "v \<le> 32767" for v
    using code_word [OF search_seg_end(1) [OF that], of "v div 2 ^ (search v seg_end + 3) mod 16"]
    by (simp add: ulaw_index_def Let_def)
  show "0 \<le> x \<Longrightarrow> x \<le> 32635 \<Longrightarrow> linear2ulaw x = of_nat (ulaw_index (x + 132)) XOR 0xFF"
    using search_seg_end(1) [of "x + 132"] w [of "x + 132"] by (simp add: linear2ulaw_def BIAS_def Let_def)
  show "- 32635 \<le> x \<Longrightarrow> x < 0 \<Longrightarrow> linear2ulaw x = of_nat (ulaw_index (132 - x)) XOR 0x7F"
    using search_seg_end(1) [of "132 - x"] w [of "132 - x"] by (simp add: linear2ulaw_def BIAS_def Let_def)
qed

lemma alaw_decode:
  "n < 128 \<Longrightarrow> alaw2linear (of_nat n XOR 0xD5) = alaw_level n"
  "n < 128 \<Longrightarrow> alaw2linear (of_nat n XOR 0x55) = - alaw_level n"
  using alaw_levels by (simp_all add: list_all_iff)

lemma ulaw_decode:
  "n < 128 \<Longrightarrow> ulaw2linear (of_nat n XOR 0xFF) = ulaw_level n"
  "n < 128 \<Longrightarrow> ulaw2linear (of_nat n XOR 0x7F) = - ulaw_level n"
  using ulaw_levels by (simp_all add: list_all_iff)



text \<open>The samples from -1 to -7 decode to -248: the magnitude becomes negative, its segment is
  taken to be the first, and its low bits the largest step of it.\<close>

theorem alaw_small_negative:
  "map (\<lambda>x. alaw2linear (linear2alaw x)) [- 1, - 2, - 3, - 4, - 5, - 6, - 7, - 8, 0] =
     [- 248, - 248, - 248, - 248, - 248, - 248, - 248, - 8, 8]"
  by code_simp

section \<open>Code words\<close>

lemma search_unique:
  assumes "s < 8" and "v < 2 ^ (s + 8)" and "s \<noteq> 0 \<Longrightarrow> 2 ^ (s + 7) \<le> v"
  shows "search v seg_end = s"
proof -
  have "s \<in> {0, 1, 2, 3, 4, 5, 6, 7}" using assms(1) by auto
  then show ?thesis using assms(2,3) by (auto simp: seg_end_def)
qed

lemma alaw_level_seg:
  "q < 16 \<Longrightarrow> s \<noteq> 0 \<Longrightarrow> alaw_level (16 * s + q) = 2 ^ (s + 3) * (16 + int q) + 2 ^ (s + 2)"
  "q < 16 \<Longrightarrow> alaw_level (16 * 0 + q) = 16 * int q + 8"
proof -
  show "q < 16 \<Longrightarrow> alaw_level (16 * 0 + q) = 16 * int q + 8" by (simp add: alaw_level_def)
  assume q: "q < 16" and s: "s \<noteq> 0"
  obtain t where t: "s = Suc t" using s by (cases s) auto
  have "(16 * s + q) div 16 = s" "(16 * s + q) mod 16 = q" using q by simp_all
  then have "alaw_level (16 * s + q) = (16 * int q + 264) * 2 ^ t"
    unfolding alaw_level_def Let_def by (simp add: t)
  then show "alaw_level (16 * s + q) = 2 ^ (s + 3) * (16 + int q) + 2 ^ (s + 2)"
    by (simp add: t power_add algebra_simps)
qed

lemma ulaw_level_seg:
  "q < 16 \<Longrightarrow> ulaw_level (16 * s + q) = 2 ^ (s + 3) * (16 + int q) + 2 ^ (s + 2) - 132"
proof -
  assume q: "q < 16"
  have "(16 * s + q) div 16 = s" "(16 * s + q) mod 16 = q" using q by simp_all
  then show "ulaw_level (16 * s + q) = 2 ^ (s + 3) * (16 + int q) + 2 ^ (s + 2) - 132"
    unfolding ulaw_level_def Let_def by (simp add: power_add algebra_simps)
qed

lemma seg_value:
  fixes q :: int
  assumes "0 \<le> q" and "q < 16" and "v = 2 ^ (s + 3) * (16 + q) + r" and "0 \<le> r" and "r < 2 ^ (s + 3)"
  shows "2 ^ (s + 7) \<le> v" and "v < 2 ^ (s + 8)" and "v div 2 ^ (s + 3) mod 16 = q"
proof -
  let ?k = "2 ^ (s + 3) :: int"
  have "?k * 16 \<le> ?k * (16 + q)" "?k * (16 + q) \<le> ?k * 31" using assms by (auto intro!: mult_left_mono)
  then have "?k * 16 \<le> v" "v < ?k * 32" using assms(3-5) by linarith+
  then show "2 ^ (s + 7) \<le> v" "v < 2 ^ (s + 8)" by (simp_all add: power_add)
  have "v div ?k = 16 + q" using assms(3-5) by (simp add: div_pos_pos_trivial)
  then show "v div ?k mod 16 = q"
    using mod_add_self1 [of 16 q] assms(1,2) by (simp add: mod_pos_pos_trivial)
qed

text \<open>Every value of the cell of a level has its index; \<open>c\<close> is the distance below the level.\<close>

lemma alaw_index_level:
  assumes "n < 128" and "c = 0 \<or> c = 8"
  shows "alaw_index (alaw_level n - c) = n" and "8 \<le> alaw_level n" and "alaw_level n \<le> 32767"
proof -
  define s q where "s = n div 16" and "q = n mod 16"
  have n: "n = 16 * s + q" "q < 16" "s < 8" using assms(1) by (auto simp: s_def q_def)
  have "alaw_index (alaw_level n - c) = n \<and> 8 \<le> alaw_level n \<and> alaw_level n \<le> 32767"
  proof (cases "s = 0")
    case True
    have "search (16 * int q + 8 - c) seg_end = 0" using n(2) assms(2) by (auto simp: seg_end_def)
    moreover have "(16 * int q + 8 - c) div 16 = int q" using assms(2) by auto
    ultimately show ?thesis using n True alaw_level_seg(2) [OF n(2)] by (simp add: alaw_index_def)
  next
    case False
    let ?v = "alaw_level n"
    have "?v = 2 ^ (s + 3) * (16 + int q) + 2 ^ (s + 2)" unfolding n(1) by (rule alaw_level_seg(1) [OF n(2) False])
    then have e: "?v - c = 2 ^ (s + 3) * (16 + int q) + (2 ^ (s + 2) - c)" "?v = 2 ^ (s + 3) * (16 + int q) + 2 ^ (s + 2)"
      by simp_all
    have "(8 :: int) = 2 ^ 3" by simp
    also have "\<dots> \<le> 2 ^ (s + 2)" using False by (intro power_increasing) auto
    finally have c: "0 \<le> 2 ^ (s + 2) - c" "2 ^ (s + 2) - c < 2 ^ (s + 3)" "(2 :: int) ^ (s + 2) < 2 ^ (s + 3)" "8 \<le> (2 :: int) ^ (s + 2)"
      using assms(2) by (auto simp: power_add)
    have v: "2 ^ (s + 7) \<le> ?v - c" "?v - c < 2 ^ (s + 8)" "(?v - c) div 2 ^ (s + 3) mod 16 = int q"
      using seg_value [OF _ _ e(1) c(1,2)] n(2) by simp_all
    have w: "?v < 2 ^ (s + 8)" using seg_value(2) [OF _ _ e(2) _ c(3)] n(2) by simp
    have se: "search (?v - c) seg_end = s" by (rule search_unique) (use v n(3) in auto)
    have "(2 :: int) ^ (s + 8) \<le> 2 ^ 15" using n(3) by (intro power_increasing) auto
    then have hi: "?v \<le> 32767" using w by simp
    have "0 \<le> 2 ^ (s + 3) * (16 + int q)" by simp
    then have lo: "8 \<le> ?v" unfolding e(2) using c(4) by linarith
    have "alaw_index (?v - c) = 16 * s + nat ((?v - c) div 2 ^ (if s < 2 then 4 else s + 3) mod 16)"
      using se by (simp add: alaw_index_def)
    also have "(if s < 2 then 4 else s + 3) = s + 3" using False by (auto simp: numeral_2_eq_2 less_Suc_eq)
    finally show ?thesis using v(3) lo hi n(1) by simp
  qed
  then show "alaw_index (alaw_level n - c) = n" "8 \<le> alaw_level n" "alaw_level n \<le> 32767" by auto
qed

lemma ulaw_index_level:
  assumes "n < 128"
  shows "ulaw_index (ulaw_level n + 132) = n" and "0 \<le> ulaw_level n" and "ulaw_level n \<le> 32635"
    and "ulaw_level n = 0 \<longleftrightarrow> n = 0"
proof -
  define s q where "s = n div 16" and "q = n mod 16"
  have n: "n = 16 * s + q" "q < 16" "s < 8" using assms by (auto simp: s_def q_def)
  let ?v = "ulaw_level n + 132"
  have e: "?v = 2 ^ (s + 3) * (16 + int q) + 2 ^ (s + 2)" unfolding n(1) by (simp add: ulaw_level_seg [OF n(2)])
  then have v: "2 ^ (s + 7) \<le> ?v" "?v < 2 ^ (s + 8)" "?v div 2 ^ (s + 3) mod 16 = int q"
    using seg_value [OF _ _ e] n(2) by (simp_all add: power_add)
  have se: "search ?v seg_end = s" by (rule search_unique) (use v n(3) in auto)
  then show "ulaw_index (ulaw_level n + 132) = n" using v(3) n(1) by (simp add: ulaw_index_def)
  have "(2 :: int) ^ (s + 8) \<le> 2 ^ 15" using n(3) by (intro power_increasing) auto
  then show "ulaw_level n \<le> 32635" using v(2) by simp
  have z: "0 \<le> ulaw_level n \<and> (ulaw_level n = 0 \<longleftrightarrow> n = 0)"
  proof (cases s)
    case 0
    then show ?thesis using e n by auto
  next
    case (Suc t)
    have "(2 :: int) ^ 8 \<le> 2 ^ (s + 7)" by (intro power_increasing) (simp_all add: Suc)
    then show ?thesis using v(1) Suc n(1) by auto
  qed
  then show "0 \<le> ulaw_level n" "ulaw_level n = 0 \<longleftrightarrow> n = 0" by auto
qed

lemma to_i16_id: "- 32768 \<le> x \<Longrightarrow> x < 32768 \<Longrightarrow> to_i16 x = x"
  by (simp add: to_i16_def signed_take_bit_int_eq_self)

text \<open>Every byte is a code word of either law.\<close>

lemma code_word_split:
  "list_all (\<lambda>n. let b = of_nat n :: byte in (unat (b XOR 0x55) < 128 \<or> unat (b XOR 0xD5) < 128) \<and>
     (unat (b XOR 0x7F) < 128 \<or> unat (b XOR 0xFF) < 128)) [0..<256]"
  by code_simp

lemma byte_cases:
  fixes b :: byte
  shows "\<exists>n < 128. b = of_nat n XOR 0xD5 \<or> b = of_nat n XOR 0x55"
    and "\<exists>n < 128. b = of_nat n XOR 0xFF \<or> b = of_nat n XOR 0x7F"
proof -
  have "unat b < 256" using unsigned_less [of b, where ?'a = nat] by simp
  then have c: "unat (b XOR 0x55) < 128 \<or> unat (b XOR 0xD5) < 128" "unat (b XOR 0x7F) < 128 \<or> unat (b XOR 0xFF) < 128"
    using code_word_split by (auto simp: list_all_iff Let_def dest: bspec [of _ _ "unat b"])
  have x: "b = of_nat (unat (b XOR m)) XOR m" for m by (simp add: xor.assoc)
  show "\<exists>n < 128. b = of_nat n XOR 0xD5 \<or> b = of_nat n XOR 0x55"
    "\<exists>n < 128. b = of_nat n XOR 0xFF \<or> b = of_nat n XOR 0x7F"
    using c x by blast+
qed

lemma alaw_stable: "linear2alaw (to_i16 (alaw2linear b)) = b"
proof -
  obtain n where n: "n < 128" "b = of_nat n XOR 0xD5 \<or> b = of_nat n XOR 0x55" using byte_cases(1) by blast
  note l = alaw_index_level [OF n(1)]
  from n(2) show ?thesis
  proof
    assume "b = of_nat n XOR 0xD5"
    then show ?thesis using l [of 0] n(1) by (simp add: alaw_decode to_i16_id linear2alaw_index)
  next
    assume "b = of_nat n XOR 0x55"
    then show ?thesis using l [of 8] n(1) by (simp add: alaw_decode to_i16_id linear2alaw_index)
  qed
qed

lemma ulaw_stable: "linear2ulaw (to_i16 (ulaw2linear b)) = (if b = 127 then 255 else b)"
proof -
  obtain n where n: "n < 128" "b = of_nat n XOR 0xFF \<or> b = of_nat n XOR 0x7F" using byte_cases(2) by blast
  note l = ulaw_index_level [OF n(1)]
  have x: "(of_nat n XOR m = (m :: byte)) \<longleftrightarrow> n = 0" for m
  proof -
    have "(of_nat n :: byte) = (of_nat n XOR m) XOR m" by (simp add: xor.assoc)
    then have "(of_nat n XOR m = m) \<longleftrightarrow> (of_nat n :: byte) = 0" by auto
    then show ?thesis using n(1) by (simp add: word_of_nat_eq_0_iff) (auto dest: dvd_imp_le)
  qed
  have m: "(of_nat n XOR 0xFF :: byte) \<noteq> 127"
  proof -
    have "(of_nat n :: byte) = 127 XOR 0xFF" if "(of_nat n XOR 0xFF :: byte) = 127"
      using that by (metis xor.assoc xor.right_neutral xor_self_eq)
    then have "unat (of_nat n :: byte) = 128" if "(of_nat n XOR 0xFF :: byte) = 127" using that by simp
    then show ?thesis using n(1) by (auto simp: unat_of_nat)
  qed
  from n(2) show ?thesis
  proof
    assume "b = of_nat n XOR 0xFF"
    then show ?thesis using l n(1) m by (simp add: ulaw_decode to_i16_id linear2ulaw_index)
  next
    assume b: "b = of_nat n XOR 0x7F"
    show ?thesis
    proof (cases "n = 0")
      case True
      then show ?thesis using b l(4) ulaw_decode(2) [OF n(1)] by (simp add: to_i16_def) code_simp
    next
      case False
      then have "0 < ulaw_level n" using l(2,4) by linarith
      then show ?thesis using b l n(1) False x by (simp add: ulaw_decode to_i16_id linear2ulaw_index add.commute)
    qed
  qed
qed

text \<open>A buffer of code words decodes to as many samples, and each of them encodes to its code
  word again, but for the second zero of u-law, which becomes the first; the length stored is twice
  the input.\<close>

theorem g711_decode_reencodes:
  assumes "bs \<noteq> []" and "length bs \<le> cap" and "2 * int (length bs) \<le> ol"
  shows "\<exists>xs. g711_decode (Some cap) (Some ol) (Some bs) (int (length bs)) tp =
      Some (2 * int (length bs), Some (2 * int (length bs)), xs) \<and>
    map (case tp of TP_ALAW \<Rightarrow> linear2alaw | TP_ULAW \<Rightarrow> linear2ulaw) xs =
    map (\<lambda>b. if tp = TP_ULAW \<and> b = 127 then 255 else b) bs"
  using assms by (cases tp) (auto simp: g711_decode_def alaw_stable ulaw_stable o_def)

theorem g711_decode_reencodes_witness:
  "\<exists>xs. g711_decode (Some 3) (Some 6) (Some [0, 127, 200]) 3 TP_ULAW = Some (6, Some 6, xs) \<and>
    map linear2ulaw xs = [0, 255, 200]"
  using g711_decode_reencodes [of "[0, 127, 200]" 3 6 TP_ULAW] by simp

section \<open>Conversion by table\<close>

text \<open>The level each table leads to.\<close>


lemma u2a_levels:
  fixes f :: "nat \<Rightarrow> byte \<Rightarrow> bool"
  defines "f \<equiv> \<lambda>n x. \<bar>alaw_level (unat (x - 1)) - ulaw_level n\<bar> \<le> ulaw_level n div 16 + 8 \<and> unat (x - 1) < 128"
  shows "list_all2 f [0..<32] (take 32 u2a_table)" and "list_all2 f [32..<64] (take 32 (drop 32 u2a_table))"
    and "list_all2 f [64..<96] (take 32 (drop 64 u2a_table))" and "list_all2 f [96..<128] (drop 96 u2a_table)"
  unfolding f_def by code_simp+

lemma a2u_levels:
  fixes f :: "nat \<Rightarrow> byte \<Rightarrow> bool"
  defines "f \<equiv> \<lambda>n x. \<bar>ulaw_level (unat x) - alaw_level n\<bar> \<le> alaw_level n div 16 + 1 \<and> unat x < 128"
  shows "list_all2 f [0..<32] (take 32 a2u_table)" and "list_all2 f [32..<64] (take 32 (drop 32 a2u_table))"
    and "list_all2 f [64..<96] (take 32 (drop 64 a2u_table))" and "list_all2 f [96..<128] (drop 96 a2u_table)"
  unfolding f_def by code_simp+

lemma chunks:
  assumes "list_all2 f [0..<32] (take 32 t)" "list_all2 f [32..<64] (take 32 (drop 32 t))"
    "list_all2 f [64..<96] (take 32 (drop 64 t))" "list_all2 f [96..<128] (drop 96 t)" and "n < 128"
  shows "f n (t ! n)"
proof -
  have "take 32 t @ take 32 (drop 32 t) @ take 32 (drop 64 t) @ drop 96 t = t"
    using take_add [of 32 32 t] take_add [of 64 32 t] append_take_drop_id [of 96 t] by simp
  moreover have "[0..<32] @ [32..<64] @ [64..<96] @ [96..<128] = [0..<128]"
    using upt_add_eq_append [of 0 32 32] upt_add_eq_append [of 0 64 32] upt_add_eq_append [of 0 96 32] by simp
  ultimately have "list_all2 f [0..<128] t" using assms(1-4) by (metis list_all2_appendI)
  then show ?thesis using assms(5) by (auto dest: list_all2_nthD [of _ _ _ n])
qed

lemma decode_byte:
  "unat x < 128 \<Longrightarrow> alaw2linear (x XOR 0xD5) = alaw_level (unat x)"
  "unat x < 128 \<Longrightarrow> alaw2linear (x XOR 0x55) = - alaw_level (unat x)"
  "unat x < 128 \<Longrightarrow> ulaw2linear (x XOR 0xFF) = ulaw_level (unat x)"
  "unat x < 128 \<Longrightarrow> ulaw2linear (x XOR 0x7F) = - ulaw_level (unat x)"
  using alaw_decode [of "unat x"] ulaw_decode [of "unat x"] by simp_all

lemma signs:
  "list_all (\<lambda>n. (of_nat n XOR 0xFF) AND 0x80 \<noteq> (0 :: byte) \<and> (of_nat n XOR 0xD5) AND 0x80 \<noteq> (0 :: byte) \<and>
     (of_nat n XOR 0x7F) AND 0x80 = (0 :: byte) \<and> (of_nat n XOR 0x55) AND 0x80 = (0 :: byte)) [0..<128]"
  by code_simp

text \<open>The conversions by table keep every code word within one part in 16 of its value: from
  u-law within 8 more, from A-law within 1 more.\<close>

theorem law_conversion_error:
  "\<bar>alaw2linear (ulaw2alaw b) - ulaw2linear b\<bar> \<le> \<bar>ulaw2linear b\<bar> div 16 + 8 \<and>
   \<bar>ulaw2linear (alaw2ulaw b) - alaw2linear b\<bar> \<le> \<bar>alaw2linear b\<bar> div 16 + 1"
proof
  have w: "m XOR (of_nat n XOR m) = of_nat n" "(of_nat n XOR m) XOR m = of_nat n" "unat (of_nat n :: byte) = n"
    if "n < 128" for n and m :: byte
  proof -
    show "m XOR (of_nat n XOR m) = of_nat n" by (subst xor.left_commute) simp
    show "(of_nat n XOR m) XOR m = of_nat n" by (simp add: xor.assoc)
    show "unat (of_nat n :: byte) = n" using that by (simp add: unat_of_nat)
  qed
  have c: "m XOR x = x XOR m" for m x :: byte by (rule xor.commute)
  obtain n where n: "n < 128" "b = of_nat n XOR 0xFF \<or> b = of_nat n XOR 0x7F" using byte_cases(2) by blast
  note u = chunks [OF u2a_levels n(1)] and s = signs [unfolded list_all_iff, rule_format, of n]
  from n(2) show "\<bar>alaw2linear (ulaw2alaw b) - ulaw2linear b\<bar> \<le> \<bar>ulaw2linear b\<bar> div 16 + 8"
  proof
    assume "b = of_nat n XOR 0xFF"
    then show ?thesis
      using u s n(1) ulaw_index_level(2) [OF n(1)] w [OF n(1)] c [of "0xD5" "u2a_table ! n - 1"]
      by (simp add: ulaw2alaw_def decode_byte ulaw_decode)
  next
    assume "b = of_nat n XOR 0x7F"
    then show ?thesis
      using u s n(1) ulaw_index_level(2) [OF n(1)] w [OF n(1)] c [of "0x55" "u2a_table ! n - 1"]
      by (simp add: ulaw2alaw_def decode_byte ulaw_decode abs_minus_commute)
  qed
  obtain n where n: "n < 128" "b = of_nat n XOR 0xD5 \<or> b = of_nat n XOR 0x55" using byte_cases(1) by blast
  note u = chunks [OF a2u_levels n(1)] and s = signs [unfolded list_all_iff, rule_format, of n]
  from n(2) show "\<bar>ulaw2linear (alaw2ulaw b) - alaw2linear b\<bar> \<le> \<bar>alaw2linear b\<bar> div 16 + 1"
  proof
    assume "b = of_nat n XOR 0xD5"
    then show ?thesis
      using u s n(1) alaw_index_level(2) [OF n(1), of 0] w [OF n(1)] c [of "0xFF" "a2u_table ! n"]
      by (simp add: alaw2ulaw_def decode_byte alaw_decode)
  next
    assume "b = of_nat n XOR 0x55"
    then show ?thesis
      using u s n(1) alaw_index_level(2) [OF n(1), of 0] w [OF n(1)] c [of "0x7F" "a2u_table ! n"]
      by (simp add: alaw2ulaw_def decode_byte alaw_decode abs_minus_commute)
  qed
qed

end
