(* ===== verification/G726.thy ===== *)
theory G726
  imports Prelude
begin

text \<open>
  The G.726 ADPCM codec, src/plugins/codecs/g7xx-codec/g726.c and g726.h: quantiser, adaptive
  predictor, state update, the encoders and decoders of the four rates and the packing of codes
  into bytes. \<open>int\<close> and \<open>short\<close> values are \<open>int\<close>; a store to a \<open>short\<close> goes
  through \<open>s16\<close>. Shifts to the right round down. A shift by a negative count or by 32 and more
  is \<open>None\<close>.
\<close>

section \<open>Arithmetic\<close>

text \<open>Conversion to \<open>short\<close>.\<close>

definition s16 :: "int \<Rightarrow> int" where
  "s16 i = (i + 32768) mod 65536 - 32768"

text \<open>\<open>x >> k\<close> and \<open>x << k\<close>.\<close>

definition shr :: "int \<Rightarrow> nat \<Rightarrow> int" where
  "shr x k = x div 2 ^ k"

definition shl :: "int \<Rightarrow> nat \<Rightarrow> int" where
  "shl x k = x * 2 ^ k"

text \<open>The portable branch of \<open>top_bit\<close>.\<close>

definition top_bit_step :: "u32 \<Rightarrow> nat \<Rightarrow> u32 \<times> nat \<Rightarrow> u32 \<times> nat" where
  "top_bit_step m w = (\<lambda>(bits, res). if bits AND m \<noteq> 0 then (bits AND m, res + w) else (bits, res))"

definition top_bit :: "u32 \<Rightarrow> int" where
  "top_bit bits =
     (if bits = 0 then - 1
      else int (snd (top_bit_step 0xAAAAAAAA 1 (top_bit_step 0xCCCCCCCC 2 (top_bit_step 0xF0F0F0F0 4
        (top_bit_step 0xFF00FF00 8 (top_bit_step 0xFFFF0000 16 (bits, 0))))))))"

section \<open>State\<close>

datatype g726_codec = G726_16 | G726_24 | G726_32 | G726_40

text \<open>\<open>codec\<close> stands for the pair of function pointers.\<close>

record g726_state =
  rate :: int
  bits_per_sample :: nat
  yl :: int
  yu :: int
  dms :: int
  dml :: int
  ap :: int
  pa :: "int list"
  pb :: "int list"
  pk :: "int list"
  dq :: "int list"
  sr :: "int list"
  td :: int
  bitstream :: u32
  residue :: nat
  codec :: g726_codec

section \<open>Tables\<close>

definition qtab_726 :: "g726_codec \<Rightarrow> int list" where
  "qtab_726 c = (case c of
     G726_16 \<Rightarrow> [261]
   | G726_24 \<Rightarrow> [8, 218, 331]
   | G726_32 \<Rightarrow> [- 124, 80, 178, 246, 300, 349, 400]
   | G726_40 \<Rightarrow> [- 122, - 16, 68, 139, 198, 250, 298, 339, 378, 413, 445, 475, 502, 528, 553])"

definition g726_dqlntab :: "g726_codec \<Rightarrow> int list" where
  "g726_dqlntab c = (case c of
     G726_16 \<Rightarrow> [116, 365, 365, 116]
   | G726_24 \<Rightarrow> [- 2048, 135, 273, 373, 373, 273, 135, - 2048]
   | G726_32 \<Rightarrow> [- 2048, 4, 135, 213, 273, 323, 373, 425, 425, 373, 323, 273, 213, 135, 4, - 2048]
   | G726_40 \<Rightarrow> [- 2048, - 66, 28, 104, 169, 224, 274, 318, 358, 395, 429, 459, 488, 514, 539, 566,
                  566, 539, 514, 488, 459, 429, 395, 358, 318, 274, 224, 169, 104, 28, - 66, - 2048])"

definition g726_witab :: "g726_codec \<Rightarrow> int list" where
  "g726_witab c = (case c of
     G726_16 \<Rightarrow> [- 704, 14048, 14048, - 704]
   | G726_24 \<Rightarrow> [- 128, 960, 4384, 18624, 18624, 4384, 960, - 128]
   | G726_32 \<Rightarrow> [- 384, 576, 1312, 2048, 3584, 6336, 11360, 35904, 35904, 11360, 6336, 3584, 2048, 1312, 576, - 384]
   | G726_40 \<Rightarrow> [448, 448, 768, 1248, 1280, 1312, 1856, 3200, 4512, 5728, 7008, 8960, 11456, 14080, 16928, 22272,
                  22272, 16928, 14080, 11456, 8960, 7008, 5728, 4512, 3200, 1856, 1312, 1280, 1248, 768, 448, 448])"

definition g726_fitab :: "g726_codec \<Rightarrow> int list" where
  "g726_fitab c = (case c of
     G726_16 \<Rightarrow> [0, 0xE00, 0xE00, 0]
   | G726_24 \<Rightarrow> [0, 0x200, 0x400, 0xE00, 0xE00, 0x400, 0x200, 0]
   | G726_32 \<Rightarrow> [0, 0, 0, 0x200, 0x200, 0x200, 0x600, 0xE00, 0xE00, 0x600, 0x200, 0x200, 0x200, 0, 0, 0]
   | G726_40 \<Rightarrow> [0, 0, 0, 0, 0, 0x200, 0x200, 0x200, 0x200, 0x200, 0x400, 0x600, 0x800, 0xA00, 0xC00, 0xC00,
                  0xC00, 0xC00, 0xA00, 0x800, 0x600, 0x400, 0x200, 0x200, 0x200, 0x200, 0x200, 0, 0, 0, 0, 0])"

section \<open>Quantiser and predictor\<close>

text \<open>The number of table entries not above \<open>dln\<close>, up to the first that is.\<close>

fun quan :: "int \<Rightarrow> int list \<Rightarrow> nat" where
  "quan dln [] = 0"
| "quan dln (t # ts) = (if dln < t then 0 else Suc (quan dln ts))"

definition quantize :: "int \<Rightarrow> int \<Rightarrow> int list \<Rightarrow> nat \<Rightarrow> nat option" where
  "quantize d y table quantizer_states =
     (let dqm = s16 \<bar>d\<bar>;
          ex = s16 (top_bit (word_of_int (shr dqm 1)) + 1) in
      if 32 \<le> ex then None
      else let mant = shr (shl dqm 7) (nat ex) mod 128;
               dl = s16 (shl ex 7 + mant);
               dln = s16 (dl - s16 (shr y 2));
               sz = (quantizer_states - 1) div 2;
               i = quan dln (take sz table) in
        if d < 0 then Some (sz * 2 + 1 - i)
        else if i = 0 \<and> odd quantizer_states then Some quantizer_states
        else Some i)"

definition fmult :: "int \<Rightarrow> int \<Rightarrow> int" where
  "fmult an srn =
     (let anmag = s16 (if 0 < an then an else (- an) mod 8192);
          anexp = s16 (top_bit (word_of_int anmag) - 5);
          anmant = s16 (if anmag = 0 then 32 else if 0 \<le> anexp then shr anmag (nat anexp) else shl anmag (nat (- anexp)));
          wanexp = s16 (anexp + (shr srn 6 mod 16) - 13);
          wanmant = s16 (shr (anmant * (srn mod 64) + 0x30) 4);
          retval = s16 (if 0 \<le> wanexp then shl wanmant (nat wanexp) mod 32768 else shr wanmant (nat (- wanexp))) in
      s16 (if (an < 0) \<noteq> (srn < 0) then - retval else retval))"

definition predictor_zero :: "g726_state \<Rightarrow> int" where
  "predictor_zero s = s16 (sum_list (map (\<lambda>(b, d). fmult (shr b 2) d) (zip (pb s) (dq s))))"

definition predictor_pole :: "g726_state \<Rightarrow> int" where
  "predictor_pole s = s16 (fmult (shr (pa s ! 1) 2) (sr s ! 1) + fmult (shr (pa s ! 0) 2) (sr s ! 0))"

definition step_size :: "g726_state \<Rightarrow> int" where
  "step_size s =
     (if 256 \<le> ap s then yu s
      else let y = shr (yl s) 6; dif = yu s - y; al = shr (ap s) 2 in
        if 0 < dif then y + shr (dif * al) 6
        else if dif < 0 then y + shr (dif * al + 0x3F) 6
        else y)"

definition reconstruct :: "bool \<Rightarrow> int \<Rightarrow> int \<Rightarrow> int option" where
  "reconstruct sign dqln y =
     (let dql = s16 (dqln + shr y 2) in
      if dql < 0 then Some (if sign then - 0x8000 else 0)
      else let dex = shr dql 7 mod 16; dqt = 128 + dql mod 128 in
        if 14 < dex then None
        else let d = s16 (shr (shl dqt 7) (nat (14 - dex))) in
          Some (if sign then s16 (d - 0x8000) else d))"

section \<open>Update of the state\<close>

text \<open>The parts of \<open>update\<close>, in its order.\<close>

definition transition :: "g726_state \<Rightarrow> int \<Rightarrow> bool" where
  "transition s mag =
     (let ylint = s16 (shr (yl s) 15);
          ylfrac = s16 (shr (yl s) 10 mod 32);
          thr = s16 (if 9 < ylint then shl 31 10 else shl (32 + ylfrac) (nat ylint));
          dqthr = s16 (shr (thr + shr thr 1) 1) in
      td s \<noteq> 0 \<and> \<not> mag \<le> dqthr)"

definition limb :: "int \<Rightarrow> int" where
  "limb y = (if y < 544 then 544 else if 5120 < y then 5120 else y)"

definition update_scale :: "int \<Rightarrow> int \<Rightarrow> g726_state \<Rightarrow> g726_state" where
  "update_scale y wi s =
     (let u = limb (s16 (y + shr (wi - y) 5)) in
      s\<lparr>yu := u, yl := yl s + (u + shr (- yl s) 6)\<rparr>)"

text \<open>The new second pole coefficient; \<open>pk0\<close> is the sign of \<open>dqsez\<close>.\<close>

definition update_a2 :: "g726_state \<Rightarrow> int \<Rightarrow> int \<Rightarrow> int" where
  "update_a2 s pk0 dqsez =
     (let pks1 = pk0 \<noteq> pk s ! 0;
          a2p = s16 (pa s ! 1 - shr (pa s ! 1) 7) in
      if dqsez = 0 then a2p
      else let fa1 = s16 (if pks1 then pa s ! 0 else - (pa s ! 0));
               a2p = s16 (if fa1 < - 8191 then a2p - 0x100 else if 8191 < fa1 then a2p + 0xFF else a2p + shr fa1 5) in
        if pk0 \<noteq> pk s ! 1
        then if a2p \<le> - 12160 then - 12288 else if 12416 \<le> a2p then 12288 else s16 (a2p - 0x80)
        else if a2p \<le> - 12416 then - 12288 else if 12160 \<le> a2p then 12288 else s16 (a2p + 0x80))"

definition update_a1 :: "g726_state \<Rightarrow> int \<Rightarrow> int \<Rightarrow> int \<Rightarrow> int" where
  "update_a1 s pk0 dqsez a2p =
     (let pks1 = pk0 \<noteq> pk s ! 0;
          a = s16 (pa s ! 0 - shr (pa s ! 0) 8);
          a = (if dqsez = 0 then a else if pks1 then s16 (a - 192) else s16 (a + 192));
          a1ul = s16 (15360 - a2p) in
      if a < - a1ul then s16 (- a1ul) else if a1ul < a then a1ul else a)"

definition update_b :: "g726_state \<Rightarrow> int \<Rightarrow> int list" where
  "update_b s d =
     map (\<lambda>(b, q). let b' = s16 (b - shr b (if bits_per_sample s = 5 then 9 else 8)) in
            if d mod 32768 = 0 then b' else if (d < 0) = (q < 0) then s16 (b' + 128) else s16 (b' - 128))
       (zip (pb s) (dq s))"

definition update_poles :: "bool \<Rightarrow> int \<Rightarrow> int \<Rightarrow> int \<Rightarrow> g726_state \<Rightarrow> g726_state \<times> int" where
  "update_poles tr pk0 dqsez d s =
     (if tr then (s\<lparr>pa := [0, 0], pb := [0, 0, 0, 0, 0, 0]\<rparr>, 0)
      else let a2p = update_a2 s pk0 dqsez in
        (s\<lparr>pa := [update_a1 s pk0 dqsez a2p, a2p], pb := update_b s d\<rparr>, a2p))"

text \<open>FLOAT A and FLOAT B: four bits of exponent and six of mantissa.\<close>

definition float_a :: "int \<Rightarrow> int \<Rightarrow> int" where
  "float_a d mag =
     (if mag = 0 then s16 (if 0 \<le> d then 0x20 else 0xFC20)
      else let ex = s16 (top_bit (word_of_int mag) + 1) in
        s16 (if 0 \<le> d then shl ex 6 + shr (shl mag 6) (nat ex) else shl ex 6 + shr (shl mag 6) (nat ex) - 0x400))"

definition float_b :: "int \<Rightarrow> int" where
  "float_b r =
     (if r = 0 then 0x20
      else if 0 < r then let ex = s16 (top_bit (word_of_int r) + 1) in s16 (shl ex 6 + shr (shl r 6) (nat ex))
      else if - 32768 < r
      then let mag = s16 (- r); ex = s16 (top_bit (word_of_int mag) + 1) in
        s16 (shl ex 6 + shr (shl mag 6) (nat ex) - 0x400)
      else s16 0xFC20)"

definition update_delay :: "int \<Rightarrow> int \<Rightarrow> int \<Rightarrow> int \<Rightarrow> g726_state \<Rightarrow> g726_state" where
  "update_delay d mag r pk0 s =
     s\<lparr>dq := float_a d mag # butlast (dq s), sr := [float_b r, sr s ! 0], pk := [pk0, pk s ! 0]\<rparr>"

definition update_speed :: "bool \<Rightarrow> int \<Rightarrow> int \<Rightarrow> int \<Rightarrow> g726_state \<Rightarrow> g726_state" where
  "update_speed tr a2p y fi s =
     (let s = s\<lparr>td := (if tr then 0 else if a2p < - 11776 then 1 else 0)\<rparr>;
          s = s\<lparr>dms := s16 (dms s + shr (s16 fi - dms s) 5)\<rparr>;
          s = s\<lparr>dml := s16 (dml s + shr (s16 (shl fi 2) - dml s) 7)\<rparr> in
      if tr then s\<lparr>ap := 256\<rparr>
      else if y < 1536 \<or> td s \<noteq> 0 \<or> shr (dml s) 3 \<le> \<bar>shl (dms s) 2 - dml s\<bar>
      then s\<lparr>ap := s16 (ap s + shr (0x200 - ap s) 4)\<rparr>
      else s\<lparr>ap := s16 (ap s + shr (- ap s) 4)\<rparr>)"

definition update :: "int \<Rightarrow> int \<Rightarrow> int \<Rightarrow> int \<Rightarrow> int \<Rightarrow> int \<Rightarrow> g726_state \<Rightarrow> g726_state" where
  "update y wi fi d r dqsez s =
     (let pk0 = (if dqsez < 0 then 1 else 0);
          mag = s16 (d mod 32768);
          tr = transition s mag;
          s = update_scale y wi s;
          (s, a2p) = update_poles tr pk0 dqsez d s;
          s = update_delay d mag r pk0 s in
      update_speed tr a2p y fi s)"

section \<open>One sample\<close>

text \<open>The bits of a code and the mask of the magnitude, by rate.\<close>

definition code_bits :: "g726_codec \<Rightarrow> nat" where
  "code_bits c = (case c of G726_16 \<Rightarrow> 2 | G726_24 \<Rightarrow> 3 | G726_32 \<Rightarrow> 4 | G726_40 \<Rightarrow> 5)"

definition states_of :: "g726_codec \<Rightarrow> nat" where
  "states_of c = (case c of G726_16 \<Rightarrow> 4 | G726_24 \<Rightarrow> 7 | G726_32 \<Rightarrow> 15 | G726_40 \<Rightarrow> 31)"

definition dq_mask :: "g726_codec \<Rightarrow> int" where
  "dq_mask c = (case c of G726_40 \<Rightarrow> 0x8000 | _ \<Rightarrow> 0x4000)"

text \<open>What encoder and decoder do with a code, up to the update: the reconstructed signal and the
  new state.\<close>

definition apply_code :: "g726_codec \<Rightarrow> g726_state \<Rightarrow> nat \<Rightarrow> (int \<times> g726_state) option" where
  "apply_code c s code = do {
     let sezi = predictor_zero s;
     let se = shr (s16 (sezi + predictor_pole s)) 1;
     let y = step_size s;
     d \<leftarrow> reconstruct (code div 2 ^ (code_bits c - 1) mod 2 = 1) (g726_dqlntab c ! code) y;
     let r = s16 (if d < 0 then se - d mod dq_mask c else se + d);
     let dqsez = s16 (r + shr sezi 1 - se);
     Some (r, update y (g726_witab c ! code) (g726_fitab c ! code) d r dqsez s) }"

definition g726_decoder :: "g726_codec \<Rightarrow> g726_state \<Rightarrow> byte \<Rightarrow> (int \<times> g726_state) option" where
  "g726_decoder c s code = map_option (\<lambda>(r, s). (s16 (shl r 2), s)) (apply_code c s (unat code mod 2 ^ code_bits c))"

definition g726_encoder :: "g726_codec \<Rightarrow> g726_state \<Rightarrow> int \<Rightarrow> (byte \<times> g726_state) option" where
  "g726_encoder c s amp = do {
     let sezi = predictor_zero s;
     let se = shr (s16 (sezi + predictor_pole s)) 1;
     let d = s16 (amp - se);
     i \<leftarrow> quantize d (step_size s) (qtab_726 c) (states_of c);
     (r, s) \<leftarrow> apply_code c s i;
     Some (of_nat i, s) }"

section \<open>Streams\<close>

definition g726_init :: "g726_state \<Rightarrow> int \<Rightarrow> g726_state option" where
  "g726_init s bit_rate =
     (if bit_rate \<noteq> 16000 \<and> bit_rate \<noteq> 24000 \<and> bit_rate \<noteq> 32000 \<and> bit_rate \<noteq> 40000 then None
      else let c = (if bit_rate = 16000 then G726_16 else if bit_rate = 24000 then G726_24
                    else if bit_rate = 40000 then G726_40 else G726_32) in
        Some (s\<lparr>yl := 34816, yu := 544, dms := 0, dml := 0, ap := 0, rate := bit_rate,
                pa := [0, 0], pk := [0, 0], sr := [32, 32], pb := replicate 6 0, dq := replicate 6 32, td := 0,
                codec := c, bits_per_sample := code_bits c, bitstream := 0, residue := 0\<rparr>))"

text \<open>What no sample changes: the rate and the packing.\<close>

definition same_setup :: "g726_state \<Rightarrow> g726_state \<Rightarrow> bool" where
  "same_setup s s' \<longleftrightarrow> rate s' = rate s \<and> bits_per_sample s' = bits_per_sample s \<and> bitstream s' = bitstream s \<and>
     residue s' = residue s \<and> codec s' = codec s"

lemma update_setup: "same_setup s (update y wi fi d r dqsez s)"
  by (simp add: same_setup_def update_def update_scale_def update_poles_def update_delay_def update_speed_def Let_def)

lemma decoder_setup: "g726_decoder c s code = Some (x, s') \<Longrightarrow> same_setup s s'"
  by (auto simp: g726_decoder_def apply_code_def Let_def bind_Some_iff update_setup)

lemma encoder_setup: "g726_encoder c s amp = Some (x, s') \<Longrightarrow> same_setup s s'"
  by (auto simp: g726_encoder_def apply_code_def Let_def bind_Some_iff update_setup)

text \<open>\<open>g726_decode\<close>: the samples and the state; the bytes are a list. Without bits per sample the
  loop does not end.\<close>

definition take_byte :: "g726_state \<Rightarrow> bytes \<Rightarrow> g726_state \<times> bytes" where
  "take_byte s data =
     (if residue s < bits_per_sample s
      then (s\<lparr>bitstream := push_bit 8 (bitstream s) OR ucast (hd data), residue := residue s + 8\<rparr>, tl data)
      else (s, data))"

definition take_code :: "g726_state \<Rightarrow> byte \<times> g726_state" where
  "take_code s =
     (ucast (drop_bit (residue s - bits_per_sample s) (bitstream s)) AND (2 ^ bits_per_sample s - 1),
      s\<lparr>residue := residue s - bits_per_sample s\<rparr>)"

function g726_decode :: "g726_state \<Rightarrow> bytes \<Rightarrow> (int list \<times> g726_state) option" where
  "g726_decode s data =
     (if bits_per_sample s = 0 then None
      else if residue s < bits_per_sample s \<and> data = [] then Some ([], s)
      else if residue (fst (take_byte s data)) < bits_per_sample s then None
      else Option.bind (g726_decoder (codec s) (snd (take_code (fst (take_byte s data)))) (fst (take_code (fst (take_byte s data)))))
        (\<lambda>(sl, s2). map_option (\<lambda>(amp, s3). (sl # amp, s3)) (g726_decode s2 (snd (take_byte s data)))))"
  by pat_completeness auto
termination
proof (relation "measure (\<lambda>(s, data). residue s + 8 * length data)", goal_cases)
  case (2 s data x sl s2)
  have "same_setup (snd (take_code (fst (take_byte s data)))) s2"
    using 2 by (auto dest: decoder_setup)
  with 2 show ?case
    by (cases data) (auto simp: same_setup_def take_code_def take_byte_def split: if_splits)
qed simp

declare g726_decode.simps [simp del]

fun g726_encode :: "g726_state \<Rightarrow> int list \<Rightarrow> (bytes \<times> g726_state) option" where
  "g726_encode s [] = Some ([], s)"
| "g726_encode s (amp # amps) = do {
     (code, s) \<leftarrow> g726_encoder (codec s) s (shr amp 2);
     let bs = push_bit (bits_per_sample s) (bitstream s) OR ucast code;
     let res = residue s + bits_per_sample s;
     if 8 \<le> res
     then do {
       (out, s) \<leftarrow> g726_encode (s\<lparr>bitstream := bs, residue := res - 8\<rparr>) amps;
       Some (ucast (drop_bit (res - 8) bs) # out, s) }
     else g726_encode (s\<lparr>bitstream := bs, residue := res\<rparr>) amps }"

section \<open>The highest bit\<close>

lemma s16_id: "- 32768 \<le> x \<Longrightarrow> x < 32768 \<Longrightarrow> s16 x = x"
  by (simp add: s16_def)

lemma s16_range: "- 32768 \<le> s16 x" "s16 x < 32768"
  by (simp_all add: s16_def)

text \<open>All set bits of \<open>x\<close> are in the block of \<open>2 * w\<close> bits with its highest, \<open>h\<close>.\<close>

definition top_block :: "u32 \<Rightarrow> nat \<Rightarrow> nat \<Rightarrow> bool" where
  "top_block x h w \<longleftrightarrow> bit x h \<and> (\<forall>n. bit x n \<longrightarrow> n \<le> h \<and> n div w = h div w)"

lemma top_bit_step_block:
  assumes t0: "top_block (fst p) h (2 * w)"
    and m: "\<And>n. n < 32 \<Longrightarrow> bit m n \<longleftrightarrow> odd (n div w)" and h: "h < 32"
  shows "top_block (fst (top_bit_step m w p)) h w \<and> snd (top_bit_step m w p) = snd p + w * (h div w mod 2)"
proof -
  obtain x r where p: "p = (x, r)" by (cases p)
  then have t: "top_block x h (2 * w)" using t0 by simp
  have d: "n div w div 2 = n div (2 * w)" for n by (simp only: mult.commute [of 2 w] div_mult2_eq)
  have half: "odd (n div w) \<Longrightarrow> n div w = 2 * (n div (2 * w)) + 1" "even (n div w) \<Longrightarrow> n div w = 2 * (n div (2 * w))" for n
  proof -
    have "odd k \<Longrightarrow> k = 2 * (k div 2) + 1" "even k \<Longrightarrow> k = 2 * (k div 2)" for k :: nat
      using odd_two_times_div_two_succ [of k] dvd_mult_div_cancel [of 2 k] by metis+
    from this [of "n div w"] show "odd (n div w) \<Longrightarrow> n div w = 2 * (n div (2 * w)) + 1"
      "even (n div w) \<Longrightarrow> n div w = 2 * (n div (2 * w))" unfolding d by blast+
  qed
  define B where "B n = n div (2 * w)" for n
  define D where "D n = n div w" for n
  note half = half [folded B_def D_def] and m = m [folded D_def]
  have bx: "bit x h" "\<And>n. bit x n \<Longrightarrow> n \<le> h \<and> B n = B h"
    using t unfolding top_block_def B_def by blast+
  have le: "D n \<le> D h" if "n \<le> h" for n using that unfolding D_def by (rule div_le_mono)
  have "top_block' (fst (top_bit_step m w p)) \<and> snd (top_bit_step m w p) = snd p + w * (D h mod 2)"
    if tb: "\<And>x. top_block' x \<longleftrightarrow> bit x h \<and> (\<forall>n. bit x n \<longrightarrow> n \<le> h \<and> D n = D h)" for top_block'
  proof (cases "odd (D h)")
    case True
    then have b: "bit (x AND m) h" using bx(1) m [OF h] by (simp add: bit_and_iff)
    then have nz: "x AND m \<noteq> 0" by (metis bit_0_eq bot_apply bot_bool_def)
    have "n \<le> h \<and> D n = D h" if "bit (x AND m) n" for n
    proof -
      have n: "bit x n" "bit m n" using that by (simp_all add: bit_and_iff)
      then have "n < 32" using bx(2) h by (meson le_less_trans)
      then have "odd (D n)" using m n(2) by simp
      then have "D n = 2 * B n + 1" by (rule half(1))
      also have "B n = B h" using bx(2) [OF n(1)] by simp
      also have "2 * B h + 1 = D h" by (rule half(1) [OF True, symmetric])
      finally have "D n = D h" .
      then show ?thesis using bx(2) [OF n(1)] by simp
    qed
    then have "top_block' (x AND m)" unfolding tb using b by blast
    moreover have "D h mod 2 = 1" using True by presburger
    moreover have "top_bit_step m w p = (x AND m, r + w)" using nz p by (simp add: top_bit_step_def)
    ultimately show ?thesis using p by simp
  next
    case False
    then have hw: "D h = 2 * B h" by (intro half(2)) simp
    have n: "\<not> odd (D n) \<and> D n = D h" if "bit x n" for n
    proof -
      have e: "n \<le> h" "B n = B h" using bx(2) [OF that] by simp_all
      then have "\<not> odd (D n)" using half(1) [of n] le [OF e(1)] hw by auto
      then show ?thesis using half(2) [of n] e(2) hw by simp
    qed
    have "x AND m = 0"
    proof (rule bit_word_eqI)
      fix n :: nat assume "n < LENGTH(32)"
      then show "bit (x AND m) n = bit 0 n" using n m False by (simp add: bit_and_iff)
    qed
    then have "top_bit_step m w p = (x, r)" using p by (simp add: top_bit_step_def)
    moreover have "top_block' x" unfolding tb using n bx by blast
    moreover have "D h mod 2 = 0" using False by presburger
    ultimately show ?thesis using p by simp
  qed
  from this [of "\<lambda>x. top_block x h w"] show ?thesis unfolding top_block_def D_def by blast
qed

lemma top_masks:
  "list_all (\<lambda>n. (bit (0xFFFF0000 :: u32) n \<longleftrightarrow> odd (n div 16)) \<and> (bit (0xFF00FF00 :: u32) n \<longleftrightarrow> odd (n div 8)) \<and>
     (bit (0xF0F0F0F0 :: u32) n \<longleftrightarrow> odd (n div 4)) \<and> (bit (0xCCCCCCCC :: u32) n \<longleftrightarrow> odd (n div 2)) \<and>
     (bit (0xAAAAAAAA :: u32) n \<longleftrightarrow> odd (n div 1))) [0..<32]"
  by code_simp

lemma top_bit_spec:
  assumes "x \<noteq> 0"
  shows "0 \<le> top_bit x \<and> 2 ^ nat (top_bit x) \<le> unat x \<and> unat x < 2 ^ (nat (top_bit x) + 1)"
proof -
  obtain h where h: "bit x h" "\<And>n. bit x n \<Longrightarrow> n \<le> h" "h < 32"
  proof -
    let ?S = "{n. bit x n}"
    have f: "finite ?S" by (rule finite_subset [of _ "{..<32}"]) (auto dest: bit_imp_le_length)
    have "?S \<noteq> {}" using assms by (auto simp: bit_eq_iff)
    then show ?thesis using that [of "Max ?S"] Max_in [OF f] Max_ge [OF f] bit_imp_le_length [of x "Max ?S"] by auto
  qed
  have h32: "top_block x h 32"
  proof -
    have "n div 32 = h div 32" if "bit x n" for n using h(2) [OF that] h(3) by simp
    then show ?thesis using h by (simp add: top_block_def)
  qed
  note m = top_masks [unfolded list_all_iff, rule_format]
  define s1 where "s1 = top_bit_step 0xFFFF0000 16 (x, 0)"
  define s2 where "s2 = top_bit_step 0xFF00FF00 8 s1"
  define s3 where "s3 = top_bit_step 0xF0F0F0F0 4 s2"
  define s4 where "s4 = top_bit_step 0xCCCCCCCC 2 s3"
  define s5 where "s5 = top_bit_step 0xAAAAAAAA 1 s4"
  have 1: "top_block (fst s1) h 16 \<and> snd s1 = 0 + 16 * (h div 16 mod 2)"
    using top_bit_step_block [of "(x, 0)" h 16 "0xFFFF0000"] h32 h(3) m unfolding s1_def by simp
  have 2: "top_block (fst s2) h 8 \<and> snd s2 = snd s1 + 8 * (h div 8 mod 2)"
    unfolding s2_def by (rule top_bit_step_block) (use 1 h(3) m in simp_all)
  have 3: "top_block (fst s3) h 4 \<and> snd s3 = snd s2 + 4 * (h div 4 mod 2)"
    unfolding s3_def by (rule top_bit_step_block) (use 2 h(3) m in simp_all)
  have 4: "top_block (fst s4) h 2 \<and> snd s4 = snd s3 + 2 * (h div 2 mod 2)"
    unfolding s4_def by (rule top_bit_step_block) (use 3 h(3) m in simp_all)
  have 5: "top_block (fst s5) h 1 \<and> snd s5 = snd s4 + 1 * (h div 1 mod 2)"
    unfolding s5_def by (rule top_bit_step_block) (use 4 h(3) m in simp_all)
  have "list_all (\<lambda>h. 16 * (h div 16 mod 2) + 8 * (h div 8 mod 2) + 4 * (h div 4 mod 2) + 2 * (h div 2 mod 2) + h mod 2 = h) [0..<32]"
    by code_simp
  then have "snd s5 = h" using 1 2 3 4 5 h(3) by (simp add: list_all_iff)
  then have t: "top_bit x = int h"
    using assms by (simp add: top_bit_def s5_def s4_def s3_def s2_def s1_def)
  have "2 ^ h \<le> unat x"
  proof -
    have "bit (unat x) h" using h(1) by (simp add: bit_unsigned_iff)
    then have "odd (unat x div 2 ^ h)" unfolding bit_iff_odd .
    then have "unat x div 2 ^ h \<noteq> 0" by (metis even_zero)
    then show ?thesis by (metis div_less not_less)
  qed
  moreover have "unat x < 2 ^ (h + 1)"
  proof -
    have "take_bit (h + 1) x = x" by (rule bit_word_eqI) (use h(2) in \<open>auto simp: bit_take_bit_iff less_Suc_eq_le\<close>)
    then have "unat x = unat x mod 2 ^ (h + 1)" by (metis unsigned_take_bit_eq take_bit_eq_mod)
    then show ?thesis by (metis mod_less_divisor zero_less_numeral zero_less_power)
  qed
  ultimately show ?thesis by (simp add: t)
qed

text \<open>\<open>top_bit\<close> is the logarithm to base 2, rounded down, of every nonzero 32-bit value.\<close>

theorem top_bit_log:
  assumes "x \<noteq> 0"
  shows "0 \<le> top_bit x \<and> 2 ^ nat (top_bit x) \<le> unat x \<and> unat x < 2 ^ (nat (top_bit x) + 1)"
  by (rule top_bit_spec [OF assms])

theorem top_bit_log_witness: "top_bit 0x12345 = 16"
proof -
  have n: "unat (0x12345 :: u32) = 74565" by simp
  have t: "0 \<le> top_bit 0x12345 \<and> 2 ^ nat (top_bit 0x12345) \<le> (74565 :: nat) \<and> (74565 :: nat) < 2 ^ (nat (top_bit 0x12345) + 1)"
    using top_bit_log [of "0x12345"] unfolding n by simp
  then have "\<not> nat (top_bit 0x12345) < 16" "\<not> 17 \<le> nat (top_bit 0x12345)"
    using power_increasing [of "nat (top_bit 0x12345) + 1" 16 "2 :: nat"] power_increasing [of 17 "nat (top_bit 0x12345)" "2 :: nat"]
    by auto
  then show ?thesis using t by linarith
qed

section \<open>Bounds of the state\<close>

text \<open>The ranges of G.726: scale factors, adaptation speed and pole coefficients, with the margin
  that keeps the predictor stable.\<close>

definition g726_inv :: "g726_state \<Rightarrow> bool" where
  "g726_inv s \<longleftrightarrow> 544 \<le> yu s \<and> yu s \<le> 5120 \<and> 34816 \<le> yl s \<and> yl s \<le> 327680 \<and> 0 \<le> ap s \<and> ap s \<le> 512 \<and>
     length (pa s) = 2 \<and> \<bar>pa s ! 1\<bar> \<le> 12288 \<and> \<bar>pa s ! 0\<bar> \<le> 15360 - pa s ! 1 \<and>
     length (pb s) = 6 \<and> length (dq s) = 6 \<and> td s \<in> {0, 1}"

lemma shr_bounds: "x - (2 ^ k - 1) \<le> 2 ^ k * shr x k \<and> 2 ^ k * shr x k \<le> x"
proof -
  have "x = 2 ^ k * shr x k + x mod 2 ^ k" by (simp add: shr_def)
  moreover have "0 \<le> x mod 2 ^ k" "x mod 2 ^ k < 2 ^ k" by simp_all
  ultimately show ?thesis by linarith
qed

lemma shr6_bounds:
  "0 \<le> x \<Longrightarrow> x \<le> d * 63 \<Longrightarrow> 0 \<le> shr x 6 \<and> shr x 6 \<le> d"
  "x \<le> 0 \<Longrightarrow> d * 63 \<le> x \<Longrightarrow> shr (x + 0x3F) 6 \<le> 0 \<and> d \<le> shr (x + 0x3F) 6"
  using shr_bounds [where k = 6 and x = x] shr_bounds [where k = 6 and x = "x + 0x3F"] by auto

lemma step_size_range:
  assumes "g726_inv s"
  shows "544 \<le> step_size s" and "step_size s \<le> 5120"
proof -
  let ?y = "shr (yl s) 6" and ?al = "shr (ap s) 2"
  let ?dif = "yu s - ?y"
  have u: "544 \<le> yu s" "yu s \<le> 5120" and l: "34816 \<le> yl s" "yl s \<le> 327680" and a: "0 \<le> ap s" "ap s \<le> 512"
    using assms by (auto simp: g726_inv_def)
  have y: "544 \<le> ?y" "?y \<le> 5120" using l shr_bounds [where k = 6 and x = "yl s"] by auto
  have "544 \<le> step_size s \<and> step_size s \<le> 5120"
  proof (cases "256 \<le> ap s")
    case False
    then have al: "0 \<le> ?al" "?al \<le> 63" using a shr_bounds [where k = 2 and x = "ap s"] by auto
    consider "0 < ?dif" | "?dif < 0" | "?dif = 0" by linarith
    then show ?thesis
    proof cases
      case 1
      have "0 \<le> ?dif * ?al" by (rule mult_nonneg_nonneg) (use 1 al in simp_all)
      moreover have "?dif * ?al \<le> ?dif * 63" by (rule mult_left_mono) (use 1 al in simp_all)
      ultimately have b: "0 \<le> shr (?dif * ?al) 6 \<and> shr (?dif * ?al) 6 \<le> ?dif" by (rule shr6_bounds(1))
      then show ?thesis
        using 1 False u y b by (simp add: step_size_def Let_def)
    next
      case 2
      have "?dif * 63 \<le> ?dif * ?al" by (rule mult_left_mono_neg) (use 2 al in simp_all)
      moreover have "?dif * ?al \<le> 0" by (rule mult_nonpos_nonneg) (use 2 al in simp_all)
      ultimately have b: "shr (?dif * ?al + 0x3F) 6 \<le> 0 \<and> ?dif \<le> shr (?dif * ?al + 0x3F) 6" by (intro shr6_bounds(2))
      then show ?thesis
        using 2 False u y b by (simp add: step_size_def Let_def)
    next
      case 3
      then show ?thesis using False y by (simp add: step_size_def Let_def)
    qed
  qed (use u in \<open>simp add: step_size_def\<close>)
  then show "544 \<le> step_size s" "step_size s \<le> 5120" by auto
qed

lemma update_scale_inv:
  assumes "34816 \<le> yl s" "yl s \<le> 327680"
  shows "544 \<le> yu (update_scale y wi s) \<and> yu (update_scale y wi s) \<le> 5120 \<and>
    34816 \<le> yl (update_scale y wi s) \<and> yl (update_scale y wi s) \<le> 327680"
proof -
  have u: "544 \<le> limb x" "limb x \<le> 5120" for x by (auto simp: limb_def)
  show ?thesis using assms u [of "s16 (y + shr (wi - y) 5)"] shr_bounds [where k = 6 and x = "- yl s"]
    by (simp add: update_scale_def Let_def)
qed

lemma update_a2_range:
  assumes "\<bar>pa s ! 1\<bar> \<le> 12288"
  shows "\<bar>update_a2 s pk0 dqsez\<bar> \<le> 12288"
proof -
  let ?x = "s16 (pa s ! 1 - shr (pa s ! 1) 7)"
  have x: "\<bar>?x\<bar> \<le> 12288"
    using assms shr_bounds [where k = 7 and x = "pa s ! 1"] by (subst s16_id) (auto simp: abs_le_iff)
  have c: "s16 (k - 0x80) = k - 0x80" "s16 (k + 0x80) = k + 0x80" if "- 12416 < k" "k < 12416" for k
    using that by (auto intro!: s16_id)
  have c1: "\<bar>if z \<le> - 12160 then - 12288 else if 12416 \<le> z then 12288 else s16 (z - 0x80)\<bar> \<le> 12288"
    and c2: "\<bar>if z \<le> - 12416 then - 12288 else if 12160 \<le> z then 12288 else s16 (z + 0x80)\<bar> \<le> 12288" for z
    using c [of z] by auto
  show ?thesis
    unfolding update_a2_def Let_def
    by (cases "dqsez = 0"; cases "pk0 \<noteq> pk s ! 1") (simp_all only: if_True if_False simp_thms x c1 c2)
qed

lemma update_a1_range:
  assumes "\<bar>a2p\<bar> \<le> 12288"
  shows "\<bar>update_a1 s pk0 dqsez a2p\<bar> \<le> 15360 - a2p"
proof -
  have "s16 (15360 - a2p) = 15360 - a2p" "s16 (- (15360 - a2p)) = - (15360 - a2p)"
    using assms by (auto intro!: s16_id simp: abs_le_iff)
  then show ?thesis using assms by (simp add: update_a1_def Let_def abs_le_iff)
qed

lemma update_speed_ap:
  assumes "0 \<le> ap s" "ap s \<le> 512"
  shows "0 \<le> ap (update_speed tr a2p y fi s) \<and> ap (update_speed tr a2p y fi s) \<le> 512"
proof -
  have "s16 (ap s + shr (0x200 - ap s) 4) = ap s + shr (0x200 - ap s) 4" "s16 (ap s + shr (- ap s) 4) = ap s + shr (- ap s) 4"
    using assms shr_bounds [where k = 4 and x = "0x200 - ap s"] shr_bounds [where k = 4 and x = "- ap s"] by (auto intro!: s16_id)
  then show ?thesis
    using assms shr_bounds [where k = 4 and x = "0x200 - ap s"] shr_bounds [where k = 4 and x = "- ap s"] by (auto simp: update_speed_def Let_def)
qed

lemma update_inv:
  assumes "g726_inv s"
  shows "g726_inv (update y wi fi d r dqsez s)"
proof -
  define pk0 where "pk0 = (if dqsez < 0 then 1 else 0 :: int)"
  define mag where "mag = s16 (d mod 32768)"
  define tr where "tr = transition s mag"
  define s1 where "s1 = update_scale y wi s"
  define q where "q = update_poles tr pk0 dqsez d s1"
  define s3 where "s3 = update_delay d mag r pk0 (fst q)"
  have s1: "544 \<le> yu s1 \<and> yu s1 \<le> 5120 \<and> 34816 \<le> yl s1 \<and> yl s1 \<le> 327680" "ap s1 = ap s" "pa s1 = pa s"
    "pb s1 = pb s" "dq s1 = dq s"
    using update_scale_inv [of s y wi] assms by (auto simp: s1_def g726_inv_def update_scale_def Let_def)
  have p: "length (pa (fst q)) = 2 \<and> \<bar>pa (fst q) ! 1\<bar> \<le> 12288 \<and> \<bar>pa (fst q) ! 0\<bar> \<le> 15360 - pa (fst q) ! 1 \<and>
      length (pb (fst q)) = 6 \<and> length (dq (fst q)) = 6"
    "yu (fst q) = yu s1" "yl (fst q) = yl s1" "ap (fst q) = ap s1"
    using update_a2_range [of s1 pk0 dqsez] update_a1_range [OF update_a2_range [of s1 pk0 dqsez]] s1 assms
    by (auto simp: q_def update_poles_def update_b_def Let_def g726_inv_def)
  have s3: "yu s3 = yu s1" "yl s3 = yl s1" "ap s3 = ap s" "pa s3 = pa (fst q)" "pb s3 = pb (fst q)" "length (dq s3) = 6"
    using p s1 by (auto simp: s3_def update_delay_def)
  have u: "update y wi fi d r dqsez s = update_speed tr (snd q) y fi s3"
    by (simp add: update_def Let_def pk0_def mag_def tr_def s1_def q_def s3_def split: prod.splits)
  let ?s = "update_speed tr (snd q) y fi s3"
  have f: "yu ?s = yu s3" "yl ?s = yl s3" "pa ?s = pa s3" "pb ?s = pb s3" "dq ?s = dq s3" "td ?s \<in> {0, 1}"
    by (auto simp: update_speed_def Let_def)
  show ?thesis
    unfolding u g726_inv_def f(1-5)
    using f(6) s3 s1(1) p(1) update_speed_ap [of s3 tr "snd q" y fi] assms by (simp add: g726_inv_def)
qed

section \<open>No undefined shift\<close>

lemma dqln_range: "i < 2 ^ code_bits c \<Longrightarrow> - 2048 \<le> g726_dqlntab c ! i \<and> g726_dqlntab c ! i \<le> 566"
proof -
  have l: "length (g726_dqlntab c) = 2 ^ code_bits c" by (cases c) (simp_all add: g726_dqlntab_def code_bits_def)
  have "list_all (\<lambda>x. - 2048 \<le> x \<and> x \<le> 566) (g726_dqlntab c)" by (cases c) (simp_all add: g726_dqlntab_def)
  then show "i < 2 ^ code_bits c \<Longrightarrow> - 2048 \<le> g726_dqlntab c ! i \<and> g726_dqlntab c ! i \<le> 566"
    unfolding list_all_length l by blast
qed

lemma reconstruct_defined:
  assumes "544 \<le> y" "y \<le> 5120" "- 2048 \<le> dqln" "dqln \<le> 566"
  shows "reconstruct sign dqln y \<noteq> None"
proof -
  have "shr y 2 \<le> 1280" "136 \<le> shr y 2" using assms shr_bounds [where k = 2 and x = y] by auto
  then have "s16 (dqln + shr y 2) \<le> 1846" using assms by (subst s16_id) auto
  then have "shr (s16 (dqln + shr y 2)) 7 \<le> 14" "0 \<le> s16 (dqln + shr y 2) \<Longrightarrow> 0 \<le> shr (s16 (dqln + shr y 2)) 7"
    using shr_bounds [where k = 7 and x = "s16 (dqln + shr y 2)"] by auto
  then show ?thesis by (auto simp: reconstruct_def Let_def)
qed

lemma apply_code_inv:
  assumes "g726_inv s" and "i < 2 ^ code_bits c"
  shows "\<exists>r s'. apply_code c s i = Some (r, s') \<and> g726_inv s'"
proof -
  obtain d where "reconstruct (i div 2 ^ (code_bits c - 1) mod 2 = 1) (g726_dqlntab c ! i) (step_size s) = Some d"
    using reconstruct_defined [OF step_size_range [OF assms(1)]] dqln_range [OF assms(2)] by blast
  then show ?thesis using update_inv [OF assms(1)] by (simp add: apply_code_def Let_def)
qed

lemma quan_le: "quan x t \<le> length t"
  by (induction t) auto

lemma quantize_range:
  "quantize d y (qtab_726 c) (states_of c) = Some i \<Longrightarrow> i < 2 ^ code_bits c"
  using quan_le [of _ "take ((states_of c - 1) div 2) (qtab_726 c)"]
  by (cases c) (auto simp: quantize_def Let_def states_of_def qtab_726_def code_bits_def split: if_splits)

lemma top_bit_less:
  assumes "unat x < 2 ^ k" and "0 < k"
  shows "top_bit x < int k" and "- 1 \<le> top_bit x"
proof -
  have "top_bit x < int k \<and> - 1 \<le> top_bit x"
  proof (cases "x = 0")
    case False
    have "(2 :: nat) ^ nat (top_bit x) < 2 ^ k" using top_bit_spec [OF False] assms(1) by linarith
    then have "nat (top_bit x) < k" by (rule power_less_imp_less_exp [rotated]) simp
    then show ?thesis using top_bit_spec [OF False] by linarith
  qed (use assms in \<open>simp add: top_bit_def\<close>)
  then show "top_bit x < int k" "- 1 \<le> top_bit x" by auto
qed

lemma quantize_defined:
  assumes "\<bar>d\<bar> \<le> 32767"
  shows "quantize d y t n \<noteq> None"
proof -
  let ?x = "shr (s16 \<bar>d\<bar>) 1"
  have "s16 \<bar>d\<bar> = \<bar>d\<bar>" using assms by (intro s16_id) auto
  then have x: "0 \<le> ?x" "?x < 16384" using assms shr_bounds [where k = 1 and x = "\<bar>d\<bar>"] by auto
  then have "unat (word_of_int ?x :: u32) < 2 ^ 14"
    by (simp add: unat_eq_nat_uint uint_word_of_int nat_less_iff)
  then have "top_bit (word_of_int ?x) < 14" "- 1 \<le> top_bit (word_of_int ?x)" using top_bit_less by fastforce+
  then have "s16 (top_bit (word_of_int ?x) + 1) < 32" by (subst s16_id) auto
  then show ?thesis by (auto simp: quantize_def Let_def)
qed

lemma encoder_defined:
  assumes "g726_inv s" and "- 8192 \<le> amp" "amp < 8192"
  shows "\<exists>code s'. g726_encoder c s amp = Some (code, s') \<and> g726_inv s'"
proof -
  let ?se = "shr (s16 (predictor_zero s + predictor_pole s)) 1"
  have "- 16384 \<le> ?se" "?se < 16384"
    using s16_range [of "predictor_zero s + predictor_pole s"]
      shr_bounds [where k = 1 and x = "s16 (predictor_zero s + predictor_pole s)"] by auto
  then have "\<bar>s16 (amp - ?se)\<bar> \<le> 32767" using assms(2,3) by (subst s16_id) auto
  then obtain i where i: "quantize (s16 (amp - ?se)) (step_size s) (qtab_726 c) (states_of c) = Some i"
    using quantize_defined by blast
  obtain r s' where "apply_code c s i = Some (r, s')" "g726_inv s'"
    using apply_code_inv [OF assms(1) quantize_range [OF i]] by blast
  then show ?thesis using i by (simp add: g726_encoder_def Let_def)
qed

lemma decoder_defined:
  assumes "g726_inv s"
  shows "\<exists>x s'. g726_decoder c s code = Some (x, s') \<and> g726_inv s'"
  using apply_code_inv [OF assms, of "unat code mod 2 ^ code_bits c" c] by (auto simp: g726_decoder_def)

text \<open>A state between two samples: the packing holds less than a byte.\<close>

definition g726_ok :: "g726_state \<Rightarrow> bool" where
  "g726_ok s \<longleftrightarrow> g726_inv s \<and> bits_per_sample s = code_bits (codec s) \<and> residue s < 8"

lemma code_bits_range: "2 \<le> code_bits c" "code_bits c \<le> 5"
  by (cases c; simp add: code_bits_def)+

lemma inv_packing: "g726_inv (s\<lparr>bitstream := b, residue := r\<rparr>) = g726_inv s"
  "g726_inv (s\<lparr>residue := r\<rparr>) = g726_inv s" "g726_inv (s\<lparr>bitstream := b\<rparr>) = g726_inv s"
  by (simp_all add: g726_inv_def)

lemma encode_ok:
  "g726_ok s \<Longrightarrow> \<forall>a \<in> set amps. - 32768 \<le> a \<and> a < 32768 \<Longrightarrow>
   \<exists>out s'. g726_encode s amps = Some (out, s') \<and> g726_ok s' \<and> same_setup s (s'\<lparr>bitstream := bitstream s, residue := residue s\<rparr>)"
proof (induction amps arbitrary: s)
  case Nil
  then show ?case by (simp add: same_setup_def)
next
  case (Cons a amps)
  have a: "- 8192 \<le> shr a 2" "shr a 2 < 8192" using Cons.prems(2) shr_bounds [where k = 2 and x = a] by auto
  obtain code s1 where e: "g726_encoder (codec s) s (shr a 2) = Some (code, s1)" "g726_inv s1"
    using encoder_defined [OF _ a, of s "codec s"] Cons.prems(1) by (auto simp: g726_ok_def)
  have u: "same_setup s s1" by (rule encoder_setup [OF e(1)])
  let ?bs = "push_bit (bits_per_sample s1) (bitstream s1) OR ucast code" and ?res = "residue s1 + bits_per_sample s1"
  let ?s2 = "s1\<lparr>bitstream := ?bs, residue := if 8 \<le> ?res then ?res - 8 else ?res\<rparr>"
  have "g726_ok ?s2"
    using Cons.prems(1) e(2) u code_bits_range(2) [of "codec s"] by (auto simp: g726_ok_def inv_packing same_setup_def)
  from Cons.IH [OF this] Cons.prems(2) obtain out s' where
    "g726_encode ?s2 amps = Some (out, s')" "g726_ok s'" "same_setup ?s2 (s'\<lparr>bitstream := bitstream ?s2, residue := residue ?s2\<rparr>)"
    by auto
  then show ?case using e(1) u by (auto simp: Let_def same_setup_def)
qed

lemma decode_ok:
  "g726_ok s \<Longrightarrow> \<exists>out s'. g726_decode s data = Some (out, s') \<and> g726_ok s'"
proof (induction s data rule: g726_decode.induct)
  case (1 s data)
  have b: "bits_per_sample s \<noteq> 0" using 1(2) code_bits_range(1) [of "codec s"] by (auto simp: g726_ok_def)
  show ?case
  proof (cases "residue s < bits_per_sample s \<and> data = []")
    case True
    then show ?thesis using 1(2) b by (subst g726_decode.simps) simp
  next
    case False
    let ?t = "fst (take_byte s data)"
    let ?u = "snd (take_code ?t)"
    have r: "\<not> residue ?t < bits_per_sample ?t" "residue ?t < 8 + bits_per_sample s" "bits_per_sample ?t = bits_per_sample s"
      "codec ?t = codec s" "g726_inv ?t"
      using 1(2) False code_bits_range [of "codec s"] by (auto simp: take_byte_def g726_ok_def inv_packing)
    have "g726_inv ?u" using r(5) by (simp add: take_code_def inv_packing)
    then obtain x s2 where d: "g726_decoder (codec s) ?u (fst (take_code ?t)) = Some (x, s2)" "g726_inv s2"
      using decoder_defined by blast
    have "g726_ok s2"
      using d(2) decoder_setup [OF d(1)] r 1(2) by (auto simp: g726_ok_def same_setup_def take_code_def)
    then obtain out s' where "g726_decode s2 (snd (take_byte s data)) = Some (out, s')" "g726_ok s'"
      using 1(1) [OF b False _ d(1) refl] r(1,3) by auto
    then show ?thesis using b False r(1,3) d(1) 1(2) by (subst g726_decode.simps) simp
  qed
qed

lemma init_ok: "g726_init s0 r = Some s \<Longrightarrow> g726_ok s \<and> residue s = 0 \<and> bitstream s = 0"
  by (auto simp: g726_init_def g726_ok_def g726_inv_def Let_def split: if_splits)



section \<open>Encoder and decoder in step\<close>

text \<open>The state without the packing.\<close>

definition bare :: "g726_state \<Rightarrow> g726_state" where
  "bare s = s\<lparr>bitstream := 0, residue := 0\<rparr>"

lemma bare_fields:
  "pa (bare s) = pa s" "pb (bare s) = pb s" "pk (bare s) = pk s" "dq (bare s) = dq s" "sr (bare s) = sr s"
  "yl (bare s) = yl s" "yu (bare s) = yu s" "ap (bare s) = ap s" "td (bare s) = td s"
  "bits_per_sample (bare s) = bits_per_sample s" "codec (bare s) = codec s"
  by (simp_all add: bare_def)

lemma bare_parts:
  "transition (bare s) mag = transition s mag"
  "update_a2 (bare s) pk0 z = update_a2 s pk0 z" "update_a1 (bare s) pk0 z a2 = update_a1 s pk0 z a2"
  "update_b (bare s) d = update_b s d"
  "predictor_zero (bare s) = predictor_zero s" "predictor_pole (bare s) = predictor_pole s" "step_size (bare s) = step_size s"
  by (simp_all only: bare_fields transition_def update_a2_def update_a1_def update_b_def predictor_zero_def
      predictor_pole_def step_size_def)

lemma bare_updates:
  "bare (update_scale y wi s) = update_scale y wi (bare s)"
  "update_poles tr pk0 z d (bare s) = (bare (fst (update_poles tr pk0 z d s)), snd (update_poles tr pk0 z d s))"
  "bare (update_delay d mag r pk0 s) = update_delay d mag r pk0 (bare s)"
  "bare (update_speed tr a2 y fi s) = update_speed tr a2 y fi (bare s)"
  unfolding update_poles_def bare_parts by (simp_all add: bare_def update_scale_def update_delay_def update_speed_def Let_def)

lemma update_bare: "bare (update y wi fi d r z s) = update y wi fi d r z (bare s)"
  unfolding update_def Let_def bare_parts bare_updates(1) [symmetric] bare_updates(2)
  by (simp add: split_def bare_updates(3,4))

lemma apply_code_bare: "apply_code c (bare s) i = map_option (\<lambda>(r, s). (r, bare s)) (apply_code c s i)"
  unfolding apply_code_def Let_def bare_parts
  by (cases "reconstruct (i div 2 ^ (code_bits c - 1) mod 2 = 1) (g726_dqlntab c ! i) (step_size s)") (simp_all add: update_bare)

lemma encoder_bare: "g726_encoder c (bare s) a = map_option (\<lambda>(x, s). (x, bare s)) (g726_encoder c s a)"
  unfolding g726_encoder_def Let_def bare_parts apply_code_bare
  by (auto simp: map_option_bind bind_map_option o_def split_def intro!: bind_option_cong)

lemma decoder_bare: "g726_decoder c (bare s) k = map_option (\<lambda>(x, s). (x, bare s)) (g726_decoder c s k)"
  by (simp add: g726_decoder_def apply_code_bare option.map_comp o_def split_def)

text \<open>One sample: the decoder given the code of the encoder goes to the same state.\<close>

lemma decoder_follows:
  assumes "g726_encoder c s amp = Some (code, s')"
  shows "\<exists>x. g726_decoder c s code = Some (x, s')" and "unat code < 2 ^ code_bits c"
proof -
  obtain i r where i: "quantize (s16 (amp - shr (s16 (predictor_zero s + predictor_pole s)) 1)) (step_size s) (qtab_726 c) (states_of c) = Some i"
    "apply_code c s i = Some (r, s')" "code = of_nat i"
    using assms by (auto simp: g726_encoder_def Let_def bind_Some_iff)
  have lt: "i < 2 ^ code_bits c" using quantize_range [OF i(1)] .
  have "(2 :: nat) ^ code_bits c \<le> 2 ^ 5" using code_bits_range(2) by (intro power_increasing) simp_all
  then have u: "unat code = i" using lt i(3) by (simp add: unat_of_nat)
  then show "\<exists>x. g726_decoder c s code = Some (x, s')" "unat code < 2 ^ code_bits c"
    using i(2) lt by (simp_all add: g726_decoder_def)
qed

section \<open>The packing as a sequence of bits\<close>

text \<open>The low \<open>n\<close> bits, highest first.\<close>

definition low_bits :: "nat \<Rightarrow> 'a::len word \<Rightarrow> bool list" where
  "low_bits n w = map (bit w) (rev [0..<n])"

lemma length_low_bits [simp]: "length (low_bits n w) = n"
  by (simp add: low_bits_def)

lemma low_bits_add: "low_bits (m + n) w = map (\<lambda>i. bit w (n + i)) (rev [0..<m]) @ low_bits n w"
proof -
  have "[0..<m + n] = [0..<n] @ map (\<lambda>i. n + i) [0..<m]"
    using upt_add_eq_append [of 0 n m] map_add_upt [of n m] by (simp add: add.commute)
  then show ?thesis by (simp add: low_bits_def rev_map o_def)
qed

lemma low_bits_push:
  fixes w :: "'a::len word"
  assumes "m + n \<le> LENGTH('a)" and "\<And>i. bit v i \<Longrightarrow> i < n"
  shows "low_bits (m + n) (push_bit n w OR v) = low_bits m w @ low_bits n v"
proof -
  have "bit (push_bit n w OR v) (n + i) = bit w i" if "i < m" for i
    using assms(2) [of "n + i"] assms(1) that by (auto simp: bit_or_iff bit_push_bit_iff)
  moreover have "bit (push_bit n w OR v) i = bit v i" if "i < n" for i
    using that by (simp add: bit_or_iff bit_push_bit_iff)
  ultimately show ?thesis unfolding low_bits_add by (simp add: low_bits_def)
qed

lemma low_bits_ucast: "n \<le> LENGTH('b) \<Longrightarrow> low_bits n (ucast (w :: 'a::len word) :: 'b::len word) = low_bits n w"
  by (auto simp: low_bits_def bit_ucast_iff)

lemma low_bits_drop: "low_bits n (drop_bit k w) = map (\<lambda>i. bit w (k + i)) (rev [0..<n])"
  by (simp add: low_bits_def bit_drop_bit_eq)

lemma low_bits_split: "low_bits (m + n) w = low_bits m (drop_bit n w) @ low_bits n w"
  by (simp add: low_bits_add low_bits_drop)

definition byte_bits :: "bytes \<Rightarrow> bool list" where
  "byte_bits bs = concat (map (low_bits 8) bs)"

definition pending :: "g726_state \<Rightarrow> bool list" where
  "pending s = low_bits (residue s) (bitstream s)"

definition code_list_bits :: "nat \<Rightarrow> bytes \<Rightarrow> bool list" where
  "code_list_bits n codes = concat (map (low_bits n) codes)"

text \<open>The codes of the samples, without packing.\<close>

fun enc_codes :: "g726_codec \<Rightarrow> g726_state \<Rightarrow> int list \<Rightarrow> (bytes \<times> g726_state) option" where
  "enc_codes c s [] = Some ([], s)"
| "enc_codes c s (a # as) = Option.bind (g726_encoder c s (shr a 2)) (\<lambda>(k, s).
     map_option (\<lambda>(ks, s). (k # ks, s)) (enc_codes c s as))"

lemma bit_byte_less: "bit (v :: byte) i \<Longrightarrow> unat v < 2 ^ n \<Longrightarrow> i < n"
proof (rule ccontr)
  assume v: "bit v i" "unat v < 2 ^ n" "\<not> i < n"
  have "(2 :: nat) ^ n \<le> 2 ^ i" using v(3) by (intro power_increasing) simp_all
  then have "unat v div 2 ^ i = 0" using v(2) by (intro div_less) linarith
  moreover have "bit (unat v) i" using v(1) by (simp add: bit_unsigned_iff)
  ultimately show False by (simp add: bit_iff_odd)
qed

lemma encode_bits:
  assumes "g726_ok s" and "g726_encode s amps = Some (out, s')"
  shows "\<exists>codes. enc_codes (codec s) (bare s) amps = Some (codes, bare s') \<and>
    byte_bits out @ pending s' = pending s @ code_list_bits (code_bits (codec s)) codes \<and> length codes = length amps"
  using assms
proof (induction amps arbitrary: s out)
  case Nil
  then show ?case by (simp add: byte_bits_def code_list_bits_def)
next
  case (Cons a amps)
  let ?n = "code_bits (codec s)"
  obtain code s1 where e: "g726_encoder (codec s) s (shr a 2) = Some (code, s1)"
    using Cons.prems(2) by (auto simp: bind_Some_iff)
  have u: "bits_per_sample s1 = ?n" "residue s1 = residue s" "bitstream s1 = bitstream s" "codec s1 = codec s" "residue s < 8"
    using encoder_setup [OF e] Cons.prems(1) by (auto simp: same_setup_def g726_ok_def)
  let ?bs = "push_bit ?n (bitstream s) OR ucast code :: u32" and ?res = "residue s + ?n"
  have inv1: "g726_inv s1"
  proof -
    obtain i r where "apply_code (codec s) s i = Some (r, s1)" "i < 2 ^ ?n"
      using e quantize_range by (auto simp: g726_encoder_def Let_def bind_Some_iff)
    then show ?thesis using apply_code_inv [of s i "codec s"] Cons.prems(1) by (auto simp: g726_ok_def)
  qed
  have cl: "unat code < 2 ^ ?n" by (rule decoder_follows(2) [OF e])
  have all: "pending s @ low_bits ?n code = low_bits ?res ?bs"
  proof -
    have "bit (ucast code :: u32) i \<Longrightarrow> i < ?n" for i
      using bit_byte_less [OF _ cl] by (auto simp: bit_ucast_iff)
    then have "low_bits ?res ?bs = low_bits (residue s) (bitstream s) @ low_bits ?n (ucast code :: u32)"
      using u(5) code_bits_range(2) [of "codec s"] by (intro low_bits_push) auto
    then show ?thesis using code_bits_range(2) [of "codec s"] by (simp add: pending_def low_bits_ucast)
  qed
  show ?case
  proof (cases "8 \<le> ?res")
    case True
    let ?s2 = "s1\<lparr>bitstream := ?bs, residue := ?res - 8\<rparr>"
    obtain out' where o: "g726_encode ?s2 amps = Some (out', s')" "out = ucast (drop_bit (?res - 8) ?bs) # out'"
      using Cons.prems(2) e True u by (auto simp: bind_Some_iff Let_def)
    have ok: "g726_ok ?s2"
      using inv1 u code_bits_range(2) [of "codec s"] by (auto simp: g726_ok_def inv_packing)
    have b: "bare ?s2 = bare s1" "codec ?s2 = codec s" by (simp_all add: bare_def u)
    obtain codes where c: "enc_codes (codec s) (bare s1) amps = Some (codes, bare s')"
      "byte_bits out' @ pending s' = pending ?s2 @ code_list_bits ?n codes" "length codes = length amps"
      using Cons.IH [OF ok o(1)] unfolding b by auto
    have "byte_bits out @ pending s' = low_bits 8 (drop_bit (?res - 8) ?bs) @ low_bits (?res - 8) ?bs @ code_list_bits ?n codes"
      using c(2) o(2) by (simp add: byte_bits_def pending_def low_bits_ucast)
    also have "\<dots> = low_bits ?res ?bs @ code_list_bits ?n codes"
      using low_bits_split [of 8 "?res - 8" ?bs] True by simp
    also have "\<dots> = pending s @ code_list_bits ?n (code # codes)"
      unfolding all [symmetric] by (simp add: code_list_bits_def)
    finally show ?thesis using c(1,3) e by (simp add: encoder_bare)
  next
    case False
    let ?s2 = "s1\<lparr>bitstream := ?bs, residue := ?res\<rparr>"
    have o: "g726_encode ?s2 amps = Some (out, s')"
      using Cons.prems(2) e False u by (auto simp: bind_Some_iff Let_def)
    have ok: "g726_ok ?s2" using inv1 u False by (auto simp: g726_ok_def inv_packing)
    have b: "bare ?s2 = bare s1" "codec ?s2 = codec s" by (simp_all add: bare_def u)
    obtain codes where c: "enc_codes (codec s) (bare s1) amps = Some (codes, bare s')"
      "byte_bits out @ pending s' = pending ?s2 @ code_list_bits ?n codes" "length codes = length amps"
      using Cons.IH [OF ok o] unfolding b by auto
    have "byte_bits out @ pending s' = low_bits ?res ?bs @ code_list_bits ?n codes" using c(2) by (simp add: pending_def)
    also have "\<dots> = pending s @ code_list_bits ?n (code # codes)"
      unfolding all [symmetric] by (simp add: code_list_bits_def)
    finally show ?thesis using c(1,3) e by (simp add: encoder_bare)
  qed
qed

text \<open>The decoder on a list of codes.\<close>

fun run_dec :: "g726_codec \<Rightarrow> g726_state \<Rightarrow> bytes \<Rightarrow> (int list \<times> g726_state) option" where
  "run_dec c s [] = Some ([], s)"
| "run_dec c s (k # ks) = Option.bind (g726_decoder c s k) (\<lambda>(x, s). map_option (\<lambda>(xs, s). (x # xs, s)) (run_dec c s ks))"

lemma run_dec_follows:
  "enc_codes c s amps = Some (codes, s') \<Longrightarrow>
   (\<exists>xs. run_dec c s codes = Some (xs, s') \<and> length xs = length amps) \<and> (\<forall>k \<in> set codes. unat k < 2 ^ code_bits c)"
proof (induction amps arbitrary: s codes)
  case (Cons a amps)
  then obtain k s1 ks where e: "g726_encoder c s (shr a 2) = Some (k, s1)" "enc_codes c s1 amps = Some (ks, s')" "codes = k # ks"
    by (auto simp: bind_Some_iff)
  from Cons.IH [OF e(2)] decoder_follows [OF e(1)] e(3) show ?case by auto
qed simp

lemma low_bits_inj:
  fixes a b :: byte
  assumes "low_bits n a = low_bits n b" and "unat a < 2 ^ n" and "unat b < 2 ^ n"
  shows "a = b"
proof (rule bit_word_eqI)
  fix i assume "i < LENGTH(8)"
  show "bit a i = bit b i"
  proof (cases "i < n")
    case True
    then show ?thesis using assms(1) by (auto simp: low_bits_def map_eq_conv)
  next
    case False
    then show ?thesis using bit_byte_less [OF _ assms(2)] bit_byte_less [OF _ assms(3)] by blast
  qed
qed

lemma take_code_bits:
  assumes "n = bits_per_sample t" and "n \<le> 5" and "n \<le> residue t"
  shows "pending t = low_bits n (fst (take_code t)) @ pending (snd (take_code t))" and "unat (fst (take_code t)) < 2 ^ n"
proof -
  have m: "(2 ^ n - 1 :: byte) = mask n" by (simp add: mask_eq_exp_minus_1)
  have c: "fst (take_code t) = take_bit n (ucast (drop_bit (residue t - n) (bitstream t)))"
    by (simp add: take_code_def assms(1) [symmetric] m take_bit_eq_mask)
  have "low_bits n (fst (take_code t)) = low_bits n (drop_bit (residue t - n) (bitstream t))"
    unfolding c using assms(2) by (auto simp: low_bits_def bit_take_bit_iff bit_ucast_iff)
  then show "pending t = low_bits n (fst (take_code t)) @ pending (snd (take_code t))"
    using low_bits_split [of n "residue t - n" "bitstream t"] assms(1,3) by (simp add: pending_def take_code_def)
  show "unat (fst (take_code t)) < 2 ^ n"
    unfolding c using take_bit_nat_less_exp [of n "unat (ucast (drop_bit (residue t - n) (bitstream t)) :: byte)"]
    by (simp add: unsigned_take_bit_eq)
qed

lemma take_byte_bits:
  assumes "residue t < bits_per_sample t" and "bits_per_sample t \<le> 5" and "data \<noteq> []"
  shows "pending (fst (take_byte t data)) @ byte_bits (snd (take_byte t data)) = pending t @ byte_bits data"
proof -
  obtain b bs where d: "data = b # bs" using assms(3) by (cases data) auto
  have "low_bits (residue t + 8) (push_bit 8 (bitstream t) OR ucast b) = low_bits (residue t) (bitstream t) @ low_bits 8 (ucast b :: u32)"
    using assms(1,2) by (intro low_bits_push) (auto simp: bit_ucast_iff dest: bit_imp_le_length)
  then show ?thesis using assms(1) by (simp add: take_byte_def pending_def byte_bits_def d low_bits_ucast)
qed

lemma decode_bits:
  assumes "g726_ok t" and "pending t @ byte_bits data = code_list_bits (code_bits (codec t)) codes @ rest"
    and "length rest < code_bits (codec t)" and "\<forall>k \<in> set codes. unat k < 2 ^ code_bits (codec t)"
    and "run_dec (codec t) (bare t) codes = Some (xs, b)"
  shows "\<exists>t'. g726_decode t data = Some (xs, t') \<and> bare t' = b \<and> pending t' = rest"
  using assms
proof (induction codes arbitrary: t data xs)
  case Nil
  have "length (pending t @ byte_bits data) < code_bits (codec t)" using Nil by (simp add: code_list_bits_def)
  moreover have "length (byte_bits data) = 8 * length data" by (induction data) (simp_all add: byte_bits_def)
  ultimately have l: "residue t + 8 * length data < code_bits (codec t)" by (simp add: pending_def)
  then have "8 * length data < 8" using code_bits_range(2) [of "codec t"] by linarith
  then have "data = []" "residue t < code_bits (codec t)" using l by simp_all
  then show ?case using Nil by (subst g726_decode.simps) (auto simp: g726_ok_def code_list_bits_def byte_bits_def)
next
  case (Cons k ks)
  let ?n = "code_bits (codec t)" and ?t1 = "fst (take_byte t data)" and ?d1 = "snd (take_byte t data)"
  let ?t2 = "snd (take_code ?t1)"
  have n: "bits_per_sample t = ?n" "2 \<le> ?n" "?n \<le> 5" "g726_inv t" "residue t < 8"
    using Cons.prems(1) code_bits_range [of "codec t"] by (auto simp: g726_ok_def)
  have lb: "length (byte_bits data) = 8 * length data" by (induction data) (simp_all add: byte_bits_def)
  have "?n \<le> length (pending t @ byte_bits data)" using Cons.prems(2) by (simp add: code_list_bits_def)
  then have ne: "data \<noteq> []" if "residue t < ?n" using that lb by (auto simp: pending_def)
  have t1: "pending ?t1 @ byte_bits ?d1 = pending t @ byte_bits data" "bits_per_sample ?t1 = ?n" "codec ?t1 = codec t"
    "?n \<le> residue ?t1" "residue ?t1 < 8 + ?n" "bare ?t1 = bare t" "g726_inv ?t1"
    using take_byte_bits [of t data] ne n by (auto simp: take_byte_def bare_def inv_packing)
  have t2: "codec ?t2 = codec t" "bits_per_sample ?t2 = ?n" "residue ?t2 = residue ?t1 - ?n" "bare ?t2 = bare t" "g726_inv ?t2"
    using t1 by (auto simp: take_code_def bare_def inv_packing)
  note c = take_code_bits [OF t1(2) [symmetric] n(3) t1(4)]
  have e: "low_bits ?n (fst (take_code ?t1)) @ pending ?t2 @ byte_bits ?d1 =
      low_bits ?n k @ code_list_bits ?n ks @ rest"
    using Cons.prems(2) t1(1) c(1) by (simp add: code_list_bits_def)
  then have k: "fst (take_code ?t1) = k"
    using low_bits_inj [OF _ c(2)] Cons.prems(4) by (simp add: append_eq_append_conv)
  obtain x s2 xs' where d: "g726_decoder (codec t) (bare t) k = Some (x, s2)" "run_dec (codec t) s2 ks = Some (xs', b)" "xs = x # xs'"
    using Cons.prems(5) by (auto simp: bind_Some_iff)
  obtain s3 where s3: "g726_decoder (codec t) ?t2 k = Some (x, s3)" "bare s3 = s2"
    using trans [OF decoder_bare [of "codec t" ?t2 k, symmetric, unfolded t2(4)] d(1)] by auto
  have su: "codec s3 = codec t" "bits_per_sample s3 = ?n" "pending s3 = pending ?t2" "residue s3 < 8"
    using decoder_setup [OF s3(1)] t2 t1(4,5) by (auto simp: same_setup_def pending_def)
  have "g726_inv s3" using decoder_defined [OF t2(5), of "codec t" k] s3(1) by auto
  then have "g726_ok s3" using su by (simp add: g726_ok_def)
  from Cons.IH [OF this, of ?d1 xs'] obtain t' where
    "g726_decode s3 ?d1 = Some (xs', t')" "bare t' = b" "pending t' = rest"
    using e Cons.prems(3,4) d(2) s3(2) su k by (auto simp: append_eq_append_conv)
  then show ?case
    using n ne t1(2,3,4) k s3(1) d(3) by (subst g726_decode.simps) auto
qed

text \<open>C14: Decoding what was encoded, from the same fresh state and with whole bytes, gives as many
  samples and leaves the decoder in the state of the encoder: predictor, scale factors and all.\<close>

theorem g726_in_step:
  assumes "g726_init s0 r = Some s" and "\<forall>a \<in> set amps. - 32768 \<le> a \<and> a < 32768"
    and "8 dvd length amps * bits_per_sample s"
  shows "\<exists>data s' xs t'. g726_encode s amps = Some (data, s') \<and> 8 * length data = length amps * bits_per_sample s \<and>
    g726_decode s data = Some (xs, t') \<and> length xs = length amps \<and> bare t' = bare s' \<and> residue t' = 0"
proof -
  have s: "g726_ok s" "residue s = 0" "pending s = []" using init_ok [OF assms(1)] by (auto simp: pending_def low_bits_def)
  let ?n = "code_bits (codec s)"
  have n: "bits_per_sample s = ?n" using s(1) by (simp add: g726_ok_def)
  obtain data s' where enc: "g726_encode s amps = Some (data, s')" "g726_ok s'"
    using encode_ok [OF s(1) assms(2)] by blast
  obtain codes where c: "enc_codes (codec s) (bare s) amps = Some (codes, bare s')"
    "byte_bits data @ pending s' = code_list_bits ?n codes" "length codes = length amps"
    using encode_bits [OF s(1) enc(1)] s(3) by auto
  have lb: "length (byte_bits d) = 8 * length d" for d by (induction d) (simp_all add: byte_bits_def)
  have "length (code_list_bits ?n codes) = length amps * ?n"
    unfolding c(3) [symmetric] by (induction codes) (simp_all add: code_list_bits_def)
  then have l: "8 * length data + residue s' = length amps * ?n"
    using c(2) lb [of data] by (metis length_append length_low_bits pending_def)
  then have "8 dvd residue s'" using assms(3) n by (metis dvd_add_right_iff dvd_triv_left)
  then have r0: "residue s' = 0" using enc(2) by (auto simp: g726_ok_def dest: dvd_imp_le)
  obtain xs where x: "run_dec (codec s) (bare s) codes = Some (xs, bare s')" "length xs = length amps"
    "\<forall>k \<in> set codes. unat k < 2 ^ ?n" using run_dec_follows [OF c(1)] by blast
  have "pending s @ byte_bits data = code_list_bits ?n codes @ []"
    using c(2) r0 s(3) by (simp add: pending_def low_bits_def)
  then obtain t' where "g726_decode s data = Some (xs, t')" "bare t' = bare s'" "pending t' = []"
    using decode_bits [OF s(1) _ _ x(3,1), of data "[]"] code_bits_range(1) [of "codec s"] by auto
  then show ?thesis using enc(1) x(2) l r0 n by (auto simp: pending_def low_bits_def)
qed

theorem g726_in_step_witness:
  "\<exists>g s. g726_init g 32000 = Some s \<and> (\<exists>data s' xs t'. g726_encode s [100, - 7] = Some (data, s') \<and>
    8 * length data = length [100, - 7 :: int] * bits_per_sample s \<and>
    g726_decode s data = Some (xs, t') \<and> length xs = length [100, - 7 :: int] \<and> bare t' = bare s' \<and> residue t' = 0)"
proof -
  obtain g s where s: "g726_init g 32000 = Some s" "bits_per_sample s = 4"
    by (auto simp: g726_init_def Let_def code_bits_def)
  have "\<exists>data s' xs t'. g726_encode s [100, - 7] = Some (data, s') \<and>
    8 * length data = length [100, - 7 :: int] * bits_per_sample s \<and>
    g726_decode s data = Some (xs, t') \<and> length xs = length [100, - 7 :: int] \<and> bare t' = bare s' \<and> residue t' = 0"
    by (rule g726_in_step [OF s(1)]) (simp_all add: s(2))
  with s(1) show ?thesis by blast
qed

end
