(* ===== verification/Queue.thy ===== *)
theory Queue
  imports Prelude
begin

text \<open>
  The message queue, src/mgw-core/util/source/queue.c and queue.h: a linked list with a sentinel
  in front, its operations on a heap of nodes, and the interleavings of threads that share it.
  Addresses are naturals; the allocator hands out fresh ones, and its failure ends the program
  (\<open>bmalloc\<close>), so \<open>bzalloc\<close> always returns. Access through NULL or to a freed block
  is \<open>None\<close>.
\<close>

section \<open>Nodes and the heap\<close>

record node =
  action :: int
  delay :: int
  nd_data :: "nat option"
  priv_data :: "nat option"
  nxt :: "nat option"

record d_queue =
  q_head :: nat
  q_tail :: nat
  q_len :: nat

text \<open>The heap: the nodes, the other live blocks (what messages point to) and the next address.\<close>

record qheap =
  nodes :: "nat \<Rightarrow> node option"
  blocks :: "nat set"
  fresh :: nat

definition new_node :: "qheap \<Rightarrow> node \<Rightarrow> nat \<times> qheap" where
  "new_node h n = (fresh h, h\<lparr>nodes := (nodes h)(fresh h \<mapsto> n), fresh := Suc (fresh h)\<rparr>)"

text \<open>\<open>bfree\<close> on a block of data; NULL is ignored.\<close>

definition free_block :: "nat option \<Rightarrow> qheap \<Rightarrow> qheap option" where
  "free_block p h = (case p of None \<Rightarrow> Some h
     | Some a \<Rightarrow> if a \<in> blocks h then Some (h\<lparr>blocks := blocks h - {a}\<rparr>) else None)"

definition free_node :: "nat \<Rightarrow> qheap \<Rightarrow> qheap option" where
  "free_node a h = (if nodes h a = None then None else Some (h\<lparr>nodes := (nodes h)(a := None)\<rparr>))"

definition gen_node :: "int \<Rightarrow> nat option \<Rightarrow> nat option \<Rightarrow> qheap \<Rightarrow> nat \<times> qheap" where
  "gen_node a d p h = new_node h \<lparr>action = a, delay = 0, nd_data = d, priv_data = p, nxt = None\<rparr>"

definition del_node :: "nat option \<Rightarrow> qheap \<Rightarrow> qheap option" where
  "del_node n h = (case n of None \<Rightarrow> Some h
     | Some a \<Rightarrow> do {
         x \<leftarrow> nodes h a;
         h \<leftarrow> free_block (nd_data x) h;
         free_node a h })"

section \<open>Operations\<close>

definition q_init :: "qheap \<Rightarrow> d_queue \<times> qheap" where
  "q_init h = (let (a, h) = new_node h \<lparr>action = 0, delay = 0, nd_data = None, priv_data = None, nxt = None\<rparr> in
     (\<lparr>q_head = a, q_tail = a, q_len = 0\<rparr>, h))"

definition q_enqueue :: "d_queue option \<Rightarrow> nat option \<Rightarrow> qheap \<Rightarrow> (nat \<times> d_queue option \<times> qheap) option" where
  "q_enqueue q n h = (case (q, n) of
     (Some q, Some a) \<Rightarrow> do {
       t \<leftarrow> nodes h (q_tail q);
       let h = h\<lparr>nodes := (nodes h)(q_tail q \<mapsto> t\<lparr>nxt := Some a\<rparr>)\<rparr>;
       let q = q\<lparr>q_tail := a, q_len := wrap64 (Suc (q_len q))\<rparr>;
       Some (q_len q, Some q, h) }
   | _ \<Rightarrow> Some (0, q, h))"

text \<open>\<open>q_dequeue\<close>: the test, made without the lock, and the part under the lock.\<close>

definition deq_test :: "d_queue \<Rightarrow> bool" where
  "deq_test q \<longleftrightarrow> q_head q \<noteq> q_tail q \<and> 0 < q_len q"

definition deq_locked :: "d_queue \<Rightarrow> qheap \<Rightarrow> (nat \<times> d_queue \<times> qheap) option" where
  "deq_locked q h = do {
     s \<leftarrow> nodes h (q_head q);
     n \<leftarrow> nxt s;
     x \<leftarrow> nodes h n;
     let h = h\<lparr>nodes := (nodes h)(q_head q \<mapsto> s\<lparr>nxt := nxt x\<rparr>)\<rparr>;
     let q = (if q_tail q = n then q\<lparr>q_tail := q_head q\<rparr> else q);
     Some (n, q\<lparr>q_len := sub64 (q_len q) 1\<rparr>, h) }"

definition q_dequeue :: "d_queue option \<Rightarrow> qheap \<Rightarrow> (nat option \<times> d_queue option \<times> qheap) option" where
  "q_dequeue q h = (case q of None \<Rightarrow> Some (None, None, h)
     | Some q \<Rightarrow> if deq_test q then map_option (\<lambda>(n, q, h). (Some n, Some q, h)) (deq_locked q h)
                  else Some (None, Some q, h))"

definition q_lenght :: "d_queue option \<Rightarrow> nat" where
  "q_lenght q = (case q of None \<Rightarrow> 0 | Some q \<Rightarrow> q_len q)"

definition q_empty :: "d_queue option \<Rightarrow> bool" where
  "q_empty q = (case q of None \<Rightarrow> True | Some q \<Rightarrow> q_len q = 0 \<and> q_head q = q_tail q)"

text \<open>The loop of \<open>q_clear\<close>; it does not end on a queue whose length and ends disagree.\<close>

partial_function (option) clear_loop :: "d_queue option \<Rightarrow> qheap \<Rightarrow> (d_queue option \<times> qheap) option" where
  "clear_loop q h =
     (if q_empty q then Some (q, h)
      else do {
        (n, q, h) \<leftarrow> q_dequeue q h;
        h \<leftarrow> del_node n h;
        clear_loop q h })"

definition q_clear :: "d_queue option \<Rightarrow> qheap \<Rightarrow> (d_queue option \<times> qheap) option" where
  "q_clear q h = (if q = None then Some (q, h) else clear_loop q h)"

definition q_destroy :: "d_queue option \<Rightarrow> qheap \<Rightarrow> qheap option" where
  "q_destroy q h = (case q of None \<Rightarrow> Some h
     | Some c \<Rightarrow> do { (q, h) \<leftarrow> q_clear q h; free_node (q_head (the q)) h })"

section \<open>The list a queue holds\<close>

text \<open>The nodes behind \<open>a\<close> are \<open>xs\<close>, the last one without successor.\<close>

fun path :: "(nat \<Rightarrow> node option) \<Rightarrow> nat \<Rightarrow> nat list \<Rightarrow> bool" where
  "path N a [] \<longleftrightarrow> (\<exists>x. N a = Some x \<and> nxt x = None)"
| "path N a (b # bs) \<longleftrightarrow> (\<exists>x. N a = Some x \<and> nxt x = Some b) \<and> path N b bs"

definition q_rep :: "qheap \<Rightarrow> d_queue \<Rightarrow> nat list \<Rightarrow> bool" where
  "q_rep h q xs \<longleftrightarrow> path (nodes h) (q_head q) xs \<and> distinct (q_head q # xs) \<and>
     q_tail q = last (q_head q # xs) \<and> q_len q = length xs \<and> length xs < 2 ^ 64 \<and>
     (\<forall>a \<in> set (q_head q # xs). a < fresh h) \<and> (\<forall>a. fresh h \<le> a \<longrightarrow> nodes h a = None)"

lemma path_other: "a \<notin> set (b # bs) \<Longrightarrow> path (N(a := x)) b bs = path N b bs"
  by (induction bs arbitrary: b) auto

lemma path_dom: "path N a xs \<Longrightarrow> b \<in> set (a # xs) \<Longrightarrow> \<exists>x. N b = Some x"
  by (induction xs arbitrary: a) auto

lemma path_last: "path N a xs \<Longrightarrow> \<exists>x. N (last (a # xs)) = Some x"
  by (rule path_dom) (auto simp: last_in_set)

lemma path_snoc:
  assumes "path N a xs" and "distinct (a # xs)" and "b \<notin> set (a # xs)" and "N (last (a # xs)) = Some t"
    and "N b = Some y" and "nxt y = None"
  shows "path (N(last (a # xs) \<mapsto> t\<lparr>nxt := Some b\<rparr>)) a (xs @ [b])"
  using assms
proof (induction xs arbitrary: a)
  case (Cons c xs)
  then have "path (N(last (c # xs) \<mapsto> t\<lparr>nxt := Some b\<rparr>)) c (xs @ [b])" by (intro Cons.IH) auto
  moreover have "last (c # xs) \<noteq> a" using Cons.prems(2) last_in_set [of "c # xs"] by (metis distinct.simps(2) list.discI)
  moreover have "last (a # c # xs) = last (c # xs)" by simp
  ultimately show ?case
    using Cons.prems(1) by (simp only: append_Cons path.simps fun_upd_other not_sym)
qed auto

lemma test_rep: "q_rep h q xs \<Longrightarrow> deq_test q \<longleftrightarrow> xs \<noteq> []"
  by (cases xs) (auto simp: q_rep_def deq_test_def)

lemma empty_rep: "q_rep h q xs \<Longrightarrow> q_empty (Some q) \<longleftrightarrow> xs = []"
  by (cases xs) (auto simp: q_rep_def q_empty_def)

lemma init_rep:
  assumes "\<forall>a. fresh h \<le> a \<longrightarrow> nodes h a = None" and "q_init h = (q, h')"
  shows "q_rep h' q []"
  using assms by (auto simp: q_init_def new_node_def q_rep_def)

text \<open>What a node carries.\<close>

type_synonym message = "int \<times> nat option \<times> nat option"

definition payload :: "qheap \<Rightarrow> nat \<Rightarrow> message option" where
  "payload h a = map_option (\<lambda>x. (action x, nd_data x, priv_data x)) (nodes h a)"

text \<open>Putting a node of its own in.\<close>

lemma enqueue_rep:
  assumes "q_rep h q xs" and "Suc (length xs) < 2 ^ 64" and "nodes h a = Some y" and "nxt y = None"
    and "a \<notin> set (q_head q # xs)"
  shows "\<exists>q' h'. q_enqueue (Some q) (Some a) h = Some (Suc (length xs), Some q', h') \<and> q_rep h' q' (xs @ [a]) \<and>
    blocks h' = blocks h \<and> payload h' = payload h"
proof -
  obtain t where t: "nodes h (q_tail q) = Some t"
    using path_last [of "nodes h" "q_head q" xs] assms(1) by (auto simp only: q_rep_def)
  have "a < fresh h" using assms(1,3) by (metis linorder_not_le option.distinct(1) q_rep_def)
  moreover have "path ((nodes h)(q_tail q \<mapsto> t\<lparr>nxt := Some a\<rparr>)) (q_head q) (xs @ [a])"
    using path_snoc [of "nodes h" "q_head q" xs a t y] assms t by (simp add: q_rep_def)
  ultimately show ?thesis
    using assms t by (auto simp: q_enqueue_def q_rep_def wrap64_def payload_def fun_eq_iff)
qed

text \<open>Taking the first node out.\<close>

lemma locked_rep:
  assumes "q_rep h q (a # xs)"
  shows "\<exists>q' h'. deq_locked q h = Some (a, q', h') \<and> q_rep h' q' xs \<and> blocks h' = blocks h \<and>
    payload h' = payload h \<and> a < fresh h'"
proof -
  obtain s x where s: "nodes h (q_head q) = Some s" "nxt s = Some a" "path (nodes h) a xs"
    using assms by (auto simp: q_rep_def)
  then obtain x where x: "nodes h a = Some x" using path_dom [of "nodes h" a xs a] by auto
  have n: "nxt x = (case xs of [] \<Rightarrow> None | b # _ \<Rightarrow> Some b)" using s(3) x by (cases xs) auto
  have p: "path ((nodes h)(q_head q \<mapsto> s\<lparr>nxt := nxt x\<rparr>)) (q_head q) xs"
    using assms s n by (cases xs) (auto simp: q_rep_def path_other)
  have l: "q_tail q = a \<longleftrightarrow> xs = []" using assms by (auto simp: q_rep_def)
  show ?thesis
    using assms s x p l by (auto simp: deq_locked_def q_rep_def payload_def fun_eq_iff sub64_def)
qed

lemma locked_empty: "q_rep h q [] \<Longrightarrow> deq_locked q h = None"
  by (auto simp: deq_locked_def q_rep_def)
section \<open>Refinement of a list\<close>

text \<open>What a user of the queue does: build a node and put it in, take one out and read it.\<close>

definition put_msg :: "message \<Rightarrow> d_queue \<times> qheap \<Rightarrow> (d_queue \<times> qheap) option" where
  "put_msg m s = (let (n, h) = gen_node (fst m) (fst (snd m)) (snd (snd m)) (snd s) in
     map_option (\<lambda>(_, q, h). (the q, h)) (q_enqueue (Some (fst s)) (Some n) h))"

definition get_msg :: "d_queue \<times> qheap \<Rightarrow> (message option \<times> d_queue \<times> qheap) option" where
  "get_msg s = do {
     (n, q, h) \<leftarrow> q_dequeue (Some (fst s)) (snd s);
     Some (Option.bind n (payload h), the q, h) }"

text \<open>\<open>Some m\<close> puts \<open>m\<close>, \<open>None\<close> gets; the results of the gets, on a state and on a list.\<close>

fun run_ops :: "('m \<Rightarrow> 's \<Rightarrow> 's option) \<Rightarrow> ('s \<Rightarrow> ('m option \<times> 's) option) \<Rightarrow> 'm option list \<Rightarrow> 's \<Rightarrow>
    ('m option list \<times> 's) option" where
  "run_ops put get [] s = Some ([], s)"
| "run_ops put get (Some m # ops) s = Option.bind (put m s) (run_ops put get ops)"
| "run_ops put get (None # ops) s = do {
     (r, s) \<leftarrow> get s;
     (rs, s) \<leftarrow> run_ops put get ops s;
     Some (r # rs, s) }"

fun fifo_run :: "'m option list \<Rightarrow> 'm list \<Rightarrow> 'm option list \<times> 'm list" where
  "fifo_run [] ms = ([], ms)"
| "fifo_run (Some m # ops) ms = fifo_run ops (ms @ [m])"
| "fifo_run (None # ops) ms = apfst (Cons (if ms = [] then None else Some (hd ms))) (fifo_run ops (tl ms))"

locale fifo =
  fixes put :: "'m \<Rightarrow> 's \<Rightarrow> 's option"
    and get :: "'s \<Rightarrow> ('m option \<times> 's) option"
    and rep :: "'s \<Rightarrow> 'm list \<Rightarrow> bool"
    and cap :: nat
  assumes put_law: "rep s ms \<Longrightarrow> Suc (length ms) < cap \<Longrightarrow> \<exists>s'. put m s = Some s' \<and> rep s' (ms @ [m])"
    and get_law: "rep s ms \<Longrightarrow>
      \<exists>s'. get s = Some (if ms = [] then None else Some (hd ms), s') \<and> rep s' (tl ms)"
begin

lemma run_refines:
  "rep s ms \<Longrightarrow> length ms + length ops < cap \<Longrightarrow>
   \<exists>s'. run_ops put get ops s = Some (fst (fifo_run ops ms), s') \<and> rep s' (snd (fifo_run ops ms))"
proof (induction ops arbitrary: s ms)
  case (Cons op ops)
  show ?case
  proof (cases op)
    case None
    with Cons get_law [OF Cons.prems(1)] show ?thesis by fastforce
  next
    case (Some m)
    with Cons put_law [OF Cons.prems(1), of m] show ?thesis by fastforce
  qed
qed simp

end

definition holds :: "d_queue \<times> qheap \<Rightarrow> message list \<Rightarrow> bool" where
  "holds s ms \<longleftrightarrow> (\<exists>xs. q_rep (snd s) (fst s) xs \<and> map (payload (snd s)) xs = map Some ms)"

lemma put_holds:
  assumes "holds s ms" and "Suc (length ms) < 2 ^ 64"
  shows "\<exists>s'. put_msg m s = Some s' \<and> holds s' (ms @ [m])"
proof -
  obtain xs where xs: "q_rep (snd s) (fst s) xs" "map (payload (snd s)) xs = map Some ms"
    using assms(1) by (auto simp: holds_def)
  define n where "n = fresh (snd s)"
  define h where "h = snd (gen_node (fst m) (fst (snd m)) (snd (snd m)) (snd s))"
  have new: "n \<notin> set (q_head (fst s) # xs)" using xs(1) by (auto simp: q_rep_def n_def)
  have r: "q_rep h (fst s) xs"
    using xs(1) new by (auto simp: q_rep_def h_def gen_node_def new_node_def n_def path_other)
  have "map (payload h) xs = map (payload (snd s)) xs"
    using new by (intro map_cong) (auto simp: h_def gen_node_def new_node_def n_def payload_def)
  then have p: "map (payload h) (xs @ [n]) = map Some (ms @ [m])"
    using xs(2) by (simp add: h_def gen_node_def new_node_def n_def payload_def)
  have "length xs = length ms" using xs(2) by (metis length_map)
  then obtain q' h' where "q_enqueue (Some (fst s)) (Some n) h = Some (Suc (length xs), Some q', h')"
    "q_rep h' q' (xs @ [n])" "payload h' = payload h"
    using enqueue_rep [OF r, of n] new assms(2) by (auto simp: h_def gen_node_def new_node_def n_def)
  then show ?thesis
    using p by (auto simp: put_msg_def holds_def h_def n_def gen_node_def new_node_def)
qed

lemma get_holds:
  assumes "holds s ms"
  shows "\<exists>s'. get_msg s = Some (if ms = [] then None else Some (hd ms), s') \<and> holds s' (tl ms)"
proof -
  obtain xs where xs: "q_rep (snd s) (fst s) xs" "map (payload (snd s)) xs = map Some ms"
    using assms by (auto simp: holds_def)
  show ?thesis
  proof (cases xs)
    case Nil
    then show ?thesis using xs by (auto simp: get_msg_def q_dequeue_def test_rep holds_def)
  next
    case (Cons a ys)
    from locked_rep [OF xs(1) [unfolded Cons]] obtain q' h' where
      "deq_locked (fst s) (snd s) = Some (a, q', h')" "q_rep h' q' ys" "payload h' = payload (snd s)" by blast
    then show ?thesis
      using xs Cons test_rep [OF xs(1)] by (auto simp: get_msg_def q_dequeue_def holds_def)
  qed
qed

interpretation qf: fifo put_msg get_msg holds "2 ^ 64"
  by unfold_locales (use put_holds get_holds in auto)

text \<open>C15: From a new queue, any sequence of puts and gets runs without touching a bad pointer and
  its gets answer what a list would: messages in the order they were put, NULL on an empty queue.\<close>

theorem queue_refines_list:
  assumes "\<forall>a. fresh h \<le> a \<longrightarrow> nodes h a = None" and "length ops < 2 ^ 64"
  shows "\<exists>s. run_ops put_msg get_msg ops (q_init h) = Some (fst (fifo_run ops []), s) \<and>
    holds s (snd (fifo_run ops []))"
proof -
  have "holds (q_init h) []" using init_rep [OF assms(1)] by (cases "q_init h") (auto simp: holds_def)
  from qf.run_refines [OF this] assms(2) show ?thesis by simp
qed

theorem queue_refines_list_witness:
  "\<exists>s. run_ops put_msg get_msg [Some (1, None, None), None, None, Some (2, Some 7, None), Some (3, None, None), None]
      (q_init \<lparr>nodes = Map.empty, blocks = {7}, fresh = 10\<rparr>) =
    Some ([Some (1, None, None), None, Some (2, Some 7, None)], s) \<and> holds s [(3, None, None)]"
  using queue_refines_list [of "\<lparr>nodes = Map.empty, blocks = {7}, fresh = 10\<rparr>"
    "[Some (1, None, None), None, None, Some (2, Some 7, None), Some (3, None, None), None]"] by simp

section \<open>Threads\<close>

text \<open>Producers put messages; the threads of \<open>C\<close> get them. Putting happens under the lock, in one
  step. A thread that gets first tests the queue without the lock (\<open>passed\<close> holds those whose
  test succeeded) and later takes a node under the lock. Reads and writes outside the lock are taken to
  be atomic and in program order.\<close>

record conf =
  queue :: "d_queue \<times> qheap"
  passed :: "nat set"
  produced :: "message list"
  taken :: "message list"
  crashed :: bool

definition q_start :: "qheap \<Rightarrow> conf" where
  "q_start h = \<lparr>queue = q_init h, passed = {}, produced = [], taken = [], crashed = False\<rparr>"

inductive q_step :: "nat set \<Rightarrow> conf \<Rightarrow> conf \<Rightarrow> bool" for C where
  produce: "put_msg m (queue c) = Some s \<Longrightarrow> q_step C c (c\<lparr>queue := s, produced := produced c @ [m]\<rparr>)"
| test: "t \<in> C \<Longrightarrow> t \<notin> passed c \<Longrightarrow> deq_test (fst (queue c)) \<Longrightarrow> q_step C c (c\<lparr>passed := insert t (passed c)\<rparr>)"
| take: "t \<in> passed c \<Longrightarrow> deq_locked (fst (queue c)) (snd (queue c)) = Some (n, s) \<Longrightarrow> payload (snd s) n = Some m \<Longrightarrow>
    q_step C c (c\<lparr>queue := s, passed := passed c - {t}, taken := taken c @ [m]\<rparr>)"
| crash: "t \<in> passed c \<Longrightarrow> deq_locked (fst (queue c)) (snd (queue c)) = None \<Longrightarrow> q_step C c (c\<lparr>crashed := True\<rparr>)"

inductive q_run :: "nat set \<Rightarrow> conf \<Rightarrow> conf \<Rightarrow> bool" for C where
  refl: "q_run C c c"
| step: "q_run C c c' \<Longrightarrow> q_step C c' c'' \<Longrightarrow> q_run C c c''"

inductive_cases q_stepE: "q_step C c c'"

definition conf_ok :: "nat set \<Rightarrow> conf \<Rightarrow> bool" where
  "conf_ok C c \<longleftrightarrow> \<not> crashed c \<and> passed c \<subseteq> C \<and>
     (\<exists>ms. holds (queue c) ms \<and> produced c = taken c @ ms \<and> (passed c \<noteq> {} \<longrightarrow> ms \<noteq> []))"

lemma holds_test: "holds s ms \<Longrightarrow> deq_test (fst s) \<longleftrightarrow> ms \<noteq> []"
  by (auto simp: holds_def test_rep)

lemma holds_locked:
  assumes "holds s (m # ms)"
  shows "\<exists>n s'. deq_locked (fst s) (snd s) = Some (n, s') \<and> payload (snd s') n = Some m \<and> holds s' ms"
proof -
  obtain a xs where xs: "q_rep (snd s) (fst s) (a # xs)" "payload (snd s) a = Some m"
    "map (payload (snd s)) xs = map Some ms"
    using assms by (auto simp: holds_def map_eq_Cons_conv)
  from locked_rep [OF xs(1)] xs show ?thesis by (auto simp: holds_def)
qed

lemma conf_ok_step:
  assumes "q_step C c c'" and "conf_ok C c" and "C \<subseteq> {t}" and "length (produced c') < 2 ^ 64"
  shows "conf_ok C c'"
proof -
  obtain ms where ms: "holds (queue c) ms" "produced c = taken c @ ms" "passed c \<noteq> {} \<longrightarrow> ms \<noteq> []"
    using assms(2) by (auto simp: conf_ok_def)
  from assms(1) show ?thesis
  proof cases
    case (produce m s)
    then have "Suc (length ms) < 2 ^ 64" using assms(4) ms(2) by simp
    with put_holds [OF ms(1)] produce(2) have "holds s (ms @ [m])" by (metis option.inject)
    with produce(1) ms assms(2) show ?thesis by (auto simp: conf_ok_def)
  next
    case (test u)
    with ms assms(2) holds_test [OF ms(1)] show ?thesis by (auto simp: conf_ok_def)
  next
    case (take u n s m)
    then obtain m' ms' where d: "ms = m' # ms'" using ms(3) by (cases ms) auto
    have "holds s ms'" "m = m'" using holds_locked [OF ms(1) [unfolded d]] take(3,4) by auto
    moreover have "passed c - {u} = {}" using assms(2,3) take(2) by (auto simp: conf_ok_def)
    ultimately show ?thesis using take(1) ms(2) d assms(2) by (auto simp: conf_ok_def)
  next
    case (crash u)
    then have "ms \<noteq> []" using ms(3) by auto
    then show ?thesis using crash(3) holds_locked [of "queue c" "hd ms" "tl ms"] ms(1) by auto
  qed
qed

lemma produced_grows: "q_step C c c' \<Longrightarrow> length (produced c) \<le> length (produced c')"
  by (auto elim: q_stepE)

lemma conf_ok_run: "q_run C c c' \<Longrightarrow> conf_ok C c \<Longrightarrow> C \<subseteq> {t} \<Longrightarrow> length (produced c') < 2 ^ 64 \<Longrightarrow> conf_ok C c'"
proof (induction rule: q_run.induct)
  case (step c c' c'')
  then show ?case using produced_grows [of C c' c''] conf_ok_step [of C c' c'' t] by auto
qed simp

text \<open>C16: With any number of producers and one consumer no interleaving reaches a bad pointer, and
  the messages taken are always the first ones put, in their order.\<close>

theorem one_consumer_safe:
  assumes "\<forall>a. fresh h \<le> a \<longrightarrow> nodes h a = None" and "q_run {t} (q_start h) c" and "length (produced c) < 2 ^ 64"
  shows "\<not> crashed c \<and> (\<exists>ms. holds (queue c) ms \<and> produced c = taken c @ ms)"
proof -
  have "conf_ok {t} (q_start h)"
    using init_rep [OF assms(1)] by (cases "q_init h") (auto simp: conf_ok_def q_start_def holds_def)
  from conf_ok_run [OF assms(2) this _ assms(3)] show ?thesis by (auto simp: conf_ok_def)
qed

lemma start_holds: "\<exists>s. put_msg m (q_init \<lparr>nodes = Map.empty, blocks = {}, fresh = 0\<rparr>) = Some s \<and> holds s [m]"
proof -
  have "holds (q_init \<lparr>nodes = Map.empty, blocks = {}, fresh = 0\<rparr>) []"
    by (auto simp: holds_def q_init_def new_node_def q_rep_def)
  from put_holds [OF this, of m] show ?thesis by simp
qed

theorem one_consumer_safe_witness:
  "\<exists>c :: conf. produced c = [(1, None, None)] \<and> \<not> crashed c \<and> (\<exists>ms. holds (queue c) ms \<and> produced c = taken c @ ms)"
proof -
  let ?h = "\<lparr>nodes = Map.empty, blocks = {}, fresh = 0\<rparr> :: qheap"
  obtain s where s: "put_msg (1, None, None) (q_init ?h) = Some s" using start_holds by blast
  define c where "c = (q_start ?h)\<lparr>queue := s, produced := produced (q_start ?h) @ [(1, None, None)]\<rparr>"
  have "q_step {0} (q_start ?h) c" unfolding c_def by (rule q_step.produce) (simp add: s q_start_def)
  then have r: "q_run {0} (q_start ?h) c" using q_run.step [OF q_run.refl] by blast
  have p: "produced c = [(1, None, None)]" by (simp add: c_def q_start_def)
  have "\<not> crashed c \<and> (\<exists>ms. holds (queue c) ms \<and> produced c = taken c @ ms)"
    by (rule one_consumer_safe [OF _ r]) (simp_all add: p)
  with p show ?thesis by blast
qed

text \<open>With two consumers, whenever one message is left both can pass the test; one takes it, and the
  other follows a NULL pointer.\<close>

theorem two_consumers_crash:
  assumes "holds (queue c) [m]" and "passed c = {}" and "s \<noteq> t"
  shows "\<exists>c'. q_run {s, t} c c' \<and> crashed c' \<and> taken c' = taken c @ [m]"
proof -
  have d: "deq_test (fst (queue c))" using assms(1) by (simp add: holds_test)
  obtain n q where l: "deq_locked (fst (queue c)) (snd (queue c)) = Some (n, q)" "payload (snd q) n = Some m" "holds q []"
    using holds_locked [OF assms(1)] by blast
  have e: "deq_locked (fst q) (snd q) = None" using l(3) locked_empty by (auto simp: holds_def)
  define c2 where "c2 = c\<lparr>passed := {s, t}\<rparr>"
  have "q_run {s, t} c (c\<lparr>passed := {s}\<rparr>)"
    using q_run.step [OF q_run.refl q_step.test [of s _ c]] assms(2) d by auto
  then have 2: "q_run {s, t} c c2"
    using q_run.step [OF _ q_step.test [of t "{s, t}" "c\<lparr>passed := {s}\<rparr>"]] assms(3) d
    by (auto simp: c2_def insert_commute)
  define c3 where "c3 = c2\<lparr>queue := q, passed := {t}, taken := taken c @ [m]\<rparr>"
  have "q_step {s, t} c2 c3"
    using q_step.take [of s c2 n q m "{s, t}"] l assms(3) by (auto simp: c2_def c3_def insert_Diff_if)
  then have 3: "q_run {s, t} c c3" using 2 q_run.step by blast
  have "q_step {s, t} c3 (c3\<lparr>crashed := True\<rparr>)"
    by (rule q_step.crash [of t]) (simp_all add: c3_def c2_def e)
  then have "q_run {s, t} c (c3\<lparr>crashed := True\<rparr>)" using 3 q_run.step by blast
  then show ?thesis by (intro exI [of _ "c3\<lparr>crashed := True\<rparr>"]) (simp add: c3_def c2_def)
qed

theorem two_consumers_crash_witness:
  "\<exists>c c'. q_run {0, 1} c c' \<and> crashed c' \<and> taken c' = [(1, None, None)]"
proof -
  obtain s where s: "holds s [(1, None, None)]" using start_holds by blast
  define c where "c = \<lparr>queue = s, passed = {}, produced = [(1, None, None)], taken = [], crashed = False\<rparr>"
  have "\<exists>c'. q_run {0, 1} c c' \<and> crashed c' \<and> taken c' = taken c @ [(1, None, None)]"
    by (rule two_consumers_crash) (simp_all add: c_def s)
  then show ?thesis by (auto simp: c_def)
qed

section \<open>Emptying\<close>

text \<open>The data blocks of the nodes.\<close>

definition data_of :: "qheap \<Rightarrow> nat list \<Rightarrow> nat list" where
  "data_of h xs = List.map_filter (\<lambda>a. Option.bind (payload h a) (\<lambda>m. fst (snd m))) xs"

lemma clear_rep:
  "q_rep h q xs \<Longrightarrow> distinct (data_of h xs) \<Longrightarrow> set (data_of h xs) \<subseteq> blocks h \<Longrightarrow>
   \<exists>q' h'. clear_loop (Some q) h = Some (Some q', h') \<and> q_rep h' q' [] \<and> q_head q' = q_head q \<and>
     blocks h' = blocks h - set (data_of h xs) \<and>
     (\<forall>a. payload h' a = (if a \<in> set xs then None else payload h a))"
proof (induction xs arbitrary: h q)
  case Nil
  then show ?case by (subst clear_loop.simps) (auto simp: empty_rep data_of_def List.map_filter_simps)
next
  case (Cons a xs)
  have t: "deq_test q" "\<not> q_empty (Some q)" using Cons.prems(1) by (simp_all add: test_rep empty_rep)
  obtain q1 h1 where l: "deq_locked q h = Some (a, q1, h1)" "q_rep h1 q1 xs" "blocks h1 = blocks h" "payload h1 = payload h"
    "q_head q1 = q_head q"
    using locked_rep [OF Cons.prems(1)] by (auto simp: deq_locked_def bind_Some_iff Let_def split: if_splits)
  obtain x where x: "nodes h1 a = Some x" "nodes h a \<noteq> None"
  proof -
    have "nodes h a \<noteq> None" using path_dom [of "nodes h" a xs a] Cons.prems(1) by (auto simp: q_rep_def)
    moreover from this have "payload h1 a \<noteq> None" using l(4) by (simp add: payload_def)
    then have "nodes h1 a \<noteq> None" by (simp add: payload_def)
    ultimately show ?thesis using that by blast
  qed
  have out: "a \<notin> set (q_head q1 # xs)" using Cons.prems(1) l(5) by (auto simp: q_rep_def)
  have pa: "payload h a = Some (action x, nd_data x, priv_data x)" using x(1) l(4) by (metis option.map(2) payload_def)
  define h2 where "h2 = h1\<lparr>blocks := blocks h1 - set_option (nd_data x), nodes := (nodes h1)(a := None)\<rparr>"
  have d: "data_of h (a # xs) = (case nd_data x of None \<Rightarrow> [] | Some b \<Rightarrow> [b]) @ data_of h xs"
    by (simp add: data_of_def List.map_filter_simps pa split: option.splits)
  have del: "del_node (Some a) h1 = Some h2"
    using Cons.prems(3) d l(3) x(1) by (auto simp: del_node_def free_block_def free_node_def h2_def split: option.splits)
  have r2: "q_rep h2 q1 xs" using l(2) out by (auto simp: q_rep_def h2_def path_other)
  have p2: "payload h2 b = (if b = a then None else payload h b)" for b
    using l(4) by (auto simp: h2_def payload_def fun_eq_iff)
  have d2: "data_of h2 xs = data_of h xs"
    using out by (auto simp: data_of_def List.map_filter_def p2 intro!: arg_cong [where f = "map _"] filter_cong map_cong)
  have b2: "distinct (data_of h2 xs)" "set (data_of h2 xs) \<subseteq> blocks h2"
    unfolding d2 using Cons.prems(2,3) d l(3) by (auto simp: h2_def split: option.splits)
  obtain q' h' where r: "clear_loop (Some q1) h2 = Some (Some q', h')" "q_rep h' q' []" "q_head q' = q_head q1"
    "blocks h' = blocks h2 - set (data_of h2 xs)" "\<forall>b. payload h' b = (if b \<in> set xs then None else payload h2 b)"
    using Cons.IH [OF r2 b2] by blast
  have "clear_loop (Some q) h = Some (Some q', h')"
    using t l(1) del r(1) by (subst clear_loop.simps) (simp add: q_dequeue_def)
  moreover have "blocks h' = blocks h - set (data_of h (a # xs))"
    using r(4) d d2 l(3) by (auto simp: h2_def split: option.splits)
  ultimately show ?case using r l(5) p2 by auto
qed

text \<open>Destroying a queue ends: it frees every node of the list, the sentinel and the data of every
  node, each once, and nothing else; the private data stay with their owner.\<close>

theorem q_destroy_frees:
  assumes "q_rep h q xs" and "distinct (data_of h xs)" and "set (data_of h xs) \<subseteq> blocks h"
  shows "\<exists>h'. q_destroy (Some q) h = Some h' \<and> blocks h' = blocks h - set (data_of h xs) \<and>
    (\<forall>a. payload h' a = (if a \<in> set (q_head q # xs) then None else payload h a))"
proof -
  obtain q' h' where c: "clear_loop (Some q) h = Some (Some q', h')" "q_rep h' q' []" "q_head q' = q_head q"
    "blocks h' = blocks h - set (data_of h xs)" "\<forall>a. payload h' a = (if a \<in> set xs then None else payload h a)"
    using clear_rep [OF assms] by blast
  obtain x where "nodes h' (q_head q) = Some x" using c(2,3) by (auto simp: q_rep_def)
  then have "q_destroy (Some q) h = Some (h'\<lparr>nodes := (nodes h')(q_head q := None)\<rparr>)"
    using c(1,3) by (simp add: q_destroy_def q_clear_def free_node_def)
  moreover have "payload (h'\<lparr>nodes := (nodes h')(q_head q := None)\<rparr>) a = (if a = q_head q then None else payload h' a)" for a
    by (simp add: payload_def)
  ultimately show ?thesis using c(4,5) by simp
qed

theorem q_destroy_frees_witness:
  "\<exists>q h h'. q_rep h q [1, 2] \<and> q_destroy (Some q) h = Some h' \<and> blocks h' = {9}"
proof -
  define n where "n = (\<lambda>d s. \<lparr>action = 5, delay = 0, nd_data = d, priv_data = None, nxt = s\<rparr>)"
  define h where "h = \<lparr>nodes = [0 \<mapsto> n None (Some 1), 1 \<mapsto> n (Some 7) (Some 2), 2 \<mapsto> n (Some 8) None], blocks = {7, 8, 9}, fresh = 3\<rparr>"
  define q where "q = \<lparr>q_head = 0, q_tail = 2, q_len = 2\<rparr>"
  have r: "q_rep h q [1, 2]" by (simp add: q_rep_def h_def q_def n_def)
  have d: "data_of h [1, 2] = [7, 8]" by (simp add: data_of_def List.map_filter_simps payload_def h_def n_def)
  have "\<exists>h'. q_destroy (Some q) h = Some h' \<and> blocks h' = blocks h - set (data_of h [1, 2]) \<and>
    (\<forall>a. payload h' a = (if a \<in> set (q_head q # [1, 2]) then None else payload h a))"
    by (rule q_destroy_frees [OF r]) (unfold d, simp_all add: h_def)
  moreover have "blocks h - set (data_of h [1, 2]) = {9}" unfolding d by (auto simp: h_def)
  ultimately show ?thesis using r by metis
qed

end
