(* ===== verification/Utf8.thy ===== *)
theory Utf8
  imports Prelude
begin

text \<open>
  The UTF-8 converters, src/mgw-core/util/source/utf8.c (the branch without the Windows API).
  \<open>wchar_t\<close> is a signed 32-bit integer, held as its word; \<open>size_t\<close> values are naturals. An
  input is the list of what is readable from the pointer on; reading behind it is \<open>None\<close>. An output
  buffer is its capacity, or \<open>None\<close> for NULL; the results are the value returned and what was
  written.
\<close>

section \<open>Definitions\<close>

record utf8_flags =
  ignore_error :: bool
  skip_bom :: bool

definition BOM :: u32 where "BOM = 0xfeff"

definition wchar_forbidden :: "u32 \<Rightarrow> bool" where
  "wchar_forbidden w \<longleftrightarrow> 0xd800 \<le> w \<and> w \<le> 0xdfff"

definition utf8_forbidden :: "byte \<Rightarrow> bool" where
  "utf8_forbidden b \<longleftrightarrow> b = 0xc0 \<or> b = 0xc1 \<or> b = 0xf5 \<or> b = 0xff"

text \<open>The length of the sequence a byte starts, and the bits of the character in it.\<close>

definition seq_header :: "byte \<Rightarrow> (nat \<times> u32) option" where
  "seq_header b =
     (if b AND 0x80 = 0 then Some (1, ucast b)
      else if b AND 0xe0 = 0xc0 then Some (2, ucast (b AND 0x1f))
      else if b AND 0xf0 = 0xe0 then Some (3, ucast (b AND 0x0f))
      else if b AND 0xf8 = 0xf0 then Some (4, ucast (b AND 0x07))
      else if b AND 0xfc = 0xf8 then Some (5, ucast (b AND 0x03))
      else if b AND 0xfe = 0xfc then Some (6, ucast (b AND 0x01))
      else None)"

text \<open>Are the next \<open>k\<close> bytes continuation bytes? The first that is not ends the reading.\<close>

fun conts :: "nat \<Rightarrow> bytes \<Rightarrow> bool option" where
  "conts 0 bs = Some True"
| "conts (Suc k) [] = None"
| "conts (Suc k) (b # bs) = (if b AND 0xc0 = 0x80 then conts k bs else Some False)"

text \<open>The loop over the continuation bytes, from the last, and the header bits on top.\<close>

fun low_six :: "bytes \<Rightarrow> u32 \<times> nat \<Rightarrow> u32 \<times> nat" where
  "low_six [] st = st"
| "low_six (b # bs) (out, n_bits) = low_six bs (out OR push_bit n_bits (ucast (b AND 0x3f)), n_bits + 6)"

definition assemble :: "u32 \<Rightarrow> bytes \<Rightarrow> u32" where
  "assemble high bs = (let (out, n_bits) = low_six (rev bs) (0, 0) in out OR push_bit n_bits high)"

text \<open>The loop of \<open>utf8_to_wchar\<close>: \<open>lim\<close> tells whether the input has a size, \<open>bs\<close> is what is left of
  it, \<open>ws\<close> what was written; with NULL as output \<open>cnt\<close> still counts.\<close>

function utf8_loop :: "utf8_flags \<Rightarrow> bool \<Rightarrow> nat option \<Rightarrow> bytes \<Rightarrow> nat \<Rightarrow> u32 list \<Rightarrow> (nat \<times> u32 list) option" where
  "utf8_loop fl lim out [] cnt ws = (if lim then Some (cnt, ws) else None)"
| "utf8_loop fl lim out (b # bs) cnt ws =
     (if b = 0 then Some (cnt, ws)
      else if utf8_forbidden b \<and> \<not> ignore_error fl then Some (0, ws)
      else case seq_header b of
        None \<Rightarrow> if ignore_error fl then utf8_loop fl lim out bs cnt ws else Some (0, ws)
      | Some (n, high) \<Rightarrow>
          if lim \<and> Suc (length bs) \<le> n - 1
          then if ignore_error fl then utf8_loop fl lim out bs cnt ws else Some (0, ws)
          else case conts (n - 1) bs of
            None \<Rightarrow> None
          | Some False \<Rightarrow> if ignore_error fl then utf8_loop fl lim out bs cnt ws else Some (0, ws)
          | Some True \<Rightarrow>
              (case out of
                 None \<Rightarrow> utf8_loop fl lim out (drop (n - 1) bs) (cnt + 1) ws
               | Some cap \<Rightarrow>
                   if cap \<le> length ws then Some (0, ws)
                   else let w = assemble high (take (n - 1) bs) in
                     if wchar_forbidden w
                     then if ignore_error fl then utf8_loop fl lim out (drop (n - 1) bs) cnt ws else Some (0, ws @ [w])
                     else if w = BOM \<and> skip_bom fl then utf8_loop fl lim out (drop (n - 1) bs) cnt ws
                     else utf8_loop fl lim out (drop (n - 1) bs) (cnt + 1) (ws @ [w])))"
  by pat_completeness auto
termination by (relation "measure (\<lambda>(_, _, _, bs, _, _). length bs)") auto

definition utf8_to_wchar :: "bytes option \<Rightarrow> nat \<Rightarrow> nat option \<Rightarrow> utf8_flags \<Rightarrow> (nat \<times> u32 list) option" where
  "utf8_to_wchar inp insize out fl = (case inp of
     None \<Rightarrow> Some (0, [])
   | Some bs \<Rightarrow>
       if out = Some 0 then Some (0, [])
       else if insize = 0 then utf8_loop fl False out bs 0 []
       else if length bs < insize then None
       else utf8_loop fl True out (take insize bs) 0 [])"

text \<open>The bytes of a character in memory, least significant first, and its length in UTF-8.\<close>

definition oc :: "u32 \<Rightarrow> nat \<Rightarrow> byte" where
  "oc w k = ucast (drop_bit (8 * k) w)"

definition seq_length :: "u32 \<Rightarrow> nat" where
  "seq_length w =
     (if w \<le> 0x7f then 1 else if w \<le> 0x7ff then 2 else if w \<le> 0xffff then 3
      else if w \<le> 0x1fffff then 4 else if w \<le> 0x3ffffff then 5 else 6)"

definition put_seq :: "u32 \<Rightarrow> bytes" where
  "put_seq w = (let n = seq_length w in
      if n = 1 then [oc w 0]
      else if n = 2 then
      [0xc0 OR drop_bit 6 (oc w 0) OR push_bit 2 (oc w 1 AND 0x07),
       0x80 OR (oc w 0 AND 0x3f)]
      else if n = 3 then
      [0xe0 OR drop_bit 4 (oc w 1 AND 0xf0),
       0x80 OR drop_bit 6 (oc w 0) OR push_bit 2 (oc w 1 AND 0x0f),
       0x80 OR (oc w 0 AND 0x3f)]
      else if n = 4 then
      [0xf0 OR drop_bit 2 (oc w 2 AND 0x1f),
       0x80 OR drop_bit 4 (oc w 1 AND 0xf0) OR push_bit 4 (oc w 2 AND 0x03),
       0x80 OR drop_bit 6 (oc w 0) OR push_bit 2 (oc w 1 AND 0x0f),
       0x80 OR (oc w 0 AND 0x3f)]
      else if n = 5 then
      [0xf8 OR (oc w 3 AND 0x03),
       0x80 OR drop_bit 2 (oc w 2),
       0x80 OR drop_bit 4 (oc w 1 AND 0xf0) OR push_bit 4 (oc w 2 AND 0x03),
       0x80 OR drop_bit 6 (oc w 0) OR push_bit 2 (oc w 1 AND 0x0f),
       0x80 OR (oc w 0 AND 0x3f)]
      else
      [0xfc OR drop_bit 6 (oc w 3 AND 0x40),
       0x80 OR (oc w 3 AND 0x3f),
       0x80 OR drop_bit 2 (oc w 2),
       0x80 OR drop_bit 4 (oc w 1) OR push_bit 4 (oc w 2 AND 0x03),
       0x80 OR drop_bit 6 (oc w 0) OR push_bit 2 (oc w 1 AND 0x0f),
       0x80 OR (oc w 0 AND 0x3f)])"

text \<open>The loop of \<open>wchar_to_utf8\<close>.\<close>

fun wchar_loop :: "utf8_flags \<Rightarrow> bool \<Rightarrow> nat option \<Rightarrow> u32 list \<Rightarrow> nat \<Rightarrow> bytes \<Rightarrow> (nat \<times> bytes) option" where
  "wchar_loop fl lim out [] cnt ps = (if lim then Some (cnt, ps) else None)"
| "wchar_loop fl lim out (w # ws) cnt ps =
     (if w = 0 then Some (cnt, ps)
      else if wchar_forbidden w then if ignore_error fl then wchar_loop fl lim out ws cnt ps else Some (0, ps)
      else if w = BOM \<and> skip_bom fl then wchar_loop fl lim out ws cnt ps
      else if sint w < 0 then if ignore_error fl then wchar_loop fl lim out ws cnt ps else Some (0, ps)
      else let n = seq_length w in
        case out of
          None \<Rightarrow> wchar_loop fl lim out ws (cnt + n) ps
        | Some cap \<Rightarrow> if cap - length ps \<le> n - 1 then Some (0, ps)
                      else wchar_loop fl lim out ws (cnt + n) (ps @ put_seq w))"

definition wchar_to_utf8 :: "u32 list option \<Rightarrow> nat \<Rightarrow> nat option \<Rightarrow> utf8_flags \<Rightarrow> (nat \<times> bytes) option" where
  "wchar_to_utf8 inp insize out fl = (case inp of
     None \<Rightarrow> Some (0, [])
   | Some ws \<Rightarrow>
       if out = Some 0 then Some (0, [])
       else if insize = 0 then wchar_loop fl False out ws 0 []
       else if length ws < insize then None
       else wchar_loop fl True out (take insize ws) 0 [])"

section \<open>Sequences by digits\<close>

text \<open>The \<open>k\<close>-th group of six bits as a continuation byte, and the first byte of a sequence.\<close>

definition next_byte :: "u32 \<Rightarrow> nat \<Rightarrow> byte" where
  "next_byte w k = 0x80 OR ucast (take_bit 6 (drop_bit (6 * k) w))"

definition first_byte :: "nat \<Rightarrow> u32 \<Rightarrow> byte" where
  "first_byte n w =
     (if n = 1 then ucast w
      else (if n = 2 then 0xc0 else if n = 3 then 0xe0 else if n = 4 then 0xf0 else if n = 5 then 0xf8 else 0xfc) OR
        ucast (take_bit (7 - n) (drop_bit (6 * (n - 1)) w)))"

lemma byte_eqI:
  fixes a b :: byte
  assumes "bit a 0 = bit b 0" "bit a 1 = bit b 1" "bit a 2 = bit b 2" "bit a 3 = bit b 3"
    "bit a 4 = bit b 4" "bit a 5 = bit b 5" "bit a 6 = bit b 6" "bit a 7 = bit b 7"
  shows "a = b"
proof (rule bit_word_eqI)
  fix i assume "i < LENGTH(8)"
  then have "i = 0 \<or> i = 1 \<or> i = 2 \<or> i = 3 \<or> i = 4 \<or> i = 5 \<or> i = 6 \<or> i = 7" by simp linarith
  then show "bit a i = bit b i" using assms by (elim disjE) simp_all
qed

lemma next_bytes:
  "0x80 OR (oc w 0 AND 0x3f) = next_byte w 0"
  "0x80 OR drop_bit 6 (oc w 0) OR push_bit 2 (oc w 1 AND 0x0f) = next_byte w 1"
  "0x80 OR drop_bit 4 (oc w 1 AND 0xf0) OR push_bit 4 (oc w 2 AND 0x03) = next_byte w 2"
  "0x80 OR drop_bit 4 (oc w 1) OR push_bit 4 (oc w 2 AND 0x03) = next_byte w 2"
  "0x80 OR drop_bit 2 (oc w 2) = next_byte w 3"
  "0x80 OR (oc w 3 AND 0x3f) = next_byte w 4"
  by (rule byte_eqI; simp add: next_byte_def oc_def bit_simps)+

lemma first_bytes:
  "oc w 0 = first_byte 1 w"
  "0xc0 OR drop_bit 6 (oc w 0) OR push_bit 2 (oc w 1 AND 0x07) = first_byte 2 w"
  "0xe0 OR drop_bit 4 (oc w 1 AND 0xf0) = first_byte 3 w"
  "0xf0 OR drop_bit 2 (oc w 2 AND 0x1f) = first_byte 4 w"
  "0xf8 OR (oc w 3 AND 0x03) = first_byte 5 w"
  "0xfc OR drop_bit 6 (oc w 3 AND 0x40) = first_byte 6 w"
  by (rule byte_eqI; simp add: first_byte_def oc_def bit_simps; simp add: bit_iff_odd_drop_bit)+

lemma seq_length_range: "1 \<le> seq_length w" "seq_length w \<le> 6"
  by (simp_all add: seq_length_def)

lemma put_seq_digits: "put_seq w = first_byte (seq_length w) w # map (next_byte w) (rev [0..<seq_length w - 1])"
proof -
  have u: "[0..<2] = [0, 1 :: nat]" "[0..<3] = [0, 1, 2 :: nat]" "[0..<4] = [0, 1, 2, 3 :: nat]" "[0..<5] = [0, 1, 2, 3, 4 :: nat]"
    by code_simp+
  have "seq_length w \<in> {1, 2, 3, 4, 5, 6}" by (simp add: seq_length_def)
  then show ?thesis
    unfolding put_seq_def next_bytes first_bytes(2-) by (elim insertE) (simp_all add: first_bytes(1) u)
qed

text \<open>First bytes of sequences, by all values of the bits they carry.\<close>

lemma headers:
  "list_all (\<lambda>x. seq_header (of_nat x) = Some (1, of_nat x) \<and> \<not> utf8_forbidden (of_nat x)) [0..<128]"
  "list_all (\<lambda>x. seq_header (0xc0 OR of_nat x) = Some (2, of_nat x) \<and> (2 \<le> x \<longrightarrow> \<not> utf8_forbidden (0xc0 OR of_nat x)) \<and> (0xc0 OR of_nat x :: byte) \<noteq> 0) [0..<32]"
  "list_all (\<lambda>x. seq_header (0xe0 OR of_nat x) = Some (3, of_nat x) \<and> \<not> utf8_forbidden (0xe0 OR of_nat x) \<and> (0xe0 OR of_nat x :: byte) \<noteq> 0) [0..<16]"
  "list_all (\<lambda>x. seq_header (0xf0 OR of_nat x) = Some (4, of_nat x) \<and> (x \<noteq> 5 \<longrightarrow> \<not> utf8_forbidden (0xf0 OR of_nat x)) \<and> (0xf0 OR of_nat x :: byte) \<noteq> 0) [0..<8]"
  "list_all (\<lambda>x. seq_header (0xf8 OR of_nat x) = Some (5, of_nat x) \<and> \<not> utf8_forbidden (0xf8 OR of_nat x) \<and> (0xf8 OR of_nat x :: byte) \<noteq> 0) [0..<4]"
  "list_all (\<lambda>x. seq_header (0xfc OR of_nat x) = Some (6, of_nat x) \<and> \<not> utf8_forbidden (0xfc OR of_nat x) \<and> (0xfc OR of_nat x :: byte) \<noteq> 0) [0..<2]"
  by code_simp+

text \<open>Characters that are converted as they are.\<close>

definition plain :: "utf8_flags \<Rightarrow> u32 \<Rightarrow> bool" where
  "plain fl w \<longleftrightarrow> w \<noteq> 0 \<and> unat w < 2 ^ 31 \<and> \<not> wchar_forbidden w \<and> \<not> (0x140000 \<le> unat w \<and> unat w < 0x180000) \<and>
     \<not> (w = BOM \<and> skip_bom fl)"

lemma seq_length_unat:
  "seq_length w = (if unat w < 0x80 then 1 else if unat w < 0x800 then 2 else if unat w < 0x10000 then 3
     else if unat w < 0x200000 then 4 else if unat w < 0x4000000 then 5 else 6)"
  by (simp add: seq_length_def word_le_nat_alt)

lemma ucast_digits:
  assumes "unat w < 2 ^ (k + m)"
  shows "(ucast (take_bit m (drop_bit k w)) :: byte) = of_nat (unat w div 2 ^ k)" and "of_nat (unat w div 2 ^ k) = (drop_bit k w :: u32)"
    and "unat w div 2 ^ k < 2 ^ m"
proof -
  show l: "unat w div 2 ^ k < 2 ^ m" using assms by (simp add: less_mult_imp_div_less power_add mult.commute)
  have u: "unat (drop_bit k w) = unat w div 2 ^ k" unfolding unat_drop_bit_eq by (rule drop_bit_eq_div)
  then show d: "of_nat (unat w div 2 ^ k) = drop_bit k w" by (simp add: u [symmetric])
  have "unat (take_bit m (drop_bit k w)) = unat (drop_bit k w)"
    using l u by (simp add: unsigned_take_bit_eq take_bit_nat_eq_self)
  then have "take_bit m (drop_bit k w) = drop_bit k w" by (rule unsigned_word_eqI)
  then show "(ucast (take_bit m (drop_bit k w)) :: byte) = of_nat (unat w div 2 ^ k)"
    by (simp add: u [symmetric])
qed

lemma first_header:
  assumes "plain fl w" and "n = seq_length w"
  shows "seq_header (first_byte n w) = Some (n, drop_bit (6 * (n - 1)) w)" and "\<not> utf8_forbidden (first_byte n w)"
    and "first_byte n w \<noteq> 0"
proof -
  have w: "unat w < 2 ^ 31" "unat w \<noteq> 0" "\<not> (0x140000 \<le> unat w \<and> unat w < 0x180000)"
    using assms(1) by (auto simp: plain_def unat_eq_0)
  consider "n = 1" "unat w < 0x80" | "n = 2" "0x80 \<le> unat w" "unat w < 2 ^ (6 + 5)" | "n = 3" "unat w < 2 ^ (12 + 4)"
    | "n = 4" "unat w < 2 ^ (18 + 3)" | "n = 5" "unat w < 2 ^ (24 + 2)" | "n = 6" "unat w < 2 ^ (30 + 1)"
    using w assms(2) by (auto simp: seq_length_unat split: if_splits)
  then have "seq_header (first_byte n w) = Some (n, drop_bit (6 * (n - 1)) w) \<and> \<not> utf8_forbidden (first_byte n w) \<and>
    first_byte n w \<noteq> 0"
  proof cases
    case 1
    have "(ucast w :: byte) = of_nat (unat w)" "w = of_nat (unat w)" by simp_all
    moreover have "unat (ucast w :: byte) = unat w" using 1 by (simp add: unsigned_ucast_eq take_bit_nat_eq_self)
    then have "(ucast w :: byte) \<noteq> 0" using w(2) by auto
    moreover have "seq_header (of_nat (unat w)) = Some (1, of_nat (unat w)) \<and> \<not> utf8_forbidden (of_nat (unat w))"
      by (rule bspec [OF headers(1) [unfolded list_all_iff set_upt]]) (use 1(2) in simp)
    ultimately show ?thesis using 1(1) by (simp add: first_byte_def)
  next
    case 2
    note d = ucast_digits [OF 2(3)]
    have "2 \<le> unat w div 2 ^ 6" using 2(2) by (simp add: less_eq_div_iff_mult_less_eq)
    then show ?thesis using headers(2) d 2(1) by (simp add: list_all_iff first_byte_def)
  next
    case 3
    note d = ucast_digits [OF 3(2)]
    then show ?thesis using headers(3) 3(1) by (simp add: list_all_iff first_byte_def)
  next
    case 4
    note d = ucast_digits [OF 4(2)]
    have "unat w div 2 ^ 18 \<noteq> 5" using w(3) by auto
    then show ?thesis using headers(4) d 4(1) by (simp add: list_all_iff first_byte_def)
  next
    case 5
    note d = ucast_digits [OF 5(2)]
    then show ?thesis using headers(5) 5(1) by (simp add: list_all_iff first_byte_def)
  next
    case 6
    note d = ucast_digits [OF 6(2)]
    then show ?thesis using headers(6) 6(1) by (simp add: list_all_iff first_byte_def)
  qed
  then show "seq_header (first_byte n w) = Some (n, drop_bit (6 * (n - 1)) w)" "\<not> utf8_forbidden (first_byte n w)"
    "first_byte n w \<noteq> 0" by blast+
qed

text \<open>The continuation bytes.\<close>

lemma next_byte_bits:
  "next_byte w k AND 0xc0 = 0x80"
  "(ucast (next_byte w k AND 0x3f) :: u32) = take_bit 6 (drop_bit (6 * k) w)"
proof -
  show "next_byte w k AND 0xc0 = 0x80" by (rule byte_eqI; simp add: next_byte_def bit_simps)
  have "next_byte w k AND 0x3f = ucast (take_bit 6 (drop_bit (6 * k) w))"
    by (rule byte_eqI; simp add: next_byte_def bit_simps)
  then show "(ucast (next_byte w k AND 0x3f) :: u32) = take_bit 6 (drop_bit (6 * k) w)"
    by (intro bit_word_eqI) (auto simp: bit_simps)
qed

lemma conts_next: "conts (length bs) (bs @ rest) = Some True \<longleftrightarrow> (\<forall>b \<in> set bs. b AND 0xc0 = 0x80)"
  by (induction bs) auto

lemma low_six_append: "low_six (xs @ ys) st = low_six ys (low_six xs st)"
  by (induction xs st rule: low_six.induct) simp_all

lemma low_six_digits: "low_six (map (next_byte w) [0..<m]) (0, 0) = (take_bit (6 * m) w, 6 * m)"
proof (induction m)
  case (Suc m)
  have "take_bit (6 * m) w OR push_bit (6 * m) (take_bit 6 (drop_bit (6 * m) w)) = take_bit (6 * Suc m) w"
    by (rule bit_word_eqI) (auto simp: bit_simps)
  then show ?case using Suc by (simp add: low_six_append next_byte_bits)
qed simp

lemma assemble_digits: "assemble (drop_bit (6 * m) w) (map (next_byte w) (rev [0..<m])) = w"
proof -
  have "take_bit (6 * m) w OR push_bit (6 * m) (drop_bit (6 * m) w) = w"
    by (rule bit_word_eqI) (auto simp: bit_simps, metis le_add_diff_inverse not_less)
  then show ?thesis by (simp add: assemble_def rev_map low_six_digits)
qed

section \<open>Converting back\<close>

definition encode :: "u32 list \<Rightarrow> bytes" where
  "encode ws = concat (map put_seq ws)"

lemma length_put_seq: "length (put_seq w) = seq_length w"
  using seq_length_range [of w] by (simp add: put_seq_digits)

lemma encode_loop:
  "\<forall>w \<in> set ws. plain fl w \<Longrightarrow> (case out of None \<Rightarrow> True | Some cap \<Rightarrow> length ps + length (encode ws) \<le> cap) \<Longrightarrow>
   wchar_loop fl True out ws cnt ps =
     Some (cnt + length (encode ws), if out = None then ps else ps @ encode ws)"
proof (induction ws arbitrary: cnt ps)
  case (Cons w ws)
  have "unat w < 2 ^ 31" using Cons.prems(1) by (simp add: plain_def)
  then have "uint w < 2 ^ 31" unfolding uint_nat by (metis of_nat_less_iff of_nat_numeral of_nat_power)
  then have "sint w = uint w" 
    unfolding sint_uint by (intro signed_take_bit_int_eq_self) (auto intro: order_trans [OF _ uint_ge_0])
  then have "\<not> sint w < 0" by simp
  moreover have "\<not> cap - length ps \<le> seq_length w - 1" if "out = Some cap" for cap
    using that Cons.prems(2) seq_length_range [of w] by (simp add: encode_def length_put_seq)
  ultimately show ?case
    using Cons by (auto simp: plain_def encode_def length_put_seq Let_def split: option.splits)
qed (simp add: encode_def)

lemma decode_loop:
  "\<forall>w \<in> set ws. plain fl w \<Longrightarrow> (case out of None \<Rightarrow> True | Some cap \<Rightarrow> length vs + length ws \<le> cap) \<Longrightarrow>
   utf8_loop fl True out (encode ws) cnt vs = Some (cnt + length ws, if out = None then vs else vs @ ws)"
proof (induction ws arbitrary: cnt vs)
  case (Cons w ws)
  define n where "n = seq_length w"
  have p: "plain fl w" using Cons.prems(1) by simp
  note h = first_header [OF p n_def]
  define cs where "cs = map (next_byte w) (rev [0..<n - 1])"
  have n: "length cs = n - 1" "1 \<le> n" using seq_length_range [of w] by (simp_all add: cs_def n_def)
  have e: "encode (w # ws) = first_byte n w # cs @ encode ws" by (simp add: encode_def put_seq_digits n_def cs_def)
  have c: "conts (n - 1) (cs @ encode ws) = Some True"
    using conts_next [of cs] by (simp add: n(1)) (simp add: cs_def next_byte_bits)
  have a: "assemble (drop_bit (6 * (n - 1)) w) cs = w" unfolding cs_def by (rule assemble_digits)
  show ?case
    using Cons p n h c a by (auto simp: e plain_def Let_def split: option.splits)
qed (simp add: encode_def)

lemma encode_Nil_iff: "encode ws = [] \<longleftrightarrow> ws = []"
  by (cases ws) (simp_all add: encode_def put_seq_digits)

text \<open>C19: Characters that are neither zero, negative, surrogates nor (when it is skipped) the byte order
  mark, nor start with the refused byte 0xf5, come back from UTF-8 as they were; the size asked for
  with NULL as output is the size written, in both directions.\<close>

theorem utf8_roundtrip:
  assumes "ws \<noteq> []" and "\<forall>w \<in> set ws. plain fl w"
  shows "\<exists>bs. wchar_to_utf8 (Some ws) (length ws) None fl = Some (length bs, []) \<and>
    wchar_to_utf8 (Some ws) (length ws) (Some (length bs)) fl = Some (length bs, bs) \<and>
    utf8_to_wchar (Some bs) (length bs) None fl = Some (length ws, []) \<and>
    utf8_to_wchar (Some bs) (length bs) (Some (length ws)) fl = Some (length ws, ws)"
proof (intro exI [of _ "encode ws"] conjI)
  have ne: "encode ws \<noteq> []" using assms(1) by (simp add: encode_Nil_iff)
  show "wchar_to_utf8 (Some ws) (length ws) None fl = Some (length (encode ws), [])"
    "wchar_to_utf8 (Some ws) (length ws) (Some (length (encode ws))) fl = Some (length (encode ws), encode ws)"
    using assms ne encode_loop [OF assms(2)] by (simp_all add: wchar_to_utf8_def)
  show "utf8_to_wchar (Some (encode ws)) (length (encode ws)) None fl = Some (length ws, [])"
    "utf8_to_wchar (Some (encode ws)) (length (encode ws)) (Some (length ws)) fl = Some (length ws, ws)"
    using assms ne decode_loop [OF assms(2)] by (simp_all add: utf8_to_wchar_def)
qed

theorem utf8_roundtrip_witness:
  "\<exists>bs. wchar_to_utf8 (Some [0x41, 0xe9, 0x20ac, 0x1f600]) 4 (Some (length bs)) \<lparr>ignore_error = False, skip_bom = True\<rparr> =
      Some (length bs, bs) \<and>
    utf8_to_wchar (Some bs) (length bs) (Some 4) \<lparr>ignore_error = False, skip_bom = True\<rparr> =
      Some (4, [0x41, 0xe9, 0x20ac, 0x1f600])"
proof -
  let ?ws = "[0x41, 0xe9, 0x20ac, 0x1f600] :: u32 list" and ?fl = "\<lparr>ignore_error = False, skip_bom = True\<rparr>"
  have "\<forall>w \<in> set ?ws. plain ?fl w" by (simp add: plain_def wchar_forbidden_def BOM_def)
  moreover have l: "length ?ws = 4" by simp
  ultimately show ?thesis using utf8_roundtrip [of ?ws ?fl, unfolded l] by blast
qed

section \<open>Bounds\<close>

text \<open>Inputs that are long enough for their size, or end with a zero.\<close>

definition readable :: "bool \<Rightarrow> 'a::zero list \<Rightarrow> bool" where
  "readable lim xs \<longleftrightarrow> lim \<or> 0 \<in> set xs"

lemma conts_safe:
  assumes "lim \<longrightarrow> k \<le> length bs" and "readable lim bs"
  shows "\<exists>r. conts k bs = Some r \<and> (r \<longrightarrow> readable lim (drop k bs))"
  using assms
proof (induction k bs rule: conts.induct)
  case (3 k b bs)
  then show ?case by (cases "b = 0") (auto simp: readable_def)
qed (auto simp: readable_def)

text \<open>A result fits: what was written is within the buffer, and a nonzero value returned counts it.\<close>

definition fits :: "nat option \<Rightarrow> nat \<Rightarrow> 'a list \<Rightarrow> bool" where
  "fits out r xs \<longleftrightarrow> (case out of None \<Rightarrow> xs = [] | Some cap \<Rightarrow> length xs \<le> cap \<and> (r \<noteq> 0 \<longrightarrow> r = length xs))"

lemma fits_zero: "fits out r xs \<Longrightarrow> fits out 0 xs"
  by (auto simp: fits_def split: option.splits)

lemma utf8_loop_fits:
  "readable lim bs \<Longrightarrow> fits out cnt ws \<Longrightarrow> (out \<noteq> None \<Longrightarrow> cnt = length ws) \<Longrightarrow>
   \<exists>r vs. utf8_loop fl lim out bs cnt ws = Some (r, vs) \<and> fits out r vs"
proof (induction bs arbitrary: cnt ws rule: length_induct)
  case (1 bs)
  show ?case
  proof (cases bs)
    case Nil
    then show ?thesis using 1 by (auto simp: readable_def)
  next
    case (Cons b bs')
    have z: "fits out 0 ws" using 1(3) by (rule fits_zero)
    show ?thesis
    proof (cases "b = 0 \<or> utf8_forbidden b \<and> \<not> ignore_error fl")
      case True
      then show ?thesis using 1(3) z Cons by auto
    next
      case False
      then have rd: "readable lim bs'" using 1(2) Cons by (auto simp: readable_def)
      have skip: "\<exists>r vs. utf8_loop fl lim out bs' cnt ws = Some (r, vs) \<and> fits out r vs"
        using 1 rd Cons by auto
      show ?thesis
      proof (cases "\<exists>n high. seq_header b = Some (n, high) \<and> \<not> (lim \<and> Suc (length bs') \<le> n - 1)")
        case no: False
        then show ?thesis using False skip z Cons by (cases "seq_header b") auto
      next
        case True
        then obtain n high where h: "seq_header b = Some (n, high)" "\<not> (lim \<and> Suc (length bs') \<le> n - 1)" by blast
        then obtain c where c: "conts (n - 1) bs' = Some c" "c \<longrightarrow> readable lim (drop (n - 1) bs')"
          using conts_safe [of lim "n - 1" bs'] rd by auto
        define w where "w = assemble high (take (n - 1) bs')"
        have go: "\<exists>r vs. utf8_loop fl lim out (drop (n - 1) bs') cnt' ws' = Some (r, vs) \<and> fits out r vs"
          if "c" "fits out cnt' ws'" "out \<noteq> None \<Longrightarrow> cnt' = length ws'" for cnt' ws'
          using 1(1) c(2) that Cons by (metis diff_le_self le_imp_less_Suc length_Cons length_drop)
        show ?thesis
        proof (cases c)
          case no: False
          then show ?thesis using False h c(1) skip z Cons by auto
        next
          case yes: True
          show ?thesis
          proof (cases out)
            case None
            then show ?thesis using False h c(1) yes Cons go [OF yes, of "cnt + 1" ws] 1(3) by (auto simp: fits_def)
          next
            case (Some cap)
            have l: "cnt = length ws" "length ws \<le> cap" using 1(3,4) Some by (auto simp: fits_def)
            have g: "\<exists>r vs. utf8_loop fl lim out (drop (n - 1) bs') cnt ws = Some (r, vs) \<and> fits out r vs"
              using go [OF yes] 1(3,4) by blast
            have g1: "\<exists>r vs. utf8_loop fl lim out (drop (n - 1) bs') (cnt + 1) (ws @ [w]) = Some (r, vs) \<and> fits out r vs"
              if "length ws < cap" using go [OF yes, of "cnt + 1" "ws @ [w]"] l that Some by (simp add: fits_def)
            have f: "fits out 0 (ws @ [w])" if "length ws < cap" using that Some by (simp add: fits_def)
            have eq: "utf8_loop fl lim out bs cnt ws =
                (if cap \<le> length ws then Some (0, ws)
                 else if wchar_forbidden w
                 then if ignore_error fl then utf8_loop fl lim out (drop (n - 1) bs') cnt ws else Some (0, ws @ [w])
                 else if w = BOM \<and> skip_bom fl then utf8_loop fl lim out (drop (n - 1) bs') cnt ws
                 else utf8_loop fl lim out (drop (n - 1) bs') (cnt + 1) (ws @ [w]))"
              using False h c(1) yes Cons Some by (auto simp: w_def Let_def)
            show ?thesis
            proof (cases "cap \<le> length ws")
              case True
              then show ?thesis unfolding eq using z by auto
            next
              case room: False
              then show ?thesis unfolding eq using g g1 f by (simp (no_asm_simp)) (use room in auto)
            qed
          qed
        qed
      qed
    qed
  qed
qed

lemma wchar_loop_fits:
  "readable lim xs \<Longrightarrow> fits out cnt ps \<Longrightarrow> (out \<noteq> None \<Longrightarrow> cnt = length ps) \<Longrightarrow>
   \<exists>r qs. wchar_loop fl lim out xs cnt ps = Some (r, qs) \<and> fits out r qs"
proof (induction xs arbitrary: cnt ps)
  case Nil
  then show ?case by (auto simp: readable_def)
next
  case (Cons w xs)
  have z: "fits out 0 ps" using Cons.prems(2) by (rule fits_zero)
  show ?case
  proof (cases "w = 0")
    case True
    then show ?thesis using Cons.prems(2) by auto
  next
    case False
    then have rd: "readable lim xs" using Cons.prems(1) by (auto simp: readable_def)
    note ih = Cons.IH [OF rd]
    have skip: "\<exists>r qs. wchar_loop fl lim out xs cnt ps = Some (r, qs) \<and> fits out r qs"
      using ih Cons.prems(2,3) by blast
    have put: "\<exists>r qs. wchar_loop fl lim out xs (cnt + seq_length w) (ps @ put_seq w) = Some (r, qs) \<and> fits out r qs"
      if "out = Some cap" "\<not> cap - length ps \<le> seq_length w - 1" for cap
      using that Cons.prems(2,3) seq_length_range [of w] by (intro ih) (auto simp: fits_def length_put_seq)
    have count: "\<exists>r qs. wchar_loop fl lim out xs (cnt + seq_length w) ps = Some (r, qs) \<and> fits out r qs"
      if "out = None" using that Cons.prems(2) by (intro ih) (auto simp: fits_def)
    show ?thesis using False skip put count z by (cases out) (auto simp: Let_def)
  qed
qed

text \<open>C20: Neither converter reads behind its input (of the given size, or up to a zero) nor writes more than the
  output holds, whatever the input is; a nonzero result is the count of what was written.\<close>

theorem utf8_within_bounds:
  assumes "insize \<noteq> 0 \<and> insize \<le> length bs \<or> insize = 0 \<and> 0 \<in> set bs"
    and "wsize \<noteq> 0 \<and> wsize \<le> length ws \<or> wsize = 0 \<and> 0 \<in> set ws"
  shows "(\<exists>r vs. utf8_to_wchar (Some bs) insize out fl = Some (r, vs) \<and> fits out r vs) \<and>
    (\<exists>r ps. wchar_to_utf8 (Some ws) wsize out fl = Some (r, ps) \<and> fits out r ps)"
proof
  have e: "fits out 0 []" by (simp add: fits_def split: option.splits)
  show "\<exists>r vs. utf8_to_wchar (Some bs) insize out fl = Some (r, vs) \<and> fits out r vs"
    using assms(1) e utf8_loop_fits [of "insize \<noteq> 0" "if insize = 0 then bs else take insize bs" out 0 "[]" fl]
    by (auto simp: utf8_to_wchar_def readable_def)
  show "\<exists>r ps. wchar_to_utf8 (Some ws) wsize out fl = Some (r, ps) \<and> fits out r ps"
    using assms(2) e wchar_loop_fits [of "wsize \<noteq> 0" "if wsize = 0 then ws else take wsize ws" out 0 "[]" fl]
    by (auto simp: wchar_to_utf8_def readable_def)
qed

theorem utf8_within_bounds_witness:
  "\<exists>r vs. utf8_to_wchar (Some [0xe2, 0x82, 0]) 0 (Some 1) \<lparr>ignore_error = True, skip_bom = False\<rparr> = Some (r, vs) \<and>
    fits (Some 1) r vs"
  using utf8_within_bounds [of 0 "[0xe2, 0x82, 0]" 1 "[0x41]"] by simp

end
