(* ===== verification/Context.thy ===== *)
theory Context
  imports Prelude
begin

text \<open>
  The lists of named objects and their reference counts, src/mgw-core/core-api/mgw.c and the inline
  functions of mgw-internal.h. Every source, output, stream, device and service starts with a
  \<open>mgw_context_data\<close>, linked through \<open>next\<close> and \<open>prev_next\<close>, the place that
  points to it: the head variable of a list or the \<open>next\<close> of its predecessor. Contexts live at addresses;
  access to one that is not there is \<open>None\<close>.
\<close>

section \<open>Contexts\<close>

datatype place = Head nat | Next nat

record mgw_context =
  obj_name :: string
  c_private :: bool
  c_next :: "nat option"
  prev_next :: "place option"
  c_mutex :: "nat option"

text \<open>The contexts in memory and the head variables.\<close>

record cheap =
  ctxs :: "nat \<Rightarrow> mgw_context option"
  firsts :: "nat \<Rightarrow> nat option"

text \<open>\<open>*p = v\<close>, and a field of the context at \<open>a\<close>.\<close>

definition put_ctx :: "nat \<Rightarrow> (mgw_context \<Rightarrow> mgw_context) \<Rightarrow> cheap \<Rightarrow> cheap option" where
  "put_ctx a f h = map_option (\<lambda>c. h\<lparr>ctxs := (ctxs h)(a \<mapsto> f c)\<rparr>) (ctxs h a)"

definition put_place :: "place \<Rightarrow> nat option \<Rightarrow> cheap \<Rightarrow> cheap option" where
  "put_place p v h = (case p of Head l \<Rightarrow> Some (h\<lparr>firsts := (firsts h)(l := v)\<rparr>)
     | Next a \<Rightarrow> put_ctx a (c_next_update (\<lambda>_. v)) h)"

definition mgw_context_data_insert :: "nat \<Rightarrow> nat \<Rightarrow> nat \<Rightarrow> cheap \<Rightarrow> cheap option" where
  "mgw_context_data_insert a m l h = do {
     h \<leftarrow> put_ctx a (\<lambda>c. c\<lparr>c_mutex := Some m, prev_next := Some (Head l), c_next := firsts h l\<rparr>) h;
     h \<leftarrow> put_place (Head l) (Some a) h;
     c \<leftarrow> ctxs h a;
     (case c_next c of None \<Rightarrow> Some h | Some b \<Rightarrow> put_ctx b (prev_next_update (\<lambda>_. Some (Next a))) h) }"

definition mgw_context_data_remove :: "nat \<Rightarrow> cheap \<Rightarrow> cheap option" where
  "mgw_context_data_remove a h = do {
     c \<leftarrow> ctxs h a;
     if c_mutex c = None then Some h
     else do {
       h \<leftarrow> (case prev_next c of None \<Rightarrow> Some h | Some p \<Rightarrow> put_place p (c_next c) h);
       c \<leftarrow> ctxs h a;
       h \<leftarrow> (case c_next c of None \<Rightarrow> Some h | Some b \<Rightarrow> put_ctx b (prev_next_update (\<lambda>_. prev_next c)) h);
       put_ctx a (c_mutex_update (\<lambda>_. None)) h } }"

text \<open>The walk of \<open>get_context_by_name\<close>; the outer \<open>None\<close> is also a walk in circles.\<close>

partial_function (option) find_context :: "(nat \<Rightarrow> mgw_context option) \<Rightarrow> string \<Rightarrow> nat option \<Rightarrow> nat option option" where
  "find_context C name p = (case p of None \<Rightarrow> Some None
     | Some a \<Rightarrow> Option.bind (C a) (\<lambda>c.
         if \<not> c_private c \<and> obj_name c = name then Some (Some a)
         else find_context C name (c_next c)))"

section \<open>Lists\<close>

fun linked :: "(nat \<Rightarrow> mgw_context option) \<Rightarrow> place \<Rightarrow> nat option \<Rightarrow> nat list \<Rightarrow> bool" where
  "linked C p v [] \<longleftrightarrow> v = None"
| "linked C p v (a # as) \<longleftrightarrow>
     v = Some a \<and> (\<exists>c. C a = Some c \<and> prev_next c = Some p \<and> linked C (Next a) (c_next c) as)"

definition clist :: "cheap \<Rightarrow> nat \<Rightarrow> nat \<Rightarrow> nat list \<Rightarrow> bool" where
  "clist h m l xs \<longleftrightarrow> linked (ctxs h) (Head l) (firsts h l) xs \<and> distinct xs \<and>
     (\<forall>a \<in> set xs. map_option c_mutex (ctxs h a) = Some (Some m))"

text \<open>A change to the contexts of \<open>S\<close> and the head \<open>l\<close> that keeps all names.\<close>

definition label :: "mgw_context \<Rightarrow> string \<times> bool" where
  "label c = (obj_name c, c_private c)"

lemma label_upd [simp]: "label (c_next_update f c) = label c" "label (prev_next_update g c) = label c"
  "label (c_mutex_update k c) = label c"
  by (simp_all add: label_def)

definition changes :: "nat set \<Rightarrow> nat \<Rightarrow> cheap \<Rightarrow> cheap \<Rightarrow> bool" where
  "changes S l h h' \<longleftrightarrow> (\<forall>b. b \<notin> S \<longrightarrow> ctxs h' b = ctxs h b) \<and> (\<forall>k. k \<noteq> l \<longrightarrow> firsts h' k = firsts h k) \<and>
     (\<forall>b. map_option label (ctxs h' b) = map_option label (ctxs h b))"

lemma linked_frame: "\<forall>a \<in> set xs. C' a = C a \<Longrightarrow> linked C' p v xs = linked C p v xs"
  by (induction xs arbitrary: p v) auto

lemma linked_upd [simp]: "a \<notin> set xs \<Longrightarrow> linked (C(a := x)) p v xs = linked C p v xs"
  by (rule linked_frame) auto

lemma linked_dom: "linked C p v xs \<Longrightarrow> a \<in> set xs \<Longrightarrow> C a \<noteq> None"
  by (induction xs arbitrary: p v) auto

text \<open>What is looked up: the first public context of that name.\<close>

definition named :: "cheap \<Rightarrow> string \<Rightarrow> nat \<Rightarrow> bool" where
  "named h name a \<longleftrightarrow> (case ctxs h a of None \<Rightarrow> False | Some c \<Rightarrow> \<not> c_private c \<and> obj_name c = name)"

lemma find_linked: "linked (ctxs h) p v xs \<Longrightarrow> find_context (ctxs h) name v = Some (find (named h name) xs)"
  by (induction xs arbitrary: p v) (subst find_context.simps, auto simp: named_def)+

lemma insert_clist:
  assumes "clist h m l xs" and "ctxs h a = Some c" and "a \<notin> set xs"
  shows "\<exists>h'. mgw_context_data_insert a m l h = Some h' \<and> clist h' m l (a # xs) \<and> changes (set (a # xs)) l h h'"
proof (cases xs)
  case Nil
  then show ?thesis
    using assms by (auto simp: mgw_context_data_insert_def put_ctx_def put_place_def clist_def changes_def)
next
  case (Cons b ys)
  then obtain d where d: "ctxs h b = Some d" "firsts h l = Some b" "linked (ctxs h) (Next b) (c_next d) ys" "b \<notin> set ys" "b \<noteq> a"
    using assms by (auto simp: clist_def)
  show ?thesis
    using assms d Cons by (auto simp: mgw_context_data_insert_def put_ctx_def put_place_def clist_def changes_def)
qed

text \<open>A segment of a list, from a place to the place behind it.\<close>

fun segment :: "(nat \<Rightarrow> mgw_context option) \<Rightarrow> place \<Rightarrow> nat option \<Rightarrow> nat list \<Rightarrow> place \<Rightarrow> nat option \<Rightarrow> bool" where
  "segment C p v [] q u \<longleftrightarrow> p = q \<and> v = u"
| "segment C p v (a # as) q u \<longleftrightarrow>
     v = Some a \<and> (\<exists>c. C a = Some c \<and> prev_next c = Some p \<and> segment C (Next a) (c_next c) as q u)"

lemma linked_append: "linked C p v (ws @ zs) \<longleftrightarrow> (\<exists>q u. segment C p v ws q u \<and> linked C q u zs)"
  by (induction ws arbitrary: p v) auto

lemma linked_segment: "linked C p v ws \<longleftrightarrow> (\<exists>q. segment C p v ws q None)"
  using linked_append [of C p v ws "[]"] by simp

lemma segment_upd [simp]: "a \<notin> set ws \<Longrightarrow> segment (C(a := x)) p v ws q u = segment C p v ws q u"
  by (induction ws arbitrary: p v) auto

lemma segment_snoc:
  "segment C p v (ws @ [b]) q u \<longleftrightarrow> q = Next b \<and> (\<exists>r d. segment C p v ws r (Some b) \<and> C b = Some d \<and> prev_next d = Some r \<and> c_next d = u)"
  by (induction ws arbitrary: p v) auto

lemma segment_write:
  assumes "segment C p v (ws @ [b]) q u" and "distinct (ws @ [b])" and "C b = Some d"
  shows "segment (C(b \<mapsto> d\<lparr>c_next := u'\<rparr>)) p v (ws @ [b]) q u'"
  using assms by (auto simp: segment_snoc)

lemma remove_linked:
  assumes "linked (ctxs h) (Head l) (firsts h l) (ws @ a # ys)" and "distinct (ws @ a # ys)"
    and "map_option c_mutex (ctxs h a) = Some (Some m)"
  shows "\<exists>h'. mgw_context_data_remove a h = Some h' \<and> linked (ctxs h') (Head l) (firsts h' l) (ws @ ys) \<and>
    map_option c_mutex (ctxs h' a) = Some None \<and> changes (set (ws @ a # ys)) l h h' \<and>
    (\<forall>b. b \<noteq> a \<longrightarrow> map_option c_mutex (ctxs h' b) = map_option c_mutex (ctxs h b))"
proof -
  obtain q c where q: "segment (ctxs h) (Head l) (firsts h l) ws q (Some a)" "ctxs h a = Some c" "prev_next c = Some q"
    "linked (ctxs h) (Next a) (c_next c) ys"
    using assms(1) by (auto simp: linked_append)
  have m: "c_mutex c = Some m" using assms(3) q(2) by simp
  obtain h1 where h1: "put_place q (c_next c) h = Some h1" "segment (ctxs h1) (Head l) (firsts h1 l) ws q (c_next c)"
    "\<forall>b. b \<notin> set ws \<longrightarrow> ctxs h1 b = ctxs h b" "\<forall>k. k \<noteq> l \<longrightarrow> firsts h1 k = firsts h k"
    "\<forall>b. map_option label (ctxs h1 b) = map_option label (ctxs h b)"
    "\<forall>b. map_option c_mutex (ctxs h1 b) = map_option c_mutex (ctxs h b)"
  proof (cases ws rule: rev_exhaust)
    case Nil
    then show ?thesis using q(1) that by (auto simp: put_place_def)
  next
    case (snoc vs b)
    then obtain d where d: "ctxs h b = Some d" "q = Next b" using q(1) by (auto simp: segment_snoc)
    have "segment ((ctxs h)(b \<mapsto> d\<lparr>c_next := c_next c\<rparr>)) (Head l) (firsts h l) ws q (c_next c)"
      using segment_write [of "ctxs h" "Head l" "firsts h l" vs b q "Some a" d "c_next c"] q(1) d snoc assms(2) by auto
    then show ?thesis using that d snoc by (auto simp: put_place_def put_ctx_def)
  qed
  have n: "a \<notin> set ws" "a \<notin> set ys" "set ws \<inter> set ys = {}" "distinct ys" using assms(2) by auto
  have a1: "ctxs h1 a = Some c" using h1(3) q(2) n by simp
  have y1: "linked (ctxs h1) (Next a) (c_next c) ys" using q(4) linked_frame [of ys "ctxs h1" "ctxs h"] h1(3) n by auto
  show ?thesis
  proof (cases ys)
    case Nil
    then show ?thesis
      using h1 a1 y1 q(2,3) m n by (auto simp: mgw_context_data_remove_def put_ctx_def linked_segment changes_def)
  next
    case (Cons b zs)
    then obtain d where d: "ctxs h1 b = Some d" "c_next c = Some b" "linked (ctxs h1) (Next b) (c_next d) zs" "b \<notin> set zs" "b \<noteq> a"
      "b \<notin> set ws" using y1 n by auto
    then show ?thesis
      using h1 a1 q(2,3) m n Cons by (auto simp: mgw_context_data_remove_def put_ctx_def linked_append changes_def)
  qed
qed

lemma remove_clist:
  assumes "clist h m l xs" and "a \<in> set xs"
  shows "\<exists>h'. mgw_context_data_remove a h = Some h' \<and> clist h' m l (remove1 a xs) \<and>
    map_option c_mutex (ctxs h' a) = Some None \<and> changes (set xs) l h h'"
proof -
  obtain ws ys where xs: "xs = ws @ a # ys" using assms(2) by (metis split_list)
  have d: "distinct (ws @ a # ys)" "a \<notin> set ws" "a \<notin> set ys" using assms(1) xs by (auto simp: clist_def)
  have r: "remove1 a xs = ws @ ys" using d(2) by (simp add: xs remove1_append)
  have mx: "\<forall>b \<in> set xs. map_option c_mutex (ctxs h b) = Some (Some m)" using assms(1) unfolding clist_def by blast
  then have ma: "map_option c_mutex (ctxs h a) = Some (Some m)" using assms(2) by (rule bspec)
  have lk: "linked (ctxs h) (Head l) (firsts h l) (ws @ a # ys)" using assms(1) xs unfolding clist_def by blast
  obtain h' where h': "mgw_context_data_remove a h = Some h'" "linked (ctxs h') (Head l) (firsts h' l) (ws @ ys)"
    "map_option c_mutex (ctxs h' a) = Some None" "changes (set (ws @ a # ys)) l h h'"
    "\<forall>b. b \<noteq> a \<longrightarrow> map_option c_mutex (ctxs h' b) = map_option c_mutex (ctxs h b)"
    using remove_linked [OF lk d(1) ma] by (elim exE conjE) simp
  have "\<forall>b \<in> set (ws @ ys). map_option c_mutex (ctxs h' b) = Some (Some m)"
  proof
    fix b assume b: "b \<in> set (ws @ ys)"
    then have "b \<noteq> a" "b \<in> set xs" using d(2,3) xs by auto
    then show "map_option c_mutex (ctxs h' b) = Some (Some m)" using h'(5) mx by simp
  qed
  then have "clist h' m l (remove1 a xs)" using h'(2) d(1) by (simp add: clist_def r)
  then show ?thesis using h'(1,3,4) by (simp only: xs) blast
qed

text \<open>Other lists stay as they are.\<close>

lemma clist_changes:
  "clist h m k ys \<Longrightarrow> changes S l h h' \<Longrightarrow> k \<noteq> l \<Longrightarrow> S \<inter> set ys = {} \<Longrightarrow> clist h' m k ys"
proof -
  assume a: "clist h m k ys" "changes S l h h'" "k \<noteq> l" "S \<inter> set ys = {}"
  then have "\<forall>a \<in> set ys. ctxs h' a = ctxs h a" by (auto simp: changes_def disjoint_iff)
  moreover from this have "linked (ctxs h') p v ys = linked (ctxs h) p v ys" for p v by (rule linked_frame)
  ultimately show "clist h' m k ys" using a by (simp add: clist_def changes_def)
qed

lemma remove_again: "map_option c_mutex (ctxs h a) = Some None \<Longrightarrow> mgw_context_data_remove a h = Some h"
  by (auto simp: mgw_context_data_remove_def)

text \<open>C22: The lists of objects as lists: inserting in front, removing, looking up; removing again does
  nothing, and lists with other contexts stay as they are.\<close>

theorem contexts_implement_lists:
  assumes "clist h m l xs"
  shows "(ctxs h a \<noteq> None \<and> a \<notin> set xs \<longrightarrow> (\<exists>h'. mgw_context_data_insert a m l h = Some h' \<and> clist h' m l (a # xs) \<and>
      (\<forall>k n ys. k \<noteq> l \<and> clist h n k ys \<and> set (a # xs) \<inter> set ys = {} \<longrightarrow> clist h' n k ys))) \<and>
    (a \<in> set xs \<longrightarrow> (\<exists>h'. mgw_context_data_remove a h = Some h' \<and> clist h' m l (remove1 a xs) \<and>
      mgw_context_data_remove a h' = Some h' \<and>
      (\<forall>k n ys. k \<noteq> l \<and> clist h n k ys \<and> set xs \<inter> set ys = {} \<longrightarrow> clist h' n k ys))) \<and>
    find_context (ctxs h) name (firsts h l) = Some (find (named h name) xs)"
proof (intro conjI impI)
  assume "ctxs h a \<noteq> None \<and> a \<notin> set xs"
  then obtain h' where "mgw_context_data_insert a m l h = Some h'" "clist h' m l (a # xs)" "changes (set (a # xs)) l h h'"
    using insert_clist [OF assms] by blast
  then show "\<exists>h'. mgw_context_data_insert a m l h = Some h' \<and> clist h' m l (a # xs) \<and>
      (\<forall>k n ys. k \<noteq> l \<and> clist h n k ys \<and> set (a # xs) \<inter> set ys = {} \<longrightarrow> clist h' n k ys)"
    using clist_changes by blast
next
  assume "a \<in> set xs"
  then obtain h' where "mgw_context_data_remove a h = Some h'" "clist h' m l (remove1 a xs)"
    "map_option c_mutex (ctxs h' a) = Some None" "changes (set xs) l h h'"
    using remove_clist [OF assms] by blast
  then show "\<exists>h'. mgw_context_data_remove a h = Some h' \<and> clist h' m l (remove1 a xs) \<and>
      mgw_context_data_remove a h' = Some h' \<and>
      (\<forall>k n ys. k \<noteq> l \<and> clist h n k ys \<and> set xs \<inter> set ys = {} \<longrightarrow> clist h' n k ys)"
    using remove_again clist_changes by blast
qed (use assms find_linked in \<open>unfold clist_def, blast\<close>)

theorem contexts_implement_lists_witness:
  "\<exists>h h'. clist h 5 0 [2, 3] \<and> mgw_context_data_remove 2 h = Some h' \<and> clist h' 5 0 [3]"
proof -
  define c where "c = (\<lambda>n p. \<lparr>obj_name = ''a'', c_private = False, c_next = n, prev_next = Some p, c_mutex = Some 5\<rparr>)"
  define h where "h = \<lparr>ctxs = [2 \<mapsto> c (Some 3) (Head 0), 3 \<mapsto> c None (Next 2)], firsts = [0 \<mapsto> 2]\<rparr>"
  have r: "clist h 5 0 [2, 3]" by (simp add: clist_def h_def c_def)
  have "\<exists>h'. mgw_context_data_remove 2 h = Some h' \<and> clist h' 5 0 (remove1 2 [2, 3])"
    using contexts_implement_lists [OF r, of 2 "''x''"] by auto
  then show ?thesis using r by auto
qed

section \<open>Reference counts\<close>

text \<open>\<open>mgw_ref_release\<close>: whether the last reference goes, and the new count. \<open>mgw_get_ref\<close>
  reads the count and tries to swap it for one more.\<close>

definition mgw_ref_release :: "int \<Rightarrow> bool \<times> int" where
  "mgw_ref_release r = (r - 1 = - 1, r - 1)"

definition mgw_ref_addref :: "int \<Rightarrow> int" where
  "mgw_ref_addref r = r + 1"

definition compare_swap :: "int \<Rightarrow> int \<Rightarrow> int option" where
  "compare_swap owners r = (if r = owners then Some (owners + 1) else None)"

text \<open>Threads that share one list, with mutex \<open>m\<close> and head \<open>l\<close>. \<open>held\<close> counts the
  references threads and owners hold; \<open>dying\<close> are the objects whose release reached the end,
  \<open>unlinked\<close> those already off the list. \<open>look\<close> is the lookup that holds the mutex, between reading the
  count and swapping it. With \<open>weak\<close> lookups read the head before they take the mutex
  (\<open>stale\<close>), as those by a head passed by value do. Access to a freed object makes the system
  \<open>bad\<close>.\<close>

record sys =
  heap :: cheap
  refs :: "nat \<Rightarrow> int"
  held :: "nat \<Rightarrow> nat"
  dying :: "nat set"
  unlinked :: "nat set"
  look :: "(nat \<times> int) option"
  stale :: "nat option option"
  bad :: bool

definition no_objects :: sys where
  "no_objects = \<lparr>heap = \<lparr>ctxs = Map.empty, firsts = Map.empty\<rparr>, refs = (\<lambda>_. 0), held = (\<lambda>_. 0), dying = {},
     unlinked = {}, look = None, stale = None, bad = False\<rparr>"

inductive obj_step :: "bool \<Rightarrow> nat \<Rightarrow> nat \<Rightarrow> sys \<Rightarrow> sys \<Rightarrow> bool" for weak m l where
  create: "look s = None \<Longrightarrow> ctxs (heap s) a = None \<Longrightarrow>
    mgw_context_data_insert a m l ((heap s)\<lparr>ctxs := (ctxs (heap s))(a \<mapsto> c)\<rparr>) = Some h \<Longrightarrow>
    obj_step weak m l s (s\<lparr>heap := h, refs := (refs s)(a := 0), held := (held s)(a := 1)\<rparr>)"
| find: "\<not> weak \<Longrightarrow> look s = None \<Longrightarrow> find_context (ctxs (heap s)) name (firsts (heap s) l) = Some (Some a) \<Longrightarrow>
    obj_step weak m l s (s\<lparr>look := Some (a, refs s a)\<rparr>)"
| find_bad: "\<not> weak \<Longrightarrow> look s = None \<Longrightarrow> find_context (ctxs (heap s)) name (firsts (heap s) l) = None \<Longrightarrow>
    obj_step weak m l s (s\<lparr>bad := True\<rparr>)"
| read_head: "weak \<Longrightarrow> stale s = None \<Longrightarrow> obj_step weak m l s (s\<lparr>stale := Some (firsts (heap s) l)\<rparr>)"
| find_stale: "stale s = Some p \<Longrightarrow> look s = None \<Longrightarrow> find_context (ctxs (heap s)) name p = Some (Some a) \<Longrightarrow>
    obj_step weak m l s (s\<lparr>look := Some (a, refs s a), stale := None\<rparr>)"
| stale_bad: "stale s = Some p \<Longrightarrow> look s = None \<Longrightarrow> find_context (ctxs (heap s)) name p = None \<Longrightarrow>
    obj_step weak m l s (s\<lparr>bad := True\<rparr>)"
| swap: "look s = Some (a, v) \<Longrightarrow> - 1 < v \<Longrightarrow> compare_swap v (refs s a) = Some r \<Longrightarrow>
    obj_step weak m l s (s\<lparr>refs := (refs s)(a := r), held := (held s)(a := Suc (held s a)), look := None\<rparr>)"
| again: "look s = Some (a, v) \<Longrightarrow> - 1 < v \<Longrightarrow> compare_swap v (refs s a) = None \<Longrightarrow>
    obj_step weak m l s (s\<lparr>look := Some (a, refs s a)\<rparr>)"
| refused: "look s = Some (a, v) \<Longrightarrow> v \<le> - 1 \<Longrightarrow> obj_step weak m l s (s\<lparr>look := None\<rparr>)"
| look_bad: "look s = Some (a, v) \<Longrightarrow> ctxs (heap s) a = None \<Longrightarrow> obj_step weak m l s (s\<lparr>bad := True\<rparr>)"
| addref: "0 < held s a \<Longrightarrow>
    obj_step weak m l s (s\<lparr>refs := (refs s)(a := mgw_ref_addref (refs s a)), held := (held s)(a := Suc (held s a))\<rparr>)"
| release: "0 < held s a \<Longrightarrow> mgw_ref_release (refs s a) = (gone, r) \<Longrightarrow>
    obj_step weak m l s (s\<lparr>refs := (refs s)(a := r), held := (held s)(a := held s a - 1),
      dying := (if gone then insert a (dying s) else dying s)\<rparr>)"
| unlink: "a \<in> dying s \<Longrightarrow> look s = None \<Longrightarrow> mgw_context_data_remove a (heap s) = Some h \<Longrightarrow>
    obj_step weak m l s (s\<lparr>heap := h, dying := dying s - {a}, unlinked := insert a (unlinked s)\<rparr>)"
| unlink_bad: "a \<in> dying s \<Longrightarrow> look s = None \<Longrightarrow> mgw_context_data_remove a (heap s) = None \<Longrightarrow>
    obj_step weak m l s (s\<lparr>bad := True\<rparr>)"
| free: "a \<in> unlinked s \<Longrightarrow>
    obj_step weak m l s (s\<lparr>heap := (heap s)\<lparr>ctxs := (ctxs (heap s))(a := None)\<rparr>, unlinked := unlinked s - {a}\<rparr>)"

inductive obj_run :: "bool \<Rightarrow> nat \<Rightarrow> nat \<Rightarrow> sys \<Rightarrow> bool" for weak m l where
  start: "obj_run weak m l no_objects"
| step: "obj_run weak m l s \<Longrightarrow> obj_step weak m l s s' \<Longrightarrow> obj_run weak m l s'"

text \<open>The invariant: the list is sound and its members are the objects that are held or dying, each
  with a count one below its holders.\<close>

definition sys_ok :: "nat \<Rightarrow> nat \<Rightarrow> sys \<Rightarrow> bool" where
  "sys_ok m l s \<longleftrightarrow> \<not> bad s \<and> stale s = None \<and>
     (\<exists>xs. clist (heap s) m l xs \<and>
       (\<forall>a. (0 < held s a \<or> a \<in> dying s \<longleftrightarrow> a \<in> set xs) \<and> (a \<in> dying s \<longrightarrow> held s a = 0) \<and>
         (a \<in> set xs \<longrightarrow> refs s a = int (held s a) - 1) \<and> (a \<in> unlinked s \<longrightarrow> a \<notin> set xs \<and> ctxs (heap s) a \<noteq> None)) \<and>
       (\<forall>a v. look s = Some (a, v) \<longrightarrow> a \<in> set xs))"

lemma clist_ctx: "clist h m l xs \<Longrightarrow> a \<in> set xs \<Longrightarrow> \<exists>c. ctxs h a = Some c"
  by (auto simp: clist_def)

lemma find_clist: "clist h m l xs \<Longrightarrow> find_context (ctxs h) name (firsts h l) = Some (find (named h name) xs)"
  unfolding clist_def using find_linked by blast

lemma clist_alloc: "clist h m l xs \<Longrightarrow> a \<notin> set xs \<Longrightarrow> clist (h\<lparr>ctxs := (ctxs h)(a := v)\<rparr>) m l xs"
  by (auto simp: clist_def)

lemma sys_ok_create:
  assumes ok: "sys_ok m l s" and "look s = None" and new: "ctxs (heap s) a = None"
    and ins: "mgw_context_data_insert a m l ((heap s)\<lparr>ctxs := (ctxs (heap s))(a \<mapsto> c)\<rparr>) = Some h"
  shows "sys_ok m l (s\<lparr>heap := h, refs := (refs s)(a := 0), held := (held s)(a := 1)\<rparr>)"
proof -
  obtain xs where xs: "clist (heap s) m l xs"
    "\<forall>a. (0 < held s a \<or> a \<in> dying s \<longleftrightarrow> a \<in> set xs) \<and> (a \<in> dying s \<longrightarrow> held s a = 0) \<and>
         (a \<in> set xs \<longrightarrow> refs s a = int (held s a) - 1) \<and> (a \<in> unlinked s \<longrightarrow> a \<notin> set xs \<and> ctxs (heap s) a \<noteq> None)"
    using ok unfolding sys_ok_def by blast
  have a: "a \<notin> set xs" "a \<notin> dying s" "a \<notin> unlinked s" using clist_ctx [OF xs(1)] new xs(2) by fastforce+
  let ?h = "(heap s)\<lparr>ctxs := (ctxs (heap s))(a \<mapsto> c)\<rparr>"
  have ca: "ctxs ?h a = Some c" by simp
  have h: "clist h m l (a # xs)" "changes (set (a # xs)) l ?h h"
    using insert_clist [OF clist_alloc [OF xs(1) a(1)] ca a(1)] ins by auto
  have "ctxs h b \<noteq> None" if "b \<in> unlinked s" for b
  proof -
    have "b \<noteq> a" "b \<notin> set xs" "ctxs (heap s) b \<noteq> None" using xs(2) that a(3) by auto
    then show ?thesis using h(2) by (simp add: changes_def)
  qed
  then show ?thesis
    using ok assms(2) xs(2) a h(1) unfolding sys_ok_def by (intro conjI exI [of _ "a # xs"]) auto
qed

lemma sys_ok_unlink:
  assumes ok: "sys_ok m l s" and "look s = None" and d: "a \<in> dying s" and rem: "mgw_context_data_remove a (heap s) = Some h"
  shows "sys_ok m l (s\<lparr>heap := h, dying := dying s - {a}, unlinked := insert a (unlinked s)\<rparr>)"
proof -
  obtain xs where xs: "clist (heap s) m l xs"
    "\<forall>a. (0 < held s a \<or> a \<in> dying s \<longleftrightarrow> a \<in> set xs) \<and> (a \<in> dying s \<longrightarrow> held s a = 0) \<and>
         (a \<in> set xs \<longrightarrow> refs s a = int (held s a) - 1) \<and> (a \<in> unlinked s \<longrightarrow> a \<notin> set xs \<and> ctxs (heap s) a \<noteq> None)"
    using ok unfolding sys_ok_def by blast
  have a: "a \<in> set xs" using xs(2) d by auto
  have h: "clist h m l (remove1 a xs)" "map_option c_mutex (ctxs h a) = Some None" "changes (set xs) l (heap s) h"
    using remove_clist [OF xs(1) a] rem by auto
  have s: "set (remove1 a xs) = set xs - {a}" using xs(1) by (simp add: clist_def set_remove1_eq)
  have "ctxs h b \<noteq> None" if "b \<in> unlinked s" for b
  proof -
    have "b \<notin> set xs" "ctxs (heap s) b \<noteq> None" using xs(2) that by auto
    then show ?thesis using h(3) by (simp add: changes_def)
  qed
  moreover have "ctxs h a \<noteq> None" "held s a = 0" using h(2) xs(2) d by auto
  ultimately show ?thesis
    using ok assms(2) xs(2) h(1) unfolding sys_ok_def by (intro conjI exI [of _ "remove1 a xs"]) (auto simp: s)
qed

lemma sys_ok_step:
  assumes "obj_step False m l s s'" and ok: "sys_ok m l s"
  shows "sys_ok m l s'"
proof -
  obtain xs where xs: "clist (heap s) m l xs"
    "\<forall>a. (0 < held s a \<or> a \<in> dying s \<longleftrightarrow> a \<in> set xs) \<and> (a \<in> dying s \<longrightarrow> held s a = 0) \<and>
         (a \<in> set xs \<longrightarrow> refs s a = int (held s a) - 1) \<and> (a \<in> unlinked s \<longrightarrow> a \<notin> set xs \<and> ctxs (heap s) a \<noteq> None)"
    "\<forall>a v. look s = Some (a, v) \<longrightarrow> a \<in> set xs"
    using ok unfolding sys_ok_def by blast
  have st: "stale s = None" "\<not> bad s" using ok by (simp_all add: sys_ok_def)
  note fc = find_clist [OF xs(1)]
  from assms(1) show ?thesis
  proof cases
    case (create a c h)
    then show ?thesis using sys_ok_create [OF ok] by simp
  next
    case (find name a)
    then have "a \<in> set xs" using fc [of name] by (auto dest: find_SomeD)
    then show ?thesis using find xs st unfolding sys_ok_def by (intro conjI exI [of _ xs]) auto
  next
    case (find_bad name)
    then show ?thesis using fc [of name] by simp
  next
    case (swap a v r)
    then have a: "a \<in> set xs" using xs(3) by auto
    then have "0 < held s a" "a \<notin> dying s" using xs(2) swap by (fastforce simp: compare_swap_def split: if_splits)+
    then show ?thesis
      using swap xs st a unfolding sys_ok_def by (intro conjI exI [of _ xs]) (auto simp: compare_swap_def split: if_splits)
  next
    case (again a v)
    then show ?thesis using xs st unfolding sys_ok_def by (intro conjI exI [of _ xs]) auto
  next
    case (refused a v)
    then show ?thesis using xs st unfolding sys_ok_def by (intro conjI exI [of _ xs]) auto
  next
    case (look_bad a v)
    then show ?thesis using xs(3) clist_ctx [OF xs(1)] by fastforce
  next
    case (addref a)
    then show ?thesis using xs st unfolding sys_ok_def by (intro conjI exI [of _ xs]) (auto simp: mgw_ref_addref_def)
  next
    case (release a gone r)
    then have "a \<in> set xs" "a \<notin> dying s" "refs s a = int (held s a) - 1" using xs(2) by auto
    then show ?thesis
      using release xs st unfolding sys_ok_def by (intro conjI exI [of _ xs]) (auto simp: mgw_ref_release_def)
  next
    case (unlink a h)
    then show ?thesis using sys_ok_unlink [OF ok] by simp
  next
    case (unlink_bad a)
    then show ?thesis using xs(2) remove_clist [OF xs(1), of a] by auto
  next
    case (free a)
    then have a: "a \<notin> set xs" using xs(2) by auto
    then show ?thesis
      using free xs st clist_alloc [OF xs(1) a] unfolding sys_ok_def by (intro conjI exI [of _ xs]) auto
  qed (use st in auto)
qed

lemma sys_ok_run: "obj_run False m l s \<Longrightarrow> sys_ok m l s"
proof (induction rule: obj_run.induct)
  case start
  show ?case unfolding sys_ok_def
    by (intro conjI exI [of _ "[]"]) (auto simp: no_objects_def clist_def)
qed (rule sys_ok_step)


lemma one_object:
  "\<exists>h. obj_run weak m l (no_objects\<lparr>heap := h, refs := (refs no_objects)(0 := 0), held := (held no_objects)(0 := 1)\<rparr>) \<and>
    clist h m l [0]"
proof -
  define c where "c = \<lparr>obj_name = ''a'', c_private = False, c_next = None, prev_next = None, c_mutex = None\<rparr>"
  define h0 where "h0 = (heap no_objects)\<lparr>ctxs := (ctxs (heap no_objects))(0 \<mapsto> c)\<rparr>"
  have "clist h0 m l []" "ctxs h0 0 = Some c" by (simp_all add: h0_def no_objects_def clist_def)
  then obtain h where h: "mgw_context_data_insert 0 m l h0 = Some h" "clist h m l [0]"
    using insert_clist [of h0 m l "[]" 0 c] by auto
  have "obj_step weak m l no_objects (no_objects\<lparr>heap := h, refs := (refs no_objects)(0 := 0), held := (held no_objects)(0 := 1)\<rparr>)"
    by (rule obj_step.create [where c = c]) (use h in \<open>simp_all add: h0_def\<close>, simp_all add: no_objects_def)
  then show ?thesis using h(2) obj_run.step [OF obj_run.start] by blast
qed


text \<open>A lookup that reads the head of the list before it takes the mutex can walk into an object that
  was released meanwhile.\<close>

theorem stale_lookup_bad: "\<exists>s. obj_run True m l s \<and> bad s"
proof -
  obtain h where h: "obj_run True m l (no_objects\<lparr>heap := h, refs := (refs no_objects)(0 := 0), held := (held no_objects)(0 := 1)\<rparr>)"
    "clist h m l [0]" using one_object by blast
  define s0 where "s0 = no_objects\<lparr>heap := h, refs := (refs no_objects)(0 := 0), held := (held no_objects)(0 := 1)\<rparr>"
  have f: "firsts h l = Some 0" using h(2) by (simp add: clist_def)
  obtain h' where h': "mgw_context_data_remove 0 h = Some h'" using remove_clist [OF h(2)] by auto
  define s1 where "s1 = s0\<lparr>stale := Some (firsts (heap s0) l)\<rparr>"
  define s2 where "s2 = s1\<lparr>refs := (refs s1)(0 := - 1), held := (held s1)(0 := 0), dying := insert 0 (dying s1)\<rparr>"
  define s3 where "s3 = s2\<lparr>heap := h', dying := dying s2 - {0}, unlinked := insert 0 (unlinked s2)\<rparr>"
  define s4 where "s4 = s3\<lparr>heap := h'\<lparr>ctxs := (ctxs h')(0 := None)\<rparr>, unlinked := unlinked s3 - {0}\<rparr>"
  have "obj_run True m l s0" using h(1) by (simp only: s0_def)
  moreover have "obj_step True m l s0 s1"
    unfolding s1_def by (rule obj_step.read_head) (simp_all add: s0_def no_objects_def)
  moreover have "obj_step True m l s1 s2"
    using obj_step.release [of s1 0 True "- 1" True m l]
    by (simp add: s2_def s1_def s0_def no_objects_def mgw_ref_release_def)
  moreover have "obj_step True m l s2 s3"
    using obj_step.unlink [of 0 s2 h' True m l] h' by (simp add: s3_def s2_def s1_def s0_def no_objects_def)
  moreover have "obj_step True m l s3 s4"
    using obj_step.free [of 0 s3 True m l] by (simp add: s4_def s3_def)
  moreover have "obj_step True m l s4 (s4\<lparr>bad := True\<rparr>)"
    by (rule obj_step.stale_bad [of _ "Some 0" "''a''"])
      (simp add: s4_def s3_def s2_def s1_def s0_def no_objects_def f,
       simp add: s4_def s3_def s2_def s1_def s0_def no_objects_def,
       subst find_context.simps, simp add: s4_def)
  ultimately have "obj_run True m l (s4\<lparr>bad := True\<rparr>)" by (meson obj_run.step)
  then show ?thesis by (intro exI [of _ "s4\<lparr>bad := True\<rparr>"]) simp
qed

end
