(* ===== verification/Output.thy ===== *)
theory Output
  imports Prelude
begin

text \<open>
  Starting, stopping and reconnecting an output, src/mgw-core/core-api/mgw-output.c: the control
  state of \<open>struct mgw_output\<close>, the handlers and the reconnect and stop threads. The plugin behind
  the output is the environment: what \<open>info.start\<close> answers comes with the event. Handlers run to
  their end before the next event; a reconnect thread runs in two pieces, around its timed wait. A
  call that waits for an event nobody has signalled, or joins a detached thread, is \<open>None\<close>.
\<close>

section \<open>State\<close>

definition MGW_SUCCESS :: int where "MGW_SUCCESS = 0"
definition MGW_DISCONNECTED :: int where "MGW_DISCONNECTED = - 5"
definition MAX_RETRY_SEC :: nat where "MAX_RETRY_SEC = 15 * 60"

text \<open>Calls out of the output: to the plugin, to the handlers of the stream, and timed waits.\<close>

datatype act = PluginStart | PluginStop | PluginDestroy | Notify string | Wait nat

text \<open>A reconnect thread: created, waiting, ended; an ended one is detached or can be joined.\<close>

datatype rthread = Created | Waiting | Detached | Joinable

text \<open>The events are \<open>True\<close> when signalled.\<close>

record mgw_output =
  valid :: bool
  info_impl :: bool
  has_buffer :: bool
  is_private :: bool
  actived :: bool
  reconnecting :: bool
  stopping_event :: bool
  reconnect_stop_event :: bool
  retry_sec :: nat
  retry_max :: nat
  retries :: nat
  cur_sec :: nat
  stop_code :: int
  last_error_status :: int
  thread_active :: bool
  rthreads :: "rthread list"
  stop_threads :: nat
  acts :: "act list"

definition logged :: "act \<Rightarrow> mgw_output \<Rightarrow> mgw_output" where
  "logged a s = s\<lparr>acts := acts s @ [a]\<rparr>"

text \<open>\<open>mgw_output_create_internal\<close> on success, for a registered plugin.\<close>

definition mgw_output_create :: "bool \<Rightarrow> mgw_output" where
  "mgw_output_create priv = \<lparr>valid = True, info_impl = True, has_buffer = True, is_private = priv, actived = False,
     reconnecting = False, stopping_event = False, reconnect_stop_event = False, retry_sec = 2, retry_max = 20,
     retries = 0, cur_sec = 0, stop_code = 0, last_error_status = 0, thread_active = False, rthreads = [],
     stop_threads = 0, acts = []\<rparr>"

definition mgw_output_active :: "mgw_output \<Rightarrow> bool" where
  "mgw_output_active s \<longleftrightarrow> info_impl s \<and> actived s"

definition stopping :: "mgw_output \<Rightarrow> bool" where
  "stopping s \<longleftrightarrow> \<not> stopping_event s"

section \<open>Start and stop\<close>

definition mgw_output_actual_start :: "bool \<Rightarrow> mgw_output \<Rightarrow> (bool \<times> mgw_output) option" where
  "mgw_output_actual_start ok s =
     (if \<not> stopping_event s then None
      else let s = s\<lparr>stop_code := 0\<rparr>;
               tried = valid s \<and> info_impl s;
               s = (if tried then logged PluginStart s else s);
               s = (if tried \<and> ok then logged (Notify ''signal_connecting'') s else s) in
        Some (tried \<and> ok, s\<lparr>actived := tried \<and> ok\<rparr>))"

definition mgw_output_start :: "bool \<Rightarrow> mgw_output \<Rightarrow> (bool \<times> mgw_output) option" where
  "mgw_output_start ok s =
     (if \<not> is_private s \<and> \<not> info_impl s \<or> \<not> has_buffer s then Some (False, s)
      else mgw_output_actual_start ok (s\<lparr>stopping_event := True\<rparr>))"

text \<open>\<open>reconnect_thread\<close> up to its wait, and from it; the wait is over by time when the event is
  not signalled.\<close>

definition thread_begin :: "nat \<Rightarrow> mgw_output \<Rightarrow> mgw_output" where
  "thread_begin i s =
     (let ms = cur_sec s * 1000 in
      logged (Wait ms) (logged (Notify ''signal_reconnect'')
        (s\<lparr>thread_active := True, rthreads := (rthreads s)[i := Waiting]\<rparr>)))"

definition thread_end :: "nat \<Rightarrow> bool \<Rightarrow> mgw_output \<Rightarrow> mgw_output option" where
  "thread_end i ok s = do {
     s \<leftarrow> (if reconnect_stop_event s then Some s else map_option snd (mgw_output_actual_start ok s));
     let s = (if reconnect_stop_event s then s\<lparr>reconnecting := False, rthreads := (rthreads s)[i := Joinable]\<rparr>
              else s\<lparr>rthreads := (rthreads s)[i := Detached]\<rparr>);
     Some (s\<lparr>thread_active := False\<rparr>) }"

text \<open>\<open>pthread_join\<close> on the thread created last: it runs to its end first.\<close>

definition join_last :: "mgw_output \<Rightarrow> mgw_output option" where
  "join_last s =
     (if rthreads s = [] then None
      else let i = length (rthreads s) - 1 in
        (case rthreads s ! i of
           Created \<Rightarrow> thread_end i False (thread_begin i s)
         | Waiting \<Rightarrow> thread_end i False s
         | Joinable \<Rightarrow> Some s
         | Detached \<Rightarrow> None))"

definition stop_retry :: "mgw_output \<Rightarrow> mgw_output option" where
  "stop_retry s =
     (if \<not> reconnecting s then Some s
      else let s = s\<lparr>reconnect_stop_event := True\<rparr> in if thread_active s then join_last s else Some s)"

definition stop_plugin :: "bool \<Rightarrow> mgw_output \<Rightarrow> mgw_output" where
  "stop_plugin force s =
     (let s = s\<lparr>stopping_event := True\<rparr>;
          s = (if force \<and> info_impl s then logged PluginStop s
               else if reconnecting s then s\<lparr>stop_code := MGW_SUCCESS\<rparr> else s) in
      s\<lparr>actived := False\<rparr>)"

definition mgw_output_actual_stop :: "bool \<Rightarrow> mgw_output \<Rightarrow> mgw_output option" where
  "mgw_output_actual_stop force s =
     (if stopping s \<and> \<not> force then Some s
      else map_option (stop_plugin force) (stop_retry (s\<lparr>stopping_event := False\<rparr>)))"

definition mgw_output_stop :: "mgw_output \<Rightarrow> mgw_output option" where
  "mgw_output_stop s = (if \<not> actived s then Some s else mgw_output_actual_stop True s)"

definition mgw_output_destroy :: "mgw_output \<Rightarrow> mgw_output option" where
  "mgw_output_destroy s = do {
     s \<leftarrow> (if valid s \<and> mgw_output_active s then mgw_output_actual_stop True s else Some s);
     if \<not> stopping_event s then None
     else Some (if info_impl s then logged PluginDestroy s else s) }"

section \<open>The plugin reports its end\<close>

definition can_reconnect :: "mgw_output \<Rightarrow> int \<Rightarrow> bool" where
  "can_reconnect s code \<longleftrightarrow> reconnecting s \<and> code \<noteq> MGW_SUCCESS \<or> retry_max s \<noteq> 0 \<and> code = MGW_DISCONNECTED"

text \<open>\<open>created\<close>: whether \<open>pthread_create\<close> succeeds. It reports failure by a positive number, so
  the branch for a negative one never runs.\<close>

definition output_reconnect :: "bool \<Rightarrow> mgw_output \<Rightarrow> mgw_output" where
  "output_reconnect created s =
     (let s = (if reconnecting s then s else s\<lparr>cur_sec := retry_sec s, retries := 0\<rparr>) in
      if retry_max s \<le> retries s
      then let s = s\<lparr>stop_code := MGW_DISCONNECTED, reconnecting := False\<rparr> in
        if created then s\<lparr>stop_threads := Suc (stop_threads s)\<rparr> else s
      else let s = (if reconnecting s then s else s\<lparr>reconnecting := True, reconnect_stop_event := False\<rparr>);
               s = (if retries s \<noteq> 0 then s\<lparr>cur_sec := min (cur_sec s * 2) MAX_RETRY_SEC\<rparr> else s);
               s = logged PluginStop (s\<lparr>retries := Suc (retries s)\<rparr>);
               s = s\<lparr>stop_code := MGW_DISCONNECTED\<rparr> in
        if created then s\<lparr>rthreads := rthreads s @ [Created]\<rparr> else s)"

definition output_signal_stop :: "bool \<Rightarrow> int \<Rightarrow> mgw_output \<Rightarrow> mgw_output" where
  "output_signal_stop created code s =
     (let s = s\<lparr>stop_code := code\<rparr>;
          s = (if retries s = 0 \<and> stop_code s \<noteq> MGW_DISCONNECTED then s\<lparr>last_error_status := stop_code s\<rparr> else s) in
      if can_reconnect s (stop_code s) then output_reconnect created s
      else let s = (if \<not> reconnecting s \<and> actived s \<and> created then s\<lparr>stop_threads := Suc (stop_threads s)\<rparr> else s) in
        s\<lparr>stopping_event := True, actived := False\<rparr>)"

definition stop_thread :: "mgw_output \<Rightarrow> mgw_output" where
  "stop_thread s =
     (let s' = s\<lparr>stop_threads := stop_threads s - 1\<rparr> in
      if stopping s then s' else logged (Notify ''signal_stop'') s')"

text \<open>The state shown by \<open>mgw_output_get_state\<close>.\<close>

datatype push_state = STOPED | CONNECTING | RECONNECTING | STREAMING

definition output_source_ready :: "mgw_output \<Rightarrow> bool" where
  "output_source_ready s \<longleftrightarrow> valid s \<and> has_buffer s"

definition mgw_output_get_state :: "mgw_output \<Rightarrow> push_state" where
  "mgw_output_get_state s =
     (if \<not> output_source_ready s then STOPED
      else if mgw_output_active s then STREAMING
      else if reconnecting s then RECONNECTING
      else CONNECTING)"

section \<open>Histories\<close>

datatype o_event = Start bool | Stop | Signal int bool | ThreadBegin nat | ThreadEnd nat bool | StopThread

fun o_step :: "o_event \<Rightarrow> mgw_output \<Rightarrow> mgw_output option" where
  "o_step (Start ok) s = map_option snd (mgw_output_start ok s)"
| "o_step Stop s = mgw_output_stop s"
| "o_step (Signal code created) s = Some (output_signal_stop created code s)"
| "o_step (ThreadBegin i) s = (if i < length (rthreads s) \<and> rthreads s ! i = Created then Some (thread_begin i s) else None)"
| "o_step (ThreadEnd i ok) s = (if i < length (rthreads s) \<and> rthreads s ! i = Waiting then thread_end i ok s else None)"
| "o_step StopThread s = (if 0 < stop_threads s then Some (stop_thread s) else None)"

fun o_run :: "o_event list \<Rightarrow> mgw_output \<Rightarrow> mgw_output option" where
  "o_run [] s = Some s"
| "o_run (e # es) s = Option.bind (o_step e s) (o_run es)"

lemma o_run_append: "o_run (es @ fs) s = Option.bind (o_run es s) (o_run fs)"
  by (induction es arbitrary: s) (simp_all split: Option.bind_split)
section \<open>Retrying\<close>

fun waits :: "act list \<Rightarrow> nat list" where
  "waits [] = []"
| "waits (Wait ms # as) = ms # waits as"
| "waits (_ # as) = waits as"

lemma waits_append [simp]: "waits (as @ bs) = waits as @ waits bs"
  by (induction as rule: waits.induct) simp_all

text \<open>The connection is lost, the thread of the \<open>i\<close>-th retry waits, and the plugin starts again.\<close>

definition lost_and_back :: "nat \<Rightarrow> o_event list" where
  "lost_and_back i = [Signal MGW_DISCONNECTED True, ThreadBegin i, ThreadEnd i True]"

definition back_off :: "nat \<Rightarrow> nat \<Rightarrow> nat" where
  "back_off sec k = min (sec * 2 ^ k) MAX_RETRY_SEC"

lemma back_off_Suc: "min (back_off sec k * 2) MAX_RETRY_SEC = back_off sec (Suc k)"
  by (auto simp: back_off_def min_def)

text \<open>A running output that has never retried, and one that has come back \<open>k\<close> times.\<close>

definition streaming :: "mgw_output \<Rightarrow> bool" where
  "streaming s \<longleftrightarrow> valid s \<and> info_impl s \<and> has_buffer s \<and> actived s \<and> stopping_event s \<and> \<not> thread_active s"

definition came_back :: "mgw_output \<Rightarrow> nat \<Rightarrow> mgw_output \<Rightarrow> bool" where
  "came_back s0 k s \<longleftrightarrow> streaming s \<and> rthreads s = replicate k Detached \<and> retry_sec s = retry_sec s0 \<and>
     retry_max s = retry_max s0 \<and> stop_threads s = stop_threads s0 \<and>
     waits (acts s) = waits (acts s0) @ map (\<lambda>i. 1000 * back_off (retry_sec s0) i) [0..<k] \<and>
     (if k = 0 then \<not> reconnecting s
      else reconnecting s \<and> \<not> reconnect_stop_event s \<and> retries s = k \<and>
        cur_sec s = back_off (retry_sec s0) (k - 1))"

lemma cycle_step:
  assumes "came_back s0 k s" and "k < retry_max s0" and "retry_sec s0 \<le> MAX_RETRY_SEC"
  shows "\<exists>s'. o_run (lost_and_back k) s = Some s' \<and> came_back s0 (Suc k) s'"
proof -
  have n: "(replicate k Detached @ [Created])[k := x] = replicate k Detached @ [x]" for x
    using list_update_length [of "replicate k Detached" Created "[]" x] by simp
  have u: "(replicate k Detached @ [Waiting])[k := x] = replicate k Detached @ [x]" for x
    using list_update_length [of "replicate k Detached" Waiting "[]" x] by simp
  have r: "replicate k Detached @ [Detached] = Detached # replicate k Detached"
    by (metis replicate_append_same)
  show ?thesis
  proof (cases k)
    case 0
    then show ?thesis
      using assms
      by (auto simp: lost_and_back_def came_back_def streaming_def output_signal_stop_def can_reconnect_def
          output_reconnect_def Let_def logged_def thread_begin_def thread_end_def mgw_output_actual_start_def back_off_def)
  next
    case (Suc j)
    then show ?thesis
      using assms n u r
      by (auto simp: lost_and_back_def came_back_def streaming_def output_signal_stop_def can_reconnect_def
          output_reconnect_def Let_def logged_def thread_begin_def thread_end_def mgw_output_actual_start_def
          nth_append back_off_Suc MGW_DISCONNECTED_def MGW_SUCCESS_def)
  qed
qed

text \<open>The histories: \<open>k\<close> times lost and back.\<close>

definition flapping :: "nat \<Rightarrow> o_event list" where
  "flapping k = concat (map lost_and_back [0..<k])"

lemma flapping_run:
  "came_back s 0 s \<Longrightarrow> k \<le> retry_max s \<Longrightarrow> retry_sec s \<le> MAX_RETRY_SEC \<Longrightarrow>
   \<exists>s'. o_run (flapping k) s = Some s' \<and> came_back s k s'"
proof (induction k)
  case (Suc k)
  then obtain s1 where s1: "o_run (flapping k) s = Some s1" "came_back s k s1" by auto
  from cycle_step [OF s1(2)] Suc.prems s1(1) show ?case by (auto simp: flapping_def o_run_append)
qed (simp add: flapping_def)

text \<open>C18: An output that loses its connection is retried after 2, 4, 8 seconds and so on up to 15
  minutes (for the configured first delay), but a successful reconnection resets neither the count nor
  the delay: the loss after the \<open>retry_max\<close>-th of a lifetime ends the retries. The stream is
  told that the output stopped, while the output stays marked active and shows as streaming.\<close>

theorem output_retries_end:
  assumes "streaming s" and "\<not> reconnecting s" and "rthreads s = []" and "stop_threads s = 0"
    and "0 < retry_max s" and "retry_sec s \<le> MAX_RETRY_SEC"
  shows "\<exists>s'. o_run (flapping (retry_max s) @ [Signal MGW_DISCONNECTED True, StopThread]) s = Some s' \<and>
    waits (acts s') = waits (acts s) @ map (\<lambda>k. 1000 * min (retry_sec s * 2 ^ k) MAX_RETRY_SEC) [0..<retry_max s] \<and>
    last (acts s') = Notify ''signal_stop'' \<and> \<not> reconnecting s' \<and> Created \<notin> set (rthreads s') \<and>
    mgw_output_get_state s' = STREAMING"
proof -
  have "came_back s 0 s" using assms by (simp add: came_back_def)
  then obtain s1 where s1: "o_run (flapping (retry_max s)) s = Some s1" "came_back s (retry_max s) s1"
    using flapping_run assms(6) by blast
  then show ?thesis
    using assms(4,5)
    by (auto simp: o_run_append came_back_def streaming_def output_signal_stop_def can_reconnect_def output_reconnect_def
        stop_thread_def stopping_def logged_def mgw_output_get_state_def output_source_ready_def mgw_output_active_def
        back_off_def MGW_DISCONNECTED_def MGW_SUCCESS_def Let_def)
qed

text \<open>A freshly created output, started, meets the conditions; 20 retries from 2 seconds.\<close>

theorem output_retries_end_witness:
  "\<exists>s s'. o_run [Start True] (mgw_output_create False) = Some s \<and>
    o_run (flapping 20 @ [Signal MGW_DISCONNECTED True, StopThread]) s = Some s' \<and> mgw_output_get_state s' = STREAMING"
proof -
  define s where "s = (mgw_output_create False)\<lparr>stopping_event := True, actived := True,
    acts := [PluginStart, Notify ''signal_connecting'']\<rparr>"
  have r: "o_run [Start True] (mgw_output_create False) = Some s"
    by (simp add: s_def mgw_output_create_def mgw_output_start_def mgw_output_actual_start_def logged_def Let_def)
  have m: "retry_max s = 20" by (simp add: s_def mgw_output_create_def)
  have "\<exists>s'. o_run (flapping (retry_max s) @ [Signal MGW_DISCONNECTED True, StopThread]) s = Some s' \<and>
    waits (acts s') = waits (acts s) @ map (\<lambda>k. 1000 * min (retry_sec s * 2 ^ k) MAX_RETRY_SEC) [0..<retry_max s] \<and>
    last (acts s') = Notify ''signal_stop'' \<and> \<not> reconnecting s' \<and> Created \<notin> set (rthreads s') \<and>
    mgw_output_get_state s' = STREAMING"
    by (rule output_retries_end) (simp_all add: s_def mgw_output_create_def streaming_def MAX_RETRY_SEC_def)
  then show ?thesis using r unfolding m by metis
qed

section \<open>Stopping and destroying\<close>

text \<open>What starting fixes: the event, the plugin and the output's validity.\<close>

definition kept :: "mgw_output \<Rightarrow> mgw_output \<Rightarrow> bool" where
  "kept s s' \<longleftrightarrow> (stopping_event s \<longrightarrow> stopping_event s') \<and> info_impl s' = info_impl s \<and> valid s' = valid s"

lemma start_kept: "mgw_output_actual_start ok s = Some (r, s') \<Longrightarrow> kept s s'"
  by (auto simp: mgw_output_actual_start_def kept_def logged_def Let_def split: if_splits)

lemma begin_kept: "kept s (thread_begin i s)"
  by (simp add: kept_def thread_begin_def logged_def Let_def)

lemma end_kept: "thread_end i ok s = Some s' \<Longrightarrow> kept s s'"
  by (cases "reconnect_stop_event s")
    (auto simp: thread_end_def bind_Some_iff Let_def dest!: start_kept, auto simp: kept_def)

lemma join_kept: "join_last s = Some s' \<Longrightarrow> info_impl s' = info_impl s \<and> valid s' = valid s"
  using begin_kept [of s "length (rthreads s) - 1"]
  by (auto simp: join_last_def Let_def kept_def split: if_splits rthread.splits dest!: end_kept)

lemma stop_retry_kept: "stop_retry s = Some s' \<Longrightarrow> info_impl s' = info_impl s \<and> valid s' = valid s"
  by (auto simp: stop_retry_def Let_def split: if_splits dest: join_kept)

lemma stop_plugin_kept: "stopping_event (stop_plugin f s) \<and> info_impl (stop_plugin f s) = info_impl s \<and> valid (stop_plugin f s) = valid s"
  by (simp add: stop_plugin_def logged_def Let_def)

lemma stop_kept: "mgw_output_actual_stop True s = Some s' \<Longrightarrow> kept s s'"
  by (auto simp: mgw_output_actual_stop_def kept_def stop_plugin_kept dest: stop_retry_kept)

lemma reconnect_kept: "kept s (output_reconnect created s)"
  by (simp add: kept_def output_reconnect_def logged_def Let_def)

lemma signal_kept: "kept s (output_signal_stop created code s)"
  using reconnect_kept [of "s\<lparr>stop_code := code\<rparr>" created]
    reconnect_kept [of "s\<lparr>stop_code := code, last_error_status := code\<rparr>" created]
  by (auto simp: kept_def output_signal_stop_def Let_def)

lemma o_step_started:
  assumes "o_step e s = Some s'"
  shows "kept s s'"
proof (cases e)
  case (Start ok)
  then show ?thesis
    using assms start_kept [of ok "s\<lparr>stopping_event := True\<rparr>"]
    by (auto simp: mgw_output_start_def kept_def split: if_splits)
next
  case Stop
  then show ?thesis using assms stop_kept [of s s'] by (auto simp: mgw_output_stop_def kept_def split: if_splits)
next
  case (Signal code created)
  then show ?thesis using assms signal_kept [of s created code] by simp
next
  case (ThreadBegin i)
  then show ?thesis using assms begin_kept [of s i] by (simp split: if_splits)
next
  case (ThreadEnd i ok)
  then show ?thesis using assms end_kept [of i ok s s'] by (simp split: if_splits)
next
  case StopThread
  then show ?thesis using assms by (auto simp: kept_def stop_thread_def logged_def Let_def split: if_splits)
qed

lemma o_run_started: "o_run es s = Some s' \<Longrightarrow> kept s s'"
proof (induction es arbitrary: s)
  case (Cons e es)
  then obtain s1 where "o_step e s = Some s1" "o_run es s1 = Some s'" by (auto simp: bind_Some_iff simp del: o_step.simps)
  then have "kept s s1" "kept s1 s'" using o_step_started Cons.IH by blast+
  then show ?case by (simp add: kept_def)
qed (simp add: kept_def)

lemma actual_stop_idle:
  "\<not> thread_active s \<Longrightarrow> info_impl s \<Longrightarrow> \<exists>s'. mgw_output_actual_stop True s = Some s' \<and> stopping_event s' \<and>
    \<not> actived s' \<and> info_impl s' \<and> acts s' = acts s @ [PluginStop]"
  by (simp add: mgw_output_actual_stop_def stop_retry_def stop_plugin_def logged_def Let_def)

text \<open>Once an output has been started, whatever happens later, it can be destroyed when no retry is
  waiting: the plugin is stopped if it runs, and destroyed. One that was never started cannot: the
  call waits for an event that only starting signals.\<close>

theorem output_destroy_needs_start:
  assumes "o_run (Start ok # es) (mgw_output_create priv) = Some s" and "\<not> thread_active s"
  shows "(\<exists>s'. mgw_output_destroy s = Some s' \<and> \<not> mgw_output_active s' \<and>
      acts s' = acts s @ (if mgw_output_active s then [PluginStop] else []) @ [PluginDestroy]) \<and>
    mgw_output_destroy (mgw_output_create priv) = None"
proof -
  obtain s1 where s1: "o_step (Start ok) (mgw_output_create priv) = Some s1" "o_run es s1 = Some s"
    using assms(1) by (auto simp: bind_Some_iff)
  then have "stopping_event s1" "info_impl s1" "valid s1"
    by (auto simp: mgw_output_start_def mgw_output_actual_start_def mgw_output_create_def logged_def Let_def split: if_splits)
  then have s: "stopping_event s" "info_impl s" "valid s" using o_run_started [OF s1(2)] by (auto simp: kept_def)
  have "mgw_output_destroy (mgw_output_create priv) = None"
    by (simp add: mgw_output_destroy_def mgw_output_create_def mgw_output_active_def)
  moreover have "\<exists>s'. mgw_output_destroy s = Some s' \<and> \<not> mgw_output_active s' \<and>
      acts s' = acts s @ (if mgw_output_active s then [PluginStop] else []) @ [PluginDestroy]"
    using s actual_stop_idle [OF assms(2) s(2)]
    by (auto simp: mgw_output_destroy_def mgw_output_active_def logged_def)
  ultimately show ?thesis by blast
qed

theorem output_destroy_needs_start_witness:
  "\<exists>s s'. o_run [Start True, Signal MGW_DISCONNECTED True, ThreadBegin 0, ThreadEnd 0 False] (mgw_output_create False) = Some s \<and>
    mgw_output_destroy s = Some s' \<and> \<not> mgw_output_active s'"
proof -
  obtain s where s: "o_run [Start True, Signal MGW_DISCONNECTED True, ThreadBegin 0, ThreadEnd 0 False] (mgw_output_create False) = Some s"
    "\<not> thread_active s"
    by (simp add: mgw_output_create_def mgw_output_start_def mgw_output_actual_start_def logged_def Let_def
        output_signal_stop_def can_reconnect_def output_reconnect_def thread_begin_def thread_end_def MGW_DISCONNECTED_def)
  show ?thesis using output_destroy_needs_start [OF s] s(1) by blast
qed

text \<open>Stopping while a retry waits ends the retry without a start and the retrying; after a failed
  retry the output is not active, and stopping it does nothing.\<close>

theorem output_stop_cancels:
  assumes "came_back s0 k s" and "k < retry_max s0"
  shows "(\<exists>s'. o_run [Signal MGW_DISCONNECTED True, ThreadBegin k, Stop] s = Some s' \<and> \<not> reconnecting s' \<and> \<not> actived s' \<and>
      \<not> thread_active s' \<and> (\<exists>ms. acts s' = acts s @ [PluginStop, Notify ''signal_reconnect'', Wait ms, PluginStop])) \<and>
    (\<exists>s'. o_run [Signal MGW_DISCONNECTED True, ThreadBegin k, ThreadEnd k False, Stop] s = Some s' \<and> reconnecting s' \<and>
      \<not> actived s' \<and> Created \<notin> set (rthreads s') \<and> Waiting \<notin> set (rthreads s'))"
proof (intro conjI)
  have n: "(replicate k Detached @ [y])[k := x] = replicate k Detached @ [x]" for x y
    using list_update_length [of "replicate k Detached" y "[]" x] by simp
  define s1 where "s1 = output_signal_stop True MGW_DISCONNECTED s"
  have s1: "rthreads s1 = replicate k Detached @ [Created]" "reconnecting s1" "\<not> reconnect_stop_event s1" "actived s1"
    "info_impl s1" "valid s1" "stopping_event s1" "acts s1 = acts s @ [PluginStop]"
    using assms by (cases k; simp add: s1_def came_back_def streaming_def output_signal_stop_def can_reconnect_def
        output_reconnect_def logged_def MGW_DISCONNECTED_def MGW_SUCCESS_def Let_def)+
  show "\<exists>s'. o_run [Signal MGW_DISCONNECTED True, ThreadBegin k, Stop] s = Some s' \<and> \<not> reconnecting s' \<and> \<not> actived s' \<and>
      \<not> thread_active s' \<and> (\<exists>ms. acts s' = acts s @ [PluginStop, Notify ''signal_reconnect'', Wait ms, PluginStop])"
    using s1 by (simp add: s1_def [symmetric] n nth_append thread_begin_def logged_def mgw_output_stop_def
        mgw_output_actual_stop_def stop_retry_def stop_plugin_def stopping_def join_last_def thread_end_def Let_def)
  show "\<exists>s'. o_run [Signal MGW_DISCONNECTED True, ThreadBegin k, ThreadEnd k False, Stop] s = Some s' \<and> reconnecting s' \<and>
      \<not> actived s' \<and> Created \<notin> set (rthreads s') \<and> Waiting \<notin> set (rthreads s')"
    using s1 by (simp add: s1_def [symmetric] n nth_append thread_begin_def logged_def mgw_output_stop_def
        mgw_output_actual_start_def thread_end_def Let_def)
qed

theorem output_stop_cancels_witness:
  "\<exists>s s'. o_run [Start True, Signal MGW_DISCONNECTED True, ThreadBegin 0, Stop] (mgw_output_create False) = Some s' \<and>
    o_run [Start True] (mgw_output_create False) = Some s \<and> \<not> reconnecting s' \<and>
    (\<exists>ms. acts s' = acts s @ [PluginStop, Notify ''signal_reconnect'', Wait ms, PluginStop])"
proof -
  define s where "s = (mgw_output_create False)\<lparr>stopping_event := True, actived := True,
    acts := [PluginStart, Notify ''signal_connecting'']\<rparr>"
  have r: "o_step (Start True) (mgw_output_create False) = Some s"
    by (simp add: s_def mgw_output_create_def mgw_output_start_def mgw_output_actual_start_def logged_def Let_def)
  have c: "came_back s 0 s" "0 < retry_max s" by (simp_all add: came_back_def streaming_def s_def mgw_output_create_def)
  from conjunct1 [OF output_stop_cancels [OF c]] r show ?thesis
    by (auto simp: o_run.simps(2) [of "Start True"] simp del: o_step.simps o_run.simps) (auto simp: r)
qed

end
