(* ===== verification/Source.thy ===== *)
theory Source
  imports Output
begin

text \<open>
  Starting, stopping and reconnecting a source, src/mgw-core/core-api/mgw-source.c: the counterpart of
  Output, with the same threads and calls. A source is restarted by stopping it first, waits for its
  stopping event only then, and starts with that event unsignalled. The creation of the stop thread
  and the signal behind it are steps of their own.
\<close>

section \<open>State\<close>

record mgw_source =
  enabled :: bool
  s_impl :: bool
  s_buffer :: bool
  s_private :: bool
  s_actived :: bool
  s_reconnecting :: bool
  s_stopping_event :: bool
  s_reconnect_event :: bool
  s_retry_sec :: nat
  s_retry_max :: nat
  s_retries :: nat
  s_cur_sec :: nat
  s_stop_code :: int
  s_last_error :: int
  s_thread_active :: bool
  s_threads :: "rthread list"
  s_stop_threads :: nat
  s_signalling :: bool
  s_acts :: "act list"

definition s_logged :: "act \<Rightarrow> mgw_source \<Rightarrow> mgw_source" where
  "s_logged a s = s\<lparr>s_acts := s_acts s @ [a]\<rparr>"

text \<open>\<open>mgw_source_create_internal\<close> on success, for a registered plugin or a private source.\<close>

definition mgw_source_create :: "bool \<Rightarrow> mgw_source" where
  "mgw_source_create priv = \<lparr>enabled = True, s_impl = \<not> priv, s_buffer = True, s_private = priv, s_actived = False,
     s_reconnecting = False, s_stopping_event = False, s_reconnect_event = False, s_retry_sec = 2, s_retry_max = 20,
     s_retries = 0, s_cur_sec = 0, s_stop_code = 0, s_last_error = 0, s_thread_active = False, s_threads = [],
     s_stop_threads = 0, s_signalling = False, s_acts = []\<rparr>"

definition mgw_source_active :: "mgw_source \<Rightarrow> bool" where
  "mgw_source_active s \<longleftrightarrow> s_buffer s \<and> s_actived s"

definition mgw_source_is_private :: "mgw_source \<Rightarrow> bool" where
  "mgw_source_is_private s \<longleftrightarrow> s_private s \<and> \<not> s_impl s"

section \<open>Start and stop\<close>

definition mgw_source_stop :: "mgw_source \<Rightarrow> mgw_source" where
  "mgw_source_stop s =
     (if \<not> enabled s \<or> \<not> s_buffer s \<or> \<not> s_private s \<and> \<not> s_impl s then s
      else let s = (if s_actived s \<and> s_impl s
                    then (s_logged PluginStop s)\<lparr>s_stopping_event := True, s_stop_code := 0\<rparr> else s) in
        s\<lparr>s_actived := False\<rparr>)"

text \<open>\<open>ok\<close> is what \<open>info.start\<close> answers.\<close>

definition mgw_source_start :: "bool \<Rightarrow> mgw_source \<Rightarrow> (bool \<times> mgw_source) option" where
  "mgw_source_start ok s =
     (if \<not> enabled s \<or> \<not> s_buffer s \<or> mgw_source_is_private s then Some (False, s)
      else do {
        s \<leftarrow> (if mgw_source_active s
              then let s = mgw_source_stop s in
                if s_stopping_event s then Some (s\<lparr>s_stop_code := 0, s_actived := False\<rparr>) else None
              else Some s);
        let s = s\<lparr>s_actived := True\<rparr>;
        if s_reconnecting s \<and> \<not> s_stopping_event s then None
        else let s = (if s_impl s then (s_logged PluginStart s)\<lparr>s_actived := ok\<rparr> else s);
                 s = (if s_impl s \<and> ok then s_logged (Notify ''signal_connecting'') s else s) in
          Some (mgw_source_active s, s) })"

definition s_thread_begin :: "nat \<Rightarrow> mgw_source \<Rightarrow> mgw_source" where
  "s_thread_begin i s =
     (let ms = s_cur_sec s * 1000 in
      s_logged (Wait ms) (s_logged (Notify ''signal_reconnect'')
        (s\<lparr>s_thread_active := True, s_threads := (s_threads s)[i := Waiting]\<rparr>)))"

definition s_thread_end :: "nat \<Rightarrow> bool \<Rightarrow> mgw_source \<Rightarrow> mgw_source option" where
  "s_thread_end i ok s = do {
     s \<leftarrow> (if s_reconnect_event s then Some s else map_option snd (mgw_source_start ok s));
     let s = (if s_reconnect_event s then s\<lparr>s_reconnecting := False, s_threads := (s_threads s)[i := Joinable]\<rparr>
              else s\<lparr>s_threads := (s_threads s)[i := Detached]\<rparr>);
     Some (s\<lparr>s_thread_active := False\<rparr>) }"

section \<open>The plugin reports its end\<close>

definition s_can_reconnect :: "mgw_source \<Rightarrow> int \<Rightarrow> bool" where
  "s_can_reconnect s code \<longleftrightarrow>
     s_reconnecting s \<and> code \<noteq> MGW_SUCCESS \<or> s_retry_max s \<noteq> 0 \<and> code = MGW_DISCONNECTED"

definition source_reconnect :: "bool \<Rightarrow> mgw_source \<Rightarrow> mgw_source" where
  "source_reconnect created s =
     (let s = (if s_reconnecting s then s else s\<lparr>s_cur_sec := s_retry_sec s, s_retries := 0\<rparr>) in
      if s_retry_max s \<le> s_retries s
      then let s = s\<lparr>s_stop_code := MGW_DISCONNECTED, s_reconnecting := False\<rparr> in
        if created then s\<lparr>s_stop_threads := Suc (s_stop_threads s)\<rparr> else s
      else let s = (if s_reconnecting s then s else s\<lparr>s_reconnecting := True, s_reconnect_event := False\<rparr>);
               s = (if s_retries s \<noteq> 0 then s\<lparr>s_cur_sec := min (s_cur_sec s * 2) MAX_RETRY_SEC\<rparr> else s);
               s = s_logged PluginStop (s\<lparr>s_retries := Suc (s_retries s)\<rparr>);
               s = s\<lparr>s_stop_code := MGW_DISCONNECTED\<rparr> in
        if created then s\<lparr>s_threads := s_threads s @ [Created]\<rparr> else s)"

text \<open>\<open>signal_stop\<close>, up to the creation of the stop thread and behind it.\<close>

definition signal_stop_begin :: "bool \<Rightarrow> int \<Rightarrow> mgw_source \<Rightarrow> mgw_source" where
  "signal_stop_begin created code s =
     (let s = s\<lparr>s_stop_code := code\<rparr>;
          s = (if s_retries s = 0 \<and> s_stop_code s \<noteq> MGW_DISCONNECTED then s\<lparr>s_last_error := s_stop_code s\<rparr> else s) in
      if s_can_reconnect s (s_stop_code s) then source_reconnect created s
      else let s = (if \<not> s_reconnecting s \<and> mgw_source_active s \<and> created
                    then s\<lparr>s_stop_threads := Suc (s_stop_threads s)\<rparr> else s) in
        s\<lparr>s_signalling := True\<rparr>)"

definition signal_stop_end :: "mgw_source \<Rightarrow> mgw_source" where
  "signal_stop_end s = s\<lparr>s_stopping_event := True, s_actived := False, s_signalling := False\<rparr>"

definition s_stop_thread :: "mgw_source \<Rightarrow> mgw_source" where
  "s_stop_thread s =
     (let s' = s\<lparr>s_stop_threads := s_stop_threads s - 1\<rparr> in
      if \<not> s_stopping_event s then s' else s_logged (Notify ''signal_stop'') s')"

section \<open>Histories\<close>

datatype s_event = SStart bool | SStop | SSignal int bool | SSignalEnd | SThreadBegin nat | SThreadEnd nat bool | SStopThread

fun s_step :: "s_event \<Rightarrow> mgw_source \<Rightarrow> mgw_source option" where
  "s_step (SStart ok) s = map_option snd (mgw_source_start ok s)"
| "s_step SStop s = Some (mgw_source_stop s)"
| "s_step (SSignal code created) s = Some (signal_stop_begin created code s)"
| "s_step SSignalEnd s = (if s_signalling s then Some (signal_stop_end s) else None)"
| "s_step (SThreadBegin i) s =
     (if i < length (s_threads s) \<and> s_threads s ! i = Created then Some (s_thread_begin i s) else None)"
| "s_step (SThreadEnd i ok) s =
     (if i < length (s_threads s) \<and> s_threads s ! i = Waiting then s_thread_end i ok s else None)"
| "s_step SStopThread s = (if 0 < s_stop_threads s then Some (s_stop_thread s) else None)"

fun s_run :: "s_event list \<Rightarrow> mgw_source \<Rightarrow> mgw_source option" where
  "s_run [] s = Some s"
| "s_run (e # es) s = Option.bind (s_step e s) (s_run es)"

lemma s_run_append: "s_run (es @ fs) s = Option.bind (s_run es s) (s_run fs)"
  by (induction es arbitrary: s) (simp_all split: Option.bind_split)
section \<open>Retrying\<close>

definition s_lost_and_back :: "nat \<Rightarrow> s_event list" where
  "s_lost_and_back i = [SSignal MGW_DISCONNECTED True, SThreadBegin i, SThreadEnd i True]"

definition s_streaming :: "mgw_source \<Rightarrow> bool" where
  "s_streaming s \<longleftrightarrow> enabled s \<and> s_impl s \<and> s_buffer s \<and> s_actived s \<and> \<not> s_thread_active s"

text \<open>What one retry does to the plugin: it is stopped twice before it is started.\<close>

definition retry_acts :: "nat \<Rightarrow> nat \<Rightarrow> act list" where
  "retry_acts sec k = [PluginStop, Notify ''signal_reconnect'', Wait (1000 * back_off sec k), PluginStop, PluginStart,
     Notify ''signal_connecting'']"

definition s_came_back :: "mgw_source \<Rightarrow> nat \<Rightarrow> mgw_source \<Rightarrow> bool" where
  "s_came_back s0 k s \<longleftrightarrow> s_streaming s \<and> s_threads s = replicate k Detached \<and> s_retry_sec s = s_retry_sec s0 \<and>
     s_retry_max s = s_retry_max s0 \<and> s_stop_threads s = s_stop_threads s0 \<and>
     s_acts s = s_acts s0 @ concat (map (retry_acts (s_retry_sec s0)) [0..<k]) \<and>
     (if k = 0 then \<not> s_reconnecting s
      else s_reconnecting s \<and> \<not> s_reconnect_event s \<and> s_stopping_event s \<and> s_retries s = k \<and>
        s_cur_sec s = back_off (s_retry_sec s0) (k - 1))"

lemma s_signal_lost:
  assumes "s_came_back s0 k s" and "k < s_retry_max s0" and "s_retry_sec s0 \<le> MAX_RETRY_SEC"
  shows "s_streaming (signal_stop_begin True MGW_DISCONNECTED s) \<and>
    s_threads (signal_stop_begin True MGW_DISCONNECTED s) = replicate k Detached @ [Created] \<and>
    s_reconnecting (signal_stop_begin True MGW_DISCONNECTED s) \<and>
    \<not> s_reconnect_event (signal_stop_begin True MGW_DISCONNECTED s) \<and>
    s_retries (signal_stop_begin True MGW_DISCONNECTED s) = Suc k \<and>
    s_cur_sec (signal_stop_begin True MGW_DISCONNECTED s) = back_off (s_retry_sec s0) k \<and>
    s_acts (signal_stop_begin True MGW_DISCONNECTED s) = s_acts s @ [PluginStop] \<and>
    s_retry_sec (signal_stop_begin True MGW_DISCONNECTED s) = s_retry_sec s0 \<and>
    s_retry_max (signal_stop_begin True MGW_DISCONNECTED s) = s_retry_max s0 \<and>
    s_stop_threads (signal_stop_begin True MGW_DISCONNECTED s) = s_stop_threads s0"
  using assms
  by (cases k) (simp_all add: s_came_back_def s_streaming_def signal_stop_begin_def s_can_reconnect_def source_reconnect_def
      s_logged_def back_off_Suc MGW_DISCONNECTED_def MGW_SUCCESS_def Let_def, simp add: back_off_def)

lemma s_restart:
  assumes "s_streaming s"
  shows "\<exists>s'. mgw_source_start True s = Some (True, s') \<and> s_streaming s' \<and> s_stopping_event s' \<and>
    s_acts s' = s_acts s @ [PluginStop, PluginStart, Notify ''signal_connecting''] \<and>
    s_threads s' = s_threads s \<and> s_reconnecting s' = s_reconnecting s \<and> s_reconnect_event s' = s_reconnect_event s \<and>
    s_retries s' = s_retries s \<and> s_cur_sec s' = s_cur_sec s \<and> s_retry_sec s' = s_retry_sec s \<and>
    s_retry_max s' = s_retry_max s \<and> s_stop_threads s' = s_stop_threads s"
  using assms by (simp add: mgw_source_start_def mgw_source_is_private_def mgw_source_active_def mgw_source_stop_def
      s_streaming_def s_logged_def Let_def)

lemma s_cycle_step:
  assumes "s_came_back s0 k s" and "k < s_retry_max s0" and "s_retry_sec s0 \<le> MAX_RETRY_SEC"
  shows "\<exists>s'. s_run (s_lost_and_back k) s = Some s' \<and> s_came_back s0 (Suc k) s'"
proof -
  have n: "(replicate k Detached @ [y])[k := x] = replicate k Detached @ [x]" for x y
    using list_update_length [of "replicate k Detached" y "[]" x] by simp
  have r: "replicate k Detached @ [Detached] = replicate (Suc k) Detached"
    by (metis replicate_Suc replicate_append_same)
  define s1 where "s1 = signal_stop_begin True MGW_DISCONNECTED s"
  define s2 where "s2 = s_thread_begin k s1"
  note f = s_signal_lost [OF assms, folded s1_def]
  have "s_streaming (s2\<lparr>s_thread_active := False\<rparr>)" using f by (simp add: s2_def s_thread_begin_def s_streaming_def s_logged_def Let_def)
  then have "s_streaming s2 \<or> s_thread_active s2" by (auto simp: s_streaming_def)
  have e: "mgw_source_start True s2 = map_option (apsnd (\<lambda>x. x\<lparr>s_thread_active := True\<rparr>))
      (mgw_source_start True (s2\<lparr>s_thread_active := False\<rparr>))"
    using f by (simp add: s2_def s_thread_begin_def s_streaming_def s_logged_def Let_def mgw_source_start_def
        mgw_source_is_private_def mgw_source_active_def mgw_source_stop_def)
  obtain s3 where s3: "mgw_source_start True (s2\<lparr>s_thread_active := False\<rparr>) = Some (True, s3)" "s_streaming s3" "s_stopping_event s3"
    "s_acts s3 = s_acts s2 @ [PluginStop, PluginStart, Notify ''signal_connecting'']"
    "s_threads s3 = s_threads s2" "s_reconnecting s3" "\<not> s_reconnect_event s3" "s_retries s3 = Suc k"
    "s_cur_sec s3 = back_off (s_retry_sec s0) k" "s_retry_sec s3 = s_retry_sec s0" "s_retry_max s3 = s_retry_max s0"
    "s_stop_threads s3 = s_stop_threads s0"
    using s_restart [OF \<open>s_streaming (s2\<lparr>s_thread_active := False\<rparr>)\<close>] f
    by (auto simp: s2_def s_thread_begin_def s_logged_def Let_def)
  define s4 where "s4 = s3\<lparr>s_threads := replicate (Suc k) Detached, s_thread_active := False\<rparr>"
  have t: "s_threads s2 = replicate k Detached @ [Waiting]" "\<not> s_reconnect_event s2"
    using f n by (simp_all add: s2_def s_thread_begin_def s_logged_def Let_def)
  have "s_thread_end k True s2 = Some s4"
    using t s3 n r by (simp add: s_thread_end_def e s4_def Let_def)
  then have "s_run (s_lost_and_back k) s = Some s4"
    using f t by (simp add: s_lost_and_back_def s1_def [symmetric] s2_def [symmetric] nth_append)
  moreover have "s_acts s2 = s_acts s @ [PluginStop, Notify ''signal_reconnect'', Wait (1000 * back_off (s_retry_sec s0) k)]"
    using f by (simp add: s2_def s_thread_begin_def s_logged_def Let_def)
  ultimately show ?thesis
    using s3 assms(1) by (intro exI [of _ s4]) (simp add: s4_def s_came_back_def s_streaming_def retry_acts_def)
qed

definition s_flapping :: "nat \<Rightarrow> s_event list" where
  "s_flapping k = concat (map s_lost_and_back [0..<k])"

lemma s_flapping_run:
  "s_came_back s 0 s \<Longrightarrow> k \<le> s_retry_max s \<Longrightarrow> s_retry_sec s \<le> MAX_RETRY_SEC \<Longrightarrow>
   \<exists>s'. s_run (s_flapping k) s = Some s' \<and> s_came_back s k s'"
proof (induction k)
  case (Suc k)
  then obtain s1 where s1: "s_run (s_flapping k) s = Some s1" "s_came_back s k s1" by auto
  from s_cycle_step [OF s1(2)] Suc.prems s1(1) show ?case by (auto simp: s_flapping_def s_run_append)
qed (simp add: s_flapping_def)

text \<open>A source that loses its connection is stopped, waited for and started again, with delays that double
  up to 15 minutes, and each retry stops the plugin once more before the start; after
  \<open>retry_max\<close> losses in a lifetime the next one only notifies the stream.\<close>

theorem source_retries_end:
  assumes "s_streaming s" and "\<not> s_reconnecting s" and "s_threads s = []" and "s_stop_threads s = 0"
    and "0 < s_retry_max s" and "s_retry_sec s \<le> MAX_RETRY_SEC"
  shows "\<exists>s'. s_run (s_flapping (s_retry_max s) @ [SSignal MGW_DISCONNECTED True, SStopThread]) s = Some s' \<and>
    s_acts s' = s_acts s @ concat (map (retry_acts (s_retry_sec s)) [0..<s_retry_max s]) @ [Notify ''signal_stop''] \<and>
    \<not> s_reconnecting s' \<and> mgw_source_active s'"
proof -
  have "s_came_back s 0 s" using assms by (simp add: s_came_back_def)
  then obtain s1 where s1: "s_run (s_flapping (s_retry_max s)) s = Some s1" "s_came_back s (s_retry_max s) s1"
    using s_flapping_run assms(6) by blast
  then show ?thesis
    using assms(4,5)
    by (auto simp: s_run_append s_came_back_def s_streaming_def signal_stop_begin_def s_can_reconnect_def source_reconnect_def
        s_stop_thread_def s_logged_def mgw_source_active_def MGW_DISCONNECTED_def MGW_SUCCESS_def Let_def)
qed

text \<open>A freshly created source, started, meets the conditions; 20 retries from 2 seconds.\<close>

theorem source_retries_end_witness:
  "\<exists>s s'. s_run [SStart True] (mgw_source_create False) = Some s \<and>
    s_run (s_flapping 20 @ [SSignal MGW_DISCONNECTED True, SStopThread]) s = Some s' \<and> mgw_source_active s'"
proof -
  define s where "s = (mgw_source_create False)\<lparr>s_actived := True,
    s_acts := [PluginStart, Notify ''signal_connecting'']\<rparr>"
  have r: "s_run [SStart True] (mgw_source_create False) = Some s"
    by (simp add: s_def mgw_source_create_def mgw_source_start_def mgw_source_is_private_def mgw_source_active_def
        s_logged_def Let_def)
  have m: "s_retry_max s = 20" by (simp add: s_def mgw_source_create_def)
  have "\<exists>s'. s_run (s_flapping (s_retry_max s) @ [SSignal MGW_DISCONNECTED True, SStopThread]) s = Some s' \<and>
    s_acts s' = s_acts s @ concat (map (retry_acts (s_retry_sec s)) [0..<s_retry_max s]) @ [Notify ''signal_stop''] \<and>
    \<not> s_reconnecting s' \<and> mgw_source_active s'"
    by (rule source_retries_end) (simp_all add: s_def mgw_source_create_def s_streaming_def MAX_RETRY_SEC_def)
  then show ?thesis using r unfolding m by metis
qed

section \<open>Where the two differ\<close>

text \<open>A source starts with its stopping event unsignalled, which its stop thread takes for a stop in
  progress: when the plugin ends for another reason than a lost connection, the stream hears of it only
  if the thread runs after the event is signalled.\<close>

theorem source_stop_notice_lost:
  assumes "code \<noteq> MGW_DISCONNECTED"
  shows "\<exists>s s'. s_run [SStart True, SSignal code True, SStopThread, SSignalEnd] (mgw_source_create False) = Some s \<and>
      s_run [SStart True, SSignal code True, SSignalEnd, SStopThread] (mgw_source_create False) = Some s' \<and>
      Notify ''signal_stop'' \<notin> set (s_acts s) \<and> last (s_acts s') = Notify ''signal_stop'' \<and>
      s_acts s' = s_acts s @ [Notify ''signal_stop''] \<and> s\<lparr>s_acts := s_acts s'\<rparr> = s' \<and> \<not> s_actived s \<and> s_stop_threads s = 0"
  using assms
  by (simp add: mgw_source_create_def mgw_source_start_def mgw_source_is_private_def mgw_source_active_def s_logged_def
      signal_stop_begin_def signal_stop_end_def s_stop_thread_def s_can_reconnect_def Let_def)

theorem source_stop_notice_lost_witness:
  "\<exists>s. s_run [SStart True, SSignal (- 2) True, SStopThread, SSignalEnd] (mgw_source_create False) = Some s \<and>
    Notify ''signal_stop'' \<notin> set (s_acts s)"
  using source_stop_notice_lost [of "- 2"] by (auto simp: MGW_DISCONNECTED_def)

text \<open>A lost connection of a source that is not active is retried as well, but the retry waits for
  the stopping event, which only a stop of an active source or a plugin's last word signals: the thread never
  comes back, and the source stays in the state of retrying.\<close>

lemma source_retry_hangs:
  "\<exists>s. s_run [SStart False, SSignal MGW_DISCONNECTED True, SThreadBegin 0] (mgw_source_create False) = Some s \<and>
    s_reconnecting s \<and> s_run [SThreadEnd 0 ok] s = None"
  by (simp add: mgw_source_create_def mgw_source_start_def mgw_source_is_private_def mgw_source_active_def s_logged_def
      signal_stop_begin_def s_can_reconnect_def source_reconnect_def s_thread_begin_def s_thread_end_def
      MGW_DISCONNECTED_def Let_def)

text \<open>A protocol whose plugin is not registered: the source starts, and counts as active.\<close>

lemma source_without_plugin:
  "mgw_source_start ok ((mgw_source_create False)\<lparr>s_impl := False\<rparr>) =
     Some (True, (mgw_source_create False)\<lparr>s_impl := False, s_actived := True\<rparr>)"
  by (simp add: mgw_source_create_def mgw_source_start_def mgw_source_is_private_def mgw_source_active_def Let_def)

end
