(* ===== verification/Release.thy ===== *)
theory Release
  imports Prelude "HOL-Library.Multiset"
begin

text \<open>
  What the objects of src/mgw-core/core-api allocate while they are created and renamed, and what their
  last release frees: the context they start with (mgw.c), sources, outputs, streams and devices. Only
  blocks an object owns are named; the settings stand for the object's reference to them. The names of
  contexts are C strings, \<open>None\<close> for NULL.
\<close>

section \<open>Blocks\<close>

datatype owned = Object | Control | StopEvent | RetryEvent | Procs | InfoId | Settings | Name string | NameCache
  | Buffer | Impl | VideoHeader | AudioHeader | IdCopy | PluginId

text \<open>\<open>bfree\<close> of a block that is not allocated is undefined: one freed before, or the string literal a
  plugin calls itself by.\<close>

definition bfree :: "owned \<Rightarrow> owned multiset \<Rightarrow> owned multiset option" where
  "bfree b live = (if b \<in># live then Some (live - {#b#}) else None)"

fun bfree_all :: "owned list \<Rightarrow> owned multiset \<Rightarrow> owned multiset option" where
  "bfree_all [] live = Some live"
| "bfree_all (b # bs) live = Option.bind (bfree b live) (bfree_all bs)"

lemma bfree_all_iff: "bfree_all bs live = Some rest \<longleftrightarrow> live = mset bs + rest"
proof (induction bs arbitrary: live)
  case (Cons b bs)
  show ?case
    by (auto simp: bfree_def Cons.IH add.commute dest!: multi_member_split split: if_splits)
qed auto

lemma bfree_all_None: "bfree_all bs live = None \<longleftrightarrow> \<not> mset bs \<subseteq># live"
proof
  assume "bfree_all bs live = None"
  then show "\<not> mset bs \<subseteq># live"
    using bfree_all_iff [of bs live "live - mset bs"] by (metis option.distinct(1) subset_mset.add_diff_inverse)
next
  assume "\<not> mset bs \<subseteq># live"
  then show "bfree_all bs live = None"
    using bfree_all_iff [of bs live] by (metis mset_subset_eq_add_left option.exhaust)
qed

section \<open>Contexts\<close>

definition pad4 :: "string \<Rightarrow> string" where
  "pad4 s = replicate (4 - length s) (CHR ''0'') @ s"

text \<open>\<open>u\<close> is \<open>mgw->data.unnamed_index\<close>.\<close>

definition dup_name :: "string option \<Rightarrow> bool \<Rightarrow> nat \<Rightarrow> string option \<times> nat" where
  "dup_name name priv u =
     (if priv \<and> name = None then (None, u)
      else if name = None \<or> name = Some [] then (Some (''__unnamed'' @ pad4 (decimal u)), u + 1)
      else (name, u))"

record ctx_names =
  obj :: "string option"
  rename_cache :: "string list"

definition name_block :: "string option \<Rightarrow> owned list" where
  "name_block n = (case n of None \<Rightarrow> [] | Some s \<Rightarrow> [Name s])"

definition mgw_context_data_init :: "string option \<Rightarrow> bool \<Rightarrow> nat \<Rightarrow> ctx_names \<times> nat \<times> owned list" where
  "mgw_context_data_init name priv u =
     (let (n, u) = dup_name name priv u in
      (\<lparr>obj = n, rename_cache = []\<rparr>, u, [Procs, InfoId] @ name_block n @ [Settings]))"

definition mgw_context_data_setname :: "string option \<Rightarrow> bool \<Rightarrow> ctx_names \<times> nat \<times> owned list \<Rightarrow> ctx_names \<times> nat \<times> owned list" where
  "mgw_context_data_setname name priv = (\<lambda>(c, u, bs).
     let bs = (if obj c \<noteq> None \<and> rename_cache c = [] then bs @ [NameCache] else bs);
         c = (case obj c of None \<Rightarrow> c | Some s \<Rightarrow> c\<lparr>rename_cache := rename_cache c @ [s]\<rparr>);
         (n, u) = dup_name name priv u in
      (c\<lparr>obj := n\<rparr>, u, bs @ name_block n))"

definition mgw_context_data_free :: "ctx_names \<Rightarrow> owned list" where
  "mgw_context_data_free c = [Procs, Settings] @ name_block (obj c) @ [InfoId] @ map Name (rename_cache c) @
     (if rename_cache c = [] then [] else [NameCache])"

text \<open>A context that is renamed to each of \<open>ns\<close> in turn.\<close>

definition renamed :: "string option \<Rightarrow> bool \<Rightarrow> string option list \<Rightarrow> nat \<Rightarrow> ctx_names \<times> nat \<times> owned list" where
  "renamed name priv ns u = fold (\<lambda>n. mgw_context_data_setname n priv) ns (mgw_context_data_init name priv u)"

lemma setname_blocks:
  "mset (snd (snd x)) = mset (mgw_context_data_free (fst x)) \<Longrightarrow>
   mset (snd (snd (mgw_context_data_setname n priv x))) = mset (mgw_context_data_free (fst (mgw_context_data_setname n priv x)))"
  by (cases x) (auto simp: mgw_context_data_setname_def mgw_context_data_free_def name_block_def Let_def
      split: prod.splits option.splits if_splits)

lemma renamed_blocks: "mset (snd (snd (renamed name priv ns u))) = mset (mgw_context_data_free (fst (renamed name priv ns u)))"
proof (induction ns rule: rev_induct)
  case (snoc n ns)
  then show ?case using setname_blocks by (simp add: renamed_def)
qed (simp add: renamed_def mgw_context_data_init_def mgw_context_data_free_def split: prod.splits)

section \<open>Objects\<close>

text \<open>\<open>info\<close>: the plugin is registered; \<open>priv\<close>: a private source; \<open>ha\<close>, \<open>hv\<close>: it has an audio or video
  header; \<open>cb\<close>: the blocks of its context.\<close>

definition source_blocks :: "bool \<Rightarrow> bool \<Rightarrow> bool \<Rightarrow> bool \<Rightarrow> owned list \<Rightarrow> owned list" where
  "source_blocks info priv ha hv cb =
     [Object, StopEvent, RetryEvent] @ (if \<not> info \<and> priv then [IdCopy] else []) @ cb @ [Control, Buffer] @
     (if info then [Impl] else []) @ (if hv then [VideoHeader] else []) @ (if ha then [AudioHeader] else [])"

definition source_destroy_frees :: "bool \<Rightarrow> bool \<Rightarrow> bool \<Rightarrow> bool \<Rightarrow> owned list \<Rightarrow> owned list" where
  "source_destroy_frees info priv ha hv cf =
     (if info then [Impl] else []) @ cf @ [Buffer, Control] @ (if ha then [AudioHeader] else []) @
     (if hv then [VideoHeader] else []) @ (if \<not> info \<and> priv then [IdCopy] else []) @ [Object]"

definition source_release_frees :: "bool \<Rightarrow> bool \<Rightarrow> bool \<Rightarrow> bool \<Rightarrow> owned list \<Rightarrow> owned list" where
  "source_release_frees info priv ha hv cf = source_destroy_frees info priv ha hv cf @ [Control]"

text \<open>\<open>impl\<close>: the plugin's \<open>create\<close> gave an object.\<close>

definition output_blocks :: "bool \<Rightarrow> bool \<Rightarrow> owned list \<Rightarrow> owned list" where
  "output_blocks info impl cb =
     [Object] @ (if info then [] else [IdCopy]) @ [StopEvent, RetryEvent] @ cb @ [Control, Buffer] @
     (if info \<and> impl then [Impl] else [])"

definition output_destroy_frees :: "bool \<Rightarrow> bool \<Rightarrow> owned list \<Rightarrow> owned list" where
  "output_destroy_frees info impl cf =
     (if info \<and> impl then [Impl] else []) @ [Buffer, StopEvent, RetryEvent] @ cf @
     [if info then PluginId else IdCopy, Object]"

definition output_release_frees :: "bool \<Rightarrow> bool \<Rightarrow> owned list \<Rightarrow> owned list" where
  "output_release_frees info impl cf = output_destroy_frees info impl cf @ [Control]"

text \<open>Streams and devices: the object, its context and the reference count.\<close>

definition stream_blocks :: "owned list \<Rightarrow> owned list" where
  "stream_blocks cb = [Object] @ cb @ [Control]"

definition stream_release_frees :: "owned list \<Rightarrow> owned list" where
  "stream_release_frees cf = cf @ [Object] @ [Control]"

definition device_blocks :: "owned list \<Rightarrow> owned list" where
  "device_blocks cb = [Object] @ cb @ [Control]"

definition device_release_frees :: "owned list \<Rightarrow> owned list" where
  "device_release_frees cf = cf @ [Object] @ [Control]"

text \<open>C23: Whatever an object was renamed to: a stream and a device free exactly what they hold with their last
  reference, and so does an output of an unregistered plugin; an output of a registered plugin frees
  the plugin's own name, and a source frees its reference count twice, while its two events are never
  freed.\<close>

theorem last_release_frees:
  "let (c, _, cb) = renamed name priv ns u; cf = mgw_context_data_free c in
    bfree_all (stream_release_frees cf) (mset (stream_blocks cb)) = Some {#} \<and>
    bfree_all (device_release_frees cf) (mset (device_blocks cb)) = Some {#} \<and>
    bfree_all (output_release_frees False impl cf) (mset (output_blocks False impl cb)) = Some {#} \<and>
    bfree_all (output_release_frees True impl cf) (mset (output_blocks True impl cb)) = None \<and>
    bfree_all (source_release_frees info p ha hv cf) (mset (source_blocks info p ha hv cb)) = None \<and>
    bfree_all (source_destroy_frees info p ha hv cf) (mset (source_blocks info p ha hv cb)) = Some {#StopEvent, RetryEvent#}"
proof -
  obtain c u' cb where r: "renamed name priv ns u = (c, u', cb)" by (cases "renamed name priv ns u")
  define cf where "cf = mgw_context_data_free c"
  have e: "mset cb = mset cf" using renamed_blocks [of name priv ns u] r by (simp add: cf_def)
  have n: "count (mset cf) Control = 0" "count (mset cf) PluginId = 0"
    by (auto simp: cf_def mgw_context_data_free_def name_block_def count_eq_zero_iff split: option.splits)
  have o': "\<not> mset (output_release_frees True impl cf) \<subseteq># mset (output_blocks True impl cb)"
  proof
    assume "mset (output_release_frees True impl cf) \<subseteq># mset (output_blocks True impl cb)"
    from mset_subset_eq_count [OF this, of PluginId] n e show False
      by (simp add: output_release_frees_def output_destroy_frees_def output_blocks_def split: if_splits)
  qed
  have s: "\<not> mset (source_release_frees info p ha hv cf) \<subseteq># mset (source_blocks info p ha hv cb)"
  proof
    assume "mset (source_release_frees info p ha hv cf) \<subseteq># mset (source_blocks info p ha hv cb)"
    from mset_subset_eq_count [OF this, of Control] n e show False
      by (simp add: source_release_frees_def source_destroy_frees_def source_blocks_def split: if_splits)
  qed
  show ?thesis
    using e o' s unfolding r Let_def prod.case cf_def [symmetric]
    by (intro conjI; simp only: bfree_all_iff bfree_all_None)
      (simp_all add: stream_release_frees_def stream_blocks_def device_release_frees_def
        device_blocks_def output_release_frees_def output_destroy_frees_def output_blocks_def
        source_destroy_frees_def source_blocks_def)
qed

end
