(* ===== verification/Stream.thy ===== *)
theory Stream
  imports Context Source Release
begin

text \<open>
  Streams, src/mgw-core/core-api/mgw-stream.c: a source, outputs that send and outputs that wait for a
  source, with the creation and destruction of both (mgw-source.c, mgw-output.c). The two lists of outputs
  are lists of contexts as in Context, the control state of every output and of the source is that of
  Output and Source. A call that waits for an event nobody signals is \<open>Blocked\<close>, undefined
  behaviour is \<open>Crash\<close>. What is freed is the subject of Release and left out here.
\<close>

section \<open>State\<close>

datatype fault = Blocked | Crash

definition bindf :: "fault + 'a \<Rightarrow> ('a \<Rightarrow> fault + 'b) \<Rightarrow> fault + 'b" where
  "bindf r f = (case r of Inl e \<Rightarrow> Inl e | Inr x \<Rightarrow> f x)"

lemma bindf_simps [simp]: "bindf (Inl e) f = Inl e" "bindf (Inr x) f = f x"
  by (simp_all add: bindf_def)

definition orf :: "'a option \<Rightarrow> fault \<Rightarrow> fault + 'a" where
  "orf x e = (case x of None \<Rightarrow> Inl e | Some y \<Rightarrow> Inr y)"

lemma orf_simps [simp]: "orf None e = Inl e" "orf (Some y) e = Inr y"
  by (simp_all add: orf_def)

text \<open>Outputs by the address of their context, with their reference counts; head 0 is
  \<open>outputs_list\<close>, head 1 \<open>outputs_whitelist\<close>, each with the mutex of its number. Nothing is ever put on
  \<open>outputs_blacklist\<close>. \<open>unnamed\<close> is the \<open>unnamed_index\<close> of the core,
  \<open>st_past\<close> what destroyed outputs and sources did.\<close>

record mgw_stream =
  st_heap :: cheap
  outs :: "nat \<Rightarrow> mgw_output option"
  orefs :: "nat \<Rightarrow> int"
  st_source :: "mgw_source option"
  st_actived :: bool
  parent_device :: "nat option"
  unnamed :: nat
  st_past :: "act list"

text \<open>\<open>mgw_stream_create\<close>: nobody sets \<open>parent_device\<close>, before or later.\<close>

definition mgw_stream_create :: "nat \<Rightarrow> mgw_stream" where
  "mgw_stream_create u = \<lparr>st_heap = \<lparr>ctxs = Map.empty, firsts = Map.empty\<rparr>, outs = Map.empty, orefs = (\<lambda>_. 0),
     st_source = None, st_actived = False, parent_device = None, unnamed = u, st_past = []\<rparr>"

definition mgw_stream_has_source :: "mgw_stream \<Rightarrow> bool" where
  "mgw_stream_has_source st \<longleftrightarrow> st_source st \<noteq> None"

definition MGW_ERR_SUCCESS :: int where "MGW_ERR_SUCCESS = 0"
definition MGW_ERR_EPARAM :: int where "MGW_ERR_EPARAM = 1"
definition MGW_ERR_INVALID_RES :: int where "MGW_ERR_INVALID_RES = 2"
definition MGW_ERR_EXISTED :: int where "MGW_ERR_EXISTED = 3"
definition MGW_ERR_NOT_EXIST :: int where "MGW_ERR_NOT_EXIST = 4"
definition MGW_ERR_ECREATE :: int where "MGW_ERR_ECREATE = 5"
definition MGW_ERR_ESTARTING :: int where "MGW_ERR_ESTARTING = 6"

definition mgw_dev_err :: "int \<Rightarrow> int" where "mgw_dev_err x = 0x04000000 + x mod 65536"
definition mgw_src_err :: "int \<Rightarrow> int" where "mgw_src_err x = 0x06000000 + x mod 65536"
definition mgw_out_err :: "int \<Rightarrow> int" where "mgw_out_err x = 0x07000000 + x mod 65536"

section \<open>Which plugin serves a protocol\<close>

definition to_lower :: "char \<Rightarrow> char" where
  "to_lower c = (let n = of_char c :: nat in if 65 \<le> n \<and> n \<le> 90 then char_of (n + 32) else c)"

text \<open>\<open>!strncasecmp(s, p, n)\<close> for a literal \<open>p\<close> of small letters and the first \<open>n\<close> of them.\<close>

definition same_start :: "string \<Rightarrow> string \<Rightarrow> nat \<Rightarrow> bool" where
  "same_start s p n \<longleftrightarrow> map to_lower (take n s) = take n p"

definition get_source_id :: "string \<Rightarrow> string" where
  "get_source_id p =
     (if same_start p ''rtmp'' 4 \<or> same_start p ''rtmpt'' 5 \<or> same_start p ''rtmps'' 5 \<or> same_start p ''srt'' 3 \<or>
         same_start p ''rtsp'' 4 \<or> same_start p ''rtsps'' 5 \<or> same_start p ''flv'' 3 \<or> same_start p ''mp4'' 3 \<or>
         same_start p ''hls'' 3 \<or> same_start p ''local'' 5
      then ''ffmpeg_source'' else ''private_source'')"

definition get_output_id :: "string \<Rightarrow> string option" where
  "get_output_id p =
     (if same_start p ''rtmp'' 4 \<or> same_start p ''rtmpt'' 5 \<or> same_start p ''rtmps'' 5 then Some ''rtmp_output''
      else if same_start p ''srt'' 3 then Some ''srt_output''
      else if same_start p ''rtsp'' 4 \<or> same_start p ''rtsps'' 5 then Some ''rtsp_output''
      else if same_start p ''flv'' 3 then Some ''flv_output''
      else if same_start p ''mp4'' 3 then Some ''ffmpeg_output''
      else if same_start p ''hls'' 3 then Some ''hls_output''
      else None)"

text \<open>\<open>types\<close> are the ids of the registered plugins; comparing one with NULL is undefined.\<close>

definition get_source_info :: "string list \<Rightarrow> string \<Rightarrow> bool" where
  "get_source_info types i \<longleftrightarrow> i \<in> set types"

definition find_output_info :: "string list \<Rightarrow> string option \<Rightarrow> fault + bool" where
  "find_output_info types i = (case i of None \<Rightarrow> if types = [] then Inr False else Inl Crash | Some i \<Rightarrow> Inr (i \<in> set types))"

section \<open>Creating and destroying\<close>

text \<open>The settings of an output or a source, and what its environment answers: whether
  \<open>mgw_rb_create\<close>, the plugin's \<open>create\<close> and its \<open>start\<close> succeed.\<close>

record settings =
  protocol :: string
  uri :: string
  o_name :: string
  rb_ok :: bool
  create_ok :: bool
  start_ok :: bool

definition mgw_output_create_at :: "nat \<Rightarrow> string list \<Rightarrow> settings \<Rightarrow> mgw_stream \<Rightarrow> fault + nat option \<times> mgw_stream" where
  "mgw_output_create_at a types r st =
     (let p = (if protocol r = [] then uri r else protocol r) in
      if p = [] then Inr (None, st)
      else bindf (find_output_info types (get_output_id p)) (\<lambda>info.
        let s = (mgw_output_create False)\<lparr>valid := False, info_impl := False, has_buffer := rb_ok r\<rparr>;
            (name, u) = dup_name (Some (o_name r)) False (unnamed st);
            c = \<lparr>obj_name = the name, c_private = False, c_next = None, prev_next = None, c_mutex = None\<rparr>;
            st = st\<lparr>st_heap := (st_heap st)\<lparr>ctxs := (ctxs (st_heap st))(a \<mapsto> c)\<rparr>, unnamed := u, orefs := (orefs st)(a := 0)\<rparr> in
        if \<not> rb_ok r then bindf (orf (mgw_output_destroy s) Blocked) (\<lambda>_. Inr (None, st))
        else let l = (if mgw_stream_has_source st then 0 else 1) in
          bindf (orf (mgw_context_data_insert a l l (st_heap st)) Crash) (\<lambda>h.
            Inr (Some a, st\<lparr>st_heap := h,
              outs := (outs st)(a \<mapsto> s\<lparr>info_impl := info \<and> create_ok r, valid := True\<rparr>)\<rparr>))))"

text \<open>The output at \<open>a\<close>, as its destructor takes it away.\<close>

definition output_destroy :: "nat \<Rightarrow> mgw_stream \<Rightarrow> fault + mgw_stream" where
  "output_destroy a st =
     bindf (orf (outs st a) Crash) (\<lambda>s.
     bindf (orf (mgw_output_destroy s) Blocked) (\<lambda>s'.
     bindf (orf (mgw_context_data_remove a (st_heap st)) Crash) (\<lambda>h.
       Inr (st\<lparr>st_heap := h\<lparr>ctxs := (ctxs h)(a := None)\<rparr>, outs := (outs st)(a := None), st_past := st_past st @ acts s'\<rparr>))))"

definition mgw_output_release :: "nat \<Rightarrow> mgw_stream \<Rightarrow> fault + mgw_stream" where
  "mgw_output_release a st =
     (let (gone, r) = mgw_ref_release (orefs st a);
          st = st\<lparr>orefs := (orefs st)(a := r)\<rparr> in
      if gone then output_destroy a st else Inr st)"

text \<open>A call on the output at \<open>a\<close>.\<close>

definition on_output :: "nat \<Rightarrow> (mgw_output \<Rightarrow> mgw_output option) \<Rightarrow> mgw_stream \<Rightarrow> fault + mgw_stream" where
  "on_output a f st =
     bindf (orf (outs st a) Crash) (\<lambda>s. bindf (orf (f s) Blocked) (\<lambda>s'. Inr (st\<lparr>outs := (outs st)(a \<mapsto> s')\<rparr>)))"

text \<open>The failing paths of \<open>mgw_source_create_internal\<close> behind \<open>mgw_source_init\<close> free the reference
  count and then destroy the source, which frees it again.\<close>

definition mgw_source_create_from :: "string list \<Rightarrow> settings \<Rightarrow> fault + mgw_source" where
  "mgw_source_create_from types r =
     (let p = (if protocol r = [] then uri r else protocol r);
          i = (if p = [] then ''private_source'' else get_source_id p);
          info = get_source_info types i;
          s = (mgw_source_create (i = ''private_source''))\<lparr>s_private := \<not> info \<and> i = ''private_source'', s_impl := info\<rparr> in
      if \<not> rb_ok r \<or> info \<and> \<not> create_ok r then Inl Crash else Inr s)"

definition mgw_source_destroy :: "mgw_source \<Rightarrow> mgw_source" where
  "mgw_source_destroy s =
     (let s = (if enabled s \<and> mgw_source_active s then mgw_source_stop s else s) in
      if s_impl s then (s_logged PluginDestroy s)\<lparr>s_impl := False\<rparr> else s)"

text \<open>Looking up an output, with a new reference or without; a list passed by its value.\<close>

definition mgw_get_output_by_name :: "nat \<Rightarrow> string \<Rightarrow> mgw_stream \<Rightarrow> fault + nat option \<times> mgw_stream" where
  "mgw_get_output_by_name l name st =
     (if firsts (st_heap st) l = None then Inr (None, st)
      else bindf (orf (find_context (ctxs (st_heap st)) name (firsts (st_heap st) l)) Crash) (\<lambda>p. case p of
          None \<Rightarrow> Inr (None, st)
        | Some a \<Rightarrow> if - 1 < orefs st a then Inr (Some a, st\<lparr>orefs := (orefs st)(a := mgw_ref_addref (orefs st a))\<rparr>)
                    else Inr (None, st)))"

definition mgw_get_weak_output_by_name :: "nat \<Rightarrow> string \<Rightarrow> mgw_stream \<Rightarrow> fault + nat option" where
  "mgw_get_weak_output_by_name l name st =
     (if firsts (st_heap st) l = None then Inr None
      else orf (find_context (ctxs (st_heap st)) name (firsts (st_heap st) l)) Crash)"

section \<open>Operations\<close>

definition add_new_output :: "nat \<Rightarrow> string list \<Rightarrow> settings \<Rightarrow> mgw_stream \<Rightarrow> fault + int \<times> mgw_stream" where
  "add_new_output a types r st =
     bindf (mgw_output_create_at a types r st) (\<lambda>(x, st). case x of
         None \<Rightarrow> Inr (mgw_out_err MGW_ERR_INVALID_RES, st)
       | Some a \<Rightarrow>
           if st_actived st \<and> mgw_stream_has_source st
           then bindf (orf (outs st a) Crash) (\<lambda>s.
             bindf (orf (mgw_output_start (start_ok r) s) Blocked) (\<lambda>(ok, s).
               let st = st\<lparr>outs := (outs st)(a \<mapsto> s)\<rparr> in
               if ok then Inr (mgw_out_err MGW_ERR_SUCCESS, st)
               else bindf (output_destroy a st) (\<lambda>st. Inr (mgw_out_err (last_error_status s), st))))
           else Inr (mgw_out_err MGW_ERR_SUCCESS, st))"

definition mgw_stream_add_output :: "nat \<Rightarrow> string list \<Rightarrow> settings \<Rightarrow> mgw_stream \<Rightarrow> fault + int \<times> mgw_stream" where
  "mgw_stream_add_output a types r st =
     bindf (mgw_get_output_by_name 0 (o_name r) st) (\<lambda>(x, st). case x of
         Some b \<Rightarrow> bindf (mgw_output_release b st) (\<lambda>st. Inr (mgw_out_err MGW_ERR_EXISTED, st))
       | None \<Rightarrow> bindf (mgw_get_output_by_name 1 (o_name r) st) (\<lambda>(x, st). case x of
             Some b \<Rightarrow> bindf (mgw_output_release b st) (\<lambda>st. Inr (mgw_out_err MGW_ERR_EXISTED, st))
           | None \<Rightarrow> add_new_output a types r st))"

text \<open>The loop over the waiting outputs when a source arrives. It starts the first and passes
  \<open>mgw_context_data_insert\<close> the list's value instead of its address: the assertion fails when no output
  is sending, else the first sending output's bytes are overwritten as if it were the list's head.\<close>

definition promote :: "bool \<Rightarrow> mgw_stream \<Rightarrow> fault + mgw_stream" where
  "promote ok st = (case firsts (st_heap st) 1 of
       None \<Rightarrow> Inr (st\<lparr>st_heap := (st_heap st)\<lparr>firsts := (firsts (st_heap st))(1 := None)\<rparr>\<rparr>)
     | Some a \<Rightarrow> bindf (on_output a (\<lambda>s. map_option snd (mgw_output_start ok s)) st) (\<lambda>_. Inl Crash))"

text \<open>\<open>oks\<close>: what the plugin of the first waiting output answers to its start.\<close>

definition mgw_stream_add_source :: "string list \<Rightarrow> settings \<Rightarrow> bool \<Rightarrow> mgw_stream \<Rightarrow> fault + int \<times> mgw_stream" where
  "mgw_stream_add_source types r oks st =
     (if mgw_stream_has_source st then Inr (mgw_src_err MGW_ERR_INVALID_RES, st)
      else bindf (mgw_source_create_from types r) (\<lambda>s.
        bindf (if mgw_source_is_private s then Inr (True, s) else orf (mgw_source_start (start_ok r) s) Blocked) (\<lambda>(ok, s).
          let st = st\<lparr>st_source := Some s\<rparr> in
          if \<not> ok then Inr (mgw_src_err MGW_ERR_ESTARTING, st)
          else bindf (promote oks (st\<lparr>st_actived := True\<rparr>)) (\<lambda>st. Inr (mgw_src_err MGW_ERR_SUCCESS, st)))))"

text \<open>Only the stream holds its source, so the release destroys it.\<close>

definition source_gone :: "mgw_source \<Rightarrow> mgw_stream \<Rightarrow> mgw_stream" where
  "source_gone s st = st\<lparr>st_source := None, st_past := st_past st @ s_acts (mgw_source_destroy s)\<rparr>"

definition mgw_stream_release_source :: "mgw_stream \<Rightarrow> mgw_stream" where
  "mgw_stream_release_source st = (case st_source st of
       None \<Rightarrow> st\<lparr>st_actived := False\<rparr>
     | Some s \<Rightarrow> (source_gone (if mgw_source_is_private s then mgw_source_stop s else s) st)\<lparr>st_actived := False\<rparr>)"

definition mgw_stream_release_output :: "nat \<Rightarrow> mgw_stream \<Rightarrow> fault + mgw_stream" where
  "mgw_stream_release_output a st = bindf (on_output a mgw_output_stop st) (mgw_output_release a)"

definition mgw_stream_release_output_by_name :: "string \<Rightarrow> mgw_stream \<Rightarrow> fault + mgw_stream" where
  "mgw_stream_release_output_by_name name st =
     bindf (mgw_get_weak_output_by_name 0 name st) (\<lambda>x. case x of None \<Rightarrow> Inr st | Some a \<Rightarrow> mgw_stream_release_output a st)"

text \<open>What it answers, and whether the packet is written to the source's buffer.\<close>

definition mgw_stream_send_packet :: "mgw_stream \<Rightarrow> bool \<times> bool" where
  "mgw_stream_send_packet st = (case st_source st of None \<Rightarrow> (False, False) | Some s \<Rightarrow> (True, mgw_source_is_private s))"

text \<open>The outputs are followed through \<open>next\<close>, read before each is released; \<open>n\<close> bounds the number.\<close>

fun mgw_output_release_all :: "nat \<Rightarrow> nat option \<Rightarrow> mgw_stream \<Rightarrow> fault + mgw_stream" where
  "mgw_output_release_all n None st = Inr st"
| "mgw_output_release_all 0 (Some a) st = Inl Blocked"
| "mgw_output_release_all (Suc n) (Some a) st =
     bindf (orf (ctxs (st_heap st) a) Crash) (\<lambda>c.
     bindf (mgw_stream_release_output a st) (\<lambda>st. mgw_output_release_all n (c_next c) st))"

definition mgw_stream_destroy :: "nat \<Rightarrow> mgw_stream \<Rightarrow> fault + mgw_stream" where
  "mgw_stream_destroy n st =
     (let st = (case st_source st of None \<Rightarrow> st | Some s \<Rightarrow> source_gone s st) in
      bindf (mgw_output_release_all n (firsts (st_heap st) 0) st) (\<lambda>st.
        mgw_output_release_all n (firsts (st_heap st) 1) st))"

section \<open>The outputs of a stream\<close>

definition nm :: "cheap \<Rightarrow> nat \<Rightarrow> string" where
  "nm h a = fst (the (map_option label (ctxs h a)))"

text \<open>Two sound lists that share nothing and hold all contexts; every context belongs to an output
  with a reference, is public and has a name of its own.\<close>

definition objs_ok :: "cheap \<Rightarrow> (nat \<Rightarrow> mgw_output option) \<Rightarrow> (nat \<Rightarrow> int) \<Rightarrow> nat list \<Rightarrow> nat list \<Rightarrow> bool" where
  "objs_ok h os rs xs ys \<longleftrightarrow> clist h 0 0 xs \<and> clist h 1 1 ys \<and> set xs \<inter> set ys = {} \<and>
     (\<forall>a. ctxs h a \<noteq> None \<longleftrightarrow> a \<in> set (xs @ ys)) \<and>
     (\<forall>a \<in> set (xs @ ys). os a \<noteq> None \<and> 0 \<le> rs a \<and> (\<exists>n. map_option label (ctxs h a) = Some (n, False))) \<and>
     distinct (map (nm h) (xs @ ys))"

definition stream_ok :: "mgw_stream \<Rightarrow> nat list \<Rightarrow> nat list \<Rightarrow> bool" where
  "stream_ok st xs ys \<longleftrightarrow> objs_ok (st_heap st) (outs st) (orefs st) xs ys"

lemma nm_changes: "changes S l h h' \<Longrightarrow> nm h' a = nm h a"
  by (simp add: changes_def nm_def)

lemma named_nm: "map_option label (ctxs h a) = Some (n, False) \<Longrightarrow> named h name a \<longleftrightarrow> nm h a = name"
  by (auto simp: named_def nm_def label_def)

lemma find_named:
  assumes "\<forall>a \<in> set xs. \<exists>n. map_option label (ctxs h a) = Some (n, False)"
  shows "(case find (named h name) xs of None \<Rightarrow> name \<notin> nm h ` set xs | Some a \<Rightarrow> a \<in> set xs \<and> nm h a = name)"
proof -
  have e: "\<forall>a \<in> set xs. named h name a \<longleftrightarrow> nm h a = name" using assms named_nm by metis
  show ?thesis
  proof (cases "find (named h name) xs")
    case None
    then have "\<forall>a \<in> set xs. \<not> named h name a" by (simp add: find_None_iff)
    then show ?thesis using None e by auto
  next
    case (Some a)
    then show ?thesis using find_SomeD [OF Some] e by auto
  qed
qed

lemma objs_insert:
  assumes ok: "objs_ok h os rs xs ys" and new: "ctxs h a = None" and c: "label c = (n, False)" and n: "n \<notin> nm h ` set (xs @ ys)"
  shows "\<exists>h'. mgw_context_data_insert a 0 0 (h\<lparr>ctxs := (ctxs h)(a \<mapsto> c)\<rparr>) = Some h' \<and>
      objs_ok h' (os(a \<mapsto> s)) (rs(a := 0)) (a # xs) ys \<and> (\<forall>x. nm h' x = (if x = a then n else nm h x))"
    and "\<exists>h'. mgw_context_data_insert a 1 1 (h\<lparr>ctxs := (ctxs h)(a \<mapsto> c)\<rparr>) = Some h' \<and>
      objs_ok h' (os(a \<mapsto> s)) (rs(a := 0)) xs (a # ys) \<and> (\<forall>x. nm h' x = (if x = a then n else nm h x))"
proof -
  define h0 where "h0 = h\<lparr>ctxs := (ctxs h)(a \<mapsto> c)\<rparr>"
  have "a \<notin> set (xs @ ys)" using ok new unfolding objs_ok_def by metis
  then have a: "a \<notin> set xs" "a \<notin> set ys" by auto
  have l: "clist h0 0 0 xs" "clist h0 1 1 ys" using ok a clist_alloc unfolding h0_def objs_ok_def by auto
  have c0: "ctxs h0 a = Some c" by (simp add: h0_def)
  have nm0: "nm h0 x = (if x = a then n else nm h x)" for x using c by (simp add: h0_def nm_def)
  have d: "\<And>x. ctxs h0 x \<noteq> None \<longleftrightarrow> x \<in> set (a # xs @ ys)" using ok by (auto simp: h0_def objs_ok_def)
  have p: "\<forall>x \<in> set (a # xs @ ys). (os(a \<mapsto> s)) x \<noteq> None \<and> 0 \<le> (rs(a := 0)) x \<and> (\<exists>n. map_option label (ctxs h0 x) = Some (n, False))"
    using ok c by (auto simp: h0_def objs_ok_def)
  have nd: "distinct (n # map (nm h) (xs @ ys))" "set xs \<inter> set ys = {}" using ok n by (auto simp: objs_ok_def)
  have nx: "map (nm h0) (xs @ ys) = map (nm h) (xs @ ys)" using nm0 a by auto
  have "map (nm h0) (a # xs @ ys) = n # map (nm h) (xs @ ys)" using nx nm0 [of a] by (simp del: map_append)
  then have "distinct (map (nm h0) (a # xs @ ys))" using nd(1) by (simp only:)
  then have D: "distinct (map (nm h0) ((a # xs) @ ys))" "distinct (map (nm h0) (xs @ a # ys))" by auto
  have dom: "ctxs h' x \<noteq> None \<longleftrightarrow> ctxs h0 x \<noteq> None" "map_option label (ctxs h' x) = map_option label (ctxs h0 x)"
    if "changes S k h0 h'" for S k h' x
    using that unfolding changes_def by (metis option.map_disc_iff, metis)
  have s: "objs_ok h' (os(a \<mapsto> s)) (rs(a := 0)) us vs"
    if "changes S k h0 h'" "clist h' 0 0 us" "clist h' 1 1 vs" "set us \<inter> set vs = {}" "set (us @ vs) = set (a # xs @ ys)"
      "distinct (map (nm h0) (us @ vs))" for S k h' us vs
  proof -
    have e: "nm h' = nm h0" by (rule ext) (rule nm_changes [OF that(1)])
    show ?thesis
      unfolding objs_ok_def using that dom [OF that(1)] d p by (simp only: that(5) e) simp
  qed
  show "\<exists>h'. mgw_context_data_insert a 0 0 (h\<lparr>ctxs := (ctxs h)(a \<mapsto> c)\<rparr>) = Some h' \<and>
      objs_ok h' (os(a \<mapsto> s)) (rs(a := 0)) (a # xs) ys \<and> (\<forall>x. nm h' x = (if x = a then n else nm h x))"
  proof -
    obtain h' where h': "mgw_context_data_insert a 0 0 h0 = Some h'" "clist h' 0 0 (a # xs)" "changes (set (a # xs)) 0 h0 h'"
      using insert_clist [OF l(1) c0 a(1)] by blast
    have "clist h' 1 1 ys" using clist_changes [OF l(2) h'(3)] a nd by auto
    then have "objs_ok h' (os(a \<mapsto> s)) (rs(a := 0)) (a # xs) ys"
      by (rule s [OF h'(3,2) _ _ _ D(1)]) (use a nd in auto)
    then show ?thesis using h' nm_changes [OF h'(3)] nm0 by (auto simp: h0_def)
  qed
  show "\<exists>h'. mgw_context_data_insert a 1 1 (h\<lparr>ctxs := (ctxs h)(a \<mapsto> c)\<rparr>) = Some h' \<and>
      objs_ok h' (os(a \<mapsto> s)) (rs(a := 0)) xs (a # ys) \<and> (\<forall>x. nm h' x = (if x = a then n else nm h x))"
  proof -
    obtain h' where h': "mgw_context_data_insert a 1 1 h0 = Some h'" "clist h' 1 1 (a # ys)" "changes (set (a # ys)) 1 h0 h'"
      using insert_clist [OF l(2) c0 a(2)] by blast
    have "clist h' 0 0 xs" using clist_changes [OF l(1) h'(3)] a nd by auto
    then have "objs_ok h' (os(a \<mapsto> s)) (rs(a := 0)) xs (a # ys)"
      by (rule s [OF h'(3) _ h'(2) _ _ D(2)]) (use a nd in auto)
    then show ?thesis using h' nm_changes [OF h'(3)] nm0 by (auto simp: h0_def)
  qed
qed

lemma objs_remove:
  assumes ok: "objs_ok h os rs xs ys" and a: "a \<in> set xs" and rs': "\<forall>x. x \<noteq> a \<longrightarrow> rs' x = rs x"
  shows "\<exists>h'. mgw_context_data_remove a h = Some h' \<and>
    objs_ok (h'\<lparr>ctxs := (ctxs h')(a := None)\<rparr>) (os(a := None)) rs' (remove1 a xs) ys \<and>
    (\<forall>x. x \<noteq> a \<longrightarrow> nm (h'\<lparr>ctxs := (ctxs h')(a := None)\<rparr>) x = nm h x)"
proof -
  have l: "clist h 0 0 xs" "clist h 1 1 ys" "set xs \<inter> set ys = {}" "distinct xs" using ok by (auto simp: objs_ok_def clist_def)
  obtain h' where h': "mgw_context_data_remove a h = Some h'" "clist h' 0 0 (remove1 a xs)" "changes (set xs) 0 h h'"
    using remove_clist [OF l(1) a] by blast
  define h2 where "h2 = h'\<lparr>ctxs := (ctxs h')(a := None)\<rparr>"
  have r: "set (remove1 a xs) = set xs - {a}" "a \<notin> set (remove1 a xs)" "a \<notin> set ys" using l(3,4) a by auto
  have "clist h' 1 1 ys" using clist_changes [OF l(2) h'(3)] l(3) by auto
  then have c: "clist h2 0 0 (remove1 a xs)" "clist h2 1 1 ys" using clist_alloc h'(2) r unfolding h2_def by auto
  have s: "ctxs h' x \<noteq> None \<longleftrightarrow> ctxs h x \<noteq> None" "map_option label (ctxs h' x) = map_option label (ctxs h x)" for x
    using h'(3) unfolding changes_def by (metis option.map_disc_iff, metis)
  have d: "\<And>x. ctxs h x \<noteq> None \<longleftrightarrow> x \<in> set (xs @ ys)" and n: "distinct (map (nm h) (xs @ ys))"
    and p: "\<forall>x \<in> set (xs @ ys). os x \<noteq> None \<and> 0 \<le> rs x \<and> (\<exists>n. map_option label (ctxs h x) = Some (n, False))"
    using ok unfolding objs_ok_def by auto
  have dom: "ctxs h2 x \<noteq> None \<longleftrightarrow> x \<in> set (remove1 a xs @ ys)" for x
    using s(1) [of x] d [of x] r by (auto simp: h2_def)
  have q: "\<forall>x \<in> set (remove1 a xs @ ys). (os(a := None)) x \<noteq> None \<and> 0 \<le> rs' x \<and> (\<exists>n. map_option label (ctxs h2 x) = Some (n, False))"
  proof
    fix x assume "x \<in> set (remove1 a xs @ ys)"
    then have x: "x \<noteq> a" "x \<in> set (xs @ ys)" using r by auto
    show "(os(a := None)) x \<noteq> None \<and> 0 \<le> rs' x \<and> (\<exists>n. map_option label (ctxs h2 x) = Some (n, False))"
      using bspec [OF p x(2)] s(2) [of x] rs' x(1) by (simp add: h2_def)
  qed
  have nx: "nm h2 x = nm h x" if "x \<noteq> a" for x using s(2) [of x] that by (simp add: nm_def h2_def)
  have "inj_on (nm h) (set (xs @ ys))" "distinct (xs @ ys)" using n by (simp_all only: distinct_map)
  then have "inj_on (nm h) (set (remove1 a xs @ ys))" "distinct (remove1 a xs @ ys)"
    using r l(3) by (auto intro: inj_on_subset)
  then have "distinct (map (nm h) (remove1 a xs @ ys))" by (simp only: distinct_map)
  moreover have "map (nm h2) (remove1 a xs @ ys) = map (nm h) (remove1 a xs @ ys)" using q nx r
    by (intro map_cong refl) (metis Un_iff set_append Diff_iff singletonI)
  ultimately have "objs_ok h2 (os(a := None)) rs' (remove1 a xs) ys"
    unfolding objs_ok_def using c dom q l(3) r by (simp only:) blast
  then show ?thesis using h'(1) nx by (auto simp: h2_def)
qed

text \<open>Looking up a name among the outputs.\<close>

lemma weak_lookup:
  assumes "objs_ok (st_heap st) os rs xs ys" and "k = 0 \<and> zs = xs \<or> k = 1 \<and> zs = ys"
  shows "mgw_get_weak_output_by_name k name st = Inr (find (named (st_heap st) name) zs)"
proof -
  have c: "clist (st_heap st) k k zs" using assms by (auto simp: objs_ok_def)
  show ?thesis
  proof (cases zs)
    case Nil
    then have "firsts (st_heap st) k = None" using c by (simp add: clist_def)
    then show ?thesis using Nil by (simp add: mgw_get_weak_output_by_name_def)
  next
    case (Cons a as)
    then have "firsts (st_heap st) k = Some a" using c by (simp add: clist_def)
    then show ?thesis using find_clist [OF c, of name] by (simp add: mgw_get_weak_output_by_name_def)
  qed
qed

lemma lookup:
  assumes ok: "stream_ok st xs ys" and z: "k = 0 \<and> zs = xs \<or> k = 1 \<and> zs = ys"
  shows "mgw_get_output_by_name k name st = Inr (case find (named (st_heap st) name) zs of
      None \<Rightarrow> (None, st) | Some a \<Rightarrow> (Some a, st\<lparr>orefs := (orefs st)(a := orefs st a + 1)\<rparr>))"
proof -
  have w: "mgw_get_weak_output_by_name k name st = Inr (find (named (st_heap st) name) zs)"
    using weak_lookup ok z unfolding stream_ok_def by blast
  have "0 \<le> orefs st a" if "find (named (st_heap st) name) zs = Some a" for a
    using find_SomeD [OF that] ok z by (auto simp: stream_ok_def objs_ok_def)
  then show ?thesis
    using w by (auto simp: mgw_get_output_by_name_def mgw_get_weak_output_by_name_def mgw_ref_addref_def orf_def
        split: if_splits option.splits)
qed

lemma lookup_names:
  assumes ok: "stream_ok st xs ys" and z: "zs = xs \<or> zs = ys"
  shows "case find (named (st_heap st) name) zs of None \<Rightarrow> name \<notin> nm (st_heap st) ` set zs
    | Some a \<Rightarrow> a \<in> set zs \<and> nm (st_heap st) a = name"
  by (rule find_named) (use assms in \<open>auto simp: stream_ok_def objs_ok_def\<close>)

lemma ref_and_release:
  "0 \<le> orefs st a \<Longrightarrow> mgw_output_release a (st\<lparr>orefs := (orefs st)(a := orefs st a + 1)\<rparr>) = Inr st"
  by (simp add: mgw_output_release_def mgw_ref_release_def)

section \<open>Adding outputs\<close>

definition registered :: "string list \<Rightarrow> settings \<Rightarrow> bool" where
  "registered types r \<longleftrightarrow> (let p = (if protocol r = [] then uri r else protocol r) in
     p \<noteq> [] \<and> (case get_output_id p of None \<Rightarrow> False | Some i \<Rightarrow> i \<in> set types))"

text \<open>An output of a plugin that answers as in \<open>r\<close> before it is started.\<close>

definition new_output :: mgw_output where
  "new_output = mgw_output_create False"

lemma create_at:
  assumes ok: "stream_ok st xs ys" and new: "ctxs (st_heap st) a = None" and r: "registered types r" "rb_ok r" "create_ok r"
    and n: "o_name r \<noteq> []" "o_name r \<notin> nm (st_heap st) ` set (xs @ ys)"
  shows "\<exists>st'. mgw_output_create_at a types r st = Inr (Some a, st') \<and> outs st' a = Some new_output \<and>
    st_source st' = st_source st \<and> st_actived st' = st_actived st \<and> st_past st' = st_past st \<and>
    (\<forall>x. nm (st_heap st') x = (if x = a then o_name r else nm (st_heap st) x)) \<and>
    (if mgw_stream_has_source st then stream_ok st' (a # xs) ys else stream_ok st' xs (a # ys))"
proof -
  define c where "c = \<lparr>obj_name = o_name r, c_private = False, c_next = None, prev_next = None, c_mutex = None\<rparr>"
  define l :: nat where "l = (if mgw_stream_has_source st then 0 else 1)"
  have lab: "label c = (o_name r, False)" by (simp add: c_def label_def)
  have s: "(mgw_output_create False)\<lparr>valid := False, info_impl := False, has_buffer := True, info_impl := True, valid := True\<rparr> = new_output"
    by (simp add: new_output_def mgw_output_create_def)
  define pr where "pr = (if protocol r = [] then uri r else protocol r)"
  have "pr \<noteq> [] \<and> (case get_output_id pr of None \<Rightarrow> False | Some i \<Rightarrow> i \<in> set types)"
    using r(1) unfolding registered_def Let_def pr_def .
  then have p: "pr \<noteq> []" "find_output_info types (get_output_id pr) = Inr True"
    by (auto simp: find_output_info_def split: option.splits)
  have d: "dup_name (Some (o_name r)) False (unnamed st) = (Some (o_name r), unnamed st)" using n(1) by (simp add: dup_name_def)
  obtain h where h: "mgw_context_data_insert a l l ((st_heap st)\<lparr>ctxs := (ctxs (st_heap st))(a \<mapsto> c)\<rparr>) = Some h"
    "\<forall>x. nm h x = (if x = a then o_name r else nm (st_heap st) x)"
    "objs_ok h ((outs st)(a \<mapsto> new_output)) ((orefs st)(a := 0))
      (if mgw_stream_has_source st then a # xs else xs) (if mgw_stream_has_source st then ys else a # ys)"
    using objs_insert [OF ok [unfolded stream_ok_def] new lab n(2), of new_output] by (cases "mgw_stream_has_source st") (auto simp: l_def)
  define st' where "st' = st\<lparr>st_heap := h, unnamed := unnamed st, orefs := (orefs st)(a := 0), outs := (outs st)(a \<mapsto> new_output)\<rparr>"
  have "mgw_output_create_at a types r st = Inr (Some a, st')"
    using p(1) h(1) r(2,3) s unfolding mgw_output_create_at_def Let_def pr_def [symmetric] p(2)
    by (simp add: d c_def [symmetric] mgw_stream_has_source_def l_def st'_def split: if_splits)
  then show ?thesis using h(2,3) by (auto simp: st'_def stream_ok_def)
qed

lemma objs_update: "objs_ok h os rs xs ys \<Longrightarrow> objs_ok h (os(a \<mapsto> s)) rs xs ys"
  by (simp add: objs_ok_def)

lemma start_new:
  "\<exists>s. mgw_output_start ok new_output = Some (ok, s) \<and> mgw_output_active s = ok \<and> last_error_status s = 0 \<and>
    (\<not> ok \<longrightarrow> (\<exists>d. mgw_output_destroy s = Some d \<and> acts d = [PluginStart, PluginDestroy]))"
  by (simp add: new_output_def mgw_output_create_def mgw_output_start_def mgw_output_actual_start_def mgw_output_active_def
      mgw_output_destroy_def logged_def Let_def)

lemma destroy_at:
  assumes ok: "stream_ok st xs ys" and a: "a \<in> set xs" and s: "outs st a = Some s" "mgw_output_destroy s = Some d"
  shows "\<exists>st'. output_destroy a st = Inr st' \<and> stream_ok st' (remove1 a xs) ys \<and> outs st' = (outs st)(a := None) \<and>
    st_source st' = st_source st \<and> st_actived st' = st_actived st \<and> st_past st' = st_past st @ acts d \<and>
    orefs st' = orefs st \<and> (\<forall>x. x \<noteq> a \<longrightarrow> nm (st_heap st') x = nm (st_heap st) x)"
  using objs_remove [OF ok [unfolded stream_ok_def] a, of "orefs st"] s
  by (auto simp: output_destroy_def stream_ok_def)

lemma add_new:
  assumes ok: "stream_ok st xs ys" and new: "ctxs (st_heap st) a = None" and r: "registered types r" "rb_ok r" "create_ok r"
    and n: "o_name r \<noteq> []" "o_name r \<notin> nm (st_heap st) ` set (xs @ ys)"
  shows "\<exists>st'. add_new_output a types r st = Inr (mgw_out_err MGW_ERR_SUCCESS, st') \<and>
    (if \<not> mgw_stream_has_source st
     then stream_ok st' xs (a # ys) \<and> outs st' a = Some new_output \<and> nm (st_heap st') a = o_name r
     else if st_actived st \<and> \<not> start_ok r
     then stream_ok st' xs ys \<and> outs st' a = None \<and> st_past st' = st_past st @ [PluginStart, PluginDestroy]
     else stream_ok st' (a # xs) ys \<and> nm (st_heap st') a = o_name r \<and>
       (\<exists>s. outs st' a = Some s \<and> mgw_output_active s = st_actived st)) \<and>
    (\<forall>x. x \<noteq> a \<longrightarrow> nm (st_heap st') x = nm (st_heap st) x)"
proof -
  obtain st1 where c: "mgw_output_create_at a types r st = Inr (Some a, st1)" "outs st1 a = Some new_output"
    "st_source st1 = st_source st" "st_actived st1 = st_actived st" "st_past st1 = st_past st"
    "\<forall>x. nm (st_heap st1) x = (if x = a then o_name r else nm (st_heap st) x)"
    "if mgw_stream_has_source st then stream_ok st1 (a # xs) ys else stream_ok st1 xs (a # ys)"
    using create_at [OF ok new r n] by blast
  have h: "mgw_stream_has_source st1 = mgw_stream_has_source st" using c(3) by (simp add: mgw_stream_has_source_def)
  consider (waits) "\<not> mgw_stream_has_source st" | (idle) "mgw_stream_has_source st" "\<not> st_actived st"
    | (starts) "mgw_stream_has_source st" "st_actived st" by blast
  then show ?thesis
  proof cases
    case starts
    obtain s where s: "mgw_output_start (start_ok r) new_output = Some (start_ok r, s)" "mgw_output_active s = start_ok r"
      "last_error_status s = 0"
      "\<not> start_ok r \<longrightarrow> (\<exists>d. mgw_output_destroy s = Some d \<and> acts d = [PluginStart, PluginDestroy])"
      using start_new by blast
    define st2 where "st2 = st1\<lparr>outs := (outs st1)(a \<mapsto> s)\<rparr>"
    have k: "stream_ok st2 (a # xs) ys" using c(7) starts(1) objs_update by (auto simp: st2_def stream_ok_def)
    show ?thesis
    proof (cases "start_ok r")
      case True
      have "add_new_output a types r st = Inr (mgw_out_err MGW_ERR_SUCCESS, st2)"
        using c(1,2,4) h s starts True by (simp add: add_new_output_def st2_def Let_def)
      then show ?thesis using k c(6) starts True s(2) by (intro exI [of _ st2]) (simp add: st2_def)
    next
      case False
      then obtain d where d: "mgw_output_destroy s = Some d" "acts d = [PluginStart, PluginDestroy]" using s(4) by blast
      obtain st3 where st3: "output_destroy a st2 = Inr st3" "stream_ok st3 xs ys" "outs st3 a = None"
        "st_past st3 = st_past st @ acts d" "\<forall>x. x \<noteq> a \<longrightarrow> nm (st_heap st3) x = nm (st_heap st2) x"
        using destroy_at [OF k, of a s d] d(1) c(5) by (auto simp: st2_def)
      have "add_new_output a types r st = Inr (mgw_out_err MGW_ERR_SUCCESS, st3)"
        using c(1,2,4) h s(1,3) starts False st3(1) by (simp add: add_new_output_def st2_def Let_def MGW_ERR_SUCCESS_def)
      then show ?thesis using st3 d(2) c(6) starts False by (intro exI [of _ st3]) (simp add: st2_def)
    qed
  qed (use c h in \<open>auto simp: add_new_output_def new_output_def mgw_output_create_def mgw_output_active_def\<close>)
qed


text \<open>The settings of an RTMP output on a fresh stream.\<close>

definition rtmp_settings :: settings where
  "rtmp_settings = \<lparr>protocol = ''RTMPS'', uri = '''', o_name = ''output1'', rb_ok = True, create_ok = True, start_ok = True\<rparr>"

lemma rtmp_registered: "registered [''rtmp_output'', ''srt_output''] rtmp_settings"
  by code_simp

lemma fresh_ok: "stream_ok ((mgw_stream_create u)\<lparr>st_source := x, st_actived := b\<rparr>) [] []"
  by (simp add: stream_ok_def objs_ok_def mgw_stream_create_def clist_def)


section \<open>Releasing outputs\<close>

text \<open>An output that has been started, waits for no retry, and is held by its stream only.\<close>

definition quiet :: "mgw_stream \<Rightarrow> nat \<Rightarrow> bool" where
  "quiet st a \<longleftrightarrow> orefs st a = 0 \<and> (\<exists>s. outs st a = Some s \<and> valid s \<and> info_impl s \<and> stopping_event s \<and> \<not> thread_active s)"

lemma stop_and_destroy:
  assumes "valid s" and "info_impl s" and "stopping_event s" and "\<not> thread_active s"
  shows "\<exists>s' d. mgw_output_stop s = Some s' \<and> mgw_output_destroy s' = Some d \<and>
    acts d = acts s @ (if actived s then [PluginStop] else []) @ [PluginDestroy]"
proof (cases "actived s")
  case True
  obtain s' where "mgw_output_actual_stop True s = Some s'" "stopping_event s'" "\<not> actived s'" "info_impl s'"
    "acts s' = acts s @ [PluginStop]"
    using actual_stop_idle [OF assms(4,2)] by blast
  then show ?thesis
    using True by (simp add: mgw_output_stop_def mgw_output_destroy_def mgw_output_active_def logged_def)
qed (use assms in \<open>simp add: mgw_output_stop_def mgw_output_destroy_def mgw_output_active_def logged_def\<close>)

lemma release_output_quiet:
  assumes ok: "stream_ok st xs ys" and a: "a \<in> set xs" and q: "quiet st a"
  shows "\<exists>st'. mgw_stream_release_output a st = Inr st' \<and> stream_ok st' (remove1 a xs) ys \<and> outs st' = (outs st)(a := None) \<and>
    st_source st' = st_source st \<and> st_actived st' = st_actived st \<and>
    (\<forall>x. x \<noteq> a \<longrightarrow> orefs st' x = orefs st x \<and> nm (st_heap st') x = nm (st_heap st) x) \<and>
    (\<exists>s. outs st a = Some s \<and> st_past st' = st_past st @ acts s @ (if actived s then [PluginStop] else []) @ [PluginDestroy])"
proof -
  obtain s where s: "outs st a = Some s" "valid s" "info_impl s" "stopping_event s" "\<not> thread_active s" "orefs st a = 0"
    using q by (auto simp: quiet_def)
  obtain s' d where d: "mgw_output_stop s = Some s'" "mgw_output_destroy s' = Some d"
    "acts d = acts s @ (if actived s then [PluginStop] else []) @ [PluginDestroy]"
    using stop_and_destroy [OF s(2-5)] by blast
  define st1 where "st1 = st\<lparr>outs := (outs st)(a \<mapsto> s'), orefs := (orefs st)(a := - 1)\<rparr>"
  obtain h where h: "mgw_context_data_remove a (st_heap st) = Some h"
    "objs_ok (h\<lparr>ctxs := (ctxs h)(a := None)\<rparr>) ((outs st)(a := None)) ((orefs st)(a := - 1)) (remove1 a xs) ys"
    "\<forall>x. x \<noteq> a \<longrightarrow> nm (h\<lparr>ctxs := (ctxs h)(a := None)\<rparr>) x = nm (st_heap st) x"
    using objs_remove [OF ok [unfolded stream_ok_def] a, of "(orefs st)(a := - 1)"] by auto
  have "mgw_stream_release_output a st = Inr (st1\<lparr>st_heap := h\<lparr>ctxs := (ctxs h)(a := None)\<rparr>, outs := (outs st)(a := None),
      st_past := st_past st @ acts d\<rparr>)"
    using s d h(1) by (simp add: mgw_stream_release_output_def on_output_def mgw_output_release_def mgw_ref_release_def
        output_destroy_def st1_def)
  then show ?thesis using h(2,3) s d(3) by (simp add: stream_ok_def st1_def)
qed

text \<open>Releasing an output by its name: a sending one is stopped, destroyed and taken off the list; one that
  waits for a source is not found, and a name nobody has changes nothing.\<close>

theorem release_by_name:
  assumes "stream_ok st xs ys"
  shows "(\<forall>a \<in> set xs. quiet st a \<and> nm (st_heap st) a = name \<longrightarrow>
      (\<exists>st' s. mgw_stream_release_output_by_name name st = Inr st' \<and> stream_ok st' (remove1 a xs) ys \<and>
        name \<notin> nm (st_heap st') ` set (remove1 a xs @ ys) \<and> outs st a = Some s \<and>
        st_past st' = st_past st @ acts s @ (if actived s then [PluginStop] else []) @ [PluginDestroy])) \<and>
    (name \<notin> nm (st_heap st) ` set xs \<longrightarrow> mgw_stream_release_output_by_name name st = Inr st)"
proof (intro conjI ballI impI)
  note ok = assms
  have w: "mgw_get_weak_output_by_name 0 name st = Inr (find (named (st_heap st) name) xs)"
    using weak_lookup ok unfolding stream_ok_def by blast
  have n: "case find (named (st_heap st) name) xs of None \<Rightarrow> name \<notin> nm (st_heap st) ` set xs
    | Some a \<Rightarrow> a \<in> set xs \<and> nm (st_heap st) a = name" using lookup_names [OF ok] by blast
  have d: "distinct (map (nm (st_heap st)) (xs @ ys))" "distinct xs" "set xs \<inter> set ys = {}"
    using ok by (auto simp: stream_ok_def objs_ok_def clist_def)
  {
    fix a assume a: "a \<in> set xs" and q: "quiet st a \<and> nm (st_heap st) a = name"
    have "find (named (st_heap st) name) xs = Some a"
    proof (cases "find (named (st_heap st) name) xs")
      case None
      then show ?thesis using n a q by auto
    next
      case (Some b)
      then have "b \<in> set xs" "nm (st_heap st) b = nm (st_heap st) a" using n q by auto
      then show ?thesis using Some a d(1) by (auto simp: distinct_map inj_on_def)
    qed
    then have e: "mgw_stream_release_output_by_name name st = mgw_stream_release_output a st"
      using w by (simp add: mgw_stream_release_output_by_name_def)
    obtain st' s where st': "mgw_stream_release_output a st = Inr st'" "stream_ok st' (remove1 a xs) ys"
      "\<forall>x. x \<noteq> a \<longrightarrow> nm (st_heap st') x = nm (st_heap st) x" "outs st a = Some s"
      "st_past st' = st_past st @ acts s @ (if actived s then [PluginStop] else []) @ [PluginDestroy]"
      using release_output_quiet [OF ok a] q by blast
    have "name \<noteq> nm (st_heap st') x" if "x \<in> set (remove1 a xs @ ys)" for x
    proof -
      have x: "x \<noteq> a" "x \<in> set (xs @ ys)" using that d(2,3) a by auto
      then have "nm (st_heap st) x \<noteq> nm (st_heap st) a"
        using d(1) a unfolding distinct_map inj_on_def by (metis UnCI set_append)
      then show ?thesis using st'(3) x(1) q by auto
    qed
    then show "\<exists>st' s. mgw_stream_release_output_by_name name st = Inr st' \<and> stream_ok st' (remove1 a xs) ys \<and>
        name \<notin> nm (st_heap st') ` set (remove1 a xs @ ys) \<and> outs st a = Some s \<and>
        st_past st' = st_past st @ acts s @ (if actived s then [PluginStop] else []) @ [PluginDestroy]"
      using e st'(1,2,4,5) by (intro exI [of _ st'] exI [of _ s]) auto
  }
  assume "name \<notin> nm (st_heap st) ` set xs"
  then have "find (named (st_heap st) name) xs = None" using n by (cases "find (named (st_heap st) name) xs") auto
  then show "mgw_stream_release_output_by_name name st = Inr st"
    using w by (simp add: mgw_stream_release_output_by_name_def)
qed

theorem release_by_name_witness:
  "\<exists>st st' xs. stream_ok st xs [] \<and> nm (st_heap st) 7 = ''output1'' \<and>
    mgw_stream_release_output_by_name ''output1'' st = Inr st' \<and> stream_ok st' (remove1 7 xs) []"
proof -
  define st0 where "st0 = (mgw_stream_create 0)\<lparr>st_source := Some (mgw_source_create False), st_actived := True\<rparr>"
  have k: "stream_ok st0 [] []" using fresh_ok by (simp add: st0_def)
  have c: "ctxs (st_heap st0) 7 = None" "mgw_stream_has_source st0" "st_actived st0"
    by (simp_all add: st0_def mgw_stream_create_def mgw_stream_has_source_def)
  obtain st1 where st1: "mgw_output_create_at 7 [''rtmp_output'', ''srt_output''] rtmp_settings st0 = Inr (Some 7, st1)"
    "outs st1 7 = Some new_output" "nm (st_heap st1) 7 = ''output1''" "stream_ok st1 [7] []"
    using create_at [OF k c(1) rtmp_registered] c(2) by (auto simp: rtmp_settings_def)
  define s where "s = new_output\<lparr>stopping_event := True, actived := True\<rparr>"
  define st2 where "st2 = st1\<lparr>outs := (outs st1)(7 \<mapsto> s), orefs := (orefs st1)(7 := 0)\<rparr>"
  have "objs_ok (st_heap st1) (outs st1) ((orefs st1)(7 := 0)) [7] []" using st1(4) by (auto simp: stream_ok_def objs_ok_def)
  then have "stream_ok st2 [7] []" using objs_update by (auto simp: st2_def stream_ok_def)
  moreover have "quiet st2 7" by (simp add: quiet_def st2_def s_def new_output_def mgw_output_create_def)
  moreover have "nm (st_heap st2) 7 = ''output1''" using st1(3) by (simp add: st2_def)
  ultimately have "\<exists>st'. mgw_stream_release_output_by_name ''output1'' st2 = Inr st' \<and> stream_ok st' (remove1 7 [7]) []"
    using release_by_name [of st2 "[7]" "[]" "''output1''"] by auto
  then show ?thesis using \<open>stream_ok st2 [7] []\<close> \<open>nm (st_heap st2) 7 = ''output1''\<close> by blast
qed

section \<open>The source\<close>

lemma create_source:
  assumes "rb_ok r" and "create_ok r"
  shows "\<exists>s. mgw_source_create_from types r = Inr s \<and> enabled s \<and> s_buffer s \<and> \<not> s_actived s \<and> \<not> s_reconnecting s \<and>
    (s_private s \<longrightarrow> \<not> s_impl s)"
proof -
  define p where "p = (if protocol r = [] then uri r else protocol r)"
  define i where "i = (if p = [] then ''private_source'' else get_source_id p)"
  show ?thesis
    using assms unfolding mgw_source_create_from_def p_def [symmetric] Let_def i_def [symmetric]
    by (auto simp: mgw_source_create_def)
qed

lemma promote_waiting:
  assumes "stream_ok st xs ys"
  shows "promote ok st = (if ys = [] then Inr st else Inl Crash)"
proof (cases ys)
  case Nil
  then have f: "firsts (st_heap st) 1 = None" using assms by (simp add: stream_ok_def objs_ok_def clist_def)
  then have "(firsts (st_heap st))(1 := None) = firsts (st_heap st)" by auto
  then show ?thesis using f Nil by (simp add: promote_def)
next
  case (Cons y zs)
  then have f: "firsts (st_heap st) 1 = Some y" "outs st y \<noteq> None"
    using assms by (auto simp: stream_ok_def objs_ok_def clist_def)
  then show ?thesis
    using Cons by (auto simp: promote_def on_output_def mgw_output_start_def mgw_output_actual_start_def Let_def)
qed

text \<open>C25: What \<open>mgw_stream_add_source\<close> does: a second source is refused; a source whose start fails stays, so
  that no other can be added; else the stream becomes active, unless outputs wait for the source: then
  the call does not survive the first of them.\<close>

theorem add_source_outcomes:
  assumes "stream_ok st xs ys" and "rb_ok r" and "create_ok r"
  shows "(mgw_stream_has_source st \<longrightarrow> mgw_stream_add_source types r oks st = Inr (mgw_src_err MGW_ERR_INVALID_RES, st)) \<and>
    (\<not> mgw_stream_has_source st \<longrightarrow> (\<exists>s. mgw_source_create_from types r = Inr s \<and>
      (if s_impl s \<and> \<not> start_ok r
       then (\<exists>st'. mgw_stream_add_source types r oks st = Inr (mgw_src_err MGW_ERR_ESTARTING, st') \<and> stream_ok st' xs ys \<and>
         st_actived st' = st_actived st \<and>
         mgw_stream_add_source types r' oks' st' = Inr (mgw_src_err MGW_ERR_INVALID_RES, st'))
       else if ys \<noteq> [] then mgw_stream_add_source types r oks st = Inl Crash
       else (\<exists>st'. mgw_stream_add_source types r oks st = Inr (mgw_src_err MGW_ERR_SUCCESS, st') \<and> stream_ok st' xs [] \<and>
         st_actived st' \<and> mgw_stream_has_source st' \<and> mgw_stream_send_packet st' = (True, s_private s)))))"
proof (intro conjI impI)
  assume h: "\<not> mgw_stream_has_source st"
  obtain s where s: "mgw_source_create_from types r = Inr s" "enabled s" "s_buffer s" "\<not> s_actived s" "\<not> s_reconnecting s"
    "s_private s \<longrightarrow> \<not> s_impl s"
    using create_source [OF assms(2,3)] by blast
  have keep: "stream_ok (st\<lparr>st_source := x, st_actived := b\<rparr>) xs ys" for x b using assms(1) by (simp add: stream_ok_def)
  have keep': "stream_ok (st\<lparr>st_source := x\<rparr>) xs ys" for x using assms(1) by (simp add: stream_ok_def)
  have p: "mgw_source_is_private s = s_private s" using s(6) by (auto simp: mgw_source_is_private_def)
  define ok where "ok = (s_impl s \<longrightarrow> start_ok r)"
  obtain s' where s': "(if mgw_source_is_private s then Inr (True, s) else orf (mgw_source_start (start_ok r) s) Blocked) = Inr (ok, s')"
    "mgw_source_is_private s' = s_private s"
    using s p by (cases "s_private s"; cases "s_impl s")
      (auto simp: ok_def mgw_source_start_def mgw_source_is_private_def mgw_source_active_def s_logged_def Let_def)
  have e: "mgw_stream_add_source types r oks st =
      (if \<not> ok then Inr (mgw_src_err MGW_ERR_ESTARTING, st\<lparr>st_source := Some s'\<rparr>)
       else bindf (promote oks (st\<lparr>st_source := Some s', st_actived := True\<rparr>)) (\<lambda>st. Inr (mgw_src_err MGW_ERR_SUCCESS, st)))"
    using h s(1) s'(1) by (simp add: mgw_stream_add_source_def Let_def)
  show "\<exists>s. mgw_source_create_from types r = Inr s \<and>
      (if s_impl s \<and> \<not> start_ok r
       then (\<exists>st'. mgw_stream_add_source types r oks st = Inr (mgw_src_err MGW_ERR_ESTARTING, st') \<and> stream_ok st' xs ys \<and>
         st_actived st' = st_actived st \<and>
         mgw_stream_add_source types r' oks' st' = Inr (mgw_src_err MGW_ERR_INVALID_RES, st'))
       else if ys \<noteq> [] then mgw_stream_add_source types r oks st = Inl Crash
       else (\<exists>st'. mgw_stream_add_source types r oks st = Inr (mgw_src_err MGW_ERR_SUCCESS, st') \<and> stream_ok st' xs [] \<and>
         st_actived st' \<and> mgw_stream_has_source st' \<and> mgw_stream_send_packet st' = (True, s_private s)))"
    using s(1) e promote_waiting [OF keep [of True "Some s'"], of oks] keep [of True "Some s'"] keep' [of "Some s'"] s'(2)
    by (intro exI [of _ s]) (auto simp: ok_def mgw_stream_add_source_def mgw_stream_has_source_def mgw_stream_send_packet_def)
qed (simp add: mgw_stream_add_source_def)

theorem add_source_outcomes_witness:
  "\<exists>s. mgw_source_create_from [''ffmpeg_source''] rtmp_settings = Inr s \<and> s_impl s \<and>
    (\<exists>st'. mgw_stream_add_source [''ffmpeg_source''] rtmp_settings True (mgw_stream_create 0) = Inr (0x06000000, st') \<and> st_actived st')"
proof -
  have k: "stream_ok (mgw_stream_create 0) [] []" using fresh_ok [of False None 0] by (simp add: mgw_stream_create_def)
  have c: "rb_ok rtmp_settings" "create_ok rtmp_settings" by (simp_all add: rtmp_settings_def)
  have "(case mgw_source_create_from [''ffmpeg_source''] rtmp_settings of Inl _ \<Rightarrow> False | Inr s \<Rightarrow> s_impl s)" by code_simp
  moreover have "\<not> mgw_stream_has_source (mgw_stream_create 0)" "start_ok rtmp_settings"
    by (simp_all add: mgw_stream_create_def mgw_stream_has_source_def rtmp_settings_def)
  ultimately show ?thesis
    using conjunct2 [OF add_source_outcomes [OF k c, of "[''ffmpeg_source'']" True]] by (auto simp: mgw_src_err_def MGW_ERR_SUCCESS_def)
qed

section \<open>Destroying a stream\<close>

text \<open>Releasing a list of outputs one after the other; \<open>flip\<close> tells which of the two lists it is.\<close>

lemma firsts_head: "clist h m l zs \<Longrightarrow> firsts h l = (case zs of [] \<Rightarrow> None | a # _ \<Rightarrow> Some a)"
  by (cases zs) (simp_all add: clist_def)

lemma next_of_head:
  assumes "clist h m l (a # zs)" and "ctxs h a = Some c"
  shows "c_next c = (case zs of [] \<Rightarrow> None | b # _ \<Rightarrow> Some b)"
  using assms by (cases zs) (auto simp: clist_def)

lemma release_all_quiet:
  "stream_ok st xs ys \<Longrightarrow> \<forall>a \<in> set xs. quiet st a \<Longrightarrow> length xs \<le> n \<Longrightarrow>
   \<exists>st'. mgw_output_release_all n (firsts (st_heap st) 0) st = Inr st' \<and> stream_ok st' [] ys \<and>
     (\<forall>b \<in> set ys. outs st' b = outs st b \<and> orefs st' b = orefs st b)"
proof (induction xs arbitrary: st n)
  case Nil
  then have "firsts (st_heap st) 0 = None" by (simp add: stream_ok_def objs_ok_def clist_def)
  then show ?case using Nil by simp
next
  case (Cons a xs)
  then obtain m where m: "n = Suc m" "length xs \<le> m" by (cases n) auto
  have l: "clist (st_heap st) 0 0 (a # xs)" "set (a # xs) \<inter> set ys = {}" "distinct (a # xs)"
    using Cons.prems(1) by (auto simp: stream_ok_def objs_ok_def clist_def)
  then obtain c where c: "ctxs (st_heap st) a = Some c" using clist_ctx by (metis list.set_intros(1))
  obtain st1 where st1: "mgw_stream_release_output a st = Inr st1" "stream_ok st1 xs ys" "outs st1 = (outs st)(a := None)"
    "\<forall>x. x \<noteq> a \<longrightarrow> orefs st1 x = orefs st x \<and> nm (st_heap st1) x = nm (st_heap st) x"
    using release_output_quiet [OF Cons.prems(1), of a] Cons.prems(2) by auto
  have "\<forall>b \<in> set xs. quiet st1 b"
    using Cons.prems(2) st1(3,4) l(3) by (auto simp: quiet_def)
  then obtain st' where st': "mgw_output_release_all m (firsts (st_heap st1) 0) st1 = Inr st'" "stream_ok st' [] ys"
    "\<forall>b \<in> set ys. outs st' b = outs st1 b \<and> orefs st' b = orefs st1 b"
    using Cons.IH [OF st1(2) _ m(2)] by blast
  have "c_next c = firsts (st_heap st1) 0"
    using next_of_head [OF l(1) c] firsts_head [of "st_heap st1" 0 0 xs] st1(2) by (simp add: stream_ok_def objs_ok_def)
  moreover have "firsts (st_heap st) 0 = Some a" using firsts_head [OF l(1)] by simp
  ultimately have "mgw_output_release_all n (firsts (st_heap st) 0) st = Inr st'"
    using c st1(1) st'(1) m(1) by simp
  moreover have "\<forall>b \<in> set ys. outs st' b = outs st b \<and> orefs st' b = orefs st b"
    using st'(3) st1(3,4) l(2) by auto
  ultimately show ?case using st'(2) by blast
qed



text \<open>An output whose plugin cannot be created is not refused when the stream is active: the call never
  returns, because the output is destroyed without ever having been started.\<close>

lemma add_unstartable_blocks:
  assumes "stream_ok st xs ys" and "ctxs (st_heap st) a = None" and "registered types r" and "rb_ok r" and "\<not> create_ok r"
    and "o_name r \<noteq> []" and "o_name r \<notin> nm (st_heap st) ` set (xs @ ys)" and "mgw_stream_has_source st" and "st_actived st"
  shows "add_new_output a types r st = Inl Blocked"
proof -
  define r' where "r' = r\<lparr>create_ok := True\<rparr>"
  have r': "registered types r'" "rb_ok r'" "create_ok r'" "o_name r' = o_name r"
    using assms(3,4) by (simp_all add: r'_def registered_def Let_def split: if_splits)
  obtain st1 where c: "mgw_output_create_at a types r' st = Inr (Some a, st1)" "st_source st1 = st_source st" "st_actived st1 = st_actived st"
    using create_at [OF assms(1,2) r'(1-3)] assms(6,7) r'(4) by auto
  define s where "s = new_output\<lparr>info_impl := False\<rparr>"
  have "mgw_output_create_at a types r st = Inr (Some a, st1\<lparr>outs := (outs st)(a \<mapsto> s)\<rparr>)"
    using c(1) assms(5) unfolding mgw_output_create_at_def
    by (auto simp: r'_def Let_def bindf_def orf_def s_def new_output_def mgw_output_create_def mgw_stream_has_source_def
        split: sum.splits option.splits prod.splits if_splits)
  then show ?thesis
    using c(2,3) assms(8,9) by (simp add: add_new_output_def s_def new_output_def mgw_output_create_def mgw_output_start_def
        mgw_stream_has_source_def output_destroy_def mgw_output_destroy_def mgw_output_active_def)
qed

end
