(* ===== verification/CallbackHandle.thy ===== *)
theory CallbackHandle
  imports Prelude "HOL-Library.Sublist"
begin

text \<open>
  The table of named handlers, src/mgw-core/util/source/callback-handle.c. The array of entries is
  the list it holds (DArray says how). Names are C strings without their terminator. A function
  pointer is an address, NULL is 0. \<open>names\<close> counts the copies of names that are allocated.
\<close>

section \<open>Definitions\<close>

text \<open>\<open>strncmp\<close> of the C library, up to the size of a nonzero result.\<close>

fun strncmp :: "string \<Rightarrow> string \<Rightarrow> nat \<Rightarrow> int" where
  "strncmp xs ys 0 = 0"
| "strncmp [] [] (Suc n) = 0"
| "strncmp [] (y # ys) (Suc n) = - 1"
| "strncmp (x # xs) [] (Suc n) = 1"
| "strncmp (x # xs) (y # ys) (Suc n) =
     (if x = y then strncmp xs ys n else if (of_char x :: nat) < of_char y then - 1 else 1)"

record call_data =
  cd_name :: string
  cb_proc_func :: nat

record 'o proc_handler =
  opaque :: 'o
  proc_functions :: "call_data list"
  names :: nat

definition proc_handler_create :: "'o \<Rightarrow> 'o proc_handler" where
  "proc_handler_create o' = \<lparr>opaque = o', proc_functions = [], names = 0\<rparr>"

text \<open>Each entry's name is freed; what is still allocated afterwards is lost.\<close>

definition proc_handler_destroy :: "'o proc_handler option \<Rightarrow> nat" where
  "proc_handler_destroy h = (case h of None \<Rightarrow> 0 | Some h \<Rightarrow> names h - length (proc_functions h))"

definition matches :: "string \<Rightarrow> nat \<Rightarrow> call_data \<Rightarrow> bool" where
  "matches name func d \<longleftrightarrow> strncmp (cd_name d) name (length name) = 0 \<or> cb_proc_func d = func"

definition get_proc_data :: "call_data list \<Rightarrow> string \<Rightarrow> nat \<Rightarrow> call_data option" where
  "get_proc_data ds name func = find (matches name func) ds"

fun get_proc_data_idx :: "call_data list \<Rightarrow> string \<Rightarrow> nat \<Rightarrow> int" where
  "get_proc_data_idx [] name func = - 1"
| "get_proc_data_idx (d # ds) name func =
     (if matches name func d then 0
      else let i = get_proc_data_idx ds name func in if i = - 1 then - 1 else i + 1)"

definition proc_handler_add :: "'o proc_handler option \<Rightarrow> string option \<Rightarrow> nat \<Rightarrow> bool \<times> 'o proc_handler option" where
  "proc_handler_add h name func = (case (h, name) of
     (Some h, Some name) \<Rightarrow>
       if func = 0 then (False, Some h)
       else if get_proc_data (proc_functions h) name func = None
       then (True, Some (h\<lparr>proc_functions := proc_functions h @ [\<lparr>cd_name = name, cb_proc_func = func\<rparr>], names := Suc (names h)\<rparr>))
       else (True, Some h)
   | _ \<Rightarrow> (False, h))"

definition proc_handler_remove :: "'o proc_handler option \<Rightarrow> string option \<Rightarrow> 'o proc_handler option" where
  "proc_handler_remove h name = (case (h, name) of
     (Some h, Some name) \<Rightarrow>
       let idx = get_proc_data_idx (proc_functions h) name 0 in
       if 0 \<le> idx then Some (h\<lparr>proc_functions := take (nat idx) (proc_functions h) @ drop (Suc (nat idx)) (proc_functions h)\<rparr>)
       else Some h
   | _ \<Rightarrow> h)"

text \<open>\<open>call\<close> is what a handler does when called.\<close>

definition proc_handler_do :: "(nat \<Rightarrow> 'o \<Rightarrow> 'p \<Rightarrow> int) \<Rightarrow> 'o proc_handler option \<Rightarrow> string option \<Rightarrow> 'p \<Rightarrow> int" where
  "proc_handler_do call h name params = (case (h, name) of
     (Some h, Some name) \<Rightarrow>
       (case get_proc_data (proc_functions h) name 0 of
          Some d \<Rightarrow> call (cb_proc_func d) (opaque h) params
        | None \<Rightarrow> - 1)
   | _ \<Rightarrow> - 1)"

section \<open>Names match by prefix\<close>

lemma strncmp_prefix: "strncmp xs ys (length ys) = 0 \<longleftrightarrow> prefix ys xs"
  by (induction xs ys "length ys" rule: strncmp.induct) auto

lemma matches_iff: "matches name func d \<longleftrightarrow> prefix name (cd_name d) \<or> cb_proc_func d = func"
  by (simp add: matches_def strncmp_prefix)

lemma idx_range: "- 1 \<le> get_proc_data_idx ds name func"
  by (induction ds) (auto simp: Let_def)

lemma idx_find:
  "0 \<le> get_proc_data_idx ds name func \<Longrightarrow>
   nat (get_proc_data_idx ds name func) < length ds \<and>
   get_proc_data ds name func = Some (ds ! nat (get_proc_data_idx ds name func))"
proof (induction ds)
  case (Cons d ds)
  then show ?case
    using idx_range [of ds name func]
    by (auto simp: Let_def get_proc_data_def nat_add_distrib split: if_splits)
qed simp

text \<open>Registering a list of handlers.\<close>

definition register :: "(string \<times> nat) list \<Rightarrow> 'o proc_handler \<Rightarrow> 'o proc_handler" where
  "register fs h = fold (\<lambda>(n, f) h. the (snd (proc_handler_add (Some h) (Some n) f))) fs h"

definition separate :: "(string \<times> nat) list \<Rightarrow> bool" where
  "separate fs \<longleftrightarrow> distinct (map snd fs) \<and> 0 \<notin> snd ` set fs \<and>
     (\<forall>i < length fs. \<forall>j < i. \<not> prefix (fst (fs ! i)) (fst (fs ! j)))"

definition entries :: "(string \<times> nat) list \<Rightarrow> call_data list" where
  "entries fs = map (\<lambda>(n, f). \<lparr>cd_name = n, cb_proc_func = f\<rparr>) fs"

lemma separate_snoc:
  "separate (fs @ [(n, f)]) \<longleftrightarrow> separate fs \<and> f \<noteq> 0 \<and> f \<notin> snd ` set fs \<and> (\<forall>p \<in> set fs. \<not> prefix n (fst p))"
  by (auto simp: separate_def nth_append less_Suc_eq all_set_conv_all_nth)

lemma register_entries:
  "separate fs \<Longrightarrow> register fs (proc_handler_create o') = \<lparr>opaque = o', proc_functions = entries fs, names = length fs\<rparr>"
proof (induction fs rule: rev_induct)
  case (snoc p fs)
  obtain n f where p: "p = (n, f)" by (cases p)
  then have "get_proc_data (entries fs) n f = None"
    using snoc.prems by (force simp: separate_snoc get_proc_data_def find_None_iff matches_iff entries_def)
  then show ?case
    using snoc p by (simp add: separate_snoc register_def proc_handler_add_def entries_def)
qed (simp add: register_def proc_handler_create_def entries_def)

lemma find_first:
  "i < length xs \<Longrightarrow> P (xs ! i) \<Longrightarrow> \<forall>j < i. \<not> P (xs ! j) \<Longrightarrow> find P xs = Some (xs ! i)"
proof (induction xs arbitrary: i)
  case (Cons x xs)
  show ?case
  proof (cases i)
    case (Suc k)
    have "\<forall>j < k. \<not> P (xs ! j)" using Cons.prems(3) Suc by (metis Suc_less_eq nth_Cons_Suc)
    then show ?thesis using Cons Suc by auto
  qed (use Cons.prems in simp)
qed simp

text \<open>C17: Handlers registered under names none of which is a prefix of an earlier one, each with a function of
  its own, are all kept; asking for a name calls the function registered under it when no earlier
  name begins with it, and a name that begins no registered name answers -1.\<close>

theorem handlers_dispatch:
  assumes "separate fs"
  shows "(\<forall>i < length fs. proc_handler_do call (Some (register fs (proc_handler_create ob))) (Some (fst (fs ! i))) params =
        call (snd (fs ! i)) ob params) \<and>
    ((\<forall>p \<in> set fs. \<not> prefix name (fst p)) \<longrightarrow>
      proc_handler_do call (Some (register fs (proc_handler_create ob))) (Some name) params = - 1) \<and>
    proc_handler_destroy (Some (register fs (proc_handler_create ob))) = 0"
proof (intro conjI allI impI)
  have z: "\<not> matches n 0 d" if "d \<in> set (entries fs)" "\<not> prefix n (cd_name d)" for n d
    using that assms by (force simp: matches_iff entries_def separate_def)
  fix i assume i: "i < length fs"
  have "get_proc_data (entries fs) (fst (fs ! i)) 0 = Some (entries fs ! i)"
    unfolding get_proc_data_def
  proof (rule find_first)
    show "\<forall>j < i. \<not> matches (fst (fs ! i)) 0 (entries fs ! j)"
      using z i assms by (auto simp: entries_def separate_def split_beta)
  qed (use i in \<open>auto simp: entries_def matches_iff split_beta\<close>)
  then show "proc_handler_do call (Some (register fs (proc_handler_create ob))) (Some (fst (fs ! i))) params =
      call (snd (fs ! i)) ob params"
    using i by (simp add: register_entries [OF assms] proc_handler_do_def) (simp add: entries_def split_beta)
next
  assume n: "\<forall>p \<in> set fs. \<not> prefix name (fst p)"
  have "get_proc_data (entries fs) name 0 = None"
    using n assms by (force simp: get_proc_data_def find_None_iff matches_iff entries_def separate_def)
  then show "proc_handler_do call (Some (register fs (proc_handler_create ob))) (Some name) params = - 1"
    by (simp add: register_entries [OF assms] proc_handler_do_def)
qed (simp add: register_entries [OF assms] proc_handler_destroy_def entries_def)

text \<open>The handlers of a source, in the order \<open>mgw_source_init_context\<close> registers them.\<close>

theorem handlers_dispatch_witness:
  "proc_handler_do (\<lambda>f ob p. int f + ob + p)
     (Some (register [(''get_video_header'', 11), (''get_audio_header'', 12), (''get_encoder_settings'', 13),
        (''signal_started'', 14), (''signal_stop'', 15)] (proc_handler_create 100))) (Some ''signal_stop'') 1000 = 1115"
proof -
  let ?fs = "[(''get_video_header'', 11), (''get_audio_header'', 12), (''get_encoder_settings'', 13),
    (''signal_started'', 14), (''signal_stop'', 15)]"
  have "separate ?fs" by code_simp
  then show ?thesis
    using spec [OF conjunct1 [OF handlers_dispatch [of ?fs "\<lambda>f ob p. int f + ob + p" 100 1000]], of 4] by simp
qed

text \<open>A name registered after one it begins is not kept, though \<open>proc_handler_add\<close> says so, and
  asking for it calls the other handler; a removed entry keeps its name allocated.\<close>

theorem prefix_shadows:
  assumes "f \<noteq> 0" and "g \<noteq> 0" and "prefix n m"
  shows "fst (proc_handler_add (Some (register [(m, f)] (proc_handler_create ob))) (Some n) g) = True"
    and "proc_handler_do call (Some (register [(m, f), (n, g)] (proc_handler_create ob))) (Some n) params = call f ob params"
    and "proc_handler_destroy (proc_handler_remove (Some (register [(m, f)] (proc_handler_create ob))) (Some m)) = 1"
  using assms by (simp_all add: register_def proc_handler_create_def proc_handler_add_def proc_handler_do_def get_proc_data_def
      matches_iff proc_handler_remove_def proc_handler_destroy_def Let_def)

end
