(* ===== verification/Device.thy ===== *)
theory Device
  imports Stream CallbackHandle
begin

text \<open>
  Devices, src/mgw-core/core-api/mgw-device.c, loading a stored configuration (\<open>mgw_reset_streams\<close> and
  \<open>mgw_reset_all\<close> of mgw.c), and how the notices of outputs and sources reach a device (mgw-stream.c).
  The list of streams of a device is the list it holds, newest first, as Context shows for the
  lists of contexts; here with the streams' names.
\<close>

section \<open>Notices\<close>

datatype stream_type = MGW_STREAM_NONE | MGW_STREAM_SOURCE | MGW_STREAM_OUTPUT

text \<open>\<open>params->in\<close> is the name of the output or source.\<close>

definition signal_stream_status :: "push_state \<Rightarrow> string \<Rightarrow> stream_type \<times> push_state \<times> string" where
  "signal_stream_status status name =
     (if same_start name ''source'' 6 then MGW_STREAM_SOURCE
      else if same_start name ''output'' 6 then MGW_STREAM_OUTPUT else MGW_STREAM_NONE, status, name)"

text \<open>The four handlers of a stream, by their addresses, and what they tell the device.\<close>

definition stream_handlers :: "(string \<times> nat) list" where
  "stream_handlers = [(''signal_stop'', 1), (''signal_started'', 2), (''signal_connecting'', 3), (''signal_reconnect'', 4)]"

definition mgw_stream_init_context :: "unit proc_handler" where
  "mgw_stream_init_context = register stream_handlers (proc_handler_create ())"

definition status_of :: "nat \<Rightarrow> push_state" where
  "status_of f = (if f = 1 then STOPED else if f = 2 then STREAMING else if f = 3 then CONNECTING else RECONNECTING)"

definition call_stream_handler :: "nat \<Rightarrow> mgw_stream \<Rightarrow> string \<Rightarrow> (stream_type \<times> push_state \<times> string) list" where
  "call_stream_handler f st name =
     (if parent_device st = None then [] else [signal_stream_status (status_of f) name])"

text \<open>\<open>output_proc_handler\<close> and \<open>source_proc_handler\<close>, and all notices of a history of calls.\<close>

definition notify :: "mgw_stream \<Rightarrow> string \<Rightarrow> string \<Rightarrow> (stream_type \<times> push_state \<times> string) list" where
  "notify st name func = (case get_proc_data (proc_functions mgw_stream_init_context) func 0 of
       None \<Rightarrow> [] | Some d \<Rightarrow> call_stream_handler (cb_proc_func d) st name)"

fun told :: "mgw_stream \<Rightarrow> string \<Rightarrow> act list \<Rightarrow> (stream_type \<times> push_state \<times> string) list" where
  "told st name [] = []"
| "told st name (Notify f # as) = notify st name f @ told st name as"
| "told st name (_ # as) = told st name as"

lemma told_append [simp]: "told st name (as @ bs) = told st name as @ told st name bs"
  by (induction as rule: told.induct) simp_all

lemma handlers: "proc_functions mgw_stream_init_context =
  [\<lparr>cd_name = ''signal_stop'', cb_proc_func = 1\<rparr>, \<lparr>cd_name = ''signal_started'', cb_proc_func = 2\<rparr>,
   \<lparr>cd_name = ''signal_connecting'', cb_proc_func = 3\<rparr>, \<lparr>cd_name = ''signal_reconnect'', cb_proc_func = 4\<rparr>]"
  by (simp add: mgw_stream_init_context_def register_def stream_handlers_def proc_handler_create_def proc_handler_add_def
      get_proc_data_def matches_iff)

lemma notify_status:
  assumes "parent_device st = Some p"
  shows "notify st name ''signal_stop'' = [signal_stream_status STOPED name]"
    and "notify st name ''signal_started'' = [signal_stream_status STREAMING name]"
    and "notify st name ''signal_connecting'' = [signal_stream_status CONNECTING name]"
    and "notify st name ''signal_reconnect'' = [signal_stream_status RECONNECTING name]"
  using assms by (simp_all add: notify_def get_proc_data_def matches_iff handlers call_stream_handler_def status_of_def)

lemma notify_orphan: "parent_device st = None \<Longrightarrow> notify st name f = []"
  by (simp add: notify_def call_stream_handler_def split: option.splits)

lemma told_orphan: "parent_device st = None \<Longrightarrow> told st name as = []"
  by (induction as rule: told.induct) (simp_all add: notify_orphan)

section \<open>No stream has a parent\<close>

lemma bindf_parent:
  assumes "\<And>x. r = Inr x \<Longrightarrow> f x = Inr y \<Longrightarrow> P y"
  shows "bindf r f = Inr y \<Longrightarrow> P y"
  using assms by (cases r) auto

lemma destroy_parent: "output_destroy a st = Inr st' \<Longrightarrow> parent_device st' = parent_device st"
  by (auto simp: output_destroy_def bindf_def orf_def split: sum.splits option.splits)

lemma release_parent: "mgw_output_release a st = Inr st' \<Longrightarrow> parent_device st' = parent_device st"
  by (auto simp: mgw_output_release_def Let_def split: prod.splits if_splits dest: destroy_parent)

lemma on_output_parent: "on_output a f st = Inr st' \<Longrightarrow> parent_device st' = parent_device st"
  by (auto simp: on_output_def bindf_def orf_def split: sum.splits option.splits)

lemma create_parent: "mgw_output_create_at a types r st = Inr (x, st') \<Longrightarrow> parent_device st' = parent_device st"
  by (auto simp: mgw_output_create_at_def bindf_def orf_def Let_def split: sum.splits option.splits prod.splits if_splits)

lemma lookup_parent: "mgw_get_output_by_name l n st = Inr (x, st') \<Longrightarrow> parent_device st' = parent_device st"
  by (auto simp: mgw_get_output_by_name_def bindf_def orf_def split: sum.splits option.splits if_splits)

lemma add_new_parent: "add_new_output a types r st = Inr (code, st') \<Longrightarrow> parent_device st' = parent_device st"
  by (auto simp: add_new_output_def bindf_def orf_def Let_def split: sum.splits option.splits prod.splits if_splits
      dest!: create_parent destroy_parent)

lemma add_output_parent: "mgw_stream_add_output a types r st = Inr (code, st') \<Longrightarrow> parent_device st' = parent_device st"
  by (auto simp: mgw_stream_add_output_def bindf_def split: sum.splits option.splits prod.splits
      dest!: lookup_parent release_parent add_new_parent)

lemma add_source_parent: "mgw_stream_add_source types r oks st = Inr (code, st') \<Longrightarrow> parent_device st' = parent_device st"
  by (auto simp: mgw_stream_add_source_def promote_def bindf_def orf_def Let_def split: sum.splits option.splits prod.splits if_splits)

lemma release_output_parent: "mgw_stream_release_output a st = Inr st' \<Longrightarrow> parent_device st' = parent_device st"
  by (auto simp: mgw_stream_release_output_def bindf_def split: sum.splits dest!: on_output_parent release_parent)

lemma release_name_parent: "mgw_stream_release_output_by_name n st = Inr st' \<Longrightarrow> parent_device st' = parent_device st"
  by (auto simp: mgw_stream_release_output_by_name_def bindf_def split: sum.splits option.splits dest: release_output_parent)

lemma release_source_parent: "parent_device (mgw_stream_release_source st) = parent_device st"
  by (simp add: mgw_stream_release_source_def source_gone_def split: option.splits)

text \<open>The operations of a stream, in any order.\<close>

inductive stream_reachable :: "mgw_stream \<Rightarrow> bool" where
  new: "stream_reachable (mgw_stream_create u)"
| add_output: "stream_reachable st \<Longrightarrow> mgw_stream_add_output a types r st = Inr (code, st') \<Longrightarrow> stream_reachable st'"
| add_source: "stream_reachable st \<Longrightarrow> mgw_stream_add_source types r oks st = Inr (code, st') \<Longrightarrow> stream_reachable st'"
| release_output: "stream_reachable st \<Longrightarrow> mgw_stream_release_output_by_name n st = Inr st' \<Longrightarrow> stream_reachable st'"
| release_source: "stream_reachable st \<Longrightarrow> stream_reachable (mgw_stream_release_source st)"
| output_runs: "stream_reachable st \<Longrightarrow> on_output a (o_run es) st = Inr st' \<Longrightarrow> stream_reachable st'"
| source_runs: "stream_reachable st \<Longrightarrow> st_source st = Some s \<Longrightarrow> s_run es s = Some s' \<Longrightarrow>
    stream_reachable (st\<lparr>st_source := Some s'\<rparr>)"

lemma no_parent: "stream_reachable st \<Longrightarrow> parent_device st = None"
proof (induction rule: stream_reachable.induct)
  case (new u)
  then show ?case by (simp add: mgw_stream_create_def)
qed (auto dest: add_output_parent add_source_parent release_name_parent on_output_parent simp: release_source_parent)

text \<open>C27: The notices of a source that retries and gives up would tell the device of every retry, every new
  start and the end, were the stream told its device; but no stream ever is, so the device hears of nothing
  its outputs and sources do.\<close>

theorem device_hears_nothing:
  assumes "stream_reachable st"
  shows "told st name as = [] \<and>
    told (st\<lparr>parent_device := Some d\<rparr>) name
      (concat (map (retry_acts sec) [0..<n]) @ [Notify ''signal_stop'']) =
    concat (replicate n [signal_stream_status RECONNECTING name, signal_stream_status CONNECTING name]) @
      [signal_stream_status STOPED name]"
proof -
  let ?st = "st\<lparr>parent_device := Some d\<rparr>"
  have p: "parent_device ?st = Some d" by simp
  have c: "replicate n x @ [x] = x # replicate n x" for n and x :: "(stream_type \<times> push_state \<times> string) list"
    by (metis replicate_Suc replicate_append_same)
  have "told ?st name (concat (map (retry_acts sec) [0..<n])) =
      concat (replicate n [signal_stream_status RECONNECTING name, signal_stream_status CONNECTING name])"
  proof (induction n)
    case (Suc n)
    have "told ?st name (retry_acts sec n) = [signal_stream_status RECONNECTING name, signal_stream_status CONNECTING name]"
      by (simp add: retry_acts_def notify_status [OF p])
    then have "told ?st name (concat (map (retry_acts sec) [0..<Suc n])) =
        concat (replicate n [signal_stream_status RECONNECTING name, signal_stream_status CONNECTING name] @
          [[signal_stream_status RECONNECTING name, signal_stream_status CONNECTING name]])"
      using Suc.IH by simp
    then show ?case by (simp only: c) simp
  qed simp
  then show ?thesis using told_orphan [OF no_parent [OF assms]] by (simp add: notify_status [OF p])
qed

theorem device_hears_nothing_witness:
  "\<exists>st. stream_reachable st \<and> told st ''source1'' [Notify ''signal_stop''] = [] \<and>
    told (st\<lparr>parent_device := Some 0\<rparr>) ''source1'' [Notify ''signal_stop''] = [(MGW_STREAM_SOURCE, STOPED, ''source1'')]"
proof -
  have s: "signal_stream_status STOPED ''source1'' = (MGW_STREAM_SOURCE, STOPED, ''source1'')" by code_simp
  show ?thesis
    using device_hears_nothing [OF stream_reachable.new [of 0], of "''source1''" "[Notify ''signal_stop'']" 0 2 0] stream_reachable.new [of 0] s
    by (intro exI [of _ "mgw_stream_create 0"]) simp
qed

section \<open>Devices\<close>

record stream_settings =
  str_name :: string
  str_private :: bool
  str_source :: "settings option"
  str_outputs :: "settings list"

text \<open>A device's streams with their names; \<open>priv_streams\<close> is the list of the core. \<open>sources\<close> and \<open>outputs\<close> are the
  registered plugins.\<close>

record mgw_device =
  d_name :: string
  stream_list :: "(string \<times> mgw_stream) list"

record core =
  sources :: "string list"
  outputs :: "string list"
  priv_streams :: "(string \<times> mgw_stream) list"
  devices :: "mgw_device list"

definition mgw_device_create :: "string \<Rightarrow> mgw_device" where
  "mgw_device_create sn = \<lparr>d_name = sn, stream_list = []\<rparr>"

definition mgw_get_weak_stream_by_name :: "(string \<times> mgw_stream) list \<Rightarrow> string \<Rightarrow> mgw_stream option" where
  "mgw_get_weak_stream_by_name l name = map_option snd (find (\<lambda>p. fst p = name) l)"

text \<open>A change to the stream a lookup finds.\<close>

fun at_stream :: "string \<Rightarrow> mgw_stream \<Rightarrow> (string \<times> mgw_stream) list \<Rightarrow> (string \<times> mgw_stream) list" where
  "at_stream name st [] = []"
| "at_stream name st (p # ps) = (if fst p = name then (name, st) # ps else p # at_stream name st ps)"

text \<open>Outputs are added one by one, whatever each answers; \<open>a\<close> is a fresh address.\<close>

fun add_outputs :: "string list \<Rightarrow> nat \<Rightarrow> settings list \<Rightarrow> mgw_stream \<Rightarrow> fault + mgw_stream" where
  "add_outputs types a [] st = Inr st"
| "add_outputs types a (r # rs) st = bindf (mgw_stream_add_output a types r st) (\<lambda>(_, st). add_outputs types (a + 1) rs st)"

text \<open>An \<open>int\<close> stored in an \<open>int16_t\<close>.\<close>

definition int16 :: "int \<Rightarrow> int" where
  "int16 i = (let m = i mod 65536 in if m < 32768 then m else m - 65536)"

text \<open>\<open>mgw_device_add_stream\<close>: the stream is on its list from the start, also when its source is
  refused. A private stream goes to the list of the core, which is left out here.\<close>

definition mgw_device_add_stream :: "core \<Rightarrow> stream_settings \<Rightarrow> mgw_device \<Rightarrow> fault + int \<times> mgw_device" where
  "mgw_device_add_stream co r d =
     (let put = (\<lambda>st. if str_private r then d else d\<lparr>stream_list := (str_name r, st) # stream_list d\<rparr>);
          st = mgw_stream_create 0 in
      bindf (case str_source r of None \<Rightarrow> Inr (0, st) | Some s \<Rightarrow> mgw_stream_add_source (sources co) s True st) (\<lambda>(code, st).
        let ret = int16 code in
        if ret \<noteq> 0 then Inr (ret, put st)
        else bindf (add_outputs (outputs co) 0 (str_outputs r) st) (\<lambda>st. Inr (mgw_dev_err MGW_ERR_SUCCESS, put st))))"

definition mgw_device_release_stream :: "string \<Rightarrow> mgw_device \<Rightarrow> fault + mgw_device" where
  "mgw_device_release_stream name d = (case mgw_get_weak_stream_by_name (stream_list d) name of
       None \<Rightarrow> Inr d
     | Some st \<Rightarrow> bindf (mgw_stream_destroy (card (dom (outs st))) st) (\<lambda>_.
         Inr (d\<lparr>stream_list := remove1 (name, st) (stream_list d)\<rparr>)))"

definition mgw_device_add_output_to_stream :: "core \<Rightarrow> nat \<Rightarrow> string \<Rightarrow> settings \<Rightarrow> mgw_device \<Rightarrow> fault + int \<times> mgw_device" where
  "mgw_device_add_output_to_stream co a name r d = (case mgw_get_weak_stream_by_name (stream_list d) name of
       None \<Rightarrow> Inr (mgw_dev_err MGW_ERR_NOT_EXIST, d)
     | Some st \<Rightarrow> bindf (mgw_stream_add_output a (outputs co) r st) (\<lambda>(code, st).
         Inr (code, d\<lparr>stream_list := at_stream name st (stream_list d)\<rparr>)))"

definition mgw_device_release_output_from_stream :: "string \<Rightarrow> settings \<Rightarrow> mgw_device \<Rightarrow> fault + mgw_device" where
  "mgw_device_release_output_from_stream name r d = (case mgw_get_weak_stream_by_name (stream_list d) name of
       None \<Rightarrow> Inr d
     | Some st \<Rightarrow> bindf (mgw_stream_release_output_by_name (o_name r) st) (\<lambda>st.
         Inr (d\<lparr>stream_list := at_stream name st (stream_list d)\<rparr>)))"

text \<open>The answer is a \<open>bool\<close>: an error code becomes true. The second component is whether the packet
  is written.\<close>

definition mgw_device_send_packet :: "string option \<Rightarrow> bool \<Rightarrow> mgw_device option \<Rightarrow> bool \<times> bool" where
  "mgw_device_send_packet name packet d = (case (d, name) of
     (Some d, Some name) \<Rightarrow>
       if \<not> packet then (mgw_dev_err MGW_ERR_EPARAM \<noteq> 0, False)
       else (case mgw_get_weak_stream_by_name (stream_list d) name of
           None \<Rightarrow> (mgw_dev_err MGW_ERR_INVALID_RES \<noteq> 0, False)
         | Some st \<Rightarrow> mgw_stream_send_packet st)
   | _ \<Rightarrow> (mgw_dev_err MGW_ERR_EPARAM \<noteq> 0, False))"

text \<open>Sending a packet through a device says true also when there is no device, no packet or no such
  stream: only a stream without a source makes it say false. The packet is written when the stream is
  there and has a private source.\<close>

theorem send_packet_answers:
  "mgw_device_send_packet name packet d =
     (\<not> (packet \<and> (\<exists>v n st. d = Some v \<and> name = Some n \<and> mgw_get_weak_stream_by_name (stream_list v) n = Some st \<and>
        \<not> mgw_stream_has_source st)),
      packet \<and> (\<exists>v n st s. d = Some v \<and> name = Some n \<and> mgw_get_weak_stream_by_name (stream_list v) n = Some st \<and>
        st_source st = Some s \<and> mgw_source_is_private s))"
  by (cases d; cases name; cases packet)
    (auto simp: mgw_device_send_packet_def mgw_stream_send_packet_def mgw_stream_has_source_def mgw_dev_err_def
      MGW_ERR_EPARAM_def MGW_ERR_INVALID_RES_def split: option.splits)

section \<open>Loading a configuration\<close>

text \<open>\<open>mgw_data_array_item\<close>, and \<open>mgw_reset_streams\<close> for settings that may be NULL.\<close>

definition mgw_data_array_item :: "'a list \<Rightarrow> nat \<Rightarrow> 'a option" where
  "mgw_data_array_item xs i = (if i < length xs then Some (xs ! i) else None)"

definition load_stream :: "core \<Rightarrow> stream_settings \<Rightarrow> fault + mgw_stream" where
  "load_stream co r =
     bindf (case str_source r of None \<Rightarrow> Inr (mgw_stream_create 0)
       | Some s \<Rightarrow> bindf (mgw_stream_add_source (sources co) s True (mgw_stream_create 0)) (\<lambda>(_, st). Inr st))
     (add_outputs (outputs co) 0 (str_outputs r))"

definition mgw_reset_streams :: "stream_settings option \<Rightarrow> mgw_device option \<Rightarrow> core \<Rightarrow> fault + int \<times> mgw_device option \<times> core" where
  "mgw_reset_streams r d co = (case r of
       None \<Rightarrow> Inr (- 1, d, co)
     | Some r \<Rightarrow> bindf (load_stream co r) (\<lambda>st.
         case d of
           None \<Rightarrow> Inr (0, None, co\<lparr>priv_streams := (str_name r, st) # priv_streams co\<rparr>)
         | Some d \<Rightarrow> if str_private r then Inr (0, Some d, co\<lparr>priv_streams := (str_name r, st) # priv_streams co\<rparr>)
                     else Inr (0, Some (d\<lparr>stream_list := (str_name r, st) # stream_list d\<rparr>), co)))"

text \<open>The loop over the streams of the \<open>i\<close>-th device: it counts \<open>j\<close> but takes the \<open>i\<close>-th stream.\<close>

fun reset_device :: "nat \<Rightarrow> nat \<Rightarrow> stream_settings list \<Rightarrow> int \<Rightarrow> mgw_device \<Rightarrow> core \<Rightarrow> fault + int \<times> mgw_device \<times> core" where
  "reset_device i 0 rs ret d co = Inr (ret, d, co)"
| "reset_device i (Suc k) rs ret d co =
     bindf (mgw_reset_streams (mgw_data_array_item rs i) (Some d) co) (\<lambda>(ret, d', co).
       reset_device i k rs ret (the d') co)"

fun reset_devices :: "nat \<Rightarrow> (string \<times> stream_settings list) list \<Rightarrow> int \<Rightarrow> core \<Rightarrow> fault + int \<times> core" where
  "reset_devices i [] ret co = Inr (ret, co)"
| "reset_devices i ((sn, rs) # ds) ret co =
     bindf (reset_device i (length rs) rs ret (mgw_device_create sn) co) (\<lambda>(ret, d, co).
       reset_devices (i + 1) ds ret (co\<lparr>devices := d # devices co\<rparr>))"

fun reset_private :: "stream_settings list \<Rightarrow> int \<Rightarrow> core \<Rightarrow> fault + int \<times> core" where
  "reset_private [] ret co = Inr (ret, co)"
| "reset_private (r # rs) ret co =
     bindf (mgw_reset_streams (Some r) None co) (\<lambda>(ret, _, co). reset_private rs ret co)"

definition mgw_reset_all :: "(string \<times> stream_settings list) list \<Rightarrow> stream_settings list \<Rightarrow> core \<Rightarrow> fault + int \<times> core" where
  "mgw_reset_all ds ps co = bindf (reset_devices 0 ds 0 co) (\<lambda>(ret, co). reset_private ps ret co)"

text \<open>What the loop makes of a device's configuration.\<close>

definition loaded_names :: "nat \<Rightarrow> stream_settings list \<Rightarrow> string list" where
  "loaded_names i rs = (if i < length rs \<and> \<not> str_private (rs ! i) then replicate (length rs) (str_name (rs ! i)) else [])"

lemma reset_device_names:
  "reset_device i k rs ret d co = Inr (ret', d', co') \<Longrightarrow> d_name d' = d_name d \<and> devices co' = devices co \<and>
   map fst (stream_list d') = (if i < length rs \<and> \<not> str_private (rs ! i) then replicate k (str_name (rs ! i)) else []) @
     map fst (stream_list d)"
proof (induction k arbitrary: ret d co)
  case (Suc k)
  obtain ret1 d1 co1 where s: "mgw_reset_streams (mgw_data_array_item rs i) (Some d) co = Inr (ret1, d1, co1)"
    "reset_device i k rs ret1 (the d1) co1 = Inr (ret', d', co')"
    using Suc.prems by (auto simp: bindf_def split: sum.splits prod.splits)
  have "d_name (the d1) = d_name d \<and> devices co1 = devices co \<and> map fst (stream_list (the d1)) =
      (if i < length rs \<and> \<not> str_private (rs ! i) then [str_name (rs ! i)] else []) @ map fst (stream_list d)"
    using s(1) by (auto simp: mgw_reset_streams_def mgw_data_array_item_def bindf_def split: sum.splits if_splits)
  then show ?case using Suc.IH [OF s(2)] by (auto simp: replicate_app_Cons_same)
qed simp

lemma reset_private_devices: "reset_private ps ret co = Inr (ret', co') \<Longrightarrow> devices co' = devices co"
proof (induction ps arbitrary: ret co)
  case (Cons p ps)
  obtain r x co1 where s: "mgw_reset_streams (Some p) None co = Inr (r, x, co1)" "reset_private ps r co1 = Inr (ret', co')"
    using Cons.prems by (auto simp: bindf_def split: sum.splits prod.splits)
  have "devices co1 = devices co" using s(1) by (auto simp: mgw_reset_streams_def bindf_def split: sum.splits)
  then show ?case using Cons.IH [OF s(2)] by simp
qed simp

lemma reset_devices_names:
  "reset_devices i ds ret co = Inr (ret', co') \<Longrightarrow>
   map (\<lambda>d. (d_name d, map fst (stream_list d))) (devices co') =
     rev (map (\<lambda>(j, sn, rs). (sn, loaded_names (i + j) rs)) (enumerate 0 ds)) @
     map (\<lambda>d. (d_name d, map fst (stream_list d))) (devices co)"
proof (induction ds arbitrary: i ret co)
  case (Cons p ds)
  obtain sn rs where p: "p = (sn, rs)" by (cases p)
  obtain r d co1 where s: "reset_device i (length rs) rs ret (mgw_device_create sn) co = Inr (r, d, co1)"
    "reset_devices (i + 1) ds r (co1\<lparr>devices := d # devices co1\<rparr>) = Inr (ret', co')"
    using Cons.prems p by (auto simp: bindf_def split: sum.splits prod.splits)
  have e: "enumerate (Suc 0) ds = map (\<lambda>(j, x). (Suc j, x)) (enumerate 0 ds)"
    by (rule nth_equalityI) (auto simp: nth_enumerate_eq)
  show ?case
    using Cons.IH [OF s(2)] reset_device_names [OF s(1)] p
    by (simp add: mgw_device_create_def loaded_names_def e split_beta comp_def)
qed simp

text \<open>Loading the stored configuration gives each device not its streams but copies of one: as many as it
  has streams, of the one whose number is the device's own; a device with too few streams gets none.\<close>

theorem reset_all_mixes_streams:
  assumes "mgw_reset_all ds ps co = Inr (ret, co')" and "devices co = []"
  shows "map (\<lambda>d. (d_name d, map fst (stream_list d))) (devices co') =
    rev (map (\<lambda>(i, sn, rs). (sn, loaded_names i rs)) (enumerate 0 ds))"
proof -
  obtain r co1 where s: "reset_devices 0 ds 0 co = Inr (r, co1)" "reset_private ps r co1 = Inr (ret, co')"
    using assms(1) by (auto simp: mgw_reset_all_def bindf_def split: sum.splits prod.splits)
  show ?thesis using reset_devices_names [OF s(1)] reset_private_devices [OF s(2)] assms(2) by simp
qed

text \<open>Two devices with two and one streams: the second device gets none.\<close>

theorem reset_all_mixes_streams_witness:
  "\<exists>ret co'. mgw_reset_all
      [(''A'', [\<lparr>str_name = ''a1'', str_private = False, str_source = None, str_outputs = []\<rparr>,
                \<lparr>str_name = ''a2'', str_private = False, str_source = None, str_outputs = []\<rparr>]),
       (''B'', [\<lparr>str_name = ''b1'', str_private = False, str_source = None, str_outputs = []\<rparr>])] []
      \<lparr>sources = [], outputs = [], priv_streams = [], devices = []\<rparr> = Inr (ret, co') \<and>
    map (\<lambda>d. (d_name d, map fst (stream_list d))) (devices co') = [(''B'', []), (''A'', [''a1'', ''a1''])]"
proof -
  let ?ds = "[(''A'', [\<lparr>str_name = ''a1'', str_private = False, str_source = None, str_outputs = []\<rparr>,
      \<lparr>str_name = ''a2'', str_private = False, str_source = None, str_outputs = []\<rparr>]),
    (''B'', [\<lparr>str_name = ''b1'', str_private = False, str_source = None, str_outputs = []\<rparr>])]"
  let ?co = "\<lparr>sources = [], outputs = [], priv_streams = [], devices = []\<rparr>"
  have "\<exists>ret co'. mgw_reset_all ?ds [] ?co = Inr (ret, co')"
    by (simp add: mgw_reset_all_def mgw_reset_streams_def load_stream_def mgw_data_array_item_def eval_nat_numeral)
  then obtain ret co' where r: "mgw_reset_all ?ds [] ?co = Inr (ret, co')" by blast
  show ?thesis using reset_all_mixes_streams [OF r] r by (auto simp: loaded_names_def eval_nat_numeral)
qed

section \<open>Streams on two lists\<close>

text \<open>\<open>mgw_device_add_stream_obj\<close> on the contexts themselves: the stream at \<open>a\<close>, the device's list \<open>l\<close> with
  mutex \<open>m\<close>.\<close>

definition mgw_device_add_stream_obj :: "nat \<Rightarrow> nat \<Rightarrow> nat \<Rightarrow> cheap \<Rightarrow> (int \<times> cheap) option" where
  "mgw_device_add_stream_obj a l m h = do {
     c \<leftarrow> ctxs h a;
     p \<leftarrow> (if firsts h l = None then Some None else find_context (ctxs h) (obj_name c) (firsts h l));
     if p \<noteq> None then Some (mgw_dev_err MGW_ERR_EXISTED, h)
     else do { h \<leftarrow> mgw_context_data_insert a m l h; Some (mgw_dev_err MGW_ERR_SUCCESS, h) } }"

text \<open>A stream that already is the first of a list, as every stream is when it has been created, is added to a
  device without leaving that list: from then on the old list shows the device's streams behind it, and
  those that were behind it before can no longer be found.\<close>

theorem add_stream_obj_cuts:
  assumes "clist h n k (a # zs)" and "clist h m l xs" and "k \<noteq> l" and "set (a # zs) \<inter> set xs = {}"
    and "ctxs h a = Some c" and "\<forall>b \<in> set xs. \<not> named h (obj_name c) b"
  shows "\<exists>h'. mgw_device_add_stream_obj a l m h = Some (mgw_dev_err MGW_ERR_SUCCESS, h') \<and> clist h' m l (a # xs) \<and>
    (\<forall>name. find_context (ctxs h') name (firsts h' k) = Some (find (named h' name) (a # xs))) \<and>
    (\<forall>name. \<not> named h name a \<and> (\<forall>b \<in> set xs. \<not> named h name b) \<longrightarrow> find_context (ctxs h') name (firsts h' k) = Some None)"
proof -
  have a: "a \<notin> set xs" using assms(4) by auto
  obtain h' where h': "mgw_context_data_insert a m l h = Some h'" "clist h' m l (a # xs)" "changes (set (a # xs)) l h h'"
    using insert_clist [OF assms(2,5) a] by blast
  have "find (named h (obj_name c)) xs = None" using assms(6) by (simp add: find_None_iff)
  then have "mgw_device_add_stream_obj a l m h = Some (mgw_dev_err MGW_ERR_SUCCESS, h')"
    using find_clist [OF assms(2), of "obj_name c"] h'(1) assms(5) by (simp add: mgw_device_add_stream_obj_def)
  moreover have "firsts h' k = firsts h' l"
    using h'(2,3) assms(1,3) by (simp add: clist_def changes_def)
  then have f: "find_context (ctxs h') name (firsts h' k) = Some (find (named h' name) (a # xs))" for name
    using find_clist [OF h'(2)] by simp
  moreover have "named h' name b = named h name b" for name b
  proof -
    have "map_option label (ctxs h' b) = map_option label (ctxs h b)" using h'(3) by (simp add: changes_def)
    then show ?thesis by (auto simp: named_def label_def split: option.splits)
  qed
  then have "find (named h' name) (a # xs) = None" if "\<not> named h name a" "\<forall>b \<in> set xs. \<not> named h name b" for name
    using that by (simp add: find_None_iff)
  ultimately show ?thesis using h'(2) f by (intro exI [of _ h']) simp
qed

text \<open>Two streams on the private list; after the first is added to a device, the second is gone.\<close>

theorem add_stream_obj_cuts_witness:
  "\<exists>h h'. clist h 5 0 [2, 3] \<and> find_context (ctxs h) ''b'' (firsts h 0) = Some (Some 3) \<and>
    mgw_device_add_stream_obj 2 1 6 h = Some (0x04000000, h') \<and> find_context (ctxs h') ''b'' (firsts h' 0) = Some None"
proof -
  define c where "c = (\<lambda>s n p. \<lparr>obj_name = s, c_private = False, c_next = n, prev_next = Some p, c_mutex = Some 5\<rparr>)"
  define h where "h = \<lparr>ctxs = [2 \<mapsto> c ''a'' (Some 3) (Head 0), 3 \<mapsto> c ''b'' None (Next 2)], firsts = [0 \<mapsto> 2]\<rparr>"
  have r: "clist h 5 0 [2, 3]" "clist h 6 1 []" "ctxs h 2 = Some (c ''a'' (Some 3) (Head 0))" "\<not> named h ''b'' 2" "named h ''b'' 3"
    by (simp_all add: clist_def h_def c_def named_def)
  have "find_context (ctxs h) ''b'' (firsts h 0) = Some (Some 3)" using find_clist [OF r(1)] r(4,5) by simp
  then show ?thesis
    using add_stream_obj_cuts [OF r(1,2) _ _ r(3)] r(1,4) by (auto simp: mgw_dev_err_def MGW_ERR_SUCCESS_def)
qed

text \<open>Nothing keeps a device from having two streams of one name: the second hides the first.\<close>

lemma same_name_twice:
  assumes "str_source r = None" and "str_outputs r = []" and "\<not> str_private r"
  shows "\<exists>d'. mgw_device_add_stream co r d = Inr (mgw_dev_err MGW_ERR_SUCCESS, d') \<and>
    (\<exists>d''. mgw_device_add_stream co r d' = Inr (mgw_dev_err MGW_ERR_SUCCESS, d'') \<and>
      map fst (stream_list d'') = str_name r # str_name r # map fst (stream_list d))"
  using assms by (simp add: mgw_device_add_stream_def int16_def Let_def)

end
