(* ===== verification/DataItem.thy ===== *)
theory DataItem
  imports Prelude
begin

text \<open>
  One item of the settings, src/mgw-core/util/source/mgw-data.c: a single block that holds a header,
  the name, and up to three values one behind the other: the one the user set, the default and the
  one selected automatically. Offsets count from the start of the block; the fields of the header are a
  record. A value is its bytes. Access outside the block is \<open>None\<close>.
\<close>

section \<open>Layout\<close>

datatype data_type = MGW_DATA_NULL | MGW_DATA_STRING | MGW_DATA_NUMBER | MGW_DATA_BOOLEAN | MGW_DATA_OBJECT | MGW_DATA_ARRAY

text \<open>\<open>sizeof(struct mgw_data_item)\<close>, and the alignment of \<open>base_get_alignment\<close>.\<close>

definition HEADER :: nat where "HEADER = 88"
definition ALIGNMENT :: nat where "ALIGNMENT = 32"

record data_item =
  i_type :: data_type
  name_len :: nat
  data_len :: nat
  data_size :: nat
  default_len :: nat
  default_size :: nat
  autoselect_size :: nat
  i_capacity :: nat
  i_store :: mem

definition get_align_size :: "nat \<Rightarrow> nat" where
  "get_align_size n = (n + ALIGNMENT - 1) div ALIGNMENT * ALIGNMENT"

definition get_name_align_size :: "nat \<Rightarrow> nat" where
  "get_name_align_size len = (HEADER + (len + 1 + ALIGNMENT - 1)) div ALIGNMENT * ALIGNMENT - HEADER"

definition get_data_ptr :: "data_item \<Rightarrow> nat" where
  "get_data_ptr it = HEADER + name_len it"

definition get_default_data_ptr :: "data_item \<Rightarrow> nat" where
  "get_default_data_ptr it = get_data_ptr it + data_len it"

definition get_autoselect_data_ptr :: "data_item \<Rightarrow> nat" where
  "get_autoselect_data_ptr it = get_default_data_ptr it + default_len it"

definition get_item_data :: "data_item \<Rightarrow> nat option" where
  "get_item_data it =
     (if data_size it = 0 \<and> default_size it = 0 \<and> autoselect_size it = 0 then None else Some (get_data_ptr it))"

definition get_item_default_data :: "data_item \<Rightarrow> nat option" where
  "get_item_default_data it = (if default_size it \<noteq> 0 then Some (get_default_data_ptr it) else None)"

definition get_item_autoselect_data :: "data_item \<Rightarrow> nat option" where
  "get_item_autoselect_data it = (if autoselect_size it \<noteq> 0 then Some (get_autoselect_data_ptr it) else None)"

definition mgw_data_item_total_size :: "data_item \<Rightarrow> nat" where
  "mgw_data_item_total_size it = HEADER + name_len it + data_len it + default_len it + autoselect_size it"

section \<open>Operations\<close>

text \<open>\<open>memcpy\<close> into the block, and \<open>memmove\<close> within it.\<close>

definition put_bytes :: "nat \<Rightarrow> bytes \<Rightarrow> data_item \<Rightarrow> data_item option" where
  "put_bytes p bs it = (if p + length bs \<le> i_capacity it then Some (it\<lparr>i_store := mem_put (i_store it) p bs\<rparr>) else None)"

definition move_bytes :: "nat \<Rightarrow> nat \<Rightarrow> nat \<Rightarrow> data_item \<Rightarrow> data_item option" where
  "move_bytes dst src n it = (if src + n \<le> i_capacity it then put_bytes dst (mem_get (i_store it) src n) it else None)"

definition mgw_data_item_ensure_capacity :: "data_item \<Rightarrow> data_item" where
  "mgw_data_item_ensure_capacity it =
     (if mgw_data_item_total_size it \<le> i_capacity it then it else it\<lparr>i_capacity := mgw_data_item_total_size it\<rparr>)"

text \<open>\<open>nlen\<close> is the length of the name; the bytes of the name are not of interest. The value must not be
  NULL.\<close>

definition mgw_data_item_create :: "nat \<Rightarrow> bytes \<Rightarrow> data_type \<Rightarrow> bool \<Rightarrow> bool \<Rightarrow> data_item option" where
  "mgw_data_item_create nlen bs ty default_data autoselect_data =
     (let name_size = get_name_align_size nlen;
          total_size = name_size + HEADER + length bs;
          it = \<lparr>i_type = ty, name_len = name_size, data_len = 0, data_size = 0, default_len = 0, default_size = 0,
            autoselect_size = 0, i_capacity = total_size, i_store = (\<lambda>_. 0)\<rparr>;
          it = (if default_data then it\<lparr>default_len := length bs, default_size := length bs\<rparr>
                else if autoselect_data then it\<lparr>autoselect_size := length bs\<rparr>
                else it\<lparr>data_len := length bs, data_size := length bs\<rparr>) in
      if bs = [] then Some it else Option.bind (get_item_data it) (\<lambda>p. put_bytes p bs it))"

definition mgw_data_item_setdata :: "bytes \<Rightarrow> data_type \<Rightarrow> data_item \<Rightarrow> data_item option" where
  "mgw_data_item_setdata bs ty it =
     (let old_default_data_pos = get_default_data_ptr it;
          others = default_size it \<noteq> 0 \<or> autoselect_size it \<noteq> 0;
          it = it\<lparr>data_size := length bs, i_type := ty, data_len := if others then get_align_size (length bs) else length bs\<rparr>;
          it = mgw_data_item_ensure_capacity it in do {
        it \<leftarrow> (if others then move_bytes (get_default_data_ptr it) old_default_data_pos (default_len it + autoselect_size it) it
               else Some it);
        if bs = [] then Some it else Option.bind (get_item_data it) (\<lambda>p. put_bytes p bs it) })"

definition mgw_data_item_set_default_data :: "bytes \<Rightarrow> data_type \<Rightarrow> data_item \<Rightarrow> data_item option" where
  "mgw_data_item_set_default_data bs ty it =
     (let old_autoselect_data = get_autoselect_data_ptr it;
          it = it\<lparr>i_type := ty, default_size := length bs,
            default_len := if autoselect_size it \<noteq> 0 then get_align_size (length bs) else length bs,
            data_len := if data_size it \<noteq> 0 then get_align_size (data_size it) else 0\<rparr>;
          it = mgw_data_item_ensure_capacity it in do {
        it \<leftarrow> (if autoselect_size it \<noteq> 0 then move_bytes (get_autoselect_data_ptr it) old_autoselect_data (autoselect_size it) it
               else Some it);
        if bs = [] then Some it else Option.bind (get_item_default_data it) (\<lambda>p. put_bytes p bs it) })"

definition mgw_data_item_set_autoselect_data :: "bytes \<Rightarrow> data_type \<Rightarrow> data_item \<Rightarrow> data_item option" where
  "mgw_data_item_set_autoselect_data bs ty it =
     (let it = it\<lparr>autoselect_size := length bs, i_type := ty,
            data_len := if data_size it \<noteq> 0 then get_align_size (data_size it) else 0,
            default_len := if default_size it \<noteq> 0 then get_align_size (default_size it) else 0\<rparr>;
          it = mgw_data_item_ensure_capacity it in
      if bs = [] then Some it else Option.bind (get_item_autoselect_data it) (\<lambda>p. put_bytes p bs it))"

definition mgw_data_item_unset_user_value :: "data_item \<Rightarrow> data_item option" where
  "mgw_data_item_unset_user_value it =
     (if data_size it = 0 then Some it
      else let old_non_user_data = get_default_data_ptr it;
               it = it\<lparr>data_size := 0, data_len := 0\<rparr> in
        if default_size it \<noteq> 0 \<or> autoselect_size it \<noteq> 0
        then move_bytes (get_default_data_ptr it) old_non_user_data (default_len it + autoselect_size it) it
        else Some it)"

definition mgw_data_item_unset_default_value :: "data_item \<Rightarrow> data_item option" where
  "mgw_data_item_unset_default_value it =
     (if default_size it = 0 then Some it
      else let old_autoselect_data = get_autoselect_data_ptr it;
               it = it\<lparr>default_size := 0, default_len := 0\<rparr> in
        if autoselect_size it \<noteq> 0
        then move_bytes (get_autoselect_data_ptr it) old_autoselect_data (autoselect_size it) it
        else Some it)"

definition mgw_data_item_unset_autoselect_value :: "data_item \<Rightarrow> data_item option" where
  "mgw_data_item_unset_autoselect_value it = Some (if autoselect_size it = 0 then it else it\<lparr>autoselect_size := 0\<rparr>)"

text \<open>\<open>clear_item\<close>, as for the items of \<open>mgw_data_clear\<close>.\<close>

definition clear_item :: "data_item \<Rightarrow> data_item option" where
  "clear_item it =
     (if data_len it = 0 then Some it
      else let size = default_len it + autoselect_size it in do {
        p \<leftarrow> get_item_data it;
        it \<leftarrow> (if size \<noteq> 0 then move_bytes p (p + data_len it) size it else Some it);
        Some (it\<lparr>data_size := 0, data_len := 0\<rparr>) })"

section \<open>The three values\<close>

definition user_value :: "data_item \<Rightarrow> bytes option" where
  "user_value it = (if data_size it = 0 then None else Some (mem_get (i_store it) (get_data_ptr it) (data_size it)))"

definition default_value :: "data_item \<Rightarrow> bytes option" where
  "default_value it =
     (if default_size it = 0 then None else Some (mem_get (i_store it) (get_default_data_ptr it) (default_size it)))"

definition autoselect_value :: "data_item \<Rightarrow> bytes option" where
  "autoselect_value it =
     (if autoselect_size it = 0 then None else Some (mem_get (i_store it) (get_autoselect_data_ptr it) (autoselect_size it)))"

text \<open>Values lie within their parts and parts within the block; a part in front of another is aligned.\<close>

definition item_ok :: "data_item \<Rightarrow> bool" where
  "item_ok it \<longleftrightarrow> mgw_data_item_total_size it \<le> i_capacity it \<and> data_size it \<le> data_len it \<and> default_size it \<le> default_len it \<and>
     (data_size it = 0 \<longrightarrow> data_len it = 0) \<and> (default_size it = 0 \<longrightarrow> default_len it = 0) \<and>
     (default_size it \<noteq> 0 \<or> autoselect_size it \<noteq> 0 \<longrightarrow> data_len it = get_align_size (data_size it)) \<and>
     (autoselect_size it \<noteq> 0 \<longrightarrow> default_len it = get_align_size (default_size it))"

lemma align_ge: "n \<le> get_align_size n"
proof -
  have "n + 31 = (n + 31) div 32 * 32 + (n + 31) mod 32" by simp
  then have "n \<le> (n + 31) div 32 * 32" using mod_less_divisor [of 32 "n + 31"] by linarith
  then show ?thesis by (simp add: get_align_size_def ALIGNMENT_def)
qed

lemma align_0 [simp]: "get_align_size 0 = 0"
  by (simp add: get_align_size_def ALIGNMENT_def)

lemma align_eq_0 [simp]: "get_align_size n = 0 \<longleftrightarrow> n = 0"
  using align_ge [of n] by (cases n) auto

lemmas ptr_defs = get_data_ptr_def get_default_data_ptr_def get_autoselect_data_ptr_def mgw_data_item_total_size_def

lemmas item_defs = ptr_defs put_bytes_def move_bytes_def mgw_data_item_ensure_capacity_def get_item_data_def
  get_item_default_data_def get_item_autoselect_data_def

text \<open>The part of a moved block that a later write leaves alone.\<close>

lemma moved: "i + k \<le> n \<Longrightarrow> mem_get (mem_put m dst (mem_get m' src n)) (dst + i) k = mem_get m' (src + i) k"
  by (rule nth_equalityI) (auto simp: mem_put_def add.assoc)

lemma create_item:
  assumes "bs \<noteq> []"
  shows "\<exists>it. mgw_data_item_create nlen bs ty d a = Some it \<and> item_ok it \<and> i_type it = ty \<and>
    user_value it = (if d \<or> a then None else Some bs) \<and> default_value it = (if d then Some bs else None) \<and>
    autoselect_value it = (if \<not> d \<and> a then Some bs else None)"
  using assms align_ge
  by (auto simp: mgw_data_item_create_def item_defs item_ok_def user_value_def default_value_def autoselect_value_def
      mem_simps Let_def)

section \<open>The operations on values\<close>

lemma put_ok:
  "p + length bs \<le> i_capacity it \<Longrightarrow> put_bytes p bs it = Some (it\<lparr>i_store := mem_put (i_store it) p bs\<rparr>)"
  by (simp add: put_bytes_def)

lemma move_ok:
  "src + n \<le> i_capacity it \<Longrightarrow> dst + n \<le> i_capacity it \<Longrightarrow>
   move_bytes dst src n it = Some (it\<lparr>i_store := mem_put (i_store it) dst (mem_get (i_store it) src n)\<rparr>)"
  by (simp add: move_bytes_def put_bytes_def)

lemma ensured:
  "mgw_data_item_ensure_capacity it = it\<lparr>i_capacity := max (i_capacity it) (mgw_data_item_total_size it)\<rparr>"
  by (simp add: mgw_data_item_ensure_capacity_def max_def)

lemma item_sizes: "item_ok it \<Longrightarrow> default_size it \<le> default_len it \<and> data_size it \<le> data_len it"
  by (simp add: item_ok_def)

lemma set_user:
  assumes "item_ok it" and "bs \<noteq> []"
  shows "\<exists>it'. mgw_data_item_setdata bs ty it = Some it' \<and> item_ok it' \<and> i_type it' = ty \<and>
    user_value it' = Some bs \<and> default_value it' = default_value it \<and> autoselect_value it' = autoselect_value it"
proof (cases "default_size it = 0 \<and> autoselect_size it = 0")
  case True
  then show ?thesis
    using assms by (auto simp: mgw_data_item_setdata_def ensured put_ok get_item_data_def ptr_defs item_ok_def
        user_value_def default_value_def autoselect_value_def mem_simps Let_def max_def)
next
  case False
  define n where "n = get_align_size (length bs)"
  have n: "length bs \<le> n" using align_ge by (simp add: n_def)
  define it1 where "it1 = it\<lparr>data_size := length bs, i_type := ty, data_len := n,
    i_capacity := max (i_capacity it) (HEADER + name_len it + n + default_len it + autoselect_size it)\<rparr>"
  define d where "d = HEADER + name_len it"
  define m1 where "m1 = mem_put (i_store it) (d + n) (mem_get (i_store it) (d + data_len it) (default_len it + autoselect_size it))"
  define it2 where "it2 = it1\<lparr>i_store := mem_put m1 d bs\<rparr>"
  have e: "mgw_data_item_setdata bs ty it = Some it2"
    using False assms n by (auto simp: mgw_data_item_setdata_def ensured move_ok put_ok get_item_data_def ptr_defs item_ok_def
        Let_def n_def [symmetric] it1_def it2_def m1_def d_def max_def)
  have k: "mem_get (i_store it2) (d + n + i) k = mem_get (i_store it) (d + data_len it + i) k"
    if "i + k \<le> default_len it + autoselect_size it" for i k
  proof -
    have "mem_get (i_store it2) (d + n + i) k = mem_get m1 (d + n + i) k"
      using n by (simp add: it2_def mem_get_put_disjoint)
    then show ?thesis using that by (simp add: m1_def moved)
  qed
  have "item_ok it2" using False assms n by (auto simp: item_ok_def it2_def it1_def ptr_defs n_def)
  moreover have "user_value it2 = Some bs" using assms(2) by (simp add: user_value_def it2_def it1_def get_data_ptr_def d_def mem_simps)
  moreover have "default_value it2 = default_value it" "autoselect_value it2 = autoselect_value it"
    using k [of 0 "default_size it"] k [of "default_len it" "autoselect_size it"] item_sizes [OF assms(1)]
    by (simp_all add: default_value_def autoselect_value_def ptr_defs d_def) (simp_all add: it2_def it1_def)
  ultimately show ?thesis using e by (simp add: it2_def it1_def)
qed

lemma set_default:
  assumes "item_ok it" and "bs \<noteq> []"
  shows "\<exists>it'. mgw_data_item_set_default_data bs ty it = Some it' \<and> item_ok it' \<and> i_type it' = ty \<and>
    user_value it' = user_value it \<and> default_value it' = Some bs \<and> autoselect_value it' = autoselect_value it"
proof -
  define d where "d = HEADER + name_len it"
  define l where "l = (if data_size it \<noteq> 0 then get_align_size (data_size it) else 0)"
  define n where "n = (if autoselect_size it \<noteq> 0 then get_align_size (length bs) else length bs)"
  have n: "length bs \<le> n" "data_size it \<le> l" using align_ge by (simp_all add: n_def l_def)
  define c where "c = max (i_capacity it) (d + l + n + autoselect_size it)"
  define m1 where "m1 = (if autoselect_size it = 0 then i_store it
    else mem_put (i_store it) (d + l + n) (mem_get (i_store it) (d + data_len it + default_len it) (autoselect_size it)))"
  define it2 where "it2 = it\<lparr>i_type := ty, default_size := length bs, default_len := n, data_len := l, i_capacity := c,
    i_store := mem_put m1 (d + l) bs\<rparr>"
  have e: "mgw_data_item_set_default_data bs ty it = Some it2"
    using assms n by (auto simp: mgw_data_item_set_default_data_def ensured move_ok put_ok get_item_default_data_def ptr_defs
        item_ok_def Let_def it2_def m1_def d_def c_def max_def l_def n_def)
  have "item_ok it2" using assms n by (auto simp: item_ok_def it2_def ptr_defs n_def l_def c_def d_def)
  moreover have "user_value it2 = user_value it"
    using n by (simp add: user_value_def it2_def m1_def get_data_ptr_def d_def mem_get_put_disjoint)
  moreover have "default_value it2 = Some bs" using assms(2) by (simp add: default_value_def it2_def ptr_defs d_def mem_simps)
  moreover have "autoselect_value it2 = autoselect_value it"
    using n assms(1) by (auto simp: autoselect_value_def it2_def m1_def ptr_defs d_def mem_get_put_disjoint mem_get_put_same item_ok_def)
  ultimately show ?thesis using e by (simp add: it2_def)
qed

lemma set_autoselect:
  assumes "item_ok it" and "bs \<noteq> []"
  shows "\<exists>it'. mgw_data_item_set_autoselect_data bs ty it = Some it' \<and> item_ok it' \<and> i_type it' = ty \<and>
    user_value it' = user_value it \<and> default_value it' = default_value it \<and> autoselect_value it' = Some bs"
proof -
  define d where "d = HEADER + name_len it"
  define l where "l = (if data_size it \<noteq> 0 then get_align_size (data_size it) else 0)"
  define n where "n = (if default_size it \<noteq> 0 then get_align_size (default_size it) else 0)"
  have n: "default_size it \<le> n" "data_size it \<le> l" using align_ge by (simp_all add: n_def l_def)
  have l: "l = data_len it" if "default_size it \<noteq> 0" using assms(1) that by (auto simp: item_ok_def l_def)
  define it2 where "it2 = it\<lparr>autoselect_size := length bs, i_type := ty, data_len := l, default_len := n,
    i_capacity := max (i_capacity it) (d + l + n + length bs), i_store := mem_put (i_store it) (d + l + n) bs\<rparr>"
  have e: "mgw_data_item_set_autoselect_data bs ty it = Some it2"
    using assms(2) by (simp add: mgw_data_item_set_autoselect_data_def ensured put_ok get_item_autoselect_data_def ptr_defs
        Let_def it2_def d_def l_def n_def)
  have "item_ok it2" using n by (auto simp: item_ok_def it2_def ptr_defs d_def l_def n_def)
  moreover have "user_value it2 = user_value it"
    using n by (simp add: user_value_def it2_def get_data_ptr_def d_def mem_get_put_disjoint)
  moreover have "default_value it2 = default_value it"
    using n l by (simp add: default_value_def it2_def ptr_defs d_def mem_get_put_disjoint)
  moreover have "autoselect_value it2 = Some bs" using assms(2) by (simp add: autoselect_value_def it2_def ptr_defs d_def mem_simps)
  ultimately show ?thesis using e by (simp add: it2_def)
qed

text \<open>Taking the user's value out: the parts behind it move to the front.\<close>

lemma user_out:
  assumes "item_ok it"
  defines "it' \<equiv> it\<lparr>data_size := 0, data_len := 0,
    i_store := mem_put (i_store it) (get_data_ptr it) (mem_get (i_store it) (get_default_data_ptr it) (default_len it + autoselect_size it))\<rparr>"
  shows "item_ok it'" and "user_value it' = None" and "default_value it' = default_value it" and "autoselect_value it' = autoselect_value it"
proof -
  have s: "default_size it \<le> default_len it" using item_sizes [OF assms(1)] by simp
  show "item_ok it'" "user_value it' = None" using assms(1) by (auto simp: item_ok_def it'_def ptr_defs user_value_def)
  have k: "mem_get (i_store it') (get_data_ptr it + i) k = mem_get (i_store it) (get_default_data_ptr it + i) k"
    if "i + k \<le> default_len it + autoselect_size it" for i k
    using that by (simp add: it'_def moved)
  show "default_value it' = default_value it" "autoselect_value it' = autoselect_value it"
    using k [of 0 "default_size it"] k [of "default_len it" "autoselect_size it"] s
    by (simp_all add: default_value_def autoselect_value_def ptr_defs) (simp_all add: it'_def)
qed

lemma user_out_nothing:
  assumes "item_ok it" and "default_size it = 0" and "autoselect_size it = 0"
  shows "item_ok (it\<lparr>data_size := 0, data_len := 0\<rparr>)" and "user_value (it\<lparr>data_size := 0, data_len := 0\<rparr>) = None"
    and "default_value it = None" and "autoselect_value it = None"
  using assms by (auto simp: item_ok_def ptr_defs user_value_def default_value_def autoselect_value_def)

lemma unset_user:
  assumes "item_ok it"
  shows "\<exists>it'. mgw_data_item_unset_user_value it = Some it' \<and> item_ok it' \<and> i_type it' = i_type it \<and>
    user_value it' = None \<and> default_value it' = default_value it \<and> autoselect_value it' = autoselect_value it"
proof (cases "data_size it = 0 \<or> default_size it = 0 \<and> autoselect_size it = 0")
  case True
  then show ?thesis
    using assms user_out_nothing [OF assms]
    by (auto simp: mgw_data_item_unset_user_value_def user_value_def default_value_def autoselect_value_def Let_def)
next
  case False
  have c: "get_default_data_ptr it + (default_len it + autoselect_size it) \<le> i_capacity it"
    "get_data_ptr it + (default_len it + autoselect_size it) \<le> i_capacity it"
    using assms by (auto simp: item_ok_def ptr_defs)
  show ?thesis
    using False c user_out [OF assms] by (simp add: mgw_data_item_unset_user_value_def move_ok Let_def ptr_defs)
qed

lemma unset_default:
  assumes "item_ok it"
  shows "\<exists>it'. mgw_data_item_unset_default_value it = Some it' \<and> item_ok it' \<and> i_type it' = i_type it \<and>
    user_value it' = user_value it \<and> default_value it' = None \<and> autoselect_value it' = autoselect_value it"
proof (cases "default_size it = 0")
  case True
  then show ?thesis using assms by (simp add: mgw_data_item_unset_default_value_def default_value_def)
next
  case False
  define d where "d = get_default_data_ptr it"
  define m where "m = (if autoselect_size it = 0 then i_store it
    else mem_put (i_store it) d (mem_get (i_store it) (d + default_len it) (autoselect_size it)))"
  define it2 where "it2 = it\<lparr>default_size := 0, default_len := 0, i_store := m\<rparr>"
  have c: "d + default_len it + autoselect_size it \<le> i_capacity it" "get_data_ptr it + data_size it \<le> d"
    using assms by (auto simp: item_ok_def ptr_defs d_def)
  have e: "mgw_data_item_unset_default_value it = Some it2"
    using False c(1) by (simp add: mgw_data_item_unset_default_value_def move_ok it2_def m_def Let_def d_def
        get_autoselect_data_ptr_def get_default_data_ptr_def get_data_ptr_def)
  have "item_ok it2" using assms False by (auto simp: item_ok_def it2_def ptr_defs)
  moreover have "user_value it2 = user_value it"
    using c(2) by (simp add: user_value_def it2_def m_def get_data_ptr_def mem_get_put_disjoint)
  moreover have "autoselect_value it2 = autoselect_value it"
    by (simp add: autoselect_value_def it2_def m_def d_def ptr_defs mem_get_put_same)
  ultimately show ?thesis using e by (simp add: it2_def default_value_def)
qed

lemma unset_autoselect:
  assumes "item_ok it"
  shows "\<exists>it'. mgw_data_item_unset_autoselect_value it = Some it' \<and> item_ok it' \<and> i_type it' = i_type it \<and>
    user_value it' = user_value it \<and> default_value it' = default_value it \<and> autoselect_value it' = None"
  using assms
  by (auto simp: mgw_data_item_unset_autoselect_value_def ptr_defs item_ok_def user_value_def default_value_def autoselect_value_def)

lemma clear_user:
  assumes "item_ok it"
  shows "\<exists>it'. clear_item it = Some it' \<and> item_ok it' \<and> i_type it' = i_type it \<and>
    user_value it' = None \<and> default_value it' = default_value it \<and> autoselect_value it' = autoselect_value it"
proof (cases "data_len it = 0 \<or> default_len it = 0 \<and> autoselect_size it = 0")
  case True
  have z: "data_len it = 0 \<Longrightarrow> data_size it = 0" "default_len it = 0 \<Longrightarrow> default_size it = 0"
    using item_sizes [OF assms] by simp_all
  show ?thesis
  proof (cases "data_len it = 0")
    case True
    then show ?thesis using assms z(1) by (simp add: clear_item_def user_value_def)
  next
    case False
    then have "data_size it \<noteq> 0" "default_size it = 0" "default_len it = 0" "autoselect_size it = 0"
      using True z assms by (auto simp: item_ok_def)
    then show ?thesis
      using False user_out_nothing [OF assms]
      by (auto simp: clear_item_def get_item_data_def Let_def default_value_def autoselect_value_def)
  qed
next
  case False
  then have "data_size it \<noteq> 0" using assms by (auto simp: item_ok_def)
  moreover have c: "get_data_ptr it + data_len it + (default_len it + autoselect_size it) \<le> i_capacity it"
    using assms by (auto simp: item_ok_def ptr_defs)
  ultimately have "clear_item it = Some (it\<lparr>data_size := 0, data_len := 0, i_store := mem_put (i_store it) (get_data_ptr it)
      (mem_get (i_store it) (get_default_data_ptr it) (default_len it + autoselect_size it))\<rparr>)"
    using False by (simp add: clear_item_def get_item_data_def move_ok Let_def get_default_data_ptr_def)
  then show ?thesis using user_out [OF assms] by simp
qed

text \<open>What \<open>get_item_data\<close> shows: the user's value, else the default, else the selected one.\<close>

definition shown_value :: "data_item \<Rightarrow> bytes option" where
  "shown_value it = (case user_value it of Some v \<Rightarrow> Some v | None \<Rightarrow> (case default_value it of Some v \<Rightarrow> Some v | None \<Rightarrow> autoselect_value it))"

lemma shown:
  assumes "item_ok it"
  shows "(get_item_data it = None \<longleftrightarrow> shown_value it = None) \<and>
    (\<forall>v p. shown_value it = Some v \<and> get_item_data it = Some p \<longrightarrow> mem_get (i_store it) p (length v) = v)"
  using assms by (auto simp: shown_value_def get_item_data_def user_value_def default_value_def autoselect_value_def ptr_defs
      item_ok_def split: if_splits)

text \<open>The item an operation leaves, with its type and its values.\<close>

definition becomes :: "data_item option \<Rightarrow> data_type \<Rightarrow> bytes option \<Rightarrow> bytes option \<Rightarrow> bytes option \<Rightarrow> bool" where
  "becomes r ty u d a \<longleftrightarrow> (\<exists>it. r = Some it \<and> item_ok it \<and> i_type it = ty \<and> user_value it = u \<and> default_value it = d \<and>
     autoselect_value it = a)"

text \<open>C28: An item holds its three values independently: setting or removing one moves the others about in the
  block but keeps their bytes, never leaves the block, and what is shown is the user's value, else the
  default, else the selected one.\<close>

theorem item_holds_three_values:
  assumes "item_ok it" and "bs \<noteq> []"
  shows "becomes (mgw_data_item_setdata bs ty it) ty (Some bs) (default_value it) (autoselect_value it) \<and>
    becomes (mgw_data_item_set_default_data bs ty it) ty (user_value it) (Some bs) (autoselect_value it) \<and>
    becomes (mgw_data_item_set_autoselect_data bs ty it) ty (user_value it) (default_value it) (Some bs) \<and>
    becomes (mgw_data_item_unset_user_value it) (i_type it) None (default_value it) (autoselect_value it) \<and>
    becomes (mgw_data_item_unset_default_value it) (i_type it) (user_value it) None (autoselect_value it) \<and>
    becomes (mgw_data_item_unset_autoselect_value it) (i_type it) (user_value it) (default_value it) None \<and>
    becomes (clear_item it) (i_type it) None (default_value it) (autoselect_value it) \<and>
    (case get_item_data it of None \<Rightarrow> shown_value it = None | Some p \<Rightarrow> \<exists>v. shown_value it = Some v \<and> mem_get (i_store it) p (length v) = v)"
  using set_user [OF assms, of ty] set_default [OF assms, of ty] set_autoselect [OF assms, of ty] unset_user [OF assms(1)]
    unset_default [OF assms(1)] unset_autoselect [OF assms(1)] clear_user [OF assms(1)] shown [OF assms(1)]
  by (auto simp: becomes_def split: option.splits)

text \<open>A default of five bytes and a user's value of forty, which moves the default.\<close>

theorem item_holds_three_values_witness:
  "\<exists>it it'. mgw_data_item_create 3 [1, 2, 3, 4, 5] MGW_DATA_STRING True False = Some it \<and>
    mgw_data_item_setdata (replicate 40 7) MGW_DATA_STRING it = Some it' \<and>
    user_value it' = Some (replicate 40 7) \<and> default_value it' = Some [1, 2, 3, 4, 5] \<and> autoselect_value it' = None"
proof -
  obtain it where it: "mgw_data_item_create 3 [1, 2, 3, 4, 5] MGW_DATA_STRING True False = Some it" "item_ok it"
    "default_value it = Some [1, 2, 3, 4, 5]" "autoselect_value it = None"
    using create_item [of "[1, 2, 3, 4, 5]" 3 MGW_DATA_STRING True False] by auto
  have "replicate 40 (7 :: byte) \<noteq> []" by simp
  from conjunct1 [OF item_holds_three_values [OF it(2) this, of MGW_DATA_STRING]] show ?thesis
    using it by (auto simp: becomes_def)
qed

end
