(* ===== verification/Settings.thy ===== *)
theory Settings
  imports DataItem "HOL-Library.List_Lexorder" "HOL-Library.Char_ord" "HOL-Library.Multiset"
begin

text \<open>
  The settings, src/mgw-core/util/source/mgw-data.c: named items in the order of their names, each with
  a user's value, a default and a selected value as in DataItem, here as values instead of bytes. An item has
  one type for all three; reading a value of another type than it has (bytes of a string as a
  number or as a pointer) is undefined and \<open>None\<close>. Objects and arrays are trees: what is handed over is
  not changed afterwards. Doubles are a parameter. Strings compare as \<open>strcmp\<close> does.
\<close>

section \<open>Values\<close>

datatype 'd setting = StrV string | IntV int | DblV 'd | BoolV bool | ObjV "'d mgw_data option" | ArrV "'d mgw_data list option"
  and 'd mgw_data = Data "(string \<times> 'd sitem) list"
  and 'd sitem = Item data_type "'d setting option" "'d setting option" "'d setting option"

fun ty :: "'d sitem \<Rightarrow> data_type" where "ty (Item t u d a) = t"
fun usr :: "'d sitem \<Rightarrow> 'd setting option" where "usr (Item t u d a) = u"
fun dft :: "'d sitem \<Rightarrow> 'd setting option" where "dft (Item t u d a) = d"
fun aut :: "'d sitem \<Rightarrow> 'd setting option" where "aut (Item t u d a) = a"
fun items :: "'d mgw_data \<Rightarrow> (string \<times> 'd sitem) list" where "items (Data xs) = xs"

fun vtype :: "'d setting \<Rightarrow> data_type" where
  "vtype (StrV _) = MGW_DATA_STRING"
| "vtype (IntV _) = MGW_DATA_NUMBER"
| "vtype (DblV _) = MGW_DATA_NUMBER"
| "vtype (BoolV _) = MGW_DATA_BOOLEAN"
| "vtype (ObjV _) = MGW_DATA_OBJECT"
| "vtype (ArrV _) = MGW_DATA_ARRAY"

definition mgw_data_create :: "'d mgw_data" where
  "mgw_data_create = Data []"

definition get_item :: "string \<Rightarrow> 'd mgw_data \<Rightarrow> 'd sitem option" where
  "get_item name d = map_option snd (find (\<lambda>p. fst p = name) (items d))"

section \<open>Setting and removing\<close>

text \<open>The loop of \<open>set_item_data\<close> with its two pointers \<open>prev\<close> and \<open>next\<close>, and what it links.\<close>

fun walk :: "string \<Rightarrow> (string \<times> 'i) list \<Rightarrow> string \<times> 'i \<Rightarrow> (string \<times> 'i) list \<Rightarrow> (string \<times> 'i) list \<times> (string \<times> 'i) \<times> (string \<times> 'i) list" where
  "walk name before prev [] = (before, prev, [])"
| "walk name before prev (n # ns) = (if name < fst n then (before, prev, n # ns) else walk name (before @ [prev]) n ns)"

definition link_item :: "string \<times> 'i \<Rightarrow> (string \<times> 'i) list \<Rightarrow> (string \<times> 'i) list" where
  "link_item new xs = (case xs of [] \<Rightarrow> [new]
     | p # ps \<Rightarrow> (let (before, prev, after) = walk (fst new) [] p ps in
         if fst prev < fst new then before @ prev # new # after else new # prev # after))"

fun put_item :: "string \<Rightarrow> 'i \<Rightarrow> (string \<times> 'i) list \<Rightarrow> (string \<times> 'i) list" where
  "put_item name it [] = []"
| "put_item name it (p # ps) = (if fst p = name then (name, it) # ps else p # put_item name it ps)"

datatype slot = User | Default | Auto

fun new_item :: "slot \<Rightarrow> 'd setting \<Rightarrow> 'd sitem" where
  "new_item User v = Item (vtype v) (Some v) None None"
| "new_item Default v = Item (vtype v) None (Some v) None"
| "new_item Auto v = Item (vtype v) None None (Some v)"

fun with_value :: "slot \<Rightarrow> 'd setting \<Rightarrow> 'd sitem \<Rightarrow> 'd sitem" where
  "with_value User v (Item t u d a) = Item (vtype v) (Some v) d a"
| "with_value Default v (Item t u d a) = Item (vtype v) u (Some v) a"
| "with_value Auto v (Item t u d a) = Item (vtype v) u d (Some v)"

definition set_item_data :: "slot \<Rightarrow> string \<Rightarrow> 'd setting \<Rightarrow> 'd mgw_data \<Rightarrow> 'd mgw_data" where
  "set_item_data s name v d = (case get_item name d of
       None \<Rightarrow> Data (link_item (name, new_item s v) (items d))
     | Some it \<Rightarrow> Data (put_item name (with_value s v it) (items d)))"

definition set_item :: "string \<Rightarrow> 'd setting \<Rightarrow> 'd mgw_data \<Rightarrow> 'd mgw_data" where
  "set_item name v d = set_item_data User name v d"

text \<open>A default of another type than the item has is ignored; the others change the type.\<close>

definition set_item_def :: "string \<Rightarrow> 'd setting \<Rightarrow> 'd mgw_data \<Rightarrow> 'd mgw_data" where
  "set_item_def name v d = (case get_item name d of
       Some it \<Rightarrow> if ty it \<noteq> vtype v then d else set_item_data Default name v d
     | None \<Rightarrow> set_item_data Default name v d)"

definition set_item_auto :: "string \<Rightarrow> 'd setting \<Rightarrow> 'd mgw_data \<Rightarrow> 'd mgw_data" where
  "set_item_auto name v d = set_item_data Auto name v d"

fun without_value :: "slot \<Rightarrow> 'd sitem \<Rightarrow> 'd sitem" where
  "without_value User (Item t u d a) = Item t None d a"
| "without_value Default (Item t u d a) = Item t u None a"
| "without_value Auto (Item t u d a) = Item t u d None"

definition mgw_data_unset :: "slot \<Rightarrow> string \<Rightarrow> 'd mgw_data \<Rightarrow> 'd mgw_data" where
  "mgw_data_unset s name d = (case get_item name d of None \<Rightarrow> d | Some it \<Rightarrow> Data (put_item name (without_value s it) (items d)))"

definition mgw_data_clear :: "'d mgw_data \<Rightarrow> 'd mgw_data" where
  "mgw_data_clear d = Data (map (apsnd (without_value User)) (items d))"

fun detach :: "string \<Rightarrow> (string \<times> 'i) list \<Rightarrow> (string \<times> 'i) list" where
  "detach name [] = []"
| "detach name (p # ps) = (if fst p = name then ps else p # detach name ps)"

definition mgw_data_erase :: "string \<Rightarrow> 'd mgw_data \<Rightarrow> 'd mgw_data" where
  "mgw_data_erase name d = Data (detach name (items d))"

section \<open>Reading\<close>

text \<open>\<open>get_item_data\<close>, \<open>get_item_default_data\<close> and \<open>get_item_autoselect_data\<close>.\<close>

fun item_data :: "slot \<Rightarrow> 'd sitem \<Rightarrow> 'd setting option" where
  "item_data User (Item t u d a) = (case u of Some v \<Rightarrow> Some v | None \<Rightarrow> (case d of Some v \<Rightarrow> Some v | None \<Rightarrow> a))"
| "item_data Default (Item t u d a) = d"
| "item_data Auto (Item t u d a) = a"

text \<open>A getter: nothing for a missing item, another type or no value; \<open>pick\<close> reads a value of the type.\<close>

definition data_item_get :: "data_type \<Rightarrow> 'r \<Rightarrow> ('d setting \<Rightarrow> 'r option) \<Rightarrow> slot \<Rightarrow> 'd sitem option \<Rightarrow> 'r option" where
  "data_item_get t nothing pick s it = (case it of None \<Rightarrow> Some nothing
     | Some it \<Rightarrow> if ty it \<noteq> t then Some nothing
                 else (case item_data s it of None \<Rightarrow> Some nothing | Some v \<Rightarrow> pick v))"

definition mgw_data_get_string :: "slot \<Rightarrow> string \<Rightarrow> 'd mgw_data \<Rightarrow> string option" where
  "mgw_data_get_string s name d =
     data_item_get MGW_DATA_STRING [] (\<lambda>v. case v of StrV x \<Rightarrow> Some x | _ \<Rightarrow> None) s (get_item name d)"

definition mgw_data_get_int :: "('d \<Rightarrow> int) \<Rightarrow> slot \<Rightarrow> string \<Rightarrow> 'd mgw_data \<Rightarrow> int option" where
  "mgw_data_get_int to_int s name d =
     data_item_get MGW_DATA_NUMBER 0 (\<lambda>v. case v of IntV x \<Rightarrow> Some x | DblV x \<Rightarrow> Some (to_int x) | _ \<Rightarrow> None) s (get_item name d)"

definition mgw_data_get_bool :: "slot \<Rightarrow> string \<Rightarrow> 'd mgw_data \<Rightarrow> bool option" where
  "mgw_data_get_bool s name d =
     data_item_get MGW_DATA_BOOLEAN False (\<lambda>v. case v of BoolV x \<Rightarrow> Some x | _ \<Rightarrow> None) s (get_item name d)"

text \<open>The getters of default objects and arrays read what the user set, if anything.\<close>

definition obj_slot :: "slot \<Rightarrow> slot" where
  "obj_slot s = (if s = Default then User else s)"

definition mgw_data_get_obj :: "slot \<Rightarrow> string \<Rightarrow> 'd mgw_data \<Rightarrow> 'd mgw_data option option" where
  "mgw_data_get_obj s name d =
     data_item_get MGW_DATA_OBJECT None (\<lambda>v. case v of ObjV x \<Rightarrow> Some x | _ \<Rightarrow> None) (obj_slot s) (get_item name d)"

definition mgw_data_get_array :: "slot \<Rightarrow> string \<Rightarrow> 'd mgw_data \<Rightarrow> 'd mgw_data list option option" where
  "mgw_data_get_array s name d =
     data_item_get MGW_DATA_ARRAY None (\<lambda>v. case v of ArrV x \<Rightarrow> Some x | _ \<Rightarrow> None) (obj_slot s) (get_item name d)"

definition mgw_data_has_value :: "slot \<Rightarrow> string \<Rightarrow> 'd mgw_data \<Rightarrow> bool" where
  "mgw_data_has_value s name d = (case get_item name d of None \<Rightarrow> False
     | Some it \<Rightarrow> (case s of User \<Rightarrow> usr it | Default \<Rightarrow> dft it | Auto \<Rightarrow> aut it) \<noteq> None)"

text \<open>\<open>mgw_data_item_destroy\<close>: the objects and arrays it releases; a value of another type is taken for a
  pointer.\<close>

definition released :: "data_type \<Rightarrow> 'd setting option \<Rightarrow> 'd setting list option" where
  "released t v = (case v of None \<Rightarrow> Some []
     | Some v \<Rightarrow> if t = MGW_DATA_OBJECT \<or> t = MGW_DATA_ARRAY then (if vtype v = t then Some [v] else None) else Some [])"

definition mgw_data_item_destroy :: "'d sitem \<Rightarrow> 'd setting list option" where
  "mgw_data_item_destroy it = do {
     x \<leftarrow> released (ty it) (usr it);
     y \<leftarrow> released (ty it) (dft it);
     z \<leftarrow> released (ty it) (aut it);
     Some (x @ y @ z) }"

fun destroy_items :: "(string \<times> 'd sitem) list \<Rightarrow> 'd setting list option" where
  "destroy_items [] = Some []"
| "destroy_items (p # ps) = do { x \<leftarrow> mgw_data_item_destroy (snd p); y \<leftarrow> destroy_items ps; Some (x @ y) }"

definition mgw_data_destroy :: "'d mgw_data \<Rightarrow> 'd setting list option" where
  "mgw_data_destroy d = destroy_items (items d)"

section \<open>Copying\<close>

text \<open>\<open>mgw_data_apply\<close> with \<open>copy_item\<close>, \<open>copy_obj\<close> and \<open>copy_array\<close>: what the user set, objects anew.\<close>

fun mgw_data_apply :: "'d mgw_data \<Rightarrow> 'd mgw_data \<Rightarrow> 'd mgw_data"
  and apply_items :: "'d mgw_data \<Rightarrow> (string \<times> 'd sitem) list \<Rightarrow> 'd mgw_data"
  and copy_item :: "'d mgw_data \<Rightarrow> string \<Rightarrow> 'd sitem \<Rightarrow> 'd mgw_data"
  and copy_value :: "'d mgw_data \<Rightarrow> string \<Rightarrow> 'd setting \<Rightarrow> 'd mgw_data"
  and copy_array :: "'d mgw_data list \<Rightarrow> 'd mgw_data list" where
  "mgw_data_apply t (Data xs) = apply_items t xs"
| "apply_items t [] = t"
| "apply_items t ((n, it) # xs) = apply_items (copy_item t n it) xs"
| "copy_item t n (Item k None d a) = t"
| "copy_item t n (Item k (Some v) d a) = copy_value t n v"
| "copy_value t n (ObjV None) = t"
| "copy_value t n (ObjV (Some x)) = set_item n (ObjV (Some (mgw_data_apply mgw_data_create x))) t"
| "copy_value t n (ArrV None) = t"
| "copy_value t n (ArrV (Some xs)) = set_item n (ArrV (Some (copy_array xs))) t"
| "copy_value t n (StrV s) = set_item n (StrV s) t"
| "copy_value t n (IntV i) = set_item n (IntV i) t"
| "copy_value t n (DblV f) = set_item n (DblV f) t"
| "copy_value t n (BoolV b) = set_item n (BoolV b) t"
| "copy_array [] = []"
| "copy_array (x # xs) = mgw_data_apply mgw_data_create x # copy_array xs"

section \<open>Items by name\<close>

definition sorted_items :: "(string \<times> 'i) list \<Rightarrow> bool" where
  "sorted_items xs \<longleftrightarrow> sorted_wrt (<) (map fst xs)"

lemma sorted_items_append:
  "sorted_items (xs @ ys) \<longleftrightarrow> sorted_items xs \<and> sorted_items ys \<and> (\<forall>x \<in> set xs. \<forall>y \<in> set ys. fst x < fst y)"
  by (auto simp: sorted_items_def sorted_wrt_append)

lemma sorted_items_Cons: "sorted_items (x # xs) \<longleftrightarrow> sorted_items xs \<and> (\<forall>y \<in> set xs. fst x < fst y)"
  using sorted_items_append [of "[x]" xs] by (simp add: sorted_items_def)

lemma get_item_map: "get_item name d = map_of (items d) name"
  unfolding get_item_def by (induction "items d" arbitrary: d rule: list.induct) (metis find.simps(1) list.simps(8) map_of.simps(1) option.map(1), 
    metis (mono_tags, lifting) find.simps(2) items.simps map_of.simps(2) option.map(2) fun_upd_apply prod.collapse)

lemma walk_parts:
  "walk name before p ps = (b, q, a) \<Longrightarrow>
   b @ q # a = before @ p # ps \<and> (a = [] \<or> name < fst (hd a)) \<and> (b = before \<and> q = p \<or> fst q \<le> name)"
  by (induction ps arbitrary: before p) (auto split: if_splits simp: not_less)

text \<open>Linking a new name into a sorted list puts it at its place.\<close>

lemma link_place:
  assumes "sorted_items xs" and "name \<notin> fst ` set xs"
  shows "\<exists>ws zs. xs = ws @ zs \<and> link_item (name, it) xs = ws @ (name, it) # zs \<and>
    (\<forall>x \<in> set ws. fst x < name) \<and> (\<forall>x \<in> set zs. name < fst x)"
proof (cases xs)
  case (Cons p ps)
  obtain b q a where w: "walk name [] p ps = (b, q, a)" by (metis prod_cases3)
  then have e: "b @ q # a = xs" "a = [] \<or> name < fst (hd a)" "b = [] \<and> q = p \<or> fst q \<le> name"
    using walk_parts [OF w] Cons by auto
  have s: "sorted_items (b @ q # a)" using assms(1) e(1) by simp
  have n: "fst q \<noteq> name" using assms(2) e(1) by (metis image_eqI in_set_conv_decomp)
  have a: "\<forall>x \<in> set a. name < fst x"
    using e(2) s by (cases a) (auto simp: sorted_items_append sorted_items_Cons)
  show ?thesis
  proof (cases "fst q < name")
    case True
    then have "\<forall>x \<in> set (b @ [q]). fst x < name" using s by (auto simp: sorted_items_append sorted_items_Cons)
    then show ?thesis using Cons w e(1) True a by (intro exI [of _ "b @ [q]"] exI [of _ a]) (simp add: link_item_def)
  next
    case False
    then have f: "name < fst q" "b = []" "q = p" using n e(3) by auto
    have q: "\<forall>x \<in> set a. fst q < fst x" using s by (simp add: sorted_items_append sorted_items_Cons)
    have "xs = q # a" using e(1) f(2) by simp
    moreover have "\<forall>x \<in> set a. name < fst x" using q f(1) less_trans by blast
    ultimately have "\<forall>x \<in> set xs. name < fst x" using f(1) by simp
    then show ?thesis using Cons w e(1) False f by (intro exI [of _ "[]"] exI [of _ xs]) (simp add: link_item_def)
  qed
qed (simp add: link_item_def)

lemma map_of_put: "map_of (put_item name it xs) n = (if n = name \<and> map_of xs name \<noteq> None then Some it else map_of xs n)"
  by (induction xs) auto

lemma put_names: "map fst (put_item name it xs) = map fst xs"
  by (induction xs) auto

lemma map_of_notin: "name \<notin> fst ` set xs \<longleftrightarrow> map_of xs name = None"
  by (simp add: map_of_eq_None_iff)

lemma map_of_link:
  assumes "sorted_items xs" and "map_of xs name = None"
  shows "sorted_items (link_item (name, it) xs) \<and> map_of (link_item (name, it) xs) n = (if n = name then Some it else map_of xs n)"
proof -
  obtain ws zs where w: "xs = ws @ zs" "link_item (name, it) xs = ws @ (name, it) # zs"
    "\<forall>x \<in> set ws. fst x < name" "\<forall>x \<in> set zs. name < fst x"
    using link_place [OF assms(1)] assms(2) by (metis map_of_notin)
  have "map_of ws name = None" using w(3) by (auto simp: map_of_eq_None_iff)
  then have "map_of (link_item (name, it) xs) n = (if n = name then Some it else map_of xs n)"
    using w(1,2) by (auto simp: map_add_def split: option.splits)
  then show ?thesis using assms(1) w by (auto simp: sorted_items_append sorted_items_Cons)
qed

text \<open>The items of a name after each operation.\<close>

lemma get_set:
  assumes "sorted_items (items d)"
  shows "sorted_items (items (set_item_data s name v d)) \<and>
    get_item n (set_item_data s name v d) =
      (if n = name then Some (case get_item name d of None \<Rightarrow> new_item s v | Some it \<Rightarrow> with_value s v it) else get_item n d)"
  using map_of_link [OF assms, of name "new_item s v" n] assms
  by (auto simp: set_item_data_def get_item_map map_of_put put_names sorted_items_def split: option.splits)

lemma get_unset:
  "sorted_items (items d) \<Longrightarrow> sorted_items (items (mgw_data_unset s name d)) \<and>
    get_item n (mgw_data_unset s name d) = (if n = name then map_option (without_value s) (get_item name d) else get_item n d)"
  by (auto simp: mgw_data_unset_def get_item_map map_of_put put_names sorted_items_def split: option.splits)

lemma detach_set: "set (detach name xs) \<subseteq> set xs"
  by (induction xs) auto

lemma get_erase:
  "sorted_items (items d) \<Longrightarrow> sorted_items (items (mgw_data_erase name d)) \<and>
    get_item n (mgw_data_erase name d) = (if n = name then None else get_item n d)"
proof -
  have "sorted_items xs \<Longrightarrow> sorted_items (detach name xs) \<and> map_of (detach name xs) n = (if n = name then None else map_of xs n)" for xs :: "(string \<times> 'a sitem) list"
  proof (induction xs)
    case (Cons x xs)
    then have x: "map_of xs (fst x) = None" by (auto simp: sorted_items_Cons map_of_eq_None_iff)
    have i: "sorted_items (detach name xs)" "map_of (detach name xs) n = (if n = name then None else map_of xs n)"
      using Cons by (auto simp: sorted_items_Cons)
    show ?case
    proof (cases "fst x = name")
      case True
      then show ?thesis using Cons.prems x by (auto simp: sorted_items_Cons)
    next
      case False
      then show ?thesis using Cons.prems i detach_set [of name xs] by (auto simp: sorted_items_Cons)
    qed
  qed simp
  then show "sorted_items (items d) \<Longrightarrow> ?thesis" by (simp add: mgw_data_erase_def get_item_map)
qed

lemma get_clear:
  "get_item n (mgw_data_clear d) = map_option (without_value User) (get_item n d) \<and> map fst (items (mgw_data_clear d)) = map fst (items d)"
  by (simp add: mgw_data_clear_def get_item_map apsnd_def map_prod_def split_beta map_of_map comp_def)

section \<open>Stores of values by name\<close>

text \<open>What copying relies on: a store whose update changes one name. Its client updates many.\<close>

locale named_store =
  fixes look :: "'k \<Rightarrow> 's \<Rightarrow> 'v option" and upd :: "'k \<Rightarrow> 'v \<Rightarrow> 's \<Rightarrow> 's" and inv :: "'s \<Rightarrow> bool"
  assumes upd_inv: "inv s \<Longrightarrow> inv (upd k v s)"
    and look_upd: "inv s \<Longrightarrow> look j (upd k v s) = (if j = k then Some v else look j s)"
begin

fun upd_all :: "('k \<times> 'v) list \<Rightarrow> 's \<Rightarrow> 's" where
  "upd_all [] s = s"
| "upd_all ((k, v) # kvs) s = upd_all kvs (upd k v s)"

lemma upd_all_inv: "inv s \<Longrightarrow> inv (upd_all kvs s)"
  by (induction kvs s rule: upd_all.induct) (simp_all add: upd_inv)

lemma look_upd_all:
  "inv s \<Longrightarrow> distinct (map fst kvs) \<Longrightarrow> look j (upd_all kvs s) = (case map_of kvs j of None \<Rightarrow> look j s | Some v \<Rightarrow> Some v)"
proof (induction kvs s rule: upd_all.induct)
  case (2 k v kvs s)
  have "map_of kvs k = None" using 2(3) by (simp add: map_of_eq_None_iff)
  then show ?case using 2 by (auto simp: upd_inv look_upd split: option.splits)
qed simp

end

definition user_of :: "string \<Rightarrow> 'd mgw_data \<Rightarrow> 'd setting option" where
  "user_of n d = Option.bind (get_item n d) usr"

definition default_of :: "string \<Rightarrow> 'd mgw_data \<Rightarrow> 'd setting option" where
  "default_of n d = Option.bind (get_item n d) dft"

definition in_order :: "'d mgw_data \<Rightarrow> bool" where
  "in_order d \<longleftrightarrow> sorted_items (items d)"

lemma slot_values [simp]:
  "usr (new_item User v) = Some v" "dft (new_item User v) = None" "usr (with_value User v it) = Some v"
  "dft (with_value User v it) = dft it"
  by (cases it, simp)+

interpretation settings: named_store user_of set_item in_order
proof
  fix d :: "'a mgw_data" and k v j
  assume "in_order d"
  then show "in_order (set_item k v d)" "user_of j (set_item k v d) = (if j = k then Some v else user_of j d)"
    using get_set [of d User k v j] by (auto simp: in_order_def set_item_def user_of_def split: option.splits)
qed

section \<open>Copying replaces what the user set\<close>

definition copied :: "'d setting \<Rightarrow> 'd setting option" where
  "copied v = (case v of
     ObjV x \<Rightarrow> map_option (\<lambda>x. ObjV (Some (mgw_data_apply mgw_data_create x))) x
   | ArrV x \<Rightarrow> map_option (\<lambda>xs. ArrV (Some (copy_array xs))) x
   | _ \<Rightarrow> Some v)"

definition copies :: "(string \<times> 'd sitem) list \<Rightarrow> (string \<times> 'd setting) list" where
  "copies xs = List.map_filter (\<lambda>(n, it). map_option (Pair n) (Option.bind (usr it) copied)) xs"

lemma copy_item_copied: "copy_item t n it = (case Option.bind (usr it) copied of None \<Rightarrow> t | Some v \<Rightarrow> set_item n v t)"
proof (cases it)
  case (Item k u d a)
  show ?thesis
  proof (cases u)
    case (Some v)
    then show ?thesis using Item by (cases v) (auto simp: copied_def split: option.splits)
  qed (simp add: Item)
qed

lemma apply_items_all: "apply_items t xs = settings.upd_all (copies xs) t"
  by (induction xs arbitrary: t) (auto simp: copies_def map_filter_simps copy_item_copied split: option.splits)

lemma copies_names: "set (map fst (copies xs)) \<subseteq> fst ` set xs"
  by (induction xs) (auto simp: copies_def map_filter_simps split: option.splits)

lemma copies_distinct: "sorted_items xs \<Longrightarrow> distinct (map fst (copies xs))"
proof (induction xs)
  case (Cons x xs)
  then have "fst x \<notin> fst ` set xs" by (auto simp: sorted_items_Cons)
  then have "fst x \<notin> set (map fst (copies xs))" using copies_names [of xs] by blast
  then have "\<And>b. (fst x, b) \<notin> set (copies xs)" by force
  then show ?case using Cons by (cases x) (auto simp: copies_def map_filter_simps sorted_items_Cons split: option.splits)
qed (simp add: copies_def map_filter_simps)

lemma copies_lookup: "sorted_items xs \<Longrightarrow> map_of (copies xs) n = Option.bind (Option.bind (map_of xs n) usr) copied"
proof (induction xs)
  case (Cons x xs)
  then have "map_of xs (fst x) = None" by (auto simp: sorted_items_Cons map_of_eq_None_iff)
  then show ?case using Cons by (cases x) (auto simp: copies_def map_filter_simps sorted_items_Cons split: option.splits)
qed (simp add: copies_def map_filter_simps)

text \<open>Applying settings to others: what the user set in them, copied, replaces what was set before under
  the same name; a NULL object or array replaces nothing, and so does a default. The items stay in order.\<close>

theorem apply_overrides:
  assumes "in_order t" and "in_order s"
  shows "in_order (mgw_data_apply t s) \<and>
    user_of n (mgw_data_apply t s) = (case Option.bind (user_of n s) copied of None \<Rightarrow> user_of n t | Some v \<Rightarrow> Some v)"
proof -
  obtain xs where s: "s = Data xs" by (cases s)
  have "sorted_items xs" using assms(2) s by (simp add: in_order_def)
  then show ?thesis
    using settings.upd_all_inv [OF assms(1)] settings.look_upd_all [OF assms(1) copies_distinct]
    by (simp add: s apply_items_all copies_lookup user_of_def get_item_map)
qed

theorem apply_overrides_witness:
  "user_of ''port'' (mgw_data_apply (set_item ''port'' (IntV 1 :: nat setting) (set_item ''host'' (StrV ''a'') mgw_data_create))
     (set_item ''port'' (IntV 2) mgw_data_create)) = Some (IntV 2)"
proof -
  let ?t = "set_item ''port'' (IntV 1 :: nat setting) (set_item ''host'' (StrV ''a'') mgw_data_create)"
  let ?s = "set_item ''port'' (IntV 2 :: nat setting) mgw_data_create"
  have e: "in_order (mgw_data_create :: nat mgw_data)" by (simp add: in_order_def sorted_items_def mgw_data_create_def)
  have o: "in_order ?t" "in_order ?s" by (intro settings.upd_inv e)+
  have "user_of ''port'' ?s = Some (IntV 2)" using settings.look_upd [OF e] by simp
  then show ?thesis using apply_overrides [OF o, of "''port''"] by (simp add: copied_def)
qed

section \<open>JSON\<close>

text \<open>The values of jansson; strings are valid UTF-8. Objects keep the order of insertion.\<close>

datatype 'd json = JObject "(string \<times> 'd json) list" | JArray "'d json list" | JString string | JInteger int | JReal 'd
  | JTrue | JFalse | JNull

text \<open>\<open>mgw_data_to_json\<close>: what the user set; a NULL object or array is written as an empty one.\<close>

fun mgw_data_to_json :: "'d mgw_data \<Rightarrow> 'd json"
  and json_members :: "(string \<times> 'd sitem) list \<Rightarrow> (string \<times> 'd json) list"
  and json_member :: "string \<Rightarrow> 'd sitem \<Rightarrow> (string \<times> 'd json) list"
  and json_value :: "'d setting \<Rightarrow> 'd json"
  and json_elements :: "'d mgw_data list \<Rightarrow> 'd json list" where
  "mgw_data_to_json (Data xs) = JObject (json_members xs)"
| "json_members [] = []"
| "json_members ((n, it) # xs) = json_member n it @ json_members xs"
| "json_member n (Item t None d a) = []"
| "json_member n (Item t (Some v) d a) = [(n, json_value v)]"
| "json_value (StrV s) = JString s"
| "json_value (IntV i) = JInteger i"
| "json_value (DblV f) = JReal f"
| "json_value (BoolV b) = (if b then JTrue else JFalse)"
| "json_value (ObjV None) = JObject []"
| "json_value (ObjV (Some x)) = mgw_data_to_json x"
| "json_value (ArrV None) = JArray []"
| "json_value (ArrV (Some xs)) = JArray (json_elements xs)"
| "json_elements [] = []"
| "json_elements (x # xs) = mgw_data_to_json x # json_elements xs"

text \<open>\<open>mgw_data_add_json_item\<close> and the functions it is called from: elements of arrays that are not objects
  are skipped, and so is null.\<close>

fun add_json_members :: "'d mgw_data \<Rightarrow> (string \<times> 'd json) list \<Rightarrow> 'd mgw_data"
  and mgw_data_add_json_item :: "'d mgw_data \<Rightarrow> string \<Rightarrow> 'd json \<Rightarrow> 'd mgw_data"
  and json_array_objects :: "'d json list \<Rightarrow> 'd mgw_data list" where
  "add_json_members d [] = d"
| "add_json_members d ((k, j) # ms) = add_json_members (mgw_data_add_json_item d k j) ms"
| "mgw_data_add_json_item d k (JObject ms) = set_item k (ObjV (Some (add_json_members mgw_data_create ms))) d"
| "mgw_data_add_json_item d k (JArray js) = set_item k (ArrV (Some (json_array_objects js))) d"
| "mgw_data_add_json_item d k (JString s) = set_item k (StrV s) d"
| "mgw_data_add_json_item d k (JInteger i) = set_item k (IntV i) d"
| "mgw_data_add_json_item d k (JReal f) = set_item k (DblV f) d"
| "mgw_data_add_json_item d k JTrue = set_item k (BoolV True) d"
| "mgw_data_add_json_item d k JFalse = set_item k (BoolV False) d"
| "mgw_data_add_json_item d k JNull = d"
| "json_array_objects [] = []"
| "json_array_objects (JObject ms # js) = add_json_members mgw_data_create ms # json_array_objects js"
| "json_array_objects (_ # js) = json_array_objects js"

text \<open>\<open>mgw_data_create_from_json\<close> on the parsed text; a root that is not an object has no members.\<close>

definition mgw_data_create_from_json :: "'d json \<Rightarrow> 'd mgw_data" where
  "mgw_data_create_from_json j = (case j of JObject ms \<Rightarrow> add_json_members mgw_data_create ms | _ \<Rightarrow> mgw_data_create)"

text \<open>What saving keeps: the values the user set, at every depth.\<close>

fun only_user :: "'d mgw_data \<Rightarrow> 'd mgw_data"
  and only_items :: "(string \<times> 'd sitem) list \<Rightarrow> (string \<times> 'd sitem) list"
  and only_item :: "string \<Rightarrow> 'd sitem \<Rightarrow> (string \<times> 'd sitem) list"
  and only_value :: "'d setting \<Rightarrow> 'd setting"
  and only_elements :: "'d mgw_data list \<Rightarrow> 'd mgw_data list" where
  "only_user (Data xs) = Data (only_items xs)"
| "only_items [] = []"
| "only_items ((n, it) # xs) = only_item n it @ only_items xs"
| "only_item n (Item t None d a) = []"
| "only_item n (Item t (Some v) d a) = [(n, new_item User (only_value v))]"
| "only_value (ObjV None) = ObjV (Some (Data []))"
| "only_value (ObjV (Some x)) = ObjV (Some (only_user x))"
| "only_value (ArrV None) = ArrV (Some [])"
| "only_value (ArrV (Some xs)) = ArrV (Some (only_elements xs))"
| "only_value (StrV s) = StrV s"
| "only_value (IntV i) = IntV i"
| "only_value (DblV f) = DblV f"
| "only_value (BoolV b) = BoolV b"
| "only_elements [] = []"
| "only_elements (x # xs) = only_user x # only_elements xs"

text \<open>In order at every depth of what the user set.\<close>

fun deep_order :: "'d mgw_data \<Rightarrow> bool"
  and deep_items :: "(string \<times> 'd sitem) list \<Rightarrow> bool"
  and deep_item :: "'d sitem \<Rightarrow> bool"
  and deep_value :: "'d setting \<Rightarrow> bool"
  and deep_elements :: "'d mgw_data list \<Rightarrow> bool" where
  "deep_order (Data xs) \<longleftrightarrow> sorted_items xs \<and> deep_items xs"
| "deep_items [] \<longleftrightarrow> True"
| "deep_items (x # xs) \<longleftrightarrow> deep_item (snd x) \<and> deep_items xs"
| "deep_item (Item t None d a) \<longleftrightarrow> True"
| "deep_item (Item t (Some v) d a) \<longleftrightarrow> deep_value v"
| "deep_value (ObjV (Some x)) \<longleftrightarrow> deep_order x"
| "deep_value (ArrV (Some xs)) \<longleftrightarrow> deep_elements xs"
| "deep_value (ObjV None) \<longleftrightarrow> True"
| "deep_value (ArrV None) \<longleftrightarrow> True"
| "deep_value (StrV s) \<longleftrightarrow> True"
| "deep_value (IntV i) \<longleftrightarrow> True"
| "deep_value (DblV f) \<longleftrightarrow> True"
| "deep_value (BoolV b) \<longleftrightarrow> True"
| "deep_elements [] \<longleftrightarrow> True"
| "deep_elements (x # xs) \<longleftrightarrow> deep_order x \<and> deep_elements xs"

text \<open>A name behind all others is appended.\<close>

lemma set_last:
  assumes "sorted_items ws" and "\<forall>x \<in> set ws. fst x < n"
  shows "set_item n v (Data ws) = Data (ws @ [(n, new_item User v)])"
proof -
  have n: "n \<notin> fst ` set ws" using assms(2) by force
  then have "get_item n (Data ws) = None" by (simp add: get_item_map map_of_notin)
  moreover have "link_item (n, new_item User v) ws = ws @ [(n, new_item User v)]"
  proof -
    obtain us zs where u: "ws = us @ zs" "link_item (n, new_item User v) ws = us @ (n, new_item User v) # zs" "\<forall>x \<in> set zs. n < fst x"
      using link_place [OF assms(1) n] by blast
    then have "zs = []" using assms(2) by (cases zs) force+
    then show ?thesis using u by simp
  qed
  ultimately show ?thesis by (simp add: set_item_def set_item_data_def)
qed


lemma add_members_append: "add_json_members d (ms @ ns) = add_json_members (add_json_members d ms) ns"
proof (induction ms arbitrary: d)
  case (Cons m ms)
  then show ?case by (cases m) simp
qed simp

lemma add_object: "mgw_data_add_json_item d n (mgw_data_to_json x) = set_item n (ObjV (Some (mgw_data_create_from_json (mgw_data_to_json x)))) d"
  by (cases x) (simp add: mgw_data_create_from_json_def)

lemma object_elements: "json_array_objects (mgw_data_to_json x # js) = mgw_data_create_from_json (mgw_data_to_json x) # json_array_objects js"
  by (cases x) (simp add: mgw_data_create_from_json_def)

lemma only_item_sorted:
  assumes "sorted_items (ws @ (n, it) # xs)"
  shows "sorted_items ((ws @ only_item n it) @ xs)"
proof (cases it)
  case (Item t u d a)
  then show ?thesis using assms by (cases u) (auto simp: sorted_items_append sorted_items_Cons)
qed

lemma load_saved:
  "deep_order (d :: 'd mgw_data) \<longrightarrow> mgw_data_create_from_json (mgw_data_to_json d) = only_user d"
  "\<forall>ws. deep_items (xs :: (string \<times> 'd sitem) list) \<longrightarrow> sorted_items (ws @ xs) \<longrightarrow>
     add_json_members (Data ws) (json_members xs) = Data (ws @ only_items xs)"
  "\<forall>ws. deep_item (it :: 'd sitem) \<longrightarrow> sorted_items ws \<longrightarrow> (\<forall>x \<in> set ws. fst x < n) \<longrightarrow>
     add_json_members (Data ws) (json_member n it) = Data (ws @ only_item n it)"
  "\<forall>ws m. deep_value (v :: 'd setting) \<longrightarrow> sorted_items ws \<longrightarrow> (\<forall>x \<in> set ws. fst x < m) \<longrightarrow>
     mgw_data_add_json_item (Data ws) m (json_value v) = Data (ws @ [(m, new_item User (only_value v))])"
  "deep_elements (ds :: 'd mgw_data list) \<longrightarrow> json_array_objects (json_elements ds) = only_elements ds"
proof (induction d and xs and n it and v and ds rule: mgw_data_to_json_json_members_json_member_json_value_json_elements.induct)
  case (1 xs)
  have "deep_order (Data xs) \<Longrightarrow> add_json_members (Data []) (json_members xs) = Data (only_items xs)"
    using 1 [rule_format, of "[]"] by simp
  then show ?case by (simp add: mgw_data_create_from_json_def mgw_data_create_def)
next
  case (3 n it xs)
  show ?case
  proof (intro allI impI)
    fix ws :: "(string \<times> 'd sitem) list" assume d: "deep_items ((n, it) # xs)" and s: "sorted_items (ws @ (n, it) # xs)"
    have "add_json_members (Data ws) (json_member n it) = Data (ws @ only_item n it)"
      using 3(1) [rule_format, of ws] d s by (auto simp: sorted_items_append)
    then show "add_json_members (Data ws) (json_members ((n, it) # xs)) = Data (ws @ only_items ((n, it) # xs))"
      using 3(2) [rule_format, OF _ only_item_sorted [OF s]] d by (simp add: add_members_append)
  qed
qed (auto simp: set_last add_object object_elements mgw_data_create_def)

lemma save_only_user:
  "mgw_data_to_json (only_user d) = mgw_data_to_json (d :: 'd mgw_data)"
  "json_members (only_items xs) = json_members (xs :: (string \<times> 'd sitem) list)"
  "json_members (only_item n it) = json_member n (it :: 'd sitem)"
  "json_value (only_value v) = json_value (v :: 'd setting)"
  "json_elements (only_elements ds) = json_elements (ds :: 'd mgw_data list)"
proof (induction d and xs and n it and v and ds rule: mgw_data_to_json_json_members_json_member_json_value_json_elements.induct)
  case (3 n it xs)
  have "json_members (xs @ ys) = json_members xs @ json_members ys" for xs ys :: "(string \<times> 'd sitem) list"
    by (induction xs) auto
  then show ?case using 3 by simp
qed auto



section \<open>Types\<close>

fun typed_item :: "'d sitem \<Rightarrow> bool" where
  "typed_item (Item t u d a) \<longleftrightarrow> (\<forall>v. Some v \<in> {u, d, a} \<longrightarrow> vtype v = t)"

definition typed :: "'d mgw_data \<Rightarrow> bool" where
  "typed d \<longleftrightarrow> (\<forall>p \<in> set (items d). typed_item (snd p))"

lemma typed_get: "in_order d \<Longrightarrow> typed d \<longleftrightarrow> (\<forall>n it. get_item n d = Some it \<longrightarrow> typed_item it)"
proof -
  assume "in_order d"
  then have "distinct (map fst (items d))" unfolding in_order_def sorted_items_def using strict_sorted_iff by blast
  then show ?thesis by (force simp: typed_def get_item_map)
qed

lemma typed_new: "typed_item (new_item s v)"
  by (cases s) auto

lemma typed_with: "typed_item it \<Longrightarrow> ty it = vtype v \<Longrightarrow> typed_item (with_value s v it)"
  by (cases it; cases s) auto

lemma typed_without: "typed_item it \<Longrightarrow> typed_item (without_value s it)"
  by (cases it; cases s) auto

lemma typed_data: "typed_item it \<Longrightarrow> item_data s it = Some v \<Longrightarrow> vtype v = ty it"
  by (cases it; cases s) (auto split: option.splits)

lemma typed_set:
  assumes "in_order d" and "typed d" and "\<forall>it. get_item name d = Some it \<longrightarrow> ty it = vtype v"
  shows "in_order (set_item_data s name v d) \<and> typed (set_item_data s name v d)"
proof -
  have g: "sorted_items (items (set_item_data s name v d))"
    "get_item n (set_item_data s name v d) =
      (if n = name then Some (case get_item name d of None \<Rightarrow> new_item s v | Some it \<Rightarrow> with_value s v it) else get_item n d)" for n
    using get_set [of d s name v n] assms(1) by (simp_all add: in_order_def)
  have "in_order (set_item_data s name v d)" using g(1) by (simp add: in_order_def)
  moreover have "typed (set_item_data s name v d)"
    unfolding typed_get [OF \<open>in_order (set_item_data s name v d)\<close>]
    using assms typed_get [OF assms(1)] by (auto simp: g(2) typed_new typed_with split: if_splits option.splits)
  ultimately show ?thesis by blast
qed

lemma typed_set_def: "in_order d \<Longrightarrow> typed d \<Longrightarrow> in_order (set_item_def name v d) \<and> typed (set_item_def name v d)"
  using typed_set [of d name v Default] by (auto simp: set_item_def_def split: option.splits)

lemma typed_getter:
  assumes "in_order d" and "typed d" and "\<And>v. vtype v = t \<Longrightarrow> pick v \<noteq> None"
  shows "data_item_get t nothing pick s (get_item n d) \<noteq> None"
proof -
  have "pick v \<noteq> None" if "get_item n d = Some it" "item_data s it = Some v" "ty it = t" for it v
    using assms typed_get [OF assms(1)] that typed_data [of it s v] by auto
  then show ?thesis by (auto simp: data_item_get_def split: option.splits)
qed

lemma typed_destroy_item: "typed_item it \<Longrightarrow> mgw_data_item_destroy it \<noteq> None"
  by (cases it) (auto simp: mgw_data_item_destroy_def released_def split: option.splits if_splits)

lemma typed_destroy: "\<forall>p \<in> set xs. typed_item (snd p) \<Longrightarrow> destroy_items xs \<noteq> None"
  using typed_destroy_item by (induction xs) fastforce+

text \<open>C30: As long as every name is set with values of one type, no getter misreads a value and nothing but
  objects and arrays is released as such. Defaults may be set with any type.\<close>

theorem typed_settings_safe:
  assumes "in_order d" and "typed d"
  shows "((\<forall>it. get_item name d = Some it \<longrightarrow> ty it = vtype v) \<longrightarrow>
      in_order (set_item_data s name v d) \<and> typed (set_item_data s name v d)) \<and>
    in_order (set_item_def name v d) \<and> typed (set_item_def name v d) \<and>
    typed (mgw_data_unset s name d) \<and> typed (mgw_data_erase name d) \<and> typed (mgw_data_clear d) \<and>
    mgw_data_get_string s name d \<noteq> None \<and> mgw_data_get_int f s name d \<noteq> None \<and> mgw_data_get_bool s name d \<noteq> None \<and>
    mgw_data_get_obj s name d \<noteq> None \<and> mgw_data_get_array s name d \<noteq> None \<and> mgw_data_destroy d \<noteq> None"
proof (intro conjI impI)
  note g = typed_get [THEN iffD1, OF assms]
  note i = assms(1) [unfolded in_order_def]
  have u: "in_order (mgw_data_unset s name d)" "in_order (mgw_data_erase name d)" "in_order (mgw_data_clear d)"
    using get_unset [OF i] get_erase [OF i] get_clear [of _ d] i by (auto simp: in_order_def sorted_items_def)
  show "typed (mgw_data_unset s name d)"
    unfolding typed_get [OF u(1)] using g get_unset [OF i, of s name] by (auto simp: typed_without split: if_splits)
  show "typed (mgw_data_erase name d)"
    unfolding typed_get [OF u(2)] using g get_erase [OF i, of name] by (auto split: if_splits)
  show "typed (mgw_data_clear d)"
    unfolding typed_get [OF u(3)] using g get_clear [of _ d] by (auto simp: typed_without)
  show "mgw_data_destroy d \<noteq> None" using assms(2) typed_destroy by (simp add: mgw_data_destroy_def typed_def)
  show "mgw_data_get_string s name d \<noteq> None" unfolding mgw_data_get_string_def
    by (rule typed_getter [OF assms]) (auto split: setting.splits)
  show "mgw_data_get_int f s name d \<noteq> None" unfolding mgw_data_get_int_def
    by (rule typed_getter [OF assms]) (auto split: setting.splits)
  show "mgw_data_get_bool s name d \<noteq> None" unfolding mgw_data_get_bool_def
    by (rule typed_getter [OF assms]) (auto split: setting.splits)
  show "mgw_data_get_obj s name d \<noteq> None" unfolding mgw_data_get_obj_def
    by (rule typed_getter [OF assms]) (auto split: setting.splits)
  show "mgw_data_get_array s name d \<noteq> None" unfolding mgw_data_get_array_def
    by (rule typed_getter [OF assms]) (auto split: setting.splits)
qed (use assms typed_set [OF assms] typed_set_def [OF assms] in blast)+

theorem typed_settings_safe_witness:
  "typed (set_item_def ''a'' (StrV ''x'') (set_item ''a'' (IntV 3 :: nat setting) mgw_data_create)) \<and>
    mgw_data_get_int (\<lambda>_. 0) User ''a'' (set_item ''a'' (IntV 3 :: nat setting) mgw_data_create) \<noteq> None"
proof -
  have "in_order (mgw_data_create :: nat mgw_data)" "typed (mgw_data_create :: nat mgw_data)"
    by (simp_all add: in_order_def sorted_items_def typed_def mgw_data_create_def)
  then have s: "in_order (set_item ''a'' (IntV 3 :: nat setting) mgw_data_create)"
    "typed (set_item ''a'' (IntV 3 :: nat setting) mgw_data_create)"
    using typed_set [of "mgw_data_create :: nat mgw_data" "''a''" "IntV 3" User]
    unfolding set_item_def by (simp_all add: get_item_map mgw_data_create_def)
  from typed_settings_safe [OF this] show ?thesis by blast
qed

text \<open>A default string under an object: the destructor takes the string for an object. The settings
  themselves do not prevent it, because setting a value changes the type of the default as well.\<close>

lemma default_string_released:
  "mgw_data_destroy (set_item ''a'' (ObjV x) (set_item_def ''a'' (StrV s) mgw_data_create)) = None"
  by (simp add: mgw_data_destroy_def set_item_def set_item_def_def set_item_data_def get_item_map mgw_data_create_def
      link_item_def mgw_data_item_destroy_def released_def)

text \<open>The getter of a default object answers with the user's.\<close>

lemma default_obj_hidden:
  "mgw_data_get_obj Default ''a'' (set_item ''a'' (ObjV x) (set_item_def ''a'' (ObjV y) mgw_data_create)) = Some x"
  by (simp add: mgw_data_get_obj_def set_item_def set_item_def_def set_item_data_def get_item_map mgw_data_create_def
      link_item_def data_item_get_def obj_slot_def)

section \<open>References\<close>

text \<open>What an item owns a reference to, and what setting a value releases and adds. The new default of an
  item gets its reference only if the user has set a value (\<open>item_default_data_addref\<close>).\<close>

definition is_ref :: "'d setting \<Rightarrow> bool" where
  "is_ref v \<longleftrightarrow> vtype v = MGW_DATA_OBJECT \<or> vtype v = MGW_DATA_ARRAY"

definition refs_of :: "'d setting option \<Rightarrow> 'd setting multiset" where
  "refs_of v = (case v of None \<Rightarrow> {#} | Some v \<Rightarrow> if is_ref v then {#v#} else {#})"

definition owned_refs :: "'d sitem \<Rightarrow> 'd setting multiset" where
  "owned_refs it = refs_of (usr it) + refs_of (dft it) + refs_of (aut it)"

definition set_releases :: "slot \<Rightarrow> 'd sitem \<Rightarrow> 'd setting multiset" where
  "set_releases s it = refs_of (case s of User \<Rightarrow> usr it | Default \<Rightarrow> dft it | Auto \<Rightarrow> aut it)"

definition set_addrefs :: "slot \<Rightarrow> 'd setting \<Rightarrow> 'd sitem \<Rightarrow> 'd setting multiset" where
  "set_addrefs s v it = (if s = Default \<and> usr it = None then {#} else refs_of (Some v))"

text \<open>Setting a value keeps the references in step with what the item holds, except that a new default
  object of an item without a user's value is held without a reference.\<close>

theorem set_keeps_references:
  "owned_refs (with_value s v it) + set_releases s it =
     owned_refs it + set_addrefs s v it + (if s = Default \<and> usr it = None then refs_of (Some v) else {#})"
  by (cases it; cases s) (auto simp: owned_refs_def set_releases_def set_addrefs_def refs_of_def split: option.splits)

end
