(* ===== verification/SrtSend.thy ===== *)
theory SrtSend
  imports Prelude
begin

text \<open>
  The packet path of src/plugins/outputs/srt-stream.c: \<open>srt_stream_proc_packet\<close> takes the buffers of
  the MPEG-TS muxer, cuts them into payloads for libsrt, and keeps what does not fill a transport
  packet for the next buffer. The network is an argument: the answer of each write by its number, and
  the writes so far.
\<close>

section \<open>State\<close>

definition SRT_ERROR_THRESHOLD :: nat where "SRT_ERROR_THRESHOLD = 100"

definition SRT_MAX_PACKET_SIZE :: nat where "SRT_MAX_PACKET_SIZE = 564000"

definition MPEGTS_FIX_SIZE :: nat where "MPEGTS_FIX_SIZE = 188"

text \<open>The fields of \<open>struct srt_stream\<close> on the packet path; \<open>left_data\<close> is a block of
  \<open>SRT_MAX_PACKET_SIZE\<close> bytes, \<open>None\<close> for NULL. The three flags are set by other threads too; a call
  sees one value of each.\<close>

record srt_stream =
  ss_active :: bool
  ss_stopping :: bool
  ss_disconnected :: bool
  left_data :: "mem option"
  left_size :: nat
  send_error_cnt :: nat
  total_sent_bytes :: nat

record srt_net =
  net_answer :: "nat \<Rightarrow> int"
  net_sent :: "bytes list"

definition mgw_libsrt_write :: "bytes \<Rightarrow> srt_net \<Rightarrow> int \<times> srt_net" where
  "mgw_libsrt_write bs net = (net_answer net (length (net_sent net)), net\<lparr>net_sent := net_sent net @ [bs]\<rparr>)"

section \<open>Sending a buffer\<close>

text \<open>The answers after which the connection is given up.\<close>

definition special :: "int \<Rightarrow> bool" where
  "special ret \<longleftrightarrow> - 5009 = ret \<or> - 2001 = ret \<or> - 5004 = ret \<or> - 17 = ret \<or> (- 90 \<ge> ret \<and> ret \<ge> - 113)"

text \<open>Any other failure is counted, in eight bits; a success adds the payload size to the total.\<close>

definition note_write :: "nat \<Rightarrow> int \<Rightarrow> srt_stream \<Rightarrow> srt_stream" where
  "note_write ps ret s =
     (if ret < 0 then s\<lparr>send_error_cnt := (send_error_cnt s + 1) mod 256\<rparr>
      else s\<lparr>total_sent_bytes := wrap64 (total_sent_bytes s + ps)\<rparr>)"

text \<open>The loop over full payloads; \<open>Inl\<close> is the jump to the error exit. With a payload size of 0 it
  does not end.\<close>

partial_function (option) full_loop ::
  "nat \<Rightarrow> bytes \<Rightarrow> nat \<Rightarrow> nat \<Rightarrow> srt_stream \<Rightarrow> srt_net \<Rightarrow>
   (int \<times> srt_stream \<times> srt_net + nat \<times> nat \<times> srt_stream \<times> srt_net) option" where
  "full_loop ps data seek left s net =
     (if ps < left then Option.bind (read_at data seek ps) (\<lambda>bs.
        (case mgw_libsrt_write bs net of (ret, net') \<Rightarrow>
           if special ret then Some (Inl (ret, s, net'))
           else full_loop ps data (seek + ps) (left - ps) (note_write ps ret s) net'))
      else Some (Inr (seek, left, s, net)))"

text \<open>The rest: whole transport packets are sent, the bytes behind them kept in the block \<open>m\<close>.\<close>

definition keep_left :: "bytes \<Rightarrow> nat \<Rightarrow> nat \<Rightarrow> mem \<Rightarrow> srt_stream \<Rightarrow> srt_stream option" where
  "keep_left data seek ts_left m s =
     (if ts_left > 0
      then Option.bind (read_at data seek ts_left)
             (\<lambda>bs. Some (s\<lparr>left_data := Some (mem_put m 0 bs), left_size := ts_left\<rparr>))
      else Some s)"

definition send_rest ::
  "nat \<Rightarrow> bytes \<Rightarrow> nat \<Rightarrow> nat \<Rightarrow> mem \<Rightarrow> srt_stream \<Rightarrow> srt_net \<Rightarrow>
   (int \<times> srt_stream \<times> srt_net + srt_stream \<times> srt_net) option" where
  "send_rest ps data seek left m s net =
     (let ts_left = left mod MPEGTS_FIX_SIZE;
          full_ts_sizes = (if ts_left \<noteq> 0 then left - ts_left else left) in
      if full_ts_sizes > 0
      then Option.bind (read_at data seek full_ts_sizes) (\<lambda>bs.
        (case mgw_libsrt_write bs net of (ret, net') \<Rightarrow>
           if special ret then Some (Inl (ret, s, net'))
           else Option.bind (keep_left data (seek + full_ts_sizes) ts_left m (note_write ps ret s))
                  (\<lambda>s. Some (Inr (s, net')))))
      else Option.bind (keep_left data seek ts_left m s) (\<lambda>s. Some (Inr (s, net))))"

text \<open>The remaining bytes of the last call and the buffer, as one run of bytes.\<close>

definition join_left :: "bytes \<Rightarrow> mem \<Rightarrow> srt_stream \<Rightarrow> (bytes \<times> mem \<times> srt_stream) option" where
  "join_left buf m s =
     (if left_size s \<noteq> 0 then
        (let room = sub32 SRT_MAX_PACKET_SIZE (left_size s);
             cp_size = (if length buf > room then room else length buf) in
         if left_size s + cp_size > SRT_MAX_PACKET_SIZE then None
         else (let m = mem_put m (left_size s) (take cp_size buf) in
               Some (mem_get m 0 (left_size s + cp_size), m, s\<lparr>left_data := Some m, left_size := 0\<rparr>)))
      else Some (buf, m, s))"

text \<open>\<open>payload_size\<close> is a natural number: a negative one, which only the uri can ask for, is left out.\<close>

definition srt_stream_proc_packet ::
  "nat \<Rightarrow> bytes \<Rightarrow> srt_stream \<Rightarrow> srt_net \<Rightarrow> (int \<times> srt_stream \<times> srt_net) option" where
  "srt_stream_proc_packet payload_size buf s net =
     (case left_data s of
        None \<Rightarrow> Some (- 1, s, net)
      | Some m \<Rightarrow>
          if \<not> ss_active s \<or> ss_stopping s \<or> ss_disconnected s then Some (- 1, s, net)
          else if send_error_cnt s > SRT_ERROR_THRESHOLD
          then Some (0, s\<lparr>send_error_cnt := 0, ss_disconnected := True\<rparr>, net)
          else Option.bind (join_left buf m s) (\<lambda>(data, m, s).
            Option.bind (full_loop payload_size data 0 (length data) s net) (\<lambda>r.
              case r of
                Inl (ret, s, net) \<Rightarrow> Some (ret, s\<lparr>ss_disconnected := True\<rparr>, net)
              | Inr (seek, left, s, net) \<Rightarrow>
                  if left > 0
                  then Option.bind (send_rest payload_size data seek left m s net) (\<lambda>r.
                    case r of
                      Inl (ret, s, net) \<Rightarrow> Some (ret, s\<lparr>ss_disconnected := True\<rparr>, net)
                    | Inr (s, net) \<Rightarrow> Some (int (length buf), s, net))
                  else Some (int (length buf), s, net))))"

text \<open>The muxer hands over one buffer after the other, whatever the answers.\<close>

fun proc_all :: "nat \<Rightarrow> bytes list \<Rightarrow> srt_stream \<Rightarrow> srt_net \<Rightarrow> (int list \<times> srt_stream \<times> srt_net) option" where
  "proc_all ps [] s net = Some ([], s, net)"
| "proc_all ps (b # bs) s net =
     Option.bind (srt_stream_proc_packet ps b s net) (\<lambda>(r, s, net).
       Option.bind (proc_all ps bs s net) (\<lambda>(rs, s, net). Some (r # rs, s, net)))"
section \<open>What is sent\<close>

lemma note_write_frame [simp]:
  "left_data (note_write ps r s) = left_data s" "left_size (note_write ps r s) = left_size s"
  "ss_active (note_write ps r s) = ss_active s" "ss_stopping (note_write ps r s) = ss_stopping s"
  "ss_disconnected (note_write ps r s) = ss_disconnected s"
  by (simp_all add: note_write_def)

lemma note_all_frame [simp]:
  "left_data (fold (note_write ps) rs s) = left_data s" "left_size (fold (note_write ps) rs s) = left_size s"
  "ss_active (fold (note_write ps) rs s) = ss_active s" "ss_stopping (fold (note_write ps) rs s) = ss_stopping s"
  "ss_disconnected (fold (note_write ps) rs s) = ss_disconnected s"
  by (induction rs arbitrary: s) simp_all

lemma note_all_counts:
  "send_error_cnt a = send_error_cnt b \<Longrightarrow> total_sent_bytes a = total_sent_bytes b \<Longrightarrow>
   send_error_cnt (fold (note_write ps) rs a) = send_error_cnt (fold (note_write ps) rs b) \<and>
   total_sent_bytes (fold (note_write ps) rs a) = total_sent_bytes (fold (note_write ps) rs b)"
proof (induction rs arbitrary: a b)
  case (Cons r rs)
  show ?case using Cons.IH [of "note_write ps r a" "note_write ps r b"] Cons.prems by (simp add: note_write_def)
qed simp

text \<open>The net after the writes \<open>cs\<close>, and the answers to them.\<close>

definition wrote :: "bytes list \<Rightarrow> srt_net \<Rightarrow> srt_net" where
  "wrote cs net = net\<lparr>net_sent := net_sent net @ cs\<rparr>"

definition answers :: "bytes list \<Rightarrow> srt_net \<Rightarrow> int list" where
  "answers cs net = map (net_answer net) [length (net_sent net)..<length (net_sent net) + length cs]"

lemma wrote_Nil [simp]: "wrote [] net = net"
  by (simp add: wrote_def)

lemma wrote_append: "wrote ds (wrote cs net) = wrote (cs @ ds) net"
  by (simp add: wrote_def)

lemma answers_Nil [simp]: "answers [] net = []"
  by (simp add: answers_def)

lemma answers_append: "answers (cs @ ds) net = answers cs net @ answers ds (wrote cs net)"
  using upt_add_eq_append [of "length (net_sent net)" "length (net_sent net) + length cs" "length ds"]
  by (simp add: answers_def wrote_def add.assoc)

lemma answers_single: "answers [c] net = [net_answer net (length (net_sent net))]"
  by (simp add: answers_def)

lemma libsrt_write: "mgw_libsrt_write bs net = (net_answer net (length (net_sent net)), wrote [bs] net)"
  by (simp add: mgw_libsrt_write_def wrote_def)

lemma read_at_Some: "p + n \<le> length xs \<Longrightarrow> read_at xs p n = Some (take n (drop p xs))"
  by (simp add: read_at_def)

definition no_special :: "srt_net \<Rightarrow> bool" where
  "no_special net \<longleftrightarrow> (\<forall>k. \<not> special (net_answer net k))"

lemma no_special_wrote [simp]: "no_special (wrote cs net) = no_special net"
  by (simp add: no_special_def wrote_def)

text \<open>The payloads \<open>cs\<close> of the loop: all full, and together the data up to the rest.\<close>

lemma full_loop_sends:
  assumes "0 < ps" and "no_special net" and "seek + left = length data"
  shows "\<exists>cs. full_loop ps data seek left s net =
      Some (Inr (seek + ps * length cs, left - ps * length cs, fold (note_write ps) (answers cs net) s, wrote cs net)) \<and>
    concat cs = take (ps * length cs) (drop seek data) \<and> (\<forall>c \<in> set cs. length c = ps) \<and>
    ps * length cs \<le> left \<and> left - ps * length cs \<le> ps \<and> (0 < left \<longrightarrow> ps * length cs < left)"
  using assms(2,3)
proof (induction left arbitrary: seek s net rule: less_induct)
  case (less left)
  show ?case
  proof (cases "ps < left")
    case False
    then show ?thesis by (intro exI [of _ "[]"]) (subst full_loop.simps, simp)
  next
    case True
    let ?c = "take ps (drop seek data)" and ?r = "net_answer net (length (net_sent net))"
    obtain cs where cs: "full_loop ps data (seek + ps) (left - ps) (note_write ps ?r s) (wrote [?c] net) =
        Some (Inr (seek + ps + ps * length cs, left - ps - ps * length cs,
          fold (note_write ps) (answers cs (wrote [?c] net)) (note_write ps ?r s), wrote cs (wrote [?c] net)))"
      "concat cs = take (ps * length cs) (drop (seek + ps) data)" "\<forall>c \<in> set cs. length c = ps"
      "ps * length cs \<le> left - ps" "left - ps - ps * length cs \<le> ps" "ps * length cs < left - ps"
      using less.IH [of "left - ps" "wrote [?c] net" "seek + ps" "note_write ps ?r s"] less.prems True assms(1) by auto
    have a: "answers (?c # cs) net = ?r # answers cs (wrote [?c] net)"
      using answers_append [of "[?c]" cs net] by (simp add: answers_single)
    have w: "wrote cs (wrote [?c] net) = wrote (?c # cs) net" by (simp add: wrote_append)
    have t: "concat (?c # cs) = take (ps * length (?c # cs)) (drop seek data)"
      using cs(2) by (simp add: take_add add.commute)
    have l: "length ?c = ps" using less.prems True by simp
    have f: "full_loop ps data seek left s net = full_loop ps data (seek + ps) (left - ps) (note_write ps ?r s) (wrote [?c] net)"
      using True less.prems by (subst full_loop.simps) (simp add: read_at_Some libsrt_write no_special_def)
    show ?thesis
      unfolding f cs(1)
      by (rule exI [of _ "?c # cs"]) (use cs(3-6) l t a w True in \<open>auto simp: algebra_simps\<close>)
  qed
qed

text \<open>The bytes kept for the next call.\<close>

definition left_bytes :: "srt_stream \<Rightarrow> bytes" where
  "left_bytes s = (case left_data s of None \<Rightarrow> [] | Some m \<Rightarrow> mem_get m 0 (left_size s))"

definition sendable :: "srt_stream \<Rightarrow> bool" where
  "sendable s \<longleftrightarrow> ss_active s \<and> \<not> ss_stopping s \<and> \<not> ss_disconnected s \<and> left_data s \<noteq> None \<and> left_size s < 188"

lemma send_rest_sends:
  assumes "no_special net" and "seek + left = length data" and "left_size s = 0" and "left_data s = Some m"
  shows "\<exists>cs s'. send_rest ps data seek left m s net = Some (Inr (s', wrote cs net)) \<and>
    concat cs @ left_bytes s' = drop seek data \<and> left_size s' = left mod 188 \<and>
    length cs \<le> 1 \<and> (\<forall>c \<in> set cs. 0 < length c \<and> length c = left - left mod 188) \<and>
    (cs = [] \<longleftrightarrow> left < 188) \<and>
    (let t = fold (note_write ps) (answers cs net) s in
       s' = t\<lparr>left_data := left_data s', left_size := left_size s'\<rparr>) \<and> left_data s' \<noteq> None"
proof -
  let ?k = "left mod 188" and ?n = "left - left mod 188"
  have n: "?n + ?k = left" "?n \<le> left" by simp_all
  have fs: "(if ?k \<noteq> 0 then left - ?k else left) = ?n" by simp
  have rl: "read_at data (seek + ?n) ?k = Some (drop (seek + ?n) data)"
    using assms(2) n by (simp add: read_at_def)
  have dd: "take ?n (drop seek data) @ drop (seek + ?n) data = drop seek data"
    by (metis append_take_drop_id drop_drop add.commute)
  have lk: "length (drop (seek + ?n) data) = ?k" using assms(2) n by simp
  let ?t = "\<lambda>s. if 0 < ?k then s\<lparr>left_data := Some (mem_put m 0 (drop (seek + ?n) data)), left_size := ?k\<rparr> else s"
  have kl: "keep_left data (seek + ?n) ?k m s1 = Some (?t s1)" for s1
    using rl by (simp add: keep_left_def)
  have lb: "left_bytes (?t s1) = drop (seek + ?n) data \<and> left_size (?t s1) = ?k \<and> left_data (?t s1) \<noteq> None"
    if "left_size s1 = 0" "left_data s1 = Some m" for s1
    using that lk by (auto simp: left_bytes_def mem_simps)
  have g: "?n = 0 \<longleftrightarrow> left < 188" by (simp add: minus_mod_eq_div_mult div_eq_0_iff)
  show ?thesis
  proof (cases "0 < ?n")
    case True
    let ?c = "take ?n (drop seek data)"
    have r: "read_at data seek ?n = Some ?c" using assms(2) n by (simp add: read_at_def)
    let ?s1 = "note_write ps (net_answer net (length (net_sent net))) s"
    have e: "send_rest ps data seek left m s net = Some (Inr (?t ?s1, wrote [?c] net))"
      unfolding send_rest_def MPEGTS_FIX_SIZE_def Let_def fs
      using True r kl [of ?s1] assms(1) by (simp add: libsrt_write no_special_def)
    have l: "length ?c = ?n" using assms(2) n by simp
    show ?thesis
      unfolding e using dd l True lb [of ?s1] assms(3,4) g
      by (intro exI [of _ "[?c]"] exI [of _ "?t ?s1"]) (auto simp: answers_single)
  next
    case False
    have e: "send_rest ps data seek left m s net = Some (Inr (?t s, net))"
      unfolding send_rest_def MPEGTS_FIX_SIZE_def Let_def fs using False kl [of s] by simp
    show ?thesis
      unfolding e using dd False lb [of s] assms(3,4) g
      by (intro exI [of _ "[]"] exI [of _ "?t s"]) auto
  qed
qed

lemma join_left_data:
  assumes "sendable s" and "left_data s = Some m" and "length buf \<le> 563000"
  shows "\<exists>m' s'. join_left buf m s = Some (left_bytes s @ buf, m', s') \<and> left_size s' = 0 \<and> left_data s' = Some m' \<and>
    s' = s\<lparr>left_data := left_data s', left_size := 0\<rparr>"
proof (cases "left_size s = 0")
  case True
  then show ?thesis using assms by (simp add: join_left_def left_bytes_def)
next
  case False
  let ?m = "mem_put m (left_size s) buf"
  have "mem_get ?m 0 (left_size s + length buf) = mem_get m 0 (left_size s) @ buf"
    by (simp add: mem_get_append mem_simps)
  moreover have "\<not> 564000 - left_size s < length buf" using assms(1,3) unfolding sendable_def by linarith
  ultimately show ?thesis using assms False
    by (simp add: join_left_def left_bytes_def sendable_def sub32_def SRT_MAX_PACKET_SIZE_def Let_def)
qed

text \<open>One call: the payloads \<open>cs\<close>, cut from what was kept and the buffer.\<close>

definition payloads_of :: "nat \<Rightarrow> bytes list \<Rightarrow> bool" where
  "payloads_of ps cs \<longleftrightarrow> (\<forall>c \<in> set cs. 0 < length c \<and> length c \<le> ps \<and> (188 dvd ps \<longrightarrow> 188 dvd length c))"

lemma payloads_append: "payloads_of ps (cs @ ds) \<longleftrightarrow> payloads_of ps cs \<and> payloads_of ps ds"
  by (auto simp: payloads_of_def)

lemma proc_packet_sends:
  assumes s: "sendable s" "send_error_cnt s \<le> 100" and net: "no_special net" and ps: "0 < ps" and buf: "length buf \<le> 563000"
  shows "\<exists>cs s'. srt_stream_proc_packet ps buf s net = Some (int (length buf), s', wrote cs net) \<and>
    concat cs @ left_bytes s' = left_bytes s @ buf \<and> payloads_of ps cs \<and> sendable s' \<and>
    (188 dvd ps \<longrightarrow> left_size s' = length (left_bytes s @ buf) mod 188) \<and>
    (let t = fold (note_write ps) (answers cs net) s in
       send_error_cnt s' = send_error_cnt t \<and> total_sent_bytes s' = total_sent_bytes t)"
proof -
  obtain m where m: "left_data s = Some m" using s by (auto simp: sendable_def)
  obtain m1 s1 where j: "join_left buf m s = Some (left_bytes s @ buf, m1, s1)" "left_size s1 = 0"
    "left_data s1 = Some m1" "s1 = s\<lparr>left_data := left_data s1, left_size := 0\<rparr>"
    using join_left_data [OF s(1) m buf] by blast
  define data where "data = left_bytes s @ buf"
  obtain cs where cs: "full_loop ps data 0 (length data) s1 net =
      Some (Inr (ps * length cs, length data - ps * length cs, fold (note_write ps) (answers cs net) s1, wrote cs net))"
    "concat cs = take (ps * length cs) data" "\<forall>c \<in> set cs. length c = ps" "ps * length cs \<le> length data"
    "length data - ps * length cs \<le> ps" "0 < length data \<longrightarrow> ps * length cs < length data"
    using full_loop_sends [OF ps net, of 0 "length data" data s1] by auto
  let ?s2 = "fold (note_write ps) (answers cs net) s1" and ?left = "length data - ps * length cs"
  have pc: "payloads_of ps cs" using cs(3) ps by (simp add: payloads_of_def)
  have "send_error_cnt s1 = send_error_cnt s" "total_sent_bytes s1 = total_sent_bytes s" by (subst j(4), simp)+
  note cnt = note_all_counts [OF this]
  show ?thesis
  proof (cases "0 < ?left")
    case True
    obtain ds s3 where ds: "send_rest ps data (ps * length cs) ?left m1 ?s2 (wrote cs net) = Some (Inr (s3, wrote ds (wrote cs net)))"
      "concat ds @ left_bytes s3 = drop (ps * length cs) data" "left_size s3 = ?left mod 188"
      "\<forall>c \<in> set ds. 0 < length c \<and> length c = ?left - ?left mod 188"
      "s3 = (fold (note_write ps) (answers ds (wrote cs net)) ?s2)\<lparr>left_data := left_data s3, left_size := left_size s3\<rparr>"
      "left_data s3 \<noteq> None"
      using send_rest_sends [of "wrote cs net" "ps * length cs" ?left data ?s2 m1 ps] net cs(4) j by (auto simp: Let_def)
    define n where "n = ?left - ?left mod 188"
    have "n \<le> ps" "188 dvd n" using cs(5) dvd_minus_mod [of 188 ?left] by (auto simp: n_def)
    then have "payloads_of ps ds" using ds(4) [folded n_def] by (auto simp: payloads_of_def)
    moreover have "srt_stream_proc_packet ps buf s net = Some (int (length buf), s3, wrote (cs @ ds) net)"
      using s m j(1) cs(1) ds(1) True unfolding srt_stream_proc_packet_def data_def
      by (simp add: sendable_def SRT_ERROR_THRESHOLD_def wrote_append)
    moreover have "concat (cs @ ds) @ left_bytes s3 = data" using cs(2) ds(2) by simp
    moreover have "sendable s3"
    proof -
      have "ss_active s3 = ss_active s1" "ss_stopping s3 = ss_stopping s1" "ss_disconnected s3 = ss_disconnected s1"
        by (subst ds(5), simp)+
      moreover have "ss_active s1 = ss_active s" "ss_stopping s1 = ss_stopping s" "ss_disconnected s1 = ss_disconnected s"
        by (subst j(4), simp)+
      ultimately show ?thesis using s(1) ds(3,6) by (simp add: sendable_def)
    qed
    moreover have "188 dvd ps \<Longrightarrow> left_size s3 = length data mod 188"
    proof -
      assume "188 dvd ps"
      then obtain q where "ps = 188 * q" by auto
      then have "length data = ?left + 188 * (q * length cs)" using cs(4) by (simp add: algebra_simps)
      then have "length data mod 188 = ?left mod 188" by (metis mod_mult_self2)
      then show "left_size s3 = length data mod 188" using ds(3) by simp
    qed
    moreover have "send_error_cnt s3 = send_error_cnt (fold (note_write ps) (answers (cs @ ds) net) s1) \<and>
        total_sent_bytes s3 = total_sent_bytes (fold (note_write ps) (answers (cs @ ds) net) s1)"
      by (subst (1 2) ds(5)) (simp add: answers_append)
    ultimately show ?thesis unfolding data_def [symmetric] using pc cnt by (intro exI) (auto simp: payloads_append)
  next
    case False
    then have "data = []" using cs(6) by auto
    moreover from this have "cs = []" using cs(3,4) ps by auto
    ultimately show ?thesis
      using False s m j cs(1) cnt [where rs = "[]"]
      by (intro exI [of _ cs] exI [of _ s1])
         (auto simp: srt_stream_proc_packet_def data_def sendable_def SRT_ERROR_THRESHOLD_def left_bytes_def payloads_of_def)
  qed
qed

lemma note_all_accepted:
  "\<forall>r \<in> set rs. 0 \<le> r \<Longrightarrow> send_error_cnt (fold (note_write ps) rs s) = send_error_cnt s"
  by (induction rs arbitrary: s) (simp_all add: note_write_def)

lemma answers_set: "set (answers cs net) \<subseteq> range (net_answer net)"
  by (auto simp: answers_def)

lemma special_negative: "special r \<Longrightarrow> r < 0"
  by (auto simp: special_def)

lemma no_special_accepted: "\<forall>k. 0 \<le> net_answer net k \<Longrightarrow> no_special net"
  unfolding no_special_def using special_negative not_le by blast

lemma proc_all_sends:
  assumes "sendable s" and "send_error_cnt s \<le> 100" and "\<forall>k. 0 \<le> net_answer net k" and "0 < ps"
    and "\<forall>b \<in> set bufs. length b \<le> 563000"
  shows "\<exists>cs s'. proc_all ps bufs s net = Some (map (int \<circ> length) bufs, s', wrote cs net) \<and> sendable s' \<and>
    concat cs @ left_bytes s' = left_bytes s @ concat bufs \<and> payloads_of ps cs \<and>
    (188 dvd ps \<longrightarrow> left_size s = length (left_bytes s) mod 188 \<longrightarrow>
       left_size s' = length (left_bytes s @ concat bufs) mod 188)"
  using assms
proof (induction bufs arbitrary: s net)
  case Nil
  then show ?case by (intro exI [of _ "[]"] exI [of _ s]) (simp add: payloads_of_def)
next
  case (Cons b bufs)
  have net: "no_special net" using Cons.prems(3) by (rule no_special_accepted)
  obtain cs s1 where s1: "srt_stream_proc_packet ps b s net = Some (int (length b), s1, wrote cs net)"
    "concat cs @ left_bytes s1 = left_bytes s @ b" "payloads_of ps cs" "sendable s1"
    "188 dvd ps \<longrightarrow> left_size s1 = length (left_bytes s @ b) mod 188"
    "send_error_cnt s1 = send_error_cnt (fold (note_write ps) (answers cs net) s)"
    using proc_packet_sends [OF Cons.prems(1,2) net Cons.prems(4), of b] Cons.prems(5) by (auto simp: Let_def)
  have "send_error_cnt s1 = send_error_cnt s"
    unfolding s1(6) by (rule note_all_accepted) (use answers_set [of cs net] Cons.prems(3) in auto)
  then obtain ds s2 where s2: "proc_all ps bufs s1 (wrote cs net) = Some (map (int \<circ> length) bufs, s2, wrote ds (wrote cs net))"
    "sendable s2" "concat ds @ left_bytes s2 = left_bytes s1 @ concat bufs" "payloads_of ps ds"
    "188 dvd ps \<longrightarrow> left_size s1 = length (left_bytes s1) mod 188 \<longrightarrow> left_size s2 = length (left_bytes s1 @ concat bufs) mod 188"
    using Cons.IH [of s1 "wrote cs net"] Cons.prems s1(4) by (auto simp: wrote_def)
  have l1: "length (left_bytes s1) = left_size s1"
    using s1(4) by (auto simp: sendable_def left_bytes_def)
  have "concat (cs @ ds) @ left_bytes s2 = left_bytes s @ concat (b # bufs)"
    by (simp add: s2(3)) (simp add: s1(2) flip: append_assoc)
  moreover have "left_size s2 = length (left_bytes s @ concat (b # bufs)) mod 188"
    if d: "188 dvd ps"
  proof -
    have "left_size s1 = length (left_bytes s1) mod 188" using l1 s1(4) by (simp add: sendable_def)
    then have "left_size s2 = (left_size s1 + length (concat bufs)) mod 188" using s2(5) d l1 by simp
    also have "\<dots> = (length (left_bytes s @ b) + length (concat bufs)) mod 188"
      using s1(5) d by (simp add: mod_add_left_eq)
    finally show ?thesis by (simp add: add.assoc)
  qed
  ultimately show ?case
    using s1(1,3) s2(1,2,4) by (intro exI [of _ "cs @ ds"] exI [of _ s2]) (auto simp: payloads_append wrote_append)
qed

section \<open>Properties\<close>

definition new_srt_stream :: srt_stream where
  "new_srt_stream = \<lparr>ss_active = True, ss_stopping = False, ss_disconnected = False, left_data = Some (\<lambda>_. 0),
     left_size = 0, send_error_cnt = 0, total_sent_bytes = 0\<rparr>"

definition accepting :: srt_net where
  "accepting = \<lparr>net_answer = (\<lambda>_. 0), net_sent = []\<rparr>"

text \<open>C31: The buffers of the muxer reach libsrt byte for byte, in order and without a gap, whatever
  their sizes: what was written is the concatenation of the buffers but for the bytes kept, which are
  less than a transport packet. Every write has at most the payload size; when that is a multiple of
  188, every write has whole transport packets and the bytes kept are exactly the incomplete one.\<close>

theorem srt_sends_everything:
  assumes "\<forall>k. 0 \<le> net_answer net k" and "net_sent net = []" and "0 < ps" and "\<forall>b \<in> set bufs. length b \<le> 563000"
  shows "\<exists>s net'. proc_all ps bufs new_srt_stream net = Some (map (int \<circ> length) bufs, s, net') \<and>
    concat (net_sent net') @ left_bytes s = concat bufs \<and> length (left_bytes s) < 188 \<and>
    (\<forall>c \<in> set (net_sent net'). 0 < length c \<and> length c \<le> ps) \<and>
    (188 dvd ps \<longrightarrow> (\<forall>c \<in> set (net_sent net'). 188 dvd length c) \<and> length (left_bytes s) = length (concat bufs) mod 188)"
proof -
  have "sendable new_srt_stream" "left_bytes new_srt_stream = []" "left_size new_srt_stream = 0"
    by (simp_all add: sendable_def new_srt_stream_def left_bytes_def)
  moreover obtain cs s where s: "proc_all ps bufs new_srt_stream net = Some (map (int \<circ> length) bufs, s, wrote cs net)"
    "sendable s" "concat cs @ left_bytes s = concat bufs" "payloads_of ps cs"
    "188 dvd ps \<longrightarrow> left_size s = length (concat bufs) mod 188"
    using proc_all_sends [of new_srt_stream, OF _ _ assms(1,3,4)] calculation by (auto simp: new_srt_stream_def)
  moreover have "length (left_bytes s) = left_size s" "left_size s < 188"
    using s(2) by (auto simp: sendable_def left_bytes_def)
  ultimately show ?thesis using assms(2) by (auto simp: wrote_def payloads_of_def)
qed

theorem srt_sends_everything_witness:
  "\<exists>s net'. proc_all 1128 [replicate 300 1, replicate 2000 2] new_srt_stream accepting = Some ([300, 2000], s, net') \<and>
    concat (net_sent net') @ left_bytes s = replicate 300 1 @ replicate 2000 2 \<and> length (left_bytes s) = 44"
  using srt_sends_everything [of accepting 1128 "[replicate 300 1, replicate 2000 2]"]
  by (auto simp: accepting_def)

lemma proc_all_append:
  "proc_all ps (as @ bs) s net = Option.bind (proc_all ps as s net) (\<lambda>(r1, s, net).
     Option.bind (proc_all ps bs s net) (\<lambda>(r2, s, net). Some (r1 @ r2, s, net)))"
proof (induction as arbitrary: s net)
  case Nil
  then show ?case by (cases "proc_all ps bs s net") auto
next
  case (Cons a as)
  then show ?case by (auto split: Option.bind_split)
qed

lemma refuses_when_disconnected:
  "ss_disconnected s \<Longrightarrow> left_data s \<noteq> None \<Longrightarrow> proc_all ps bufs s net = Some (replicate (length bufs) (- 1), s, net)"
  by (induction bufs) (auto simp: srt_stream_proc_packet_def)

definition one_write :: "nat \<Rightarrow> bytes \<Rightarrow> bool" where
  "one_write ps b \<longleftrightarrow> 0 < length b \<and> length b \<le> ps \<and> 188 dvd length b"

lemma proc_one_write:
  assumes "sendable s" and "left_size s = 0" and "send_error_cnt s \<le> 100" and "no_special net" and "one_write ps b"
  shows "srt_stream_proc_packet ps b s net =
    Some (int (length b), note_write ps (net_answer net (length (net_sent net))) s, wrote [b] net)"
proof -
  obtain m where m: "left_data s = Some m" using assms(1) by (auto simp: sendable_def)
  have "full_loop ps b 0 (length b) s net = Some (Inr (0, length b, s, net))"
    using assms(5) by (subst full_loop.simps) (simp add: one_write_def)
  moreover have "send_rest ps b 0 (length b) m s net =
      Some (Inr (note_write ps (net_answer net (length (net_sent net))) s, wrote [b] net))"
    using assms(4,5)
    by (simp add: send_rest_def one_write_def MPEGTS_FIX_SIZE_def read_at_def libsrt_write no_special_def keep_left_def)
  ultimately show ?thesis
    using assms m by (simp add: srt_stream_proc_packet_def sendable_def join_left_def SRT_ERROR_THRESHOLD_def one_write_def)
qed

lemma proc_failing:
  assumes "\<forall>k. net_answer net k < 0 \<and> \<not> special (net_answer net k)" and "\<forall>b \<in> set bufs. one_write ps b"
    and "sendable s" and "left_size s = 0" and "send_error_cnt s + length bufs \<le> 101"
  shows "proc_all ps bufs s net =
    Some (map (int \<circ> length) bufs, s\<lparr>send_error_cnt := send_error_cnt s + length bufs\<rparr>, wrote bufs net)"
  using assms
proof (induction bufs arbitrary: s net)
  case (Cons b bufs)
  let ?s = "s\<lparr>send_error_cnt := send_error_cnt s + 1\<rparr>"
  have n: "note_write ps (net_answer net k) s = ?s" for k
    using Cons.prems(1,5) by (simp add: note_write_def)
  have "srt_stream_proc_packet ps b s net = Some (int (length b), ?s, wrote [b] net)"
    using proc_one_write [of s net ps b] Cons.prems n by (simp add: no_special_def)
  moreover have "proc_all ps bufs ?s (wrote [b] net) = Some (map (int \<circ> length) bufs,
      ?s\<lparr>send_error_cnt := send_error_cnt ?s + length bufs\<rparr>, wrote bufs (wrote [b] net))"
    by (rule Cons.IH) (use Cons.prems in \<open>auto simp: wrote_def sendable_def\<close>)
  ultimately show ?case by (simp add: wrote_append)
qed simp

text \<open>C32: When libsrt fails every write with an error that is not one of the special ones, the code
  goes on as if nothing had happened: 101 buffers of one payload each are reported as taken. The next
  buffer is answered with 0, nothing is written any more, the stream is disconnected, and every
  further buffer is refused with -1.\<close>

theorem srt_failing_writes_end:
  assumes "\<forall>k. net_answer net k < 0 \<and> \<not> special (net_answer net k)" and "\<forall>b \<in> set bufs. one_write ps b"
    and "length bufs = 101"
  shows "\<exists>s'. proc_all ps (bufs @ b # rest) new_srt_stream net =
      Some (map (int \<circ> length) bufs @ 0 # replicate (length rest) (- 1), s', wrote bufs net) \<and> ss_disconnected s'"
proof -
  let ?s = "new_srt_stream\<lparr>send_error_cnt := 101\<rparr>"
  have f: "proc_all ps bufs new_srt_stream net = Some (map (int \<circ> length) bufs, ?s, wrote bufs net)"
    using proc_failing [OF assms(1,2), of new_srt_stream] assms(3) by (simp add: new_srt_stream_def sendable_def)
  have "srt_stream_proc_packet ps b ?s n = Some (0, ?s\<lparr>send_error_cnt := 0, ss_disconnected := True\<rparr>, n)" for n
    by (simp add: srt_stream_proc_packet_def new_srt_stream_def SRT_ERROR_THRESHOLD_def)
  moreover have d: "left_data new_srt_stream = Some (\<lambda>_. 0)" by (simp add: new_srt_stream_def)
  ultimately show ?thesis
    using refuses_when_disconnected [of "?s\<lparr>send_error_cnt := 0, ss_disconnected := True\<rparr>" ps rest] d
    by (simp add: proc_all_append f)
qed

theorem srt_failing_writes_end_witness:
  "\<exists>s'. proc_all 1128 (replicate 101 (replicate 188 0) @ [[1], [2]]) new_srt_stream \<lparr>net_answer = (\<lambda>_. - 1), net_sent = []\<rparr> =
      Some (replicate 101 188 @ [0, - 1], s', \<lparr>net_answer = (\<lambda>_. - 1), net_sent = replicate 101 (replicate 188 0)\<rparr>) \<and> ss_disconnected s'"
  using srt_failing_writes_end [of "\<lparr>net_answer = (\<lambda>_. - 1), net_sent = []\<rparr>" "replicate 101 (replicate 188 0)" 1128 "[1]" "[[2]]"]
  by (simp add: special_def one_write_def wrote_def)

text \<open>An answer among the special ones ends the connection at once: the call returns it, the rest
  of the buffer is not sent, what was kept is thrown away, and all further buffers are refused.\<close>

theorem srt_special_answer_ends:
  assumes "sendable s" and "send_error_cnt s \<le> 100" and "0 < ps" and "length buf \<le> 563000"
    and "188 \<le> length (left_bytes s @ buf)" and "special (net_answer net (length (net_sent net)))"
  shows "\<exists>c s'. proc_all ps (buf # rest) s net =
      Some (net_answer net (length (net_sent net)) # replicate (length rest) (- 1), s', wrote [c] net) \<and>
    c = take (length c) (left_bytes s @ buf) \<and> left_bytes s' = []"
proof -
  define data where "data = left_bytes s @ buf"
  obtain m where m: "left_data s = Some m" using assms(1) by (auto simp: sendable_def)
  obtain m1 s1 where j: "join_left buf m s = Some (data, m1, s1)" "left_size s1 = 0" "left_data s1 = Some m1"
    using join_left_data [OF assms(1) m assms(4)] by (auto simp: data_def)
  let ?r = "net_answer net (length (net_sent net))" and ?s = "s1\<lparr>ss_disconnected := True\<rparr>"
  have "\<exists>c. srt_stream_proc_packet ps buf s net = Some (?r, ?s, wrote [c] net) \<and> c = take (length c) data"
  proof (cases "ps < length data")
    case True
    have "full_loop ps data 0 (length data) s1 net = Some (Inl (?r, s1, wrote [take ps data] net))"
      using True assms(6) by (subst full_loop.simps) (simp add: read_at_def libsrt_write)
    then show ?thesis
      using assms(1,2) m j(1) True
      by (intro exI [of _ "take ps data"]) (simp add: srt_stream_proc_packet_def sendable_def SRT_ERROR_THRESHOLD_def)
  next
    case False
    let ?n = "length data - length data mod 188"
    have n: "0 < ?n" using assms(5) mod_less_divisor [of 188 "length data"] unfolding data_def by linarith
    have fs: "(if length data mod 188 \<noteq> 0 then length data - length data mod 188 else length data) = ?n" by simp
    have "send_rest ps data 0 (length data) m1 s1 net = Some (Inl (?r, s1, wrote [take ?n data] net))"
      unfolding send_rest_def MPEGTS_FIX_SIZE_def Let_def fs using n assms(6) by (simp add: read_at_def libsrt_write)
    moreover have "full_loop ps data 0 (length data) s1 net = Some (Inr (0, length data, s1, net))"
      using False by (subst full_loop.simps) simp
    ultimately show ?thesis
      using assms(1,2) m j(1) n
      by (intro exI [of _ "take ?n data"]) (auto simp: srt_stream_proc_packet_def sendable_def SRT_ERROR_THRESHOLD_def)
  qed
  then show ?thesis
    using refuses_when_disconnected [of ?s ps rest] j(2,3) by (auto simp: left_bytes_def data_def)
qed

theorem srt_special_answer_ends_witness:
  "\<exists>c s'. proc_all 1128 [replicate 2000 7, [1]] new_srt_stream \<lparr>net_answer = (\<lambda>_. - 110), net_sent = []\<rparr> =
      Some ([- 110, - 1], s', \<lparr>net_answer = (\<lambda>_. - 110), net_sent = [c]\<rparr>) \<and> left_bytes s' = []"
  using srt_special_answer_ends [of new_srt_stream 1128 "replicate 2000 7" "\<lparr>net_answer = (\<lambda>_. - 110), net_sent = []\<rparr>" "[[1]]"]
  by (auto simp: new_srt_stream_def sendable_def left_bytes_def special_def wrote_def)

lemma proc_accepted:
  assumes "\<forall>k. 0 \<le> net_answer net k" and "\<forall>b \<in> set bufs. one_write ps b"
    and "sendable s" and "left_size s = 0" and "send_error_cnt s \<le> 100"
  shows "proc_all ps bufs s net = Some (map (int \<circ> length) bufs,
    (if bufs = [] then s else s\<lparr>total_sent_bytes := wrap64 (total_sent_bytes s + ps * length bufs)\<rparr>), wrote bufs net)"
  using assms
proof (induction bufs arbitrary: s net)
  case (Cons b bufs)
  let ?s = "s\<lparr>total_sent_bytes := wrap64 (total_sent_bytes s + ps)\<rparr>"
  have n: "note_write ps (net_answer net k) s = ?s" for k
    using spec [OF Cons.prems(1), of k] by (simp add: note_write_def)
  have "srt_stream_proc_packet ps b s net = Some (int (length b), ?s, wrote [b] net)"
    using proc_one_write [of s net ps b] Cons.prems n no_special_accepted [of net] by simp
  moreover have "proc_all ps bufs ?s (wrote [b] net) = Some (map (int \<circ> length) bufs,
      (if bufs = [] then ?s else ?s\<lparr>total_sent_bytes := wrap64 (total_sent_bytes ?s + ps * length bufs)\<rparr>),
      wrote bufs (wrote [b] net))"
    by (rule Cons.IH) (use Cons.prems in \<open>auto simp: wrote_def sendable_def\<close>)
  ultimately show ?case by (auto simp: wrote_append wrap64_def mod_add_left_eq add.assoc)
qed simp

text \<open>The total that \<open>get_total_bytes\<close> reports grows by the payload size with every write, though
  the last write of a buffer is shorter: buffers of one transport packet each are reported as six
  times their size with the default payload of 1128 bytes.\<close>

theorem srt_total_overcounts:
  assumes "\<forall>k. 0 \<le> net_answer net k" and "net_sent net = []" and "\<forall>b \<in> set bufs. length b = 188" and "188 \<le> ps"
    and "ps * length bufs < 18446744073709551616"
  shows "\<exists>s net'. proc_all ps bufs new_srt_stream net = Some (map (int \<circ> length) bufs, s, net') \<and>
    total_sent_bytes s = ps * length bufs \<and> length (concat (net_sent net')) = 188 * length bufs"
proof -
  have "proc_all ps bufs new_srt_stream net = Some (map (int \<circ> length) bufs, (if bufs = [] then new_srt_stream
      else new_srt_stream\<lparr>total_sent_bytes := wrap64 (total_sent_bytes new_srt_stream + ps * length bufs)\<rparr>), wrote bufs net)"
    by (rule proc_accepted) (use assms in \<open>auto simp: one_write_def new_srt_stream_def sendable_def\<close>)
  moreover have "length (concat bufs) = 188 * length bufs" using assms(3) by (induction bufs) auto
  ultimately show ?thesis using assms(2,5) by (auto simp: wrote_def new_srt_stream_def wrap_simps)
qed

theorem srt_total_overcounts_witness:
  "\<exists>s net'. proc_all 1128 [replicate 188 0] new_srt_stream accepting = Some ([188], s, net') \<and>
    total_sent_bytes s = 1128 \<and> length (concat (net_sent net')) = 188"
  using srt_total_overcounts [of accepting "[replicate 188 0]" 1128] by (simp add: accepting_def)

lemma full_loop_zero:
  "full_loop ps data seek left s net = Some r \<Longrightarrow> ps = 0 \<longrightarrow> 0 < left \<longrightarrow> no_special net \<longrightarrow> False"
proof (rule full_loop.raw_induct [where P = "\<lambda>ps data seek left s net r. ps = 0 \<longrightarrow> 0 < left \<longrightarrow> no_special net \<longrightarrow> False"])
  fix loop :: "nat \<Rightarrow> bytes \<Rightarrow> nat \<Rightarrow> nat \<Rightarrow> srt_stream \<Rightarrow> srt_net \<Rightarrow>
      (int \<times> srt_stream \<times> srt_net + nat \<times> nat \<times> srt_stream \<times> srt_net) option"
    and ps data seek left s net r
  assume IH: "\<And>ps data seek left s net r. loop ps data seek left s net = Some r \<Longrightarrow>
      ps = 0 \<longrightarrow> 0 < left \<longrightarrow> no_special net \<longrightarrow> False"
    and eq: "(if ps < left then Option.bind (read_at data seek ps) (\<lambda>bs.
        (case mgw_libsrt_write bs net of (ret, net') \<Rightarrow>
           if special ret then Some (Inl (ret, s, net'))
           else loop ps data (seek + ps) (left - ps) (note_write ps ret s) net'))
      else Some (Inr (seek, left, s, net))) = Some r"
  show "ps = 0 \<longrightarrow> 0 < left \<longrightarrow> no_special net \<longrightarrow> False"
  proof (intro impI)
    assume h: "ps = 0" "0 < left" "no_special net"
    then obtain bs where "read_at data seek 0 = Some bs" using eq by (auto simp: bind_Some_iff)
    then have "loop 0 data seek left (note_write 0 (net_answer net (length (net_sent net))) s) (wrote [bs] net) = Some r"
      using eq h by (simp add: libsrt_write no_special_def)
    then show False using IH h by fastforce
  qed
qed

text \<open>A payload size of 0, which the uri can ask for, makes the call for any buffer run for ever, unless
  libsrt fails with a special error.\<close>

theorem srt_zero_payload_hangs:
  assumes "sendable s" and "send_error_cnt s \<le> 100" and "no_special net" and "buf \<noteq> []" and "length buf \<le> 563000"
  shows "srt_stream_proc_packet 0 buf s net = None"
proof -
  obtain m where m: "left_data s = Some m" using assms(1) by (auto simp: sendable_def)
  obtain m1 s1 where j: "join_left buf m s = Some (left_bytes s @ buf, m1, s1)"
    using join_left_data [OF assms(1) m assms(5)] by auto
  have "full_loop 0 (left_bytes s @ buf) 0 (length (left_bytes s @ buf)) s1 net = None"
  proof (rule ccontr)
    assume "\<not> ?thesis"
    then show False using full_loop_zero [of 0 "left_bytes s @ buf" 0 _ s1 net] assms(3,4) by auto
  qed
  then show ?thesis
    using assms(1,2) m j by (simp add: srt_stream_proc_packet_def sendable_def SRT_ERROR_THRESHOLD_def)
qed

theorem srt_zero_payload_hangs_witness: "srt_stream_proc_packet 0 [1] new_srt_stream accepting = None"
  using srt_zero_payload_hangs [of new_srt_stream accepting "[1]"]
  by (simp add: sendable_def new_srt_stream_def accepting_def no_special_def special_def)

end
