(* ===== verification/RtmpSend.thy ===== *)
theory RtmpSend
  imports FlvMux AvcNal AacHeader
begin

text \<open>
  The packet path of src/plugins/outputs/rtmp-stream.c: the send thread takes frames from the ring,
  puts the headers of the source in front, turns ADTS into raw AAC and start codes into length
  prefixes, and writes FLV tags with librtmp. The network is an argument: what is pending, what a
  receive answers and what a write answers, each by its number. The header blocks are a heap, since
  the code frees blocks that belong to the source.
\<close>

section \<open>State\<close>

record rtmp_stream =
  sent_headers :: bool
  start_dts_offset :: nat
  last_dts :: int
  total_bytes_sent :: nat
  sent_frames :: nat
  blocks :: "nat \<Rightarrow> bytes option"
  next_block :: nat
  net_pending :: "nat \<Rightarrow> int"
  net_polls :: nat
  net_recv :: "nat \<Rightarrow> int"
  net_recvs :: nat
  net_write :: "nat \<Rightarrow> int"
  net_written :: "bytes list"

definition MGW_AVCC_HEADER_SIZE :: nat where "MGW_AVCC_HEADER_SIZE = 4"

text \<open>What the source answers through its handlers: whether it has them, two values of its settings,
  and its headers. A plugin hands out copies of its extra data (audio, video); a private source hands
  out its own blocks, each an address and a length.\<close>

datatype header_owner =
    Plugin bytes bytes
  | Private "nat option" nat "nat option" nat

record rtmp_source =
  src_handlers :: bool
  src_channels :: int
  src_samplesize :: int
  src_headers :: header_owner

section \<open>Integers of 64 bits\<close>

definition c_div :: "int \<Rightarrow> int \<Rightarrow> int" where
  "c_div a b = (if 0 \<le> a then a div b else - ((- a) div b))"

definition to_u64 :: "int \<Rightarrow> nat" where
  "to_u64 i = nat (i mod 2 ^ 64)"

definition s64 :: "nat \<Rightarrow> int" where
  "s64 n = (let m = n mod 2 ^ 64 in if m < 2 ^ 63 then int m else int m - 2 ^ 64)"

section \<open>Writing one packet\<close>

text \<open>\<open>discard_recv_data\<close> asks for what is pending in pieces of 512 bytes. The answer is kept in an
  unsigned variable, so that only 0 is taken for an error. The result has the number of receives.\<close>

function discard :: "(nat \<Rightarrow> int) \<Rightarrow> nat \<Rightarrow> nat \<Rightarrow> bool \<times> nat" where
  "discard recv k sz =
     (let bytes = (if sz > 512 then 512 else sz) in
      if recv k = 0 then (False, k + 1)
      else if sz - bytes > 0 then discard recv (k + 1) (sz - bytes)
      else (True, k + 1))"
  by pat_completeness auto
termination by (relation "measure (\<lambda>(recv, k, sz). sz)") auto

declare discard.simps [simp del]

definition discard_recv_data :: "nat \<Rightarrow> rtmp_stream \<Rightarrow> bool \<times> rtmp_stream" where
  "discard_recv_data sz s =
     (case discard (net_recv s) (net_recvs s) sz of (ok, k) \<Rightarrow> (ok, s\<lparr>net_recvs := k\<rparr>))"

definition drain :: "rtmp_stream \<Rightarrow> bool \<times> rtmp_stream" where
  "drain s =
     (let n = net_pending s (net_polls s); s = s\<lparr>net_polls := net_polls s + 1\<rparr> in
      if n > 0 then discard_recv_data (nat n) s else (True, s))"

definition RTMP_Write :: "bytes \<Rightarrow> rtmp_stream \<Rightarrow> int \<times> rtmp_stream" where
  "RTMP_Write bs s = (net_write s (length (net_written s)), s\<lparr>net_written := net_written s @ [bs]\<rparr>)"

definition send_packet_internal :: "rtmp_stream \<Rightarrow> encoder_packet \<Rightarrow> bool \<Rightarrow> (bool \<times> rtmp_stream) option" where
  "send_packet_internal s p is_header =
     (let tick = to_u64 (c_div (pk_pts p) 1000) in
      if start_dts_offset s = 0 \<and> \<not> is_header \<and> pk_type p \<noteq> ENCODER_VIDEO then Some (True, s)
      else
        (let s = (if start_dts_offset s = 0 \<and> \<not> is_header then s\<lparr>start_dts_offset := tick\<rparr> else s) in
         case drain s of (ok, s) \<Rightarrow>
           if \<not> ok then Some (False, s)
           else
             (let t = s64 (sub64 tick (start_dts_offset s)) in
              Option.bind (flv_packet_mux (p\<lparr>pk_pts := t, pk_dts := t\<rparr>) is_header) (\<lambda>data.
                case RTMP_Write data s of (r, s) \<Rightarrow>
                  Some (0 < r, s\<lparr>last_dts := t, total_bytes_sent := wrap64 (total_bytes_sent s + length data)\<rparr>)))))"

section \<open>Headers\<close>

text \<open>The block, its length and the state: a plugin's copy is new.\<close>

definition get_header :: "encoder_type \<Rightarrow> rtmp_source \<Rightarrow> rtmp_stream \<Rightarrow> nat option \<times> nat \<times> rtmp_stream" where
  "get_header ty src s =
     (case src_headers src of
        Plugin a v \<Rightarrow>
          (let bs = (if ty = ENCODER_VIDEO then v else a) in
           (Some (next_block s), length bs,
            s\<lparr>blocks := (blocks s)(next_block s \<mapsto> bs), next_block := next_block s + 1\<rparr>))
      | Private a an v vn \<Rightarrow> (if ty = ENCODER_VIDEO then (v, vn, s) else (a, an, s)))"

definition block_at :: "nat option \<Rightarrow> nat \<Rightarrow> rtmp_stream \<Rightarrow> bytes option" where
  "block_at a n s =
     (case a of
        None \<Rightarrow> if n = 0 then Some [] else None
      | Some b \<Rightarrow> Option.bind (blocks s b) (\<lambda>bs. if n \<le> length bs then Some (take n bs) else None))"

definition header_free :: "nat option \<Rightarrow> rtmp_stream \<Rightarrow> rtmp_stream option" where
  "header_free a s =
     (case a of
        None \<Rightarrow> Some s
      | Some b \<Rightarrow> if blocks s b = None then None else Some (s\<lparr>blocks := (blocks s)(b := None)\<rparr>))"

definition audio_byte :: "rtmp_source \<Rightarrow> byte" where
  "audio_byte src =
     (let h = 0xaf;
          h = (if src_samplesize src = 8 then h AND 0xfd else h) in
      if src_channels src = 1 then h AND 0xfe else h)"

text \<open>The audio header is put together in eight bytes on the stack: more than six bytes of the source
  do not fit. The packet owns a copy; the block of the source is freed.\<close>

definition send_audio_header :: "rtmp_source \<Rightarrow> int \<Rightarrow> rtmp_stream \<Rightarrow> (bool \<times> rtmp_stream) option" where
  "send_audio_header src ts s =
     (if \<not> src_handlers src then Some (False, s)
      else
        (case get_header ENCODER_AUDIO src s of (a, n, s) \<Rightarrow>
           if n > 6 then None
           else Option.bind (block_at a n s) (\<lambda>bs. Option.bind (header_free a s) (\<lambda>s.
             send_packet_internal s \<lparr>pk_data = Some ([audio_byte src, 0] @ bs), pk_size = n + 2, pk_pts = ts, pk_dts = ts,
               pk_type = ENCODER_AUDIO, pk_keyframe = False, pk_priority = 0\<rparr> True))))"

text \<open>The video header is the block of the source itself, freed when the packet was sent.\<close>

definition send_video_header :: "rtmp_source \<Rightarrow> int \<Rightarrow> rtmp_stream \<Rightarrow> (bool \<times> rtmp_stream) option" where
  "send_video_header src ts s =
     (if \<not> src_handlers src then Some (False, s)
      else
        (case get_header ENCODER_VIDEO src s of (a, n, s) \<Rightarrow>
           Option.bind (block_at a n s) (\<lambda>bs.
           Option.bind (send_packet_internal s \<lparr>pk_data = map_option (\<lambda>_. bs) a, pk_size = n, pk_pts = ts, pk_dts = ts,
               pk_type = ENCODER_VIDEO, pk_keyframe = True, pk_priority = 0\<rparr> True) (\<lambda>(ok, s).
           Option.bind (header_free a s) (\<lambda>s. Some (ok, s))))))"

definition send_headers :: "rtmp_source \<Rightarrow> int \<Rightarrow> rtmp_stream \<Rightarrow> (bool \<times> rtmp_stream) option" where
  "send_headers src ts s =
     Option.bind (send_audio_header src ts (s\<lparr>sent_headers := True\<rparr>)) (\<lambda>(ok, s).
       if ok then send_video_header src ts s else Some (False, s))"

text \<open>The metadata tag; \<open>amf\<close> is the AMF body, which librtmp encodes from the settings.\<close>

definition send_meta_data :: "rtmp_source \<Rightarrow> bytes option \<Rightarrow> rtmp_stream \<Rightarrow> (bool \<times> rtmp_stream) option" where
  "send_meta_data src amf s =
     (if \<not> src_handlers src then Some (False, s)
      else
        (case amf of
           None \<Rightarrow> Some (False, s)
         | Some m \<Rightarrow> Option.bind (flv_meta_data m False) (\<lambda>data.
             case RTMP_Write data s of (r, s) \<Rightarrow> Some (0 \<le> r, s))))"

section \<open>Frames\<close>

text \<open>A frame is the content \<open>fb\<close> of the frame buffer, with the data from \<open>MGW_AVCC_HEADER_SIZE\<close> on, and
  the packet. This sends \<open>n\<close> bytes of the buffer from \<open>off\<close> on.\<close>

definition send_at :: "bytes \<Rightarrow> nat \<Rightarrow> nat \<Rightarrow> encoder_packet \<Rightarrow> rtmp_stream \<Rightarrow> (bool \<times> rtmp_stream) option" where
  "send_at fb off n p s = send_packet_internal s (p\<lparr>pk_data := Some (drop off fb), pk_size := n\<rparr>) False"

definition send_key_frame :: "bytes \<Rightarrow> encoder_packet \<Rightarrow> rtmp_stream \<Rightarrow> (bool \<times> rtmp_stream) option" where
  "send_key_frame fb p s =
     (let off = MGW_AVCC_HEADER_SIZE in
      Option.bind (mgw_avc_get_keyframe (Some (drop off fb)) (pk_size p)) (\<lambda>(sz, nal).
        if sz = 0 then Some (True, s)
        else Option.bind nal (\<lambda>n.
          Option.bind (put_be32 fb (off + n - 4) (of_nat sz)) (\<lambda>fb. send_at fb (off + n - 4) (sz + 4) p s))))"

definition send_packet :: "bytes \<Rightarrow> encoder_packet \<Rightarrow> rtmp_stream \<Rightarrow> (bool \<times> rtmp_stream) option" where
  "send_packet fb p s =
     (let off = MGW_AVCC_HEADER_SIZE in
      case pk_type p of
        ENCODER_AUDIO \<Rightarrow> do {
          b1 \<leftarrow> rd fb (off + 1);
          if b1 AND 1 = 0 then do {
            b3 \<leftarrow> rd fb (off + 3);
            b4 \<leftarrow> rd fb (off + 4);
            b5 \<leftarrow> rd fb (off + 5);
            let packet_len = unat (b3 AND 3) * 2048 + unat b4 * 8 + unat (b5 AND 0xe0) div 32;
            (if pk_size p = packet_len then send_at fb (off + 9) (sub64 (pk_size p) 9) p s
             else send_at fb off (pk_size p) p s) }
          else send_at fb (off + 7) (sub64 (pk_size p) 7) p s }
      | ENCODER_VIDEO \<Rightarrow> do {
          sc \<leftarrow> mgw_avc_get_startcode_len (Some fb) off;
          if sc = 3 then do {
            fb \<leftarrow> put_be32 fb (off - 1) (of_nat (pk_size p) - 3);
            send_at fb (off - 1) (pk_size p + 1) p s }
          else if sc = 4 then do {
            fb \<leftarrow> put_be32 fb off (of_nat (pk_size p) - 4);
            send_at fb off (pk_size p) p s }
          else Some (True, s) })"

text \<open>The send thread, on the frames it receives; waiting between them is left out. The answer is
  whether the connection was lost.\<close>

fun send_frames :: "rtmp_source \<Rightarrow> (bytes \<times> encoder_packet) list \<Rightarrow> rtmp_stream \<Rightarrow> (bool \<times> rtmp_stream) option" where
  "send_frames src [] s = Some (False, s)"
| "send_frames src ((fb, p) # fs) s =
     Option.bind
       (if \<not> sent_headers s \<or> FRAME_PRIORITY_LOW = pk_priority p \<and> pk_keyframe p \<and> pk_type p = ENCODER_VIDEO
        then send_headers src (if sent_headers s then pk_pts p else 0) s
        else Some (True, s)) (\<lambda>(ok, s).
       if \<not> ok then Some (True, s)
       else Option.bind
         (if pk_keyframe p \<and> pk_type p = ENCODER_VIDEO then send_key_frame fb p s else send_packet fb p s) (\<lambda>(ok, s).
           if \<not> ok then Some (True, s)
           else send_frames src fs (s\<lparr>sent_frames := sent_frames s + 1\<rparr>)))"

text \<open>The thread forgets that the headers were sent, and stopping the output resets the times.\<close>

definition send_thread :: "rtmp_source \<Rightarrow> (bytes \<times> encoder_packet) list \<Rightarrow> rtmp_stream \<Rightarrow> (bool \<times> rtmp_stream) option" where
  "send_thread src fs s = Option.bind (send_frames src fs s) (\<lambda>(lost, s). Some (lost, s\<lparr>sent_headers := False\<rparr>))"

definition stop_reset :: "rtmp_stream \<Rightarrow> rtmp_stream" where
  "stop_reset s = s\<lparr>last_dts := 0, start_dts_offset := 0\<rparr>"

section \<open>The url\<close>

text \<open>\<open>get_stream_code\<close> searches back from the end for a slash, and cuts the url there. Without one it
  reads in front of the string.\<close>

definition get_stream_code :: "string \<Rightarrow> (string \<times> string) option" where
  "get_stream_code url =
     (if CHR ''/'' \<in> set url
      then Some (rev (tl (dropWhile (\<lambda>c. c \<noteq> CHR ''/'') (rev url))), rev (takeWhile (\<lambda>c. c \<noteq> CHR ''/'') (rev url)))
      else None)"
section \<open>The first key unit of a frame\<close>

definition units :: "bytes list \<Rightarrow> bytes" where
  "units us = concat (map (\<lambda>u. start_code True @ u) us)"

definition key_unit :: "bytes \<Rightarrow> bool" where
  "key_unit n \<longleftrightarrow> n \<noteq> [] \<and> nal_type n = 5"

lemma length_start_code [simp]: "length (start_code l) = (if l then 4 else 3)"
  by (simp add: start_code_def)

lemma startcode_len_at:
  "xs = pre @ start_code True @ post \<Longrightarrow> mgw_avc_get_startcode_len (Some xs) (length pre) = Some 4"
  by (simp add: mgw_avc_get_startcode_len_def start_code_def rd_def nth_append)

lemma get_nal_loop_skip:
  assumes "good_nal u" and "xs = pre @ u @ start_code True @ post" and "k < length u" and "i + k \<le> check"
  shows "get_nal_loop xs sz check ty i (length pre) None = get_nal_loop xs sz check ty (i + k) (length pre + k) None"
  using assms(3,4)
proof (induction k)
  case (Suc k)
  have "mgw_avc_get_startcode_len (Some xs) (length pre + k + 1) = Some (- 1)"
    by (rule startcode_len_inside [OF assms(1,2)]) (use Suc.prems in simp_all)
  then have "get_nal_loop xs sz check ty (i + k) (length pre + k) None = get_nal_loop xs sz check ty (i + k + 1) (length pre + k + 1) None"
    using Suc.prems by (subst get_nal_loop.simps) simp
  then show ?case using Suc by simp
qed simp

lemma get_nal_loop_next:
  assumes "good_nal u" and xs: "xs = pre @ u @ start_code True @ v @ post" and "v \<noteq> []" and "i \<le> length pre" and "length xs - length post \<le> check"
  shows "get_nal_loop xs sz check 5 i (length pre) None =
    (if nal_type v = 5
     then Some (sub64 sz (length pre + length u + 4), Some (length pre + length u + 4))
     else get_nal_loop xs sz check 5 (i + length u) (length pre + length u + 4) None)"
proof -
  obtain d where d: "length u = Suc d" using assms(1) by (cases u) (auto simp: good_nal_def)
  have l: "length xs = length pre + d + 5 + length v + length post" by (simp add: xs d)
  have v: "0 < length v" using assms(3) by simp
  have "get_nal_loop xs sz check 5 i (length pre) None = get_nal_loop xs sz check 5 (i + d) (length pre + d) None"
    by (rule get_nal_loop_skip [OF assms(1), of xs pre "v @ post"]) (use xs d assms(4,5) l in simp_all)
  moreover have "mgw_avc_get_startcode_len (Some xs) (length pre + d + 1) = Some 4"
    using startcode_len_at [of xs "pre @ u" "v @ post"] by (simp add: xs d)
  moreover have "rd xs (length pre + d + 1 + 4) = Some (v ! 0)"
  proof -
    have p: "length pre + d + 1 + 4 = length (pre @ u @ start_code True) + 0" by (simp add: d)
    have "xs = (pre @ u @ start_code True) @ v @ post" by (simp add: xs)
    then have "xs ! (length pre + d + 1 + 4) = (v @ post) ! 0" unfolding p using nth_append_length_plus by metis
    moreover have "(v @ post) ! 0 = v ! 0" "length pre + d + 1 + 4 < length xs" using v l by (simp_all add: nth_append)
    ultimately show ?thesis by (simp only: rd_def if_True)
  qed
  moreover have "i + d < check" using assms(4,5) l v by linarith
  ultimately show ?thesis
    using assms(3) by (subst (asm) (2) get_nal_loop.simps) (simp add: nal_type_def hd_conv_nth d add.commute)
qed

lemma get_keyframe_loop:
  assumes "good_nal u" and "\<forall>v \<in> set us. good_nal v \<and> nal_type v \<noteq> 5" and "key_unit n"
    and "xs = pre @ u @ units us @ start_code True @ n @ stale" and "i \<le> length pre"
    and "sz = length xs - length stale" and "length xs < 2 ^ 64"
  shows "get_nal_loop xs sz sz 5 i (length pre) None = Some (length n, Some (sz - length n))"
  using assms(1,2,4,5)
proof (induction us arbitrary: u pre i)
  case Nil
  then have xs: "xs = pre @ u @ start_code True @ n @ stale" by (simp add: units_def)
  have "sub64 sz (length pre + length u + 4) = length n" "sz - length n = length pre + length u + 4"
    using assms(6,7) xs by (simp_all add: sub64_def start_code_def)
  then show ?case
    using get_nal_loop_next [OF Nil.prems(1) xs, of i sz sz] assms(3,6) Nil.prems(4) by (simp add: key_unit_def)
next
  case (Cons v us)
  let ?post = "units us @ start_code True @ n @ stale"
  have xs: "xs = pre @ u @ start_code True @ v @ ?post" using Cons.prems(3) by (simp add: units_def)
  have v: "good_nal v" "v \<noteq> []" "nal_type v \<noteq> 5" using Cons.prems(2) by (auto simp: good_nal_def)
  have l: "length xs - length ?post \<le> sz" using assms(6) xs by simp
  have "get_nal_loop xs sz sz 5 i (length pre) None = get_nal_loop xs sz sz 5 (i + length u) (length pre + length u + 4) None"
    using get_nal_loop_next [OF Cons.prems(1) xs v(2) Cons.prems(4) l] v(3) by simp
  also have "\<dots> = Some (length n, Some (sz - length n))"
    using Cons.IH [of v "pre @ u @ start_code True" "i + length u"] v(1) Cons.prems(2,4) xs by (simp add: add.assoc)
  finally show ?case .
qed

text \<open>The search starts at the second byte, inside the long start code of the first unit.\<close>

lemma get_keyframe_units:
  assumes "\<forall>v \<in> set us. good_nal v \<and> nal_type v \<noteq> 5" and "key_unit n"
    and "xs = units us @ start_code True @ n @ stale" and "sz = length xs - length stale" and "length xs < 2 ^ 64"
  shows "mgw_avc_get_keyframe (Some xs) sz = Some (length n, Some (sz - length n))"
proof -
  obtain v post where v: "xs = [0] @ [0, 0, 1] @ v @ post" "v \<noteq> []" "v = (case us of [] \<Rightarrow> n | u # us' \<Rightarrow> u)"
    "post = (case us of [] \<Rightarrow> stale | u # us' \<Rightarrow> units us' @ start_code True @ n @ stale)"
    using assms(1-3) by (cases us) (auto simp: units_def start_code_def key_unit_def good_nal_def)
  have "mgw_avc_get_startcode_len (Some xs) 1 = Some 3" "rd xs 4 = Some (v ! 0)"
    using v(1,2) by (simp_all add: mgw_avc_get_startcode_len_def rd_def nth_append)
  moreover have sz: "0 < sz" using assms(2-4) by (simp add: start_code_def)
  ultimately have s: "get_nal_loop xs sz sz 5 0 0 None =
      (if nal_type v = 5 then Some (sub64 sz 4, Some 4) else get_nal_loop xs sz sz 5 1 4 None)"
    using v(2) by (subst get_nal_loop.simps) (simp add: nal_type_def hd_conv_nth)
  have "get_nal_loop xs sz sz 5 0 0 None = Some (length n, Some (sz - length n))"
  proof (cases us)
    case Nil
    have "sub64 sz 4 = length n" "sz - length n = 4"
      using assms(3-5) Nil by (simp_all add: units_def sub64_def start_code_def)
    then show ?thesis using s v(3) Nil assms(2) by (simp add: key_unit_def)
  next
    case (Cons u us')
    have "get_nal_loop xs sz sz 5 1 4 None = Some (length n, Some (sz - length n))"
      using get_keyframe_loop [of u us' n xs "start_code True" stale 1 sz] assms Cons
      by (simp add: units_def)
    then show ?thesis using s v(3) Cons assms(1) by simp
  qed
  then show ?thesis using sz by (simp add: mgw_avc_get_keyframe_def mgw_avc_get_nal_def)
qed

section \<open>One tag\<close>

text \<open>The time of a tag: the time stamp in milliseconds, from the first video frame on, in 31 bits.\<close>

definition rel_time :: "int \<Rightarrow> nat \<Rightarrow> nat" where
  "rel_time us off = nat ((us div 1000 - int off) mod 2 ^ 31)"

definition flv_tag_of :: "byte \<Rightarrow> nat \<Rightarrow> bytes \<Rightarrow> flv_tag" where
  "flv_tag_of ty t body = \<lparr>tag_type = ty, tag_time = t, tag_stream = 0, tag_body = body, tag_trailer = length body + 10\<rparr>"

definition time_ok :: "int \<Rightarrow> bool" where
  "time_ok us \<longleftrightarrow> 0 \<le> us \<and> us < 2 ^ 63"

definition tick_of :: "int \<Rightarrow> nat" where
  "tick_of us = nat (us div 1000)"

lemma tick: "time_ok us \<Longrightarrow> to_u64 (c_div us 1000) = tick_of us \<and> int (tick_of us) = us div 1000 \<and> tick_of us < 2 ^ 63"
proof -
  assume t: "time_ok us"
  then have "0 \<le> us div 1000" "us div 1000 < 2 ^ 63"
    by (simp add: time_ok_def pos_imp_zdiv_nonneg_iff) (rule int_div_less, use t in \<open>simp_all add: time_ok_def\<close>)
  then show ?thesis using t by (auto simp: to_u64_def c_div_def tick_of_def time_ok_def)
qed

lemma sub64_int: "int (sub64 a b) mod 2 ^ 64 = (int a - int b) mod 2 ^ 64"
proof (cases "b \<le> a")
  case True
  then show ?thesis by (simp add: sub64_def zmod_int of_nat_diff)
next
  case False
  then have b: "b - a + a = b" by simp
  have "int ((2 ^ 64 - (b - a) mod 2 ^ 64) mod 2 ^ 64) = (2 ^ 64 - int (b - a) mod 2 ^ 64) mod 2 ^ 64"
    by (simp add: zmod_int of_nat_diff)
  also have "\<dots> = (- int (b - a)) mod 2 ^ 64" by (simp add: mod_simps)
  finally show ?thesis using False b by (simp add: sub64_def)
qed

lemma s64_mod: "s64 n mod 2 ^ 31 = int n mod 2 ^ 31"
proof -
  have "(2 :: int) ^ 31 dvd 2 ^ 64" by (rule le_imp_power_dvd) simp
  then have "int n mod 2 ^ 64 mod 2 ^ 31 = int n mod 2 ^ 31" by (rule mod_mod_cancel)
  moreover have "(int n mod 2 ^ 64 - 2 ^ 64) mod 2 ^ 31 = int n mod 2 ^ 64 mod (2 :: int) ^ 31"
    by (metis \<open>(2 :: int) ^ 31 dvd 2 ^ 64\<close> dvd_eq_mod_eq_0 minus_mod_self2 diff_zero mod_diff_right_eq)
  ultimately show ?thesis by (simp add: s64_def Let_def zmod_int)
qed

lemma time_of_tick:
  assumes "time_ok us"
  shows "nat (s64 (sub64 (tick_of us) off) mod 2 ^ 31) = rel_time us off"
proof -
  have "int (sub64 (tick_of us) off) mod 2 ^ 31 = int (sub64 (tick_of us) off) mod 2 ^ 64 mod 2 ^ 31"
    by (rule mod_mod_cancel [symmetric], rule le_imp_power_dvd) simp
  also have "\<dots> = (int (tick_of us) - int off) mod 2 ^ 31"
    unfolding sub64_int by (rule mod_mod_cancel, rule le_imp_power_dvd) simp
  finally show ?thesis unfolding rel_time_def s64_mod using tick [OF assms] by simp
qed

text \<open>A network that never fails. The loop that drains it only moves the counters.\<close>

definition net_ok :: "rtmp_stream \<Rightarrow> bool" where
  "net_ok s \<longleftrightarrow> (\<forall>k. net_recv s k \<noteq> 0) \<and> (\<forall>k. 0 < net_write s k)"

lemma discard_ok: "\<forall>k. recv k \<noteq> 0 \<Longrightarrow> fst (discard recv k sz)"
  by (induction recv k sz rule: discard.induct) (subst discard.simps, simp add: Let_def)

text \<open>What sending leaves as it is.\<close>

definition same_stream :: "rtmp_stream \<Rightarrow> rtmp_stream \<Rightarrow> bool" where
  "same_stream s s' \<longleftrightarrow> sent_headers s' = sent_headers s \<and> blocks s' = blocks s \<and> next_block s' = next_block s \<and>
     net_recv s' = net_recv s \<and> net_write s' = net_write s"

lemma same_streamD:
  "same_stream s s' \<Longrightarrow> sent_headers s' = sent_headers s" "same_stream s s' \<Longrightarrow> blocks s' = blocks s"
  "same_stream s s' \<Longrightarrow> next_block s' = next_block s" "same_stream s s' \<Longrightarrow> net_ok s' = net_ok s"
  by (simp_all add: same_stream_def net_ok_def)

lemma drain_ok:
  assumes "net_ok s"
  shows "\<exists>s'. drain s = (True, s') \<and> same_stream s s' \<and> start_dts_offset s' = start_dts_offset s \<and> net_written s' = net_written s"
proof -
  have "\<exists>k. discard (net_recv s) (net_recvs s) n = (True, k)" for n
    using discard_ok [of "net_recv s" "net_recvs s" n] assms by (cases "discard (net_recv s) (net_recvs s) n") (auto simp: net_ok_def)
  then obtain f where "\<And>n. discard (net_recv s) (net_recvs s) n = (True, f n)" by metis
  then show ?thesis by (simp add: drain_def discard_recv_data_def Let_def same_stream_def)
qed

text \<open>One packet becomes one tag.\<close>

lemma internal_sends:
  assumes net: "net_ok s" and d: "pk_data p = Some d" "0 < pk_size p" "pk_size p \<le> length d" "pk_size p + 5 < 2 ^ 24"
    and t: "time_ok (pk_pts p)" and go: "h \<or> pk_type p = ENCODER_VIDEO \<or> start_dts_offset s \<noteq> 0"
    and off: "off = (if start_dts_offset s = 0 \<and> \<not> h then tick_of (pk_pts p) else start_dts_offset s)"
  shows "\<exists>s' out. send_packet_internal s p h = Some (True, s') \<and> net_written s' = net_written s @ [out] \<and>
    parse_tag out = Some (flv_tag_of (case pk_type p of ENCODER_VIDEO \<Rightarrow> 0x09 | ENCODER_AUDIO \<Rightarrow> 0x08)
      (rel_time (pk_pts p) off) (packet_body p h (take (pk_size p) d)), []) \<and>
    same_stream s s' \<and> start_dts_offset s' = off"
proof -
  let ?s = "if start_dts_offset s = 0 \<and> \<not> h then s\<lparr>start_dts_offset := tick_of (pk_pts p)\<rparr> else s"
  have "net_ok ?s" "start_dts_offset ?s = off" "same_stream s ?s" "net_written ?s = net_written s"
    using net off by (simp_all add: net_ok_def same_stream_def)
  then obtain s1 where s1: "drain ?s = (True, s1)" "same_stream s s1" "start_dts_offset s1 = off" "net_written s1 = net_written s"
    using drain_ok [of ?s] by (auto simp: same_stream_def)
  let ?t = "s64 (sub64 (tick_of (pk_pts p)) off)"
  let ?p = "p\<lparr>pk_pts := ?t, pk_dts := ?t\<rparr>"
  obtain out where out: "flv_packet_mux ?p h = Some out"
    "parse_tag out = Some (\<lparr>tag_type = (case pk_type p of ENCODER_VIDEO \<Rightarrow> 0x09 | ENCODER_AUDIO \<Rightarrow> 0x08),
       tag_time = nat (?t mod 2 ^ 31), tag_stream = 0, tag_body = packet_body ?p h (take (pk_size p) d),
       tag_trailer = length (packet_body ?p h (take (pk_size p) d)) + 10\<rparr>, [])"
    using flv_packet_parses [of ?p d h] d by auto
  have b: "packet_body ?p h x = packet_body p h x" for x by (simp add: packet_body_def video_body_def)
  have w: "0 < net_write s1 (length (net_written s1))" using net s1(2) by (simp add: net_ok_def same_stream_def)
  have tk: "to_u64 (c_div (pk_pts p) 1000) = tick_of (pk_pts p)" using tick [OF t] by simp
  have g: "(start_dts_offset s = 0 \<and> \<not> h \<and> pk_type p \<noteq> ENCODER_VIDEO) = False" using go by blast
  have "send_packet_internal s p h = Some (True, s1\<lparr>net_written := net_written s @ [out], last_dts := ?t,
      total_bytes_sent := wrap64 (total_bytes_sent s1 + length out)\<rparr>)"
    by (simp only: send_packet_internal_def Let_def tk g if_False s1(1) prod.case)
       (simp add: s1(3,4) out(1) RTMP_Write_def w [unfolded s1(4)])
  then show ?thesis
    using s1(2,3) out(2) time_of_tick [OF t, of off] by (auto simp: same_stream_def flv_tag_of_def b)
qed

section \<open>One frame\<close>

text \<open>A frame of the ring as it lies in the frame buffer, behind four bytes of room and in front of
  what earlier frames left: audio in an ADTS frame, one unit behind either start code, or a key frame,
  whose first key unit follows other units.\<close>

datatype media = Audio bytes int | Inter bool bytes int | Key "bytes list" bytes bool int

fun is_frame :: "media \<Rightarrow> bytes \<times> encoder_packet \<Rightarrow> bool" where
  "is_frame (Audio raw ts) (fb, p) =
     (pk_type p = ENCODER_AUDIO \<and> pk_pts p = ts \<and> raw \<noteq> [] \<and>
      (\<exists>room adts stale a. fb = room @ adts @ stale \<and> length room = 4 \<and> parse_adts adts = Some a \<and>
         ad_payload a = raw \<and> ad_length a = length adts \<and> pk_size p = length adts))"
| "is_frame (Inter l n ts) (fb, p) =
     (pk_type p = ENCODER_VIDEO \<and> \<not> pk_keyframe p \<and> pk_pts p = ts \<and> n \<noteq> [] \<and>
      (\<exists>room stale. fb = room @ start_code l @ n @ stale \<and> length room = 4 \<and> pk_size p = length (start_code l @ n)))"
| "is_frame (Key us n low ts) (fb, p) =
     (pk_type p = ENCODER_VIDEO \<and> pk_keyframe p \<and> pk_pts p = ts \<and> (pk_priority p = FRAME_PRIORITY_LOW) = low \<and>
      (\<forall>v \<in> set us. good_nal v \<and> nal_type v \<noteq> 5) \<and> key_unit n \<and>
      (\<exists>room stale. fb = room @ units us @ start_code True @ n @ stale \<and> length room = 4 \<and>
         pk_size p = length (units us @ start_code True @ n)))"

definition frame_ok :: "bytes \<times> encoder_packet \<Rightarrow> bool" where
  "frame_ok f \<longleftrightarrow> time_ok (pk_pts (snd f)) \<and> pk_size (snd f) + 6 < 2 ^ 24 \<and> length (fst f) < 2 ^ 64"

text \<open>The tag it becomes.\<close>

fun media_tag :: "nat \<Rightarrow> media \<Rightarrow> flv_tag" where
  "media_tag off (Audio raw ts) = flv_tag_of 0x08 (rel_time ts off) ([0xaf, 1] @ raw)"
| "media_tag off (Inter l n ts) =
     flv_tag_of 0x09 (rel_time ts off) ([0x27, 1, 0, 0, 0] @ be_bytes 4 (of_nat (length n) :: u32) @ n)"
| "media_tag off (Key us n low ts) =
     flv_tag_of 0x09 (rel_time ts off) ([0x17, 1, 0, 0, 0] @ be_bytes 4 (of_nat (length n) :: u32) @ n)"

fun media_time :: "media \<Rightarrow> int" where
  "media_time (Audio raw ts) = ts"
| "media_time (Inter l n ts) = ts"
| "media_time (Key us n low ts) = ts"

fun is_video :: "media \<Rightarrow> bool" where
  "is_video (Audio raw ts) = False"
| "is_video m = True"

fun low_key :: "media \<Rightarrow> bool" where
  "low_key (Key us n low ts) = low"
| "low_key m = False"

lemma put_be32_at:
  assumes "length w = 4"
  shows "put_be32 (pre @ w @ post) (length pre) v = Some (pre @ be_bytes 4 v @ post)"
proof -
  obtain a b c d where w: "w = [a, b, c, d]" using assms by (auto simp: eval_nat_numeral length_Suc_conv)
  have "put_be32 (w @ post) 0 v = Some (be_bytes 4 v @ post)" using put_be32_bytes [of a b c d post v] w by simp
  then show ?thesis by (simp add: put_be32_def w list_update_append)
qed

lemma send_at_sends:
  assumes "net_ok s" and "fb = pre @ bs @ stale" and "bs \<noteq> []" and "length bs + 5 < 2 ^ 24" and "time_ok (pk_pts p)"
    and "pk_type p = ENCODER_VIDEO \<or> start_dts_offset s \<noteq> 0"
    and "off = (if start_dts_offset s = 0 then tick_of (pk_pts p) else start_dts_offset s)"
  shows "\<exists>s' out. send_at fb (length pre) (length bs) p s = Some (True, s') \<and> net_written s' = net_written s @ [out] \<and>
    parse_tag out = Some (flv_tag_of (case pk_type p of ENCODER_VIDEO \<Rightarrow> 0x09 | ENCODER_AUDIO \<Rightarrow> 0x08)
      (rel_time (pk_pts p) off) (packet_body p False bs), []) \<and> same_stream s s' \<and> start_dts_offset s' = off"
proof -
  let ?p = "p\<lparr>pk_data := Some (bs @ stale), pk_size := length bs\<rparr>"
  have "packet_body ?p False bs = packet_body p False bs" by (simp add: packet_body_def video_body_def)
  moreover have "off = (if start_dts_offset s = 0 \<and> \<not> False then tick_of (pk_pts ?p) else start_dts_offset s)"
    using assms(7) by simp
  note internal_sends [OF assms(1) _ _ _ _ _ _ this, of "bs @ stale"]
  ultimately show ?thesis using assms(2-6) by (simp add: send_at_def)
qed

definition send_frame :: "bytes \<Rightarrow> encoder_packet \<Rightarrow> rtmp_stream \<Rightarrow> (bool \<times> rtmp_stream) option" where
  "send_frame fb p s = (if pk_keyframe p \<and> pk_type p = ENCODER_VIDEO then send_key_frame fb p s else send_packet fb p s)"

lemma parse_adts_length:
  assumes "parse_adts bs = Some a"
  shows "ad_length a < 8192"
proof -
  have "unat (bs ! i) < 256" for i using unsigned_less [of "bs ! i", where ?'a = nat] by simp
  from this [of 4] this [of 5] have "unat (bs ! 4) * 8 \<le> 2040" "unat (bs ! 5) div 32 < 8" by (simp_all add: less_mult_imp_div_less)
  moreover have "unat (bs ! 3) mod 4 * 2048 \<le> 6144" using mod_less_divisor [of 4 "unat (bs ! 3)"] by linarith
  ultimately have "unat (bs ! 3) mod 4 * 2048 + unat (bs ! 4) * 8 + unat (bs ! 5) div 32 < 8192" by linarith
  then show ?thesis using assms by (auto simp: parse_adts_def Let_def split: if_splits)
qed

text \<open>The bytes of the frame buffer that are sent, after the changes made in it.\<close>

fun media_payload :: "media \<Rightarrow> bytes" where
  "media_payload (Audio raw ts) = raw"
| "media_payload (Inter l n ts) = be_bytes 4 (of_nat (length n) :: u32) @ n"
| "media_payload (Key us n low ts) = be_bytes 4 (of_nat (length n) :: u32) @ n"

definition sends_payload :: "media \<Rightarrow> bytes \<Rightarrow> encoder_packet \<Rightarrow> bool" where
  "sends_payload m fb p \<longleftrightarrow> length (media_payload m) \<le> pk_size p + 1 \<and> (\<exists>pre stale. \<forall>s.
     send_frame fb p s = send_at (pre @ media_payload m @ stale) (length pre) (length (media_payload m)) p s)"

lemma send_audio_frame:
  assumes "is_frame (Audio raw ts) (fb, p)"
  shows "sends_payload (Audio raw ts) fb p"
proof -
  obtain room adts stale a where f: "fb = room @ adts @ stale" "length room = 4" "parse_adts adts = Some a"
    "ad_payload a = raw" "ad_length a = length adts" "pk_size p = length adts"
    using assms by auto
  have a: "7 \<le> length adts" "adts ! 1 = 0xF1" using f(3) by (auto simp: parse_adts_def Let_def split: if_splits)
  have "ad_payload a = take (ad_length a - 7) (drop 7 adts)" using f(3) by (auto simp: parse_adts_def Let_def split: if_splits)
  then have raw: "raw = drop 7 adts" using f(4,5) by simp
  have "fb = (room @ take 7 adts) @ raw @ stale" using f(1) append_take_drop_id [of 7 adts] unfolding raw by (metis append.assoc)
  moreover have "rd fb 5 = Some 0xF1"
    using a f(1,2) by (simp add: rd_def nth_append)
  then have "send_packet fb p s = send_at fb 11 (sub64 (pk_size p) 7) p s" for s
    using assms by (simp add: send_packet_def MGW_AVCC_HEADER_SIZE_def Let_def)
  then have "send_frame fb p s = send_at fb (length (room @ take 7 adts)) (length raw) p s" for s
    using assms a f(2,5,6) parse_adts_length [OF f(3)] by (simp add: send_frame_def raw sub64_id)
  ultimately show ?thesis
    unfolding sends_payload_def using raw f(6)
    by (intro conjI, simp) (rule exI [of _ "room @ take 7 adts"], rule exI [of _ stale], simp)
qed

text \<open>With a long start code the length replaces it; with a short one it takes a byte of the room too.\<close>

lemma send_inter_frame:
  assumes "is_frame (Inter l n ts) (fb, p)"
  shows "sends_payload (Inter l n ts) fb p"
proof -
  obtain room stale where f: "fb = room @ start_code l @ n @ stale" "length room = 4" "pk_size p = length (start_code l @ n)"
    using assms by auto
  obtain a b c d where r: "room = [a, b, c, d]" using f(2) by (auto simp: eval_nat_numeral length_Suc_conv)
  have sc: "mgw_avc_get_startcode_len (Some fb) 4 = Some (if l then 4 else 3)"
    by (simp add: mgw_avc_get_startcode_len_def start_code_def f(1) r rd_def)
  have v: "of_nat (pk_size p) - of_nat (if l then 4 else 3) = (of_nat (length n) :: u32)" using f(3) by simp
  show ?thesis
  proof (cases l)
    case True
    have "put_be32 fb 4 (of_nat (length n)) = Some (room @ be_bytes 4 (of_nat (length n) :: u32) @ n @ stale)"
      using put_be32_at [of "start_code True" room "n @ stale"] f True by simp
    then have "send_frame fb p s = send_at (room @ be_bytes 4 (of_nat (length n) :: u32) @ n @ stale) 4 (length n + 4) p s" for s
      using assms sc v True f(3) by (simp add: send_frame_def send_packet_def MGW_AVCC_HEADER_SIZE_def Let_def add.commute)
    then show ?thesis
      unfolding sends_payload_def using f(2,3) True
      by (intro conjI, simp) (rule exI [of _ room], rule exI [of _ stale], simp add: add.commute)
  next
    case False
    have "put_be32 fb 3 (of_nat (length n)) = Some ([a, b, c] @ be_bytes 4 (of_nat (length n) :: u32) @ n @ stale)"
      using put_be32_at [of "[d, 0, 0, 1]" "[a, b, c]" "n @ stale"] f(1) False r by (simp add: start_code_def numeral_3_eq_3)
    then have "send_frame fb p s = send_at ([a, b, c] @ be_bytes 4 (of_nat (length n) :: u32) @ n @ stale) 3 (length n + 4) p s" for s
      using assms sc v False f(3) by (simp add: send_frame_def send_packet_def MGW_AVCC_HEADER_SIZE_def Let_def add.commute)
    then show ?thesis
      unfolding sends_payload_def using f(3) False
      by (intro conjI, simp) (rule exI [of _ "[a, b, c]"], rule exI [of _ stale], simp add: add.commute numeral_3_eq_3)
  qed
qed

lemma send_key_frame_unit:
  assumes "is_frame (Key us n low ts) (fb, p)" and "length fb < 2 ^ 64"
  shows "sends_payload (Key us n low ts) fb p"
proof -
  obtain room stale where f: "fb = room @ units us @ start_code True @ n @ stale" "length room = 4"
    "pk_size p = length (units us @ start_code True @ n)"
    using assms(1) by auto
  let ?pre = "room @ units us" and ?fb = "(room @ units us) @ be_bytes 4 (of_nat (length n) :: u32) @ n @ stale"
  have k: "mgw_avc_get_keyframe (Some (drop 4 fb)) (pk_size p) = Some (length n, Some (length (units us) + 4))"
    using get_keyframe_units [of us n "drop 4 fb" stale "pk_size p"] assms f by simp
  have "put_be32 fb (length (units us) + 4) (of_nat (length n)) = Some ?fb"
    using put_be32_at [of "start_code True" ?pre "n @ stale" "of_nat (length n)"] f(2) unfolding f(1)
    by (simp add: add.commute)
  moreover have "0 < length n" using assms(1) by (auto simp: key_unit_def)
  ultimately have "send_frame fb p s = send_at ?fb (length ?pre) (length n + 4) p s" for s
    using assms(1) k f(2) by (simp add: send_frame_def send_key_frame_def MGW_AVCC_HEADER_SIZE_def Let_def add.commute)
  then show ?thesis
    unfolding sends_payload_def using f(3)
    by (intro conjI, simp) (rule exI [of _ ?pre], rule exI [of _ stale], simp add: add.commute)
qed

lemma frame_kind:
  assumes "is_frame m (fb, p)"
  shows "media_payload m \<noteq> [] \<and> pk_pts p = media_time m \<and> pk_type p = (if is_video m then ENCODER_VIDEO else ENCODER_AUDIO) \<and>
    (is_video m \<longrightarrow> pk_keyframe p = (\<exists>us n low ts. m = Key us n low ts)) \<and>
    (is_video m \<and> pk_keyframe p \<longrightarrow> (pk_priority p = FRAME_PRIORITY_LOW) = low_key m)"
proof (cases m)
  case (Key us n low ts)
  then have "n \<noteq> []" "pk_type p = ENCODER_VIDEO" "pk_keyframe p" "pk_pts p = ts" "(pk_priority p = FRAME_PRIORITY_LOW) = low"
    using assms by (simp_all add: key_unit_def)
  then show ?thesis using Key by simp
qed (use assms in simp_all)

lemma frame_sends:
  assumes net: "net_ok s" and m: "is_frame m (fb, p)" and ok: "frame_ok (fb, p)"
    and go: "is_video m \<or> start_dts_offset s \<noteq> 0"
    and off: "off = (if start_dts_offset s = 0 then tick_of (media_time m) else start_dts_offset s)"
  shows "\<exists>s' out. send_frame fb p s = Some (True, s') \<and> net_written s' = net_written s @ [out] \<and>
    parse_tag out = Some (media_tag off m, []) \<and> same_stream s s' \<and> start_dts_offset s' = off"
proof -
  have l: "length fb < 2 ^ 64" using ok by (simp add: frame_ok_def)
  have "sends_payload m fb p"
  proof (cases m)
    case (Audio raw ts)
    then show ?thesis using send_audio_frame [of raw ts fb p] m by simp
  next
    case (Inter lg n ts)
    then show ?thesis using send_inter_frame [of lg n ts fb p] m by simp
  next
    case (Key us n low ts)
    then show ?thesis using send_key_frame_unit [of us n low ts fb p] m l by simp
  qed
  then obtain pre stale where a: "\<And>s. send_frame fb p s = send_at (pre @ media_payload m @ stale) (length pre) (length (media_payload m)) p s"
    and n: "length (media_payload m) \<le> pk_size p + 1"
    unfolding sends_payload_def by blast
  have b: "media_payload m \<noteq> []" "pk_pts p = media_time m" "pk_type p = (if is_video m then ENCODER_VIDEO else ENCODER_AUDIO)"
    using frame_kind [OF m] by simp_all
  have tag: "media_tag off m = flv_tag_of (case pk_type p of ENCODER_VIDEO \<Rightarrow> 0x09 | ENCODER_AUDIO \<Rightarrow> 0x08)
      (rel_time (pk_pts p) off) (packet_body p False (media_payload m))"
    using frame_kind [OF m] by (cases m) (simp_all add: packet_body_def audio_body_def video_body_def)
  have sz: "length (media_payload m) + 5 < 2 ^ 24" "time_ok (pk_pts p)" using n ok by (simp_all add: frame_ok_def)
  have go': "pk_type p = ENCODER_VIDEO \<or> start_dts_offset s \<noteq> 0" using go b(3) by auto
  show ?thesis
    unfolding a tag by (rule send_at_sends [OF net refl b(1) sz go']) (simp add: off b(2))
qed

section \<open>A session\<close>

text \<open>The headers in front of the first frame and of key frames of low priority, with the time so far.\<close>

definition header_tags :: "bytes \<Rightarrow> bytes \<Rightarrow> int \<Rightarrow> nat \<Rightarrow> flv_tag list" where
  "header_tags a v us off = [flv_tag_of 0x08 (rel_time us off) a, flv_tag_of 0x09 (rel_time us off) v]"

text \<open>What a player gets: \<open>h\<close> says whether headers were sent, \<open>off\<close> is the time of the first video
  frame, 0 before. Audio in front of the first video frame is left out.\<close>

fun session :: "bytes \<Rightarrow> bytes \<Rightarrow> bool \<Rightarrow> nat \<Rightarrow> media list \<Rightarrow> flv_tag list" where
  "session a v h off [] = []"
| "session a v h off (m # ms) =
     (if \<not> h \<or> low_key m then header_tags a v (if h then media_time m else 0) off else []) @
     (if off = 0 \<and> \<not> is_video m then session a v True off ms
      else let off' = (if off = 0 then tick_of (media_time m) else off) in
        media_tag off' m # session a v True off' ms)"

definition audio_header :: "rtmp_source \<Rightarrow> bytes \<Rightarrow> bytes" where
  "audio_header src a = [audio_byte src, 0] @ a"

definition video_header :: "bytes \<Rightarrow> bytes" where
  "video_header v = [0x17, 0, 0, 0, 0] @ v"

text \<open>The writes \<open>outs\<close> are the tags.\<close>

definition wrote_tags :: "rtmp_stream \<Rightarrow> rtmp_stream \<Rightarrow> flv_tag list \<Rightarrow> bool" where
  "wrote_tags s s' ts \<longleftrightarrow> (\<exists>outs. net_written s' = net_written s @ outs \<and> map parse_tag outs = map (\<lambda>t. Some (t, [])) ts)"

lemma wrote_none: "net_written s' = net_written s \<Longrightarrow> wrote_tags s s' []"
  by (simp add: wrote_tags_def)

lemma wrote_one: "net_written s' = net_written s @ [out] \<Longrightarrow> parse_tag out = Some (t, []) \<Longrightarrow> wrote_tags s s' [t]"
  by (simp add: wrote_tags_def)

lemma wrote_trans: "wrote_tags s s' ts \<Longrightarrow> wrote_tags s' s'' us \<Longrightarrow> wrote_tags s s'' (ts @ us)"
  unfolding wrote_tags_def by (metis append_assoc map_append)

text \<open>A source with a plugin and headers that fit.\<close>

definition plain_source :: "rtmp_source \<Rightarrow> bytes \<Rightarrow> bytes \<Rightarrow> bool" where
  "plain_source src a v \<longleftrightarrow> src_handlers src \<and> src_headers src = Plugin a v \<and> length a \<le> 6 \<and> v \<noteq> [] \<and> length v + 5 < 2 ^ 24"

lemma header_sends:
  assumes "net_ok s" and "x \<noteq> []" and "length x + 5 < 2 ^ 24" and "time_ok ts" and "ty = ENCODER_VIDEO \<longrightarrow> k"
  shows "\<exists>s'. send_packet_internal s \<lparr>pk_data = Some x, pk_size = length x, pk_pts = ts, pk_dts = ts,
      pk_type = ty, pk_keyframe = k, pk_priority = 0\<rparr> True = Some (True, s') \<and>
    same_stream s s' \<and> start_dts_offset s' = start_dts_offset s \<and>
    wrote_tags s s' [case ty of ENCODER_VIDEO \<Rightarrow> flv_tag_of 0x09 (rel_time ts (start_dts_offset s)) (video_header x)
      | ENCODER_AUDIO \<Rightarrow> flv_tag_of 0x08 (rel_time ts (start_dts_offset s)) x]"
proof -
  let ?p = "\<lparr>pk_data = Some x, pk_size = length x, pk_pts = ts, pk_dts = ts, pk_type = ty, pk_keyframe = k, pk_priority = 0\<rparr>"
  have "packet_body ?p True x = (case ty of ENCODER_VIDEO \<Rightarrow> video_header x | ENCODER_AUDIO \<Rightarrow> x)"
    using assms(5) by (cases ty) (simp_all add: packet_body_def audio_body_def video_body_def video_header_def)
  then show ?thesis
    using internal_sends [OF assms(1), of ?p x True "start_dts_offset s"] assms(2-4)
    by (cases ty) (force intro: wrote_one)+
qed

lemma send_audio_header_plain:
  assumes src: "plain_source src a v" and s: "net_ok s" and t: "time_ok ts"
  shows "\<exists>s'. send_audio_header src ts s = Some (True, s') \<and> net_ok s' \<and> sent_headers s' = sent_headers s \<and>
    start_dts_offset s' = start_dts_offset s \<and>
    wrote_tags s s' [flv_tag_of 0x08 (rel_time ts (start_dts_offset s)) (audio_header src a)]"
proof -
  let ?h = "audio_byte src"
  let ?s = "s\<lparr>next_block := next_block s + 1, blocks := (blocks s)(next_block s := None)\<rparr>"
  have n: "net_ok ?s" using s by (simp add: net_ok_def)
  have "[?h, 0] @ a \<noteq> []" "length ([?h, 0] @ a) + 5 < 2 ^ 24" using src by (simp_all add: plain_source_def)
  from header_sends [OF n this t, of ENCODER_AUDIO False]
  obtain s' where i: "send_packet_internal ?s \<lparr>pk_data = Some ([?h, 0] @ a), pk_size = length ([?h, 0] @ a), pk_pts = ts,
      pk_dts = ts, pk_type = ENCODER_AUDIO, pk_keyframe = False, pk_priority = 0\<rparr> True = Some (True, s')"
    "same_stream ?s s'" "start_dts_offset s' = start_dts_offset s"
    "wrote_tags s s' [flv_tag_of 0x08 (rel_time ts (start_dts_offset s)) ([?h, 0] @ a)]"
    by (auto simp: wrote_tags_def)
  have "send_audio_header src ts s = Some (True, s')"
    using src i(1) by (simp add: send_audio_header_def plain_source_def get_header_def block_at_def header_free_def)
  moreover have "audio_header src a = [?h, 0] @ a" by (simp add: audio_header_def)
  ultimately show ?thesis
    using i(3,4) same_streamD [OF i(2)] n by auto
qed

lemma send_video_header_plain:
  assumes src: "plain_source src a v" and s: "net_ok s" and t: "time_ok ts"
  shows "\<exists>s'. send_video_header src ts s = Some (True, s') \<and> net_ok s' \<and> sent_headers s' = sent_headers s \<and>
    start_dts_offset s' = start_dts_offset s \<and>
    wrote_tags s s' [flv_tag_of 0x09 (rel_time ts (start_dts_offset s)) (video_header v)]"
proof -
  let ?s = "s\<lparr>blocks := (blocks s)(next_block s \<mapsto> v), next_block := next_block s + 1\<rparr>"
  have n: "net_ok ?s" using s by (simp add: net_ok_def)
  have "v \<noteq> []" "length v + 5 < 2 ^ 24" using src by (simp_all add: plain_source_def)
  from header_sends [OF n this t, of ENCODER_VIDEO True]
  obtain s1 where i: "send_packet_internal ?s \<lparr>pk_data = Some v, pk_size = length v, pk_pts = ts,
      pk_dts = ts, pk_type = ENCODER_VIDEO, pk_keyframe = True, pk_priority = 0\<rparr> True = Some (True, s1)"
    "same_stream ?s s1" "start_dts_offset s1 = start_dts_offset s"
    "wrote_tags s s1 [flv_tag_of 0x09 (rel_time ts (start_dts_offset s)) (video_header v)]"
    by (auto simp: wrote_tags_def)
  let ?s2 = "s1\<lparr>blocks := (blocks s1)(next_block s := None)\<rparr>"
  have "send_video_header src ts s = Some (True, ?s2)"
    using src i(1) same_streamD(2) [OF i(2)]
    by (simp add: send_video_header_def plain_source_def get_header_def block_at_def header_free_def)
  moreover have "wrote_tags s ?s2 [flv_tag_of 0x09 (rel_time ts (start_dts_offset s)) (video_header v)]"
    using i(4) by (simp add: wrote_tags_def)
  ultimately show ?thesis
    using i(3) same_streamD [OF i(2)] n by (auto simp: net_ok_def)
qed

lemma send_headers_plain:
  assumes "plain_source src a v" and "net_ok s" and "time_ok ts"
  shows "\<exists>s'. send_headers src ts s = Some (True, s') \<and> net_ok s' \<and> sent_headers s' \<and>
    start_dts_offset s' = start_dts_offset s \<and>
    wrote_tags s s' (header_tags (audio_header src a) (video_header v) ts (start_dts_offset s))"
proof -
  let ?s = "s\<lparr>sent_headers := True\<rparr>"
  have n: "net_ok ?s" using assms(2) by (simp add: net_ok_def)
  obtain s1 where s1: "send_audio_header src ts ?s = Some (True, s1)" "net_ok s1" "sent_headers s1"
    "start_dts_offset s1 = start_dts_offset s"
    "wrote_tags s s1 [flv_tag_of 0x08 (rel_time ts (start_dts_offset s)) (audio_header src a)]"
    using send_audio_header_plain [OF assms(1) n assms(3)] by (auto simp: wrote_tags_def)
  obtain s2 where s2: "send_video_header src ts s1 = Some (True, s2)" "net_ok s2" "sent_headers s2"
    "start_dts_offset s2 = start_dts_offset s"
    "wrote_tags s1 s2 [flv_tag_of 0x09 (rel_time ts (start_dts_offset s)) (video_header v)]"
    using send_video_header_plain [OF assms(1) s1(2) assms(3)] s1(3,4) by auto
  show ?thesis
    using s1(1) s2(1-4) wrote_trans [OF s1(5) s2(5)] by (simp add: send_headers_def header_tags_def)
qed

lemma early_audio:
  assumes "is_frame m (fb, p)" and "\<not> is_video m" and "start_dts_offset s = 0"
  shows "send_frame fb p s = Some (True, s)"
proof -
  obtain raw ts where m: "m = Audio raw ts" using assms(2) by (cases m) auto
  have "sends_payload m fb p" using assms(1) unfolding m by (rule send_audio_frame)
  moreover have "pk_type p = ENCODER_AUDIO" using assms(1) m by simp
  then have "send_at bs off n p s = Some (True, s)" for bs off n
    using assms(3) by (simp add: send_at_def send_packet_internal_def)
  ultimately show ?thesis by (auto simp: sends_payload_def)
qed

lemma session_sends:
  assumes "plain_source src a v" and "net_ok s" and "list_all2 is_frame ms fs" and "\<forall>f \<in> set fs. frame_ok f"
  shows "\<exists>s'. send_frames src fs s = Some (False, s') \<and>
    wrote_tags s s' (session (audio_header src a) (video_header v) (sent_headers s) (start_dts_offset s) ms)"
  using assms(2-4)
proof (induction ms arbitrary: fs s)
  case Nil
  then show ?case by (simp add: wrote_none)
next
  case (Cons m ms)
  obtain fb p fs' where f: "fs = (fb, p) # fs'" "is_frame m (fb, p)" "list_all2 is_frame ms fs'" "frame_ok (fb, p)"
    using Cons.prems(2,3) by (auto simp: list_all2_Cons1)
  let ?a = "audio_header src a" and ?v = "video_header v"
  let ?h = "if \<not> sent_headers s \<or> low_key m
    then header_tags ?a ?v (if sent_headers s then media_time m else 0) (start_dts_offset s) else []"
  note kind = frame_kind [OF f(2)]
  have key: "(FRAME_PRIORITY_LOW = pk_priority p \<and> pk_keyframe p \<and> pk_type p = ENCODER_VIDEO) = low_key m"
    using kind by (cases m) auto
  have time: "time_ok (if sent_headers s then media_time m else 0)"
    using f(4) kind by (simp add: frame_ok_def time_ok_def)
  obtain s1 where s1: "(if \<not> sent_headers s \<or> low_key m
      then send_headers src (if sent_headers s then pk_pts p else 0) s else Some (True, s)) = Some (True, s1)"
    "net_ok s1" "sent_headers s1" "start_dts_offset s1 = start_dts_offset s" "wrote_tags s s1 ?h"
  proof (cases "\<not> sent_headers s \<or> low_key m")
    case True
    have e: "pk_pts p = media_time m" using kind by blast
    obtain s' where "send_headers src (if sent_headers s then media_time m else 0) s = Some (True, s')"
      "net_ok s'" "sent_headers s'" "start_dts_offset s' = start_dts_offset s"
      "wrote_tags s s' (header_tags ?a ?v (if sent_headers s then media_time m else 0) (start_dts_offset s))"
      using send_headers_plain [OF assms(1) Cons.prems(1) time] by blast
    with True show ?thesis using that [of s'] by (cases "sent_headers s") (simp_all add: e)
  next
    case False
    then show ?thesis using that [of s] Cons.prems(1) by (simp add: wrote_none)
  qed
  have step: "send_frames src fs s = Option.bind (send_frame fb p s1) (\<lambda>(ok, s).
      if \<not> ok then Some (True, s) else send_frames src fs' (s\<lparr>sent_frames := sent_frames s + 1\<rparr>))"
    unfolding f(1) send_frames.simps key s1(1) send_frame_def by simp
  let ?next = "\<lambda>s. s\<lparr>sent_frames := sent_frames s + 1\<rparr>"
  have wn: "wrote_tags (x\<lparr>sent_frames := k\<rparr>) y ts = wrote_tags x y ts" for x y k ts by (simp add: wrote_tags_def)
  show ?case
  proof (cases "start_dts_offset s = 0 \<and> \<not> is_video m")
    case True
    then have "send_frame fb p s1 = Some (True, s1)" using early_audio [OF f(2)] s1(4) by simp
    moreover obtain s2 where s2: "send_frames src fs' (?next s1) = Some (False, s2)"
      "wrote_tags s1 s2 (session ?a ?v True (start_dts_offset s) ms)"
      using Cons.IH [of "?next s1" fs'] s1(2-4) f(1,3) Cons.prems(3) by (auto simp: net_ok_def wn)
    ultimately show ?thesis
      using True step wrote_trans [OF s1(5) s2(2)] by (cases "sent_headers s"; cases "low_key m"; simp)
  next
    case False
    define off where "off = (if start_dts_offset s = 0 then tick_of (media_time m) else start_dts_offset s)"
    have o: "off = (if start_dts_offset s1 = 0 then tick_of (media_time m) else start_dts_offset s1)"
      using s1(4) by (simp add: off_def)
    have go: "is_video m \<or> start_dts_offset s1 \<noteq> 0" using False s1(4) by auto
    obtain s2 out where s2: "send_frame fb p s1 = Some (True, s2)" "net_written s2 = net_written s1 @ [out]"
      "parse_tag out = Some (media_tag off m, [])" "same_stream s1 s2" "start_dts_offset s2 = off"
      using frame_sends [OF s1(2) f(2,4) go o] by auto
    obtain s3 where s3: "send_frames src fs' (?next s2) = Some (False, s3)"
      "wrote_tags s2 s3 (session ?a ?v True off ms)"
      using Cons.IH [of "?next s2" fs'] same_streamD [OF s2(4)] s1(2,3) s2(5) f(1,3) Cons.prems(3)
      by (auto simp: net_ok_def wn)
    show ?thesis
      using False step s2(1) s3(1) wrote_trans [OF s1(5) wrote_trans [OF wrote_one [OF s2(2,3)] s3(2)]]
      by (cases "sent_headers s"; cases "low_key m"; auto simp: Let_def off_def)
  qed
qed

section \<open>Properties\<close>

definition new_rtmp_stream :: rtmp_stream where
  "new_rtmp_stream = \<lparr>sent_headers = False, start_dts_offset = 0, last_dts = 0, total_bytes_sent = 0, sent_frames = 0,
     blocks = (\<lambda>_. None), next_block = 0, net_pending = (\<lambda>_. 0), net_polls = 0, net_recv = (\<lambda>_. 1), net_recvs = 0,
     net_write = (\<lambda>_. 1), net_written = []\<rparr>"

definition aac_source :: rtmp_source where
  "aac_source = \<lparr>src_handlers = True, src_channels = 2, src_samplesize = 16, src_headers = Plugin [0x12, 0x10] [1, 0x64]\<rparr>"

definition key_packet :: encoder_packet where
  "key_packet = \<lparr>pk_data = None, pk_size = 6, pk_pts = 40000, pk_dts = 40000, pk_type = ENCODER_VIDEO, pk_keyframe = True,
     pk_priority = 2\<rparr>"

lemma key_frame_example:
  "list_all2 is_frame [Key [] [0x65, 0x88] False 40000] [([9, 9, 9, 9, 0, 0, 0, 1, 0x65, 0x88], key_packet)]"
  "frame_ok ([9, 9, 9, 9, 0, 0, 0, 1, 0x65, 0x88], key_packet)"
proof -
  have "is_frame (Key [] [0x65, 0x88] False 40000) ([9, 9, 9, 9, 0, 0, 0, 1, 0x65, 0x88], key_packet)"
    unfolding is_frame.simps
    by (intro conjI exI [of _ "[9, 9, 9, 9]"] exI [of _ "[]"])
       (simp_all add: key_packet_def key_unit_def nal_type_def units_def start_code_def FRAME_PRIORITY_LOW_def)
  then show "list_all2 is_frame [Key [] [0x65, 0x88] False 40000] [([9, 9, 9, 9, 0, 0, 0, 1, 0x65, 0x88], key_packet)]" by simp
  show "frame_ok ([9, 9, 9, 9, 0, 0, 0, 1, 0x65, 0x88], key_packet)"
    by (simp add: frame_ok_def key_packet_def time_ok_def)
qed

lemma new_stream_ok: "net_ok new_rtmp_stream" "sent_headers new_rtmp_stream = False" "start_dts_offset new_rtmp_stream = 0"
  "net_written new_rtmp_stream = []"
  by (simp_all add: net_ok_def new_rtmp_stream_def)

lemma aac_source_plain: "plain_source aac_source [0x12, 0x10] [1, 0x64]"
  by (simp add: plain_source_def aac_source_def)

text \<open>C33: On a network that does not fail, the send thread turns the frames of the ring into exactly
  the tags of \<open>session\<close>: the audio and the video header first and again in front of key frames of low
  priority, ADTS frames as raw AAC, units behind a start code of either length as units behind their
  length, key frames from their first key unit on; times count from the first video frame, and audio in
  front of it is left out. When it ends it forgets that the headers were sent.\<close>

theorem rtmp_session_tags:
  assumes "plain_source src a v" and "net_ok s" and "list_all2 is_frame ms fs" and "\<forall>f \<in> set fs. frame_ok f"
  shows "\<exists>s' outs. send_thread src fs s = Some (False, s') \<and> \<not> sent_headers s' \<and> net_written s' = net_written s @ outs \<and>
    map parse_tag outs = map (\<lambda>t. Some (t, []))
      (session (audio_header src a) (video_header v) (sent_headers s) (start_dts_offset s) ms)"
  using session_sends [OF assms] by (auto simp: send_thread_def wrote_tags_def)

theorem rtmp_session_tags_witness:
  "\<exists>s' outs. send_thread aac_source [([9, 9, 9, 9, 0, 0, 0, 1, 0x65, 0x88], key_packet)] new_rtmp_stream = Some (False, s') \<and>
    net_written s' = outs \<and> map (map_option (tag_body \<circ> fst) \<circ> parse_tag) outs =
      [Some [0xaf, 0, 0x12, 0x10], Some [0x17, 0, 0, 0, 0, 1, 0x64], Some [0x17, 1, 0, 0, 0, 0, 0, 0, 2, 0x65, 0x88]]"
proof -
  obtain s' outs where s': "send_thread aac_source [([9, 9, 9, 9, 0, 0, 0, 1, 0x65, 0x88], key_packet)] new_rtmp_stream = Some (False, s')"
    "net_written s' = outs" "map parse_tag outs = map (\<lambda>t. Some (t, []))
      (session (audio_header aac_source [0x12, 0x10]) (video_header [1, 0x64]) False 0 [Key [] [0x65, 0x88] False 40000])"
    using rtmp_session_tags [OF aac_source_plain new_stream_ok(1) key_frame_example(1)] key_frame_example(2)
    by (auto simp: new_stream_ok)
  have be: "be_bytes 4 (2 :: u32) = [0, 0, 0, 2]" by (simp add: be_bytes_def le_bytes_def upt_rec)
  have "map (map_option (tag_body \<circ> fst) \<circ> parse_tag) outs = map (map_option (tag_body \<circ> fst)) (map parse_tag outs)" by simp
  then show ?thesis
    using s'(1,2) unfolding s'(3)
    by (simp add: header_tags_def flv_tag_of_def audio_header_def audio_byte_def aac_source_def video_header_def be)
qed

text \<open>C34: A private source hands out its own header blocks, and the output frees them: after one round
  of headers the source holds dead blocks, and the next round, at the next key frame of low priority or
  after a new connection, reads them.\<close>

theorem private_headers_used_after_free:
  assumes "src_handlers src" and "src_headers src = Private (Some x) (length a) (Some y) (length v)" and "x \<noteq> y"
    and "blocks s x = Some a" and "blocks s y = Some v" and "length a \<le> 6" and "v \<noteq> []" and "length v + 5 < 2 ^ 24"
    and "net_ok s" and "time_ok ts"
  shows "\<exists>s'. send_headers src ts s = Some (True, s') \<and> (\<forall>us. send_headers src us s' = None)"
proof -
  let ?s = "s\<lparr>sent_headers := True, blocks := (blocks s)(x := None)\<rparr>"
  have n: "net_ok ?s" using assms(9) by (simp add: net_ok_def)
  have "[audio_byte src, 0] @ a \<noteq> []" "length ([audio_byte src, 0] @ a) + 5 < 2 ^ 24" using assms(6) by simp_all
  from header_sends [OF n this assms(10), of ENCODER_AUDIO False]
  obtain s1 where s1: "send_packet_internal ?s \<lparr>pk_data = Some ([audio_byte src, 0] @ a), pk_size = length ([audio_byte src, 0] @ a),
      pk_pts = ts, pk_dts = ts, pk_type = ENCODER_AUDIO, pk_keyframe = False, pk_priority = 0\<rparr> True = Some (True, s1)"
    "same_stream ?s s1"
    by auto
  have a: "send_audio_header src ts (s\<lparr>sent_headers := True\<rparr>) = Some (True, s1)"
    using assms(1,2,4,6) s1(1) by (simp add: send_audio_header_def get_header_def block_at_def header_free_def)
  have b: "net_ok s1" "blocks s1 = (blocks s)(x := None)" using same_streamD [OF s1(2)] n by simp_all
  from header_sends [OF b(1) assms(7,8,10), of ENCODER_VIDEO True]
  obtain s2 where s2: "send_packet_internal s1 \<lparr>pk_data = Some v, pk_size = length v,
      pk_pts = ts, pk_dts = ts, pk_type = ENCODER_VIDEO, pk_keyframe = True, pk_priority = 0\<rparr> True = Some (True, s2)"
    "same_stream s1 s2"
    by auto
  let ?s3 = "s2\<lparr>blocks := (blocks s2)(y := None)\<rparr>"
  have "send_video_header src ts s1 = Some (True, ?s3)"
    using assms(1-3,5) s2(1) same_streamD(2) [OF s2(2)] b(2)
    by (simp add: send_video_header_def get_header_def block_at_def header_free_def)
  moreover have "send_headers src us ?s3 = None" for us
    using assms(1-3) same_streamD(2) [OF s2(2)] b(2)
    by (simp add: send_headers_def send_audio_header_def get_header_def block_at_def)
  ultimately show ?thesis using a by (auto simp: send_headers_def)
qed

theorem private_headers_used_after_free_witness:
  "\<exists>s'. send_headers \<lparr>src_handlers = True, src_channels = 2, src_samplesize = 16, src_headers = Private (Some 0) 2 (Some 1) 1\<rparr> 0
      (new_rtmp_stream\<lparr>blocks := [0 \<mapsto> [0x12, 0x10], 1 \<mapsto> [1]]\<rparr>) = Some (True, s') \<and>
    send_headers \<lparr>src_handlers = True, src_channels = 2, src_samplesize = 16, src_headers = Private (Some 0) 2 (Some 1) 1\<rparr> 40 s' = None"
  using private_headers_used_after_free [of "\<lparr>src_handlers = True, src_channels = 2, src_samplesize = 16,
      src_headers = Private (Some 0) 2 (Some 1) 1\<rparr>" 0 "[0x12, 0x10]" 1 "[1]" "new_rtmp_stream\<lparr>blocks := [0 \<mapsto> [0x12, 0x10], 1 \<mapsto> [1]]\<rparr>" 0]
  by (auto simp: new_rtmp_stream_def net_ok_def time_ok_def)

text \<open>An AudioSpecificConfig longer than six bytes, as HE-AAC sources have, overruns the eight bytes on
  the stack when the first frame is sent.\<close>

theorem long_audio_header_overflows:
  assumes "src_handlers src" and "src_headers src = Plugin a v" and "6 < length a" and "\<not> sent_headers s"
  shows "send_thread src (f # fs) s = None"
  using assms
  by (cases f) (simp add: send_thread_def send_headers_def send_audio_header_def get_header_def)

theorem long_audio_header_overflows_witness:
  "send_thread (aac_source\<lparr>src_headers := Plugin [0x2b, 0x11, 0x88, 0, 6, 0, 0x80] [1]\<rparr>)
     [([9, 9, 9, 9, 0, 0, 0, 1, 0x65, 0x88], key_packet)] new_rtmp_stream = None"
  using long_audio_header_overflows [of "aac_source\<lparr>src_headers := Plugin [0x2b, 0x11, 0x88, 0, 6, 0, 0x80] [1]\<rparr>"
      "[0x2b, 0x11, 0x88, 0, 6, 0, 0x80]" "[1]" new_rtmp_stream]
  by (simp add: aac_source_def new_stream_ok)

text \<open>After a lost connection the thread starts again with the old time offset, but sends its first
  headers for time 0: they carry a time that wraps, almost 25 days ahead of the frames. Only stopping the
  output resets the offset.\<close>

theorem headers_after_reconnect:
  assumes "plain_source src a v" and "net_ok s" and "is_frame m f" and "frame_ok f" and "list_all2 is_frame ms fs"
    and "\<forall>g \<in> set fs. frame_ok g" and "\<not> sent_headers s" and "0 < start_dts_offset s" and "start_dts_offset s < 2 ^ 31"
  shows "\<exists>s' out outs t. send_thread src (f # fs) s = Some (False, s') \<and> net_written s' = net_written s @ out # outs \<and>
    parse_tag out = Some (t, []) \<and> tag_time t = 2 ^ 31 - start_dts_offset s \<and> tag_body t = audio_header src a"
proof -
  let ?T = "session (audio_header src a) (video_header v) False (start_dts_offset s) (m # ms)"
  obtain s' outs where s': "send_thread src (f # fs) s = Some (False, s')" "net_written s' = net_written s @ outs"
    "map parse_tag outs = map (\<lambda>t. Some (t, [])) ?T"
    using session_sends [OF assms(1,2), of "m # ms" "f # fs"] assms(3-7)
    by (auto simp: send_thread_def wrote_tags_def simp del: session.simps)
  let ?t = "flv_tag_of 0x08 (rel_time 0 (start_dts_offset s)) (audio_header src a)"
  obtain ts where T: "?T = ?t # ts" by (simp add: header_tags_def)
  obtain out outs' where o: "outs = out # outs'" "parse_tag out = Some (?t, [])"
    using s'(3) unfolding T by (cases outs) auto
  have "(- int (start_dts_offset s)) mod 2 ^ 31 = 2 ^ 31 - int (start_dts_offset s)"
    using assms(8,9) by (simp add: zmod_zminus1_eq_if)
  then have "rel_time 0 (start_dts_offset s) = 2 ^ 31 - start_dts_offset s"
    using assms(9) by (simp add: rel_time_def)
  then show ?thesis using s'(1,2) o by (auto simp: flv_tag_of_def)
qed

theorem headers_after_reconnect_witness:
  "\<exists>s' out outs t. send_thread aac_source [([9, 9, 9, 9, 0, 0, 0, 1, 0x65, 0x88], key_packet)]
      (new_rtmp_stream\<lparr>start_dts_offset := 40\<rparr>) = Some (False, s') \<and>
    net_written s' = out # outs \<and> parse_tag out = Some (t, []) \<and> tag_time t = 2147483608"
proof -
  have "net_ok (new_rtmp_stream\<lparr>start_dts_offset := 40\<rparr>)" by (simp add: net_ok_def new_rtmp_stream_def)
  from headers_after_reconnect [OF aac_source_plain this, of "Key [] [0x65, 0x88] False 40000" _ "[]" "[]"]
  show ?thesis using key_frame_example by (fastforce simp: new_stream_ok)
qed

text \<open>The url is cut at its last slash; a url without one is read in front of its start.\<close>

theorem stream_code_after_last_slash:
  assumes k: "CHR ''/'' \<notin> set key"
  shows "get_stream_code (path @ CHR ''/'' # key) = Some (path, key) \<and> get_stream_code key = None"
proof -
  have "dropWhile (\<lambda>c. c \<noteq> CHR ''/'') (rev key @ CHR ''/'' # rev path) = CHR ''/'' # rev path"
    by (subst dropWhile_append2) (use k in auto)
  moreover have "takeWhile (\<lambda>c. c \<noteq> CHR ''/'') (rev key @ CHR ''/'' # rev path) = rev key"
    by (subst takeWhile_append2) (use k in auto)
  ultimately show ?thesis using k by (simp add: get_stream_code_def)
qed

theorem stream_code_after_last_slash_witness:
  "get_stream_code ''rtmp://h/app/live'' = Some (''rtmp://h/app'', ''live'')"
  using stream_code_after_last_slash [of "''live''" "''rtmp://h/app''"] by simp

end
