(* ===== verification/CString.thy ===== *)
theory CString
  imports DArray
begin

text \<open>
  C strings and the comparisons of mgw-core/util: \<open>astrcmpi\<close> and its relatives in source/dstr.c, the string
  references of lexer.h and their comparisons in source/lexer.c. A C string is the list of its characters
  without the NUL behind them; \<open>None\<close> is the NULL pointer, and a pointer into a string is the rest of the
  list. \<open>toupper\<close> is that of the C locale, \<open>char\<close> is signed; \<open>towupper\<close> is an argument of the functions for
  wide strings, whose characters are their values.
\<close>

section \<open>Characters\<close>

definition NUL :: char where "NUL = CHR 0x00"

definition schar :: "char \<Rightarrow> int" where
  "schar c = (let n = of_char c :: nat in if n < 128 then int n else int n - 256)"

definition to_upper :: "char \<Rightarrow> char" where
  "to_upper c = (if 97 \<le> schar c \<and> schar c \<le> 122 then char_of (of_char c - 32 :: nat) else c)"

definition upper_val :: "char \<Rightarrow> int" where
  "upper_val c = schar (to_upper c)"

text \<open>The string behind a pointer, where NULL stands for the empty one (\<open>astrblank\<close>).\<close>

definition or_blank :: "'a list option \<Rightarrow> 'a list" where
  "or_blank s = (case s of None \<Rightarrow> [] | Some t \<Rightarrow> t)"

text \<open>A C string in memory.\<close>

definition cstr :: "string \<Rightarrow> char block" where
  "cstr s = map Some (s @ [NUL])"

section \<open>Comparing two strings\<close>

text \<open>The loop of \<open>astrcmpi\<close> and \<open>wstrcmpi\<close>; \<open>v\<close> is the value compared, 0 that of the end.\<close>

fun cmp_loop :: "('a \<Rightarrow> int) \<Rightarrow> 'a list \<Rightarrow> 'a list \<Rightarrow> int" where
  "cmp_loop v [] [] = 0"
| "cmp_loop v [] (y # ys) = (if 0 < v y then - 1 else if 0 > v y then 1 else 0)"
| "cmp_loop v (x # xs) [] = (if v x < 0 then - 1 else if v x > 0 then 1 else 0)"
| "cmp_loop v (x # xs) (y # ys) = (if v x < v y then - 1 else if v x > v y then 1 else cmp_loop v xs ys)"

definition astrcmpi :: "string option \<Rightarrow> string option \<Rightarrow> int" where
  "astrcmpi s1 s2 = cmp_loop upper_val (or_blank s1) (or_blank s2)"

definition wstrcmpi :: "(int \<Rightarrow> int) \<Rightarrow> int list option \<Rightarrow> int list option \<Rightarrow> int" where
  "wstrcmpi towupper s1 s2 = cmp_loop towupper (or_blank s1) (or_blank s2)"

text \<open>The loop with a count, at least 1 on entry.\<close>

fun cmp_n_loop :: "('a \<Rightarrow> int) \<Rightarrow> 'a list \<Rightarrow> 'a list \<Rightarrow> nat \<Rightarrow> int" where
  "cmp_n_loop v [] [] n = 0"
| "cmp_n_loop v [] (y # ys) n = (if 0 < v y then - 1 else if 0 > v y then 1 else 0)"
| "cmp_n_loop v (x # xs) [] n = (if v x < 0 then - 1 else if v x > 0 then 1 else 0)"
| "cmp_n_loop v (x # xs) (y # ys) n =
     (if v x < v y then - 1 else if v x > v y then 1
      else if n - 1 = 0 then 0 else cmp_n_loop v xs ys (n - 1))"

definition strcmp_n_with :: "('a \<Rightarrow> int) \<Rightarrow> 'a list option \<Rightarrow> 'a list option \<Rightarrow> nat \<Rightarrow> int" where
  "strcmp_n_with v s1 s2 n = (if n = 0 then 0 else cmp_n_loop v (or_blank s1) (or_blank s2) n)"

definition astrcmp_n :: "string option \<Rightarrow> string option \<Rightarrow> nat \<Rightarrow> int" where
  "astrcmp_n = strcmp_n_with schar"

definition wstrcmp_n :: "int list option \<Rightarrow> int list option \<Rightarrow> nat \<Rightarrow> int" where
  "wstrcmp_n = strcmp_n_with (\<lambda>c. c)"

definition astrcmpi_n :: "string option \<Rightarrow> string option \<Rightarrow> nat \<Rightarrow> int" where
  "astrcmpi_n = strcmp_n_with upper_val"

definition wstrcmpi_n :: "(int \<Rightarrow> int) \<Rightarrow> int list option \<Rightarrow> int list option \<Rightarrow> nat \<Rightarrow> int" where
  "wstrcmpi_n towupper = strcmp_n_with towupper"

text \<open>The search for a string, without regard to case: the pointer returned, or NULL.\<close>

fun stri_loop :: "('a \<Rightarrow> int) \<Rightarrow> 'a list \<Rightarrow> 'a list \<Rightarrow> 'a list option" where
  "stri_loop v f [] = (if strcmp_n_with v (Some []) (Some f) (length f) = 0 then Some [] else None)"
| "stri_loop v f (c # s) =
     (if strcmp_n_with v (Some (c # s)) (Some f) (length f) = 0 then Some (c # s) else stri_loop v f s)"

definition strstri_with :: "('a \<Rightarrow> int) \<Rightarrow> 'a list option \<Rightarrow> 'a list option \<Rightarrow> 'a list option" where
  "strstri_with v str fnd =
     (case (str, fnd) of (Some s, Some f) \<Rightarrow> stri_loop v f s | _ \<Rightarrow> None)"

definition astrstri :: "string option \<Rightarrow> string option \<Rightarrow> string option" where
  "astrstri = strstri_with upper_val"

definition wstrstri :: "(int \<Rightarrow> int) \<Rightarrow> int list option \<Rightarrow> int list option \<Rightarrow> int list option" where
  "wstrstri towupper = strstri_with towupper"

section \<open>String references\<close>

record strref =
  ref_array :: "string option"
  ref_len :: nat

definition strref_clear :: "strref \<Rightarrow> strref" where
  "strref_clear dst = dst\<lparr>ref_array := None, ref_len := 0\<rparr>"

definition strref_set :: "strref \<Rightarrow> string option \<Rightarrow> nat \<Rightarrow> strref" where
  "strref_set dst array len = dst\<lparr>ref_array := array, ref_len := len\<rparr>"

definition strref_copy :: "strref \<Rightarrow> strref \<Rightarrow> strref" where
  "strref_copy dst src = dst\<lparr>ref_array := ref_array src, ref_len := ref_len src\<rparr>"

definition strref_add :: "strref \<Rightarrow> strref \<Rightarrow> strref" where
  "strref_add dst t =
     (if ref_array dst = None then strref_copy dst t else dst\<lparr>ref_len := ref_len dst + ref_len t\<rparr>)"

definition strref_is_empty :: "strref option \<Rightarrow> bool" where
  "strref_is_empty str \<longleftrightarrow>
     (case str of None \<Rightarrow> True
      | Some r \<Rightarrow> (case ref_array r of None \<Rightarrow> True | Some a \<Rightarrow> ref_len r = 0 \<or> a = []))"

text \<open>A read in a C string; the NUL is the last character that may be read.\<close>

definition ch_at :: "string \<Rightarrow> nat \<Rightarrow> char option" where
  "ch_at s i = (if i < length s then Some (s ! i) else if i = length s then Some NUL else None)"

text \<open>The character number \<open>i\<close> of a reference as the comparisons read it: \<open>v\<close> of it, 0 behind its end.\<close>

definition ref_val :: "(char \<Rightarrow> int) \<Rightarrow> string \<Rightarrow> nat \<Rightarrow> nat \<Rightarrow> int option" where
  "ref_val v a len i = (if i < len then map_option v (ch_at a i) else Some 0)"

text \<open>The loop of \<open>strref_cmp\<close> and \<open>strref_cmpi\<close>; the last argument is the string from \<open>*str2\<close> on.\<close>

fun ref_str_loop :: "(char \<Rightarrow> int) \<Rightarrow> string \<Rightarrow> nat \<Rightarrow> nat \<Rightarrow> string \<Rightarrow> int option" where
  "ref_str_loop v a len i [] =
     Option.bind (ref_val v a len i) (\<lambda>ch1. Some (if ch1 < 0 then - 1 else if ch1 > 0 then 1 else 0))"
| "ref_str_loop v a len i (c # t) =
     Option.bind (ref_val v a len i) (\<lambda>ch1.
       if ch1 < v c then Some (- 1) else if ch1 > v c then Some 1
       else if i < len then ref_str_loop v a len (i + 1) t else Some 0)"

definition strref_cmp_with :: "(char \<Rightarrow> int) \<Rightarrow> strref \<Rightarrow> string option \<Rightarrow> int option" where
  "strref_cmp_with v str1 str2 =
     (if strref_is_empty (Some str1) then Some (if or_blank str2 = [] then 0 else - 1)
      else Option.bind (ref_array str1) (\<lambda>a. ref_str_loop v a (ref_len str1) 0 (or_blank str2)))"

definition strref_cmp :: "strref \<Rightarrow> string option \<Rightarrow> int option" where
  "strref_cmp = strref_cmp_with schar"

definition strref_cmpi :: "strref \<Rightarrow> string option \<Rightarrow> int option" where
  "strref_cmpi = strref_cmp_with upper_val"

text \<open>The loop over two references.\<close>

function ref_ref_loop :: "(char \<Rightarrow> int) \<Rightarrow> string \<Rightarrow> nat \<Rightarrow> string \<Rightarrow> nat \<Rightarrow> nat \<Rightarrow> int option" where
  "ref_ref_loop v a n b m i =
     Option.bind (ref_val v a n i) (\<lambda>ch1. Option.bind (ref_val v b m i) (\<lambda>ch2.
       if ch1 < ch2 then Some (- 1) else if ch1 > ch2 then Some 1
       else if i + 1 \<le> n \<and> i + 1 \<le> m then ref_ref_loop v a n b m (i + 1) else Some 0))"
  by pat_completeness auto
termination by (relation "measure (\<lambda>(v, a, n, b, m, i). n - i)") auto

declare ref_ref_loop.simps [simp del]

definition strref_cmp_strref_with :: "(char \<Rightarrow> int) \<Rightarrow> strref \<Rightarrow> strref \<Rightarrow> int option" where
  "strref_cmp_strref_with v str1 str2 =
     (if strref_is_empty (Some str1) then Some (if strref_is_empty (Some str2) then 0 else - 1)
      else if strref_is_empty (Some str2) then Some (- 1)
      else Option.bind (ref_array str1) (\<lambda>a. Option.bind (ref_array str2) (\<lambda>b.
             ref_ref_loop v a (ref_len str1) b (ref_len str2) 0)))"

definition strref_cmp_strref :: "strref \<Rightarrow> strref \<Rightarrow> int option" where
  "strref_cmp_strref = strref_cmp_strref_with schar"

definition strref_cmpi_strref :: "strref \<Rightarrow> strref \<Rightarrow> int option" where
  "strref_cmpi_strref = strref_cmp_strref_with upper_val"

section \<open>What the comparisons compute\<close>

text \<open>A C string has no NUL in it; a reference lies in its string.\<close>

definition is_cstr :: "string \<Rightarrow> bool" where
  "is_cstr s \<longleftrightarrow> NUL \<notin> set s"

definition ref_ok :: "strref \<Rightarrow> bool" where
  "ref_ok r \<longleftrightarrow> (case ref_array r of None \<Rightarrow> True | Some a \<Rightarrow> is_cstr a \<and> ref_len r \<le> length a)"

definition ref_text :: "strref \<Rightarrow> string" where
  "ref_text r = (case ref_array r of None \<Rightarrow> [] | Some a \<Rightarrow> take (ref_len r) a)"

text \<open>The order in which the texts are compared: by the first difference of the values, the end of a text
  counting as 0. Bytes above 127 are negative and come before the end.\<close>

definition text_less :: "('a \<Rightarrow> int) \<Rightarrow> 'a list \<Rightarrow> 'a list \<Rightarrow> bool" where
  "text_less v xs ys \<longleftrightarrow> ord_class.lexordp (map v xs @ [0]) (map v ys @ [0])"

definition text_order :: "('a \<Rightarrow> int) \<Rightarrow> 'a list \<Rightarrow> 'a list \<Rightarrow> int" where
  "text_order v xs ys = (if text_less v xs ys then - 1 else if text_less v ys xs then 1 else 0)"

lemma schar_0: "schar c = 0 \<longleftrightarrow> c = NUL"
  by (cases c) (auto simp: schar_def NUL_def Let_def)

lemma of_char_bound: "(of_char c :: nat) < 256"
  using of_char_mod_256 [of c, where ?'a = nat] by (metis mod_less_divisor zero_less_numeral)

lemma to_upper_NUL: "to_upper c = NUL \<longleftrightarrow> c = NUL"
proof (cases "97 \<le> schar c \<and> schar c \<le> 122")
  case True
  then have "97 \<le> (of_char c :: nat)" "(of_char c :: nat) < 128"
    using of_char_bound [of c] unfolding schar_def Let_def by (simp_all only: split: if_splits, linarith+)
  then have k: "0 < (of_char c - 32 :: nat)" "(of_char c - 32 :: nat) < 256" by simp_all
  have "(of_char (char_of (of_char c - 32 :: nat)) :: nat) \<noteq> of_char NUL"
    using k by (simp add: NUL_def)
  then have "char_of (of_char c - 32 :: nat) \<noteq> NUL" by metis
  moreover have "c \<noteq> NUL" using True by (auto simp: NUL_def schar_def)
  ultimately show ?thesis using True by (simp add: to_upper_def)
qed (auto simp: to_upper_def)

lemma upper_val_0: "upper_val c = 0 \<longleftrightarrow> c = NUL"
  by (simp add: upper_val_def schar_0 to_upper_NUL)

lemma schar_inj: "schar c = schar d \<longleftrightarrow> c = d"
proof
  assume "schar c = schar d"
  then have "(of_char c :: nat) = of_char d" using of_char_bound [of c] of_char_bound [of d]
    unfolding schar_def Let_def by (simp only: split: if_splits; linarith)
  then show "c = d" by simp
qed simp

lemma text_less_Cons: "text_less v (x # xs) (y # ys) \<longleftrightarrow> v x < v y \<or> v x = v y \<and> text_less v xs ys"
  by (auto simp: text_less_def)

lemma cmp_loop_order:
  "(\<forall>c \<in> set xs \<union> set ys. v c \<noteq> 0) \<Longrightarrow> cmp_loop v xs ys = text_order v xs ys"
  by (induction v xs ys rule: cmp_loop.induct) (auto simp: text_order_def text_less_def)

lemma cmp_loop_zero:
  "(\<forall>c \<in> set xs \<union> set ys. v c \<noteq> 0) \<Longrightarrow> cmp_loop v xs ys = 0 \<longleftrightarrow> map v xs = map v ys"
  by (induction v xs ys rule: cmp_loop.induct) auto

lemma cmp_n_loop_take: "0 < n \<Longrightarrow> cmp_n_loop v xs ys n = cmp_loop v (take n xs) (take n ys)"
proof (induction v xs ys n rule: cmp_n_loop.induct)
  case (4 v x xs y ys n)
  then show ?case by (cases n; cases "n - 1 = 0") auto
qed (auto simp: take_Cons split: nat.splits)

lemma strcmp_n_take: "strcmp_n_with v s1 s2 n = cmp_loop v (take n (or_blank s1)) (take n (or_blank s2))"
  by (simp add: strcmp_n_with_def cmp_n_loop_take)

lemma ref_str_loop_cmp:
  "i \<le> len \<Longrightarrow> len \<le> length a \<Longrightarrow> v NUL = 0 \<Longrightarrow> (\<forall>c \<in> set t. v c \<noteq> 0) \<Longrightarrow>
   ref_str_loop v a len i t = Some (cmp_loop v (drop i (take len a)) t)"
proof (induction v a len i t rule: ref_str_loop.induct)
  case (1 v a len i)
  then show ?case by (cases "i < len") (auto simp: ref_val_def ch_at_def simp flip: Cons_nth_drop_Suc)
next
  case (2 v a len i c t)
  show ?case
  proof (cases "i < len")
    case True
    then have "drop i (take len a) = a ! i # drop (Suc i) (take len a)" using 2(3) by (simp flip: Cons_nth_drop_Suc)
    then show ?thesis using True 2 by (auto simp: ref_val_def ch_at_def)
  qed (use 2 in \<open>auto simp: ref_val_def\<close>)
qed

lemma ref_ref_loop_cmp:
  "i \<le> n \<Longrightarrow> i \<le> m \<Longrightarrow> n \<le> length a \<Longrightarrow> m \<le> length b \<Longrightarrow> (\<forall>c \<in> set a \<union> set b. v c \<noteq> 0) \<Longrightarrow>
   ref_ref_loop v a n b m i = Some (cmp_loop v (drop i (take n a)) (drop i (take m b)))"
proof (induction v a n b m i rule: ref_ref_loop.induct)
  case (1 v a n b m i)
  have a: "drop i (take n a) = (if i < n then a ! i # drop (Suc i) (take n a) else [])"
    using 1(4) by (simp flip: Cons_nth_drop_Suc)
  have b: "drop i (take m b) = (if i < m then b ! i # drop (Suc i) (take m b) else [])"
    using 1(5) by (simp flip: Cons_nth_drop_Suc)
  have z: "i < n \<Longrightarrow> v (a ! i) \<noteq> 0" "i < m \<Longrightarrow> v (b ! i) \<noteq> 0" using 1(4-6) by auto
  show ?case using 1 z by (subst ref_ref_loop.simps, subst a, subst b) (auto simp: ref_val_def ch_at_def)
qed

lemma ref_empty: "ref_ok r \<Longrightarrow> strref_is_empty (Some r) \<longleftrightarrow> ref_text r = []"
  by (auto simp: ref_ok_def strref_is_empty_def ref_text_def split: option.splits)

lemma strref_cmp_with_text:
  assumes "ref_ok r" "is_cstr (or_blank t)" "\<And>c. v c = 0 \<longleftrightarrow> c = NUL"
  shows "strref_cmp_with v r t =
    Some (if ref_text r = [] then (if or_blank t = [] then 0 else - 1) else cmp_loop v (ref_text r) (or_blank t))"
proof (cases "ref_text r = []")
  case False
  then obtain a where a: "ref_array r = Some a" "ref_len r \<le> length a"
    using assms(1) by (auto simp: ref_ok_def ref_text_def split: option.splits)
  have "ref_str_loop v a (ref_len r) 0 (or_blank t) = Some (cmp_loop v (drop 0 (take (ref_len r) a)) (or_blank t))"
    using a(2) assms(2,3) by (intro ref_str_loop_cmp) (auto simp: is_cstr_def)
  then show ?thesis using False a by (simp add: strref_cmp_with_def ref_empty [OF assms(1)] ref_text_def)
qed (simp add: strref_cmp_with_def ref_empty [OF assms(1)])

lemma strref_cmp_strref_with_text:
  assumes "ref_ok r1" "ref_ok r2" "\<And>c. v c = 0 \<longleftrightarrow> c = NUL"
  shows "strref_cmp_strref_with v r1 r2 =
    Some (if ref_text r1 = [] then (if ref_text r2 = [] then 0 else - 1)
          else if ref_text r2 = [] then - 1 else cmp_loop v (ref_text r1) (ref_text r2))"
proof (cases "ref_text r1 = [] \<or> ref_text r2 = []")
  case False
  then obtain a b where a: "ref_array r1 = Some a" "ref_len r1 \<le> length a" "is_cstr a"
    and b: "ref_array r2 = Some b" "ref_len r2 \<le> length b" "is_cstr b"
    using assms(1,2) by (auto simp: ref_ok_def ref_text_def split: option.splits)
  have "ref_ref_loop v a (ref_len r1) b (ref_len r2) 0
    = Some (cmp_loop v (drop 0 (take (ref_len r1) a)) (drop 0 (take (ref_len r2) b)))"
    using a b assms(3) by (intro ref_ref_loop_cmp) (auto simp: is_cstr_def)
  then show ?thesis using False a b
    by (simp add: strref_cmp_strref_with_def ref_empty [OF assms(1)] ref_empty [OF assms(2)] ref_text_def)
qed (use assms in \<open>auto simp: strref_cmp_strref_with_def ref_empty\<close>)

lemma ref_text_cstr: "ref_ok r \<Longrightarrow> is_cstr (ref_text r)"
  by (auto simp: ref_ok_def ref_text_def is_cstr_def dest: in_set_takeD split: option.splits)

text \<open>
  The comparisons of a reference with a string are the order of the texts, and 0 exactly for equal texts;
  an empty reference is before every other text.
\<close>

theorem strref_cmp_order:
  assumes "ref_ok r" and "is_cstr (or_blank t)"
  shows "strref_cmp r t = Some (if ref_text r = [] then (if or_blank t = [] then 0 else - 1)
                                else text_order schar (ref_text r) (or_blank t)) \<and>
         (strref_cmp r t = Some 0 \<longleftrightarrow> ref_text r = or_blank t) \<and>
         (strref_cmpi r t = Some 0 \<longleftrightarrow> map to_upper (ref_text r) = map to_upper (or_blank t))"
proof -
  have z: "\<forall>c \<in> set (ref_text r) \<union> set (or_blank t). schar c \<noteq> 0"
    "\<forall>c \<in> set (ref_text r) \<union> set (or_blank t). upper_val c \<noteq> 0"
    using ref_text_cstr [OF assms(1)] assms(2) by (auto simp: is_cstr_def schar_0 upper_val_0)
  have i: "map schar xs = map schar ys \<longleftrightarrow> xs = ys" for xs ys
    by (simp add: inj_map_eq_map inj_def schar_inj)
  have u: "map upper_val xs = map upper_val ys \<longleftrightarrow> map to_upper xs = map to_upper ys" for xs ys
    using i [of "map to_upper xs" "map to_upper ys"] by (simp add: upper_val_def [abs_def] comp_def)
  show ?thesis
    unfolding strref_cmp_def strref_cmpi_def
      strref_cmp_with_text [OF assms schar_0] strref_cmp_with_text [OF assms upper_val_0]
    by (auto simp: cmp_loop_order [OF z(1), symmetric] cmp_loop_zero [OF z(1)] cmp_loop_zero [OF z(2)] i u)
qed

theorem strref_cmp_order_witness:
  "strref_cmp \<lparr>ref_array = Some ''key=value'', ref_len = 3\<rparr> (Some ''key'') = Some 0 \<and> ref_ok \<lparr>ref_array = Some ''key=value'', ref_len = 3\<rparr>"
  using strref_cmp_order [of "\<lparr>ref_array = Some ''key=value'', ref_len = 3\<rparr>" "Some ''key''"]
  by (auto simp: ref_ok_def is_cstr_def ref_text_def or_blank_def NUL_def)

text \<open>
  Two references: 0 exactly for equal texts, but the order is not one: a text is before the empty one and the
  empty one before it.
\<close>

theorem strref_strref_not_antisymmetric:
  assumes "ref_ok r1" and "ref_ok r2"
  shows "(strref_cmp_strref r1 r2 = Some 0 \<longleftrightarrow> ref_text r1 = ref_text r2) \<and>
         (strref_cmpi_strref r1 r2 = Some 0 \<longleftrightarrow> map to_upper (ref_text r1) = map to_upper (ref_text r2)) \<and>
         (ref_text r1 \<noteq> [] \<and> ref_text r2 = [] \<longrightarrow>
            strref_cmp_strref r1 r2 = Some (- 1) \<and> strref_cmp_strref r2 r1 = Some (- 1))"
proof -
  have z: "\<forall>c \<in> set (ref_text r1) \<union> set (ref_text r2). schar c \<noteq> 0"
    "\<forall>c \<in> set (ref_text r1) \<union> set (ref_text r2). upper_val c \<noteq> 0"
    using ref_text_cstr [OF assms(1)] ref_text_cstr [OF assms(2)] by (auto simp: is_cstr_def schar_0 upper_val_0)
  have i: "map schar xs = map schar ys \<longleftrightarrow> xs = ys" for xs ys
    by (simp add: inj_map_eq_map inj_def schar_inj)
  have u: "map upper_val xs = map upper_val ys \<longleftrightarrow> map to_upper xs = map to_upper ys" for xs ys
    using i [of "map to_upper xs" "map to_upper ys"] by (simp add: upper_val_def [abs_def] comp_def)
  show ?thesis
    unfolding strref_cmp_strref_def strref_cmpi_strref_def
      strref_cmp_strref_with_text [OF assms schar_0] strref_cmp_strref_with_text [OF assms upper_val_0]
      strref_cmp_strref_with_text [OF assms(2,1) schar_0]
    by (auto simp: cmp_loop_zero [OF z(1)] cmp_loop_zero [OF z(2)] i u)
qed

theorem strref_strref_not_antisymmetric_witness:
  "strref_cmp_strref \<lparr>ref_array = Some ''a'', ref_len = 1\<rparr> \<lparr>ref_array = Some ''a'', ref_len = 0\<rparr> = Some (- 1) \<and>
   strref_cmp_strref \<lparr>ref_array = Some ''a'', ref_len = 0\<rparr> \<lparr>ref_array = Some ''a'', ref_len = 1\<rparr> = Some (- 1)"
  using strref_strref_not_antisymmetric [of "\<lparr>ref_array = Some ''a'', ref_len = 1\<rparr>" "\<lparr>ref_array = Some ''a'', ref_len = 0\<rparr>"]
  by (simp add: ref_ok_def is_cstr_def ref_text_def NUL_def)

text \<open>
  The comparisons of strings are the order of their texts, those with a count the order of their first
  characters; NULL is the empty string.
\<close>

theorem strcmp_order:
  assumes "is_cstr (or_blank s)" and "is_cstr (or_blank t)"
  shows "astrcmpi s t = text_order upper_val (or_blank s) (or_blank t) \<and>
         astrcmp_n s t n = text_order schar (take n (or_blank s)) (take n (or_blank t)) \<and>
         astrcmpi_n s t n = text_order upper_val (take n (or_blank s)) (take n (or_blank t))"
  using assms unfolding astrcmpi_def astrcmp_n_def astrcmpi_n_def strcmp_n_take
  by (intro conjI cmp_loop_order) (auto simp: is_cstr_def schar_0 upper_val_0 dest: in_set_takeD)

theorem strcmp_order_witness:
  "astrcmpi (Some ''Stream'') (Some ''STREAM'') = text_order upper_val ''Stream'' ''STREAM'' \<and>
   astrcmpi (Some ''Stream'') (Some ''STREAM'') = 0"
  using strcmp_order [of "Some ''Stream''" "Some ''STREAM''" 3]
  by (auto simp: is_cstr_def or_blank_def NUL_def astrcmpi_def upper_val_def to_upper_def schar_def Let_def)

text \<open>\<open>astrstri\<close> returns the first place where the text follows, without regard to case.\<close>

definition match_i :: "string \<Rightarrow> string \<Rightarrow> bool" where
  "match_i fnd s \<longleftrightarrow> map to_upper (take (length fnd) s) = map to_upper fnd"

fun first_match :: "string \<Rightarrow> string \<Rightarrow> string option" where
  "first_match fnd [] = (if match_i fnd [] then Some [] else None)"
| "first_match fnd (c # s) = (if match_i fnd (c # s) then Some (c # s) else first_match fnd s)"

lemma stri_match:
  assumes "is_cstr s" "is_cstr f"
  shows "strcmp_n_with upper_val (Some s) (Some f) (length f) = 0 \<longleftrightarrow> match_i f s"
proof -
  have "\<forall>c \<in> set (take (length f) s) \<union> set f. upper_val c \<noteq> 0"
    using assms by (auto simp: is_cstr_def upper_val_0 dest: in_set_takeD)
  moreover have "map upper_val xs = map upper_val ys \<longleftrightarrow> map to_upper xs = map to_upper ys" for xs ys
    using inj_map_eq_map [of schar "map to_upper xs" "map to_upper ys"]
    by (simp add: upper_val_def [abs_def] comp_def inj_def schar_inj)
  ultimately show ?thesis by (simp add: strcmp_n_take or_blank_def cmp_loop_zero match_i_def)
qed

theorem astrstri_first:
  assumes "is_cstr s" and "is_cstr f"
  shows "astrstri (Some s) (Some f) = first_match f s \<and> astrstri None (Some f) = None \<and> astrstri (Some s) None = None"
proof -
  have "stri_loop upper_val f s = first_match f s" using assms(1)
  proof (induction s)
    case (Cons c s)
    then show ?case using stri_match [OF Cons.prems assms(2)] by (auto simp: is_cstr_def)
  qed (use stri_match [OF _ assms(2), of "[]"] in \<open>auto simp: is_cstr_def\<close>)
  then show ?thesis by (simp add: astrstri_def strstri_with_def)
qed

theorem astrstri_first_witness:
  "astrstri (Some ''Content-Type'') (Some ''type'') = Some ''Type''"
  using astrstri_first [of "''Content-Type''" "''type''"]
  by (auto simp: is_cstr_def NUL_def match_i_def to_upper_def schar_def Let_def char_of_def bit_iff_odd)

end
