(* ===== verification/Lexer.thy ===== *)
theory Lexer
  imports CString
begin

text \<open>
  The rest of mgw-core/util/source/lexer.c and lexer.h: the tests for numbers, base tokens, row and column
  of a place in a text, and the list of errors, an array of DArray. A pointer into the text of a lexer is
  its offset. The tokens are compared with a plain tokenizer on strings.
\<close>

section \<open>Classes of characters\<close>

definition is_whitespace :: "char \<Rightarrow> bool" where
  "is_whitespace ch \<longleftrightarrow> ch = CHR '' '' \<or> ch = CHR 0x0D \<or> ch = CHR 0x09 \<or> ch = CHR 0x0A"

definition is_newline :: "char \<Rightarrow> bool" where
  "is_newline ch \<longleftrightarrow> ch = CHR 0x0D \<or> ch = CHR 0x0A"

definition is_space_or_tab :: "char \<Rightarrow> bool" where
  "is_space_or_tab ch \<longleftrightarrow> ch = CHR '' '' \<or> ch = CHR 0x09"

definition is_newline_pair :: "char \<Rightarrow> char \<Rightarrow> bool" where
  "is_newline_pair ch1 ch2 \<longleftrightarrow> (ch1 = CHR 0x0D \<and> ch2 = CHR 0x0A) \<or> (ch1 = CHR 0x0A \<and> ch2 = CHR 0x0D)"

text \<open>The test written out in the loops: neither above \<open>'9'\<close> nor below \<open>'0'\<close>.\<close>

definition is_digit_ch :: "char \<Rightarrow> bool" where
  "is_digit_ch ch \<longleftrightarrow> \<not> (schar ch > 57 \<or> schar ch < 48)"

section \<open>Numbers\<close>

text \<open>The loop of \<open>valid_int_str\<close>: the string from \<open>*str\<close> on and the characters left, at least 1.\<close>

fun int_loop :: "string \<Rightarrow> nat \<Rightarrow> bool" where
  "int_loop [] n = False"
| "int_loop (c # s) n =
     (if \<not> is_digit_ch c then False else if s = [] \<or> n - 1 = 0 then True else int_loop s (n - 1))"

definition skip_sign :: "string \<Rightarrow> string" where
  "skip_sign s = (case s of [] \<Rightarrow> [] | c # t \<Rightarrow> if c = CHR ''-'' \<or> c = CHR ''+'' then t else s)"

definition valid_int_str :: "string option \<Rightarrow> nat \<Rightarrow> bool" where
  "valid_int_str str n =
     (case str of
        None \<Rightarrow> False
      | Some s \<Rightarrow> if s = [] then False
                  else (let n = (if n = 0 then length s else n) in int_loop (skip_sign s) n))"

text \<open>The loop of \<open>valid_float_str\<close> with its flags \<open>found_num\<close>, \<open>found_exp\<close> and \<open>found_dec\<close>.\<close>

fun float_loop :: "string \<Rightarrow> nat \<Rightarrow> bool \<Rightarrow> bool \<Rightarrow> bool \<Rightarrow> bool" where
  "float_loop [] n num ex dec = False"
| "float_loop (c # s) n num ex dec =
     (let next = (\<lambda>num ex dec. if s = [] \<or> n - 1 = 0 then num else float_loop s (n - 1) num ex dec) in
      if c = CHR ''.'' then (if dec \<or> ex \<or> \<not> num then False else next num ex True)
      else if c = CHR ''e'' then (if ex \<or> \<not> num then False else next False True dec)
      else if c = CHR ''-'' \<or> c = CHR ''+'' then (if \<not> ex \<or> \<not> num then False else next num ex dec)
      else if \<not> is_digit_ch c then False
      else next True ex dec)"

definition valid_float_str :: "string option \<Rightarrow> nat \<Rightarrow> bool" where
  "valid_float_str str n =
     (case str of
        None \<Rightarrow> False
      | Some s \<Rightarrow> if s = [] then False
                  else (let n = (if n = 0 then length s else n) in float_loop (skip_sign s) n False False False))"

definition valid_int_strref :: "strref \<Rightarrow> bool" where
  "valid_int_strref str = valid_int_str (ref_array str) (ref_len str)"

definition valid_float_strref :: "strref \<Rightarrow> bool" where
  "valid_float_strref str = valid_float_str (ref_array str) (ref_len str)"

section \<open>Tokens\<close>

datatype base_token_type = BASETOKEN_NONE | BASETOKEN_ALPHA | BASETOKEN_DIGIT | BASETOKEN_WHITESPACE | BASETOKEN_OTHER

datatype ignore_whitespace = PARSE_WHITESPACE | IGNORE_WHITESPACE

text \<open>The text of a token: where it starts in the text of the lexer, \<open>None\<close> for NULL, and its length.\<close>

record base_token =
  tok_array :: "nat option"
  tok_len :: nat
  tok_type :: base_token_type
  passed_whitespace :: bool

record lexer =
  lx_text :: "string option"
  lx_offset :: nat

definition base_token_clear :: base_token where
  "base_token_clear = \<lparr>tok_array = None, tok_len = 0, tok_type = BASETOKEN_NONE, passed_whitespace = False\<rparr>"

definition lexer_init :: lexer where
  "lexer_init = \<lparr>lx_text = None, lx_offset = 0\<rparr>"

text \<open>\<open>lexer_start\<close> copies the text, \<open>lexer_start_move\<close> takes it over.\<close>

definition lexer_start :: "lexer \<Rightarrow> string option \<Rightarrow> lexer" where
  "lexer_start lx text = lx\<lparr>lx_text := text, lx_offset := 0\<rparr>"

definition lexer_reset :: "lexer \<Rightarrow> lexer" where
  "lexer_reset lx = lx\<lparr>lx_offset := 0\<rparr>"

definition get_char_token_type :: "char \<Rightarrow> base_token_type" where
  "get_char_token_type ch =
     (if is_whitespace ch then BASETOKEN_WHITESPACE
      else if schar ch \<ge> 48 \<and> schar ch \<le> 57 then BASETOKEN_DIGIT
      else if (schar ch \<ge> 97 \<and> schar ch \<le> 122) \<or> (schar ch \<ge> 65 \<and> schar ch \<le> 90) then BASETOKEN_ALPHA
      else BASETOKEN_OTHER)"

text \<open>
  The loop of \<open>lexer_getbasetoken\<close> with the offset \<open>p\<close> of the next character: \<open>token_start\<close>, \<open>type\<close> and
  \<open>offset\<close> behind it.
\<close>

function token_loop ::
  "string \<Rightarrow> bool \<Rightarrow> nat \<Rightarrow> nat option \<Rightarrow> base_token_type \<Rightarrow> nat option \<times> base_token_type \<times> nat" where
  "token_loop s ignore p start ty =
     (if length s \<le> p then (start, ty, p)
      else
        (let ch = s ! p; new_type = get_char_token_type ch in
         if ty = BASETOKEN_NONE then
           (if new_type = BASETOKEN_WHITESPACE \<and> ignore then token_loop s ignore (p + 1) start ty
            else if new_type \<noteq> BASETOKEN_DIGIT \<and> new_type \<noteq> BASETOKEN_ALPHA
            then (Some p, new_type,
                  if is_newline ch \<and> p + 1 < length s \<and> is_newline_pair ch (s ! (p + 1)) then p + 2 else p + 1)
            else token_loop s ignore (p + 1) (Some p) new_type)
         else if ty \<noteq> new_type then (start, ty, p)
         else token_loop s ignore (p + 1) start ty))"
  by pat_completeness auto
termination by (relation "measure (\<lambda>(s, ignore, p, start, ty). length s - p)") auto

declare token_loop.simps [simp del]

definition lexer_getbasetoken ::
  "lexer \<Rightarrow> base_token \<Rightarrow> ignore_whitespace \<Rightarrow> bool \<times> base_token \<times> lexer" where
  "lexer_getbasetoken lx token iws =
     (case lx_text lx of
        None \<Rightarrow> (False, token, lx)
      | Some s \<Rightarrow>
          (case token_loop s (iws = IGNORE_WHITESPACE) (lx_offset lx) None BASETOKEN_NONE of
             (start, ty, offset) \<Rightarrow>
               (let lx = lx\<lparr>lx_offset := offset\<rparr> in
                case start of
                  None \<Rightarrow> (False, token, lx)
                | Some q \<Rightarrow>
                    if offset > q
                    then (True, token\<lparr>tok_array := Some q, tok_len := offset - q, tok_type := ty\<rparr>, lx)
                    else (False, token, lx))))"

section \<open>Rows and columns\<close>

definition newline_size :: "string \<Rightarrow> nat" where
  "newline_size array =
     (if take 2 array = [CHR 0x0D, CHR 0x0A] \<or> take 2 array = [CHR 0x0A, CHR 0x0D] then 2
      else (case array of [] \<Rightarrow> 0 | c # _ \<Rightarrow> if c = CHR 0x0D \<or> c = CHR 0x0A then 1 else 0))"

text \<open>
  The loop of \<open>lexer_getstroffset\<close> from the offset \<open>text\<close> to \<open>str\<close>. A newline has a size, so that the loop
  advances; behind the NUL nothing may be read.
\<close>

function offset_loop :: "string \<Rightarrow> nat \<Rightarrow> nat \<Rightarrow> nat \<Rightarrow> nat \<Rightarrow> (nat \<times> nat) option" where
  "offset_loop s text str cur_row cur_col =
     (if text < str then
        Option.bind (ch_at s text) (\<lambda>ch.
          if is_newline ch
          then offset_loop s (text + (newline_size (drop text s) - 1) + 1) str (wrap32 (cur_row + 1)) 1
          else offset_loop s (text + 1) str cur_row (wrap32 (cur_col + 1)))
      else Some (cur_row, cur_col))"
  by pat_completeness auto
termination by (relation "measure (\<lambda>(s, text, str, cur_row, cur_col). str - text)") auto

declare offset_loop.simps [simp del]

text \<open>The row and column written, \<open>Some None\<close> when nothing is, for \<open>str\<close> NULL.\<close>

definition lexer_getstroffset :: "lexer \<Rightarrow> nat option \<Rightarrow> (nat \<times> nat) option option" where
  "lexer_getstroffset lx str =
     (case str of
        None \<Rightarrow> Some None
      | Some q \<Rightarrow> Option.bind (lx_text lx) (\<lambda>s. map_option Some (offset_loop s 0 q 1 1)))"

section \<open>Errors\<close>

definition LEX_ERROR :: int where "LEX_ERROR = 0"
definition LEX_WARNING :: int where "LEX_WARNING = 1"

record error_item =
  ei_error :: string
  ei_file :: string
  ei_row :: nat
  ei_column :: nat
  ei_level :: int

type_synonym error_data = "error_item darray"

text \<open>The data is \<open>None\<close> for NULL.\<close>

definition error_data_add ::
  "error_data option \<Rightarrow> string \<Rightarrow> nat \<Rightarrow> nat \<Rightarrow> string \<Rightarrow> int \<Rightarrow> error_data option option" where
  "error_data_add data file row column msg level =
     (case data of
        None \<Rightarrow> Some None
      | Some d \<Rightarrow>
          map_option (\<lambda>x. Some (snd x))
            (darray_push_back d \<lparr>ei_error = msg, ei_file = file, ei_row = row, ei_column = column, ei_level = level\<rparr>))"

text \<open>The loops over the items, \<open>i\<close> and the items left.\<close>

fun type_count_loop :: "error_item block \<Rightarrow> int \<Rightarrow> nat \<Rightarrow> nat \<Rightarrow> nat option" where
  "type_count_loop b ty i 0 = Some 0"
| "type_count_loop b ty i (Suc n) =
     (if i < length b
      then Option.bind (b ! i) (\<lambda>e. map_option (\<lambda>k. if ei_level e = ty then k + 1 else k)
             (type_count_loop b ty (Suc i) n))
      else None)"

definition error_data_type_count :: "error_data \<Rightarrow> int \<Rightarrow> nat option" where
  "error_data_type_count ed ty = type_count_loop (da_array ed) ty 0 (da_num ed)"

fun has_errors_loop :: "error_item block \<Rightarrow> nat \<Rightarrow> nat \<Rightarrow> bool option" where
  "has_errors_loop b i 0 = Some False"
| "has_errors_loop b i (Suc n) =
     (if i < length b
      then Option.bind (b ! i) (\<lambda>e. if ei_level e = LEX_ERROR then Some True else has_errors_loop b (Suc i) n)
      else None)"

definition error_data_has_errors :: "error_data \<Rightarrow> bool option" where
  "error_data_has_errors ed = has_errors_loop (da_array ed) 0 (da_num ed)"

definition error_data_item :: "error_data \<Rightarrow> nat \<Rightarrow> error_item option" where
  "error_data_item ed idx = (if idx < da_capacity ed then da_array ed ! idx else None)"

section \<open>The numbers accepted\<close>

lemma int_loop_digits: "0 < n \<Longrightarrow> int_loop s n \<longleftrightarrow> s \<noteq> [] \<and> (\<forall>c \<in> set (take n s). is_digit_ch c)"
proof (induction s n rule: int_loop.induct)
  case (2 c s n)
  then show ?case by (cases n; cases "n - 1") auto
qed simp

lemma length_skip_sign: "length (skip_sign s) \<le> length s"
  by (auto simp: skip_sign_def split: list.splits)

lemma valid_int_str_digits:
  "valid_int_str (Some s) n \<longleftrightarrow>
     skip_sign s \<noteq> [] \<and> (\<forall>c \<in> set (take (if n = 0 then length s else n) (skip_sign s)). is_digit_ch c)"
proof (cases "s = []")
  case False
  then have "0 < (if n = 0 then length s else n)" by simp
  then show ?thesis using False by (simp add: valid_int_str_def Let_def int_loop_digits del: if_split)
qed (simp add: valid_int_str_def skip_sign_def)

text \<open>
  \<open>valid_int_str\<close> on a whole string accepts exactly a sign or none and then one or more digits.
\<close>

theorem valid_int_str_language:
  "valid_int_str (Some s) 0 \<longleftrightarrow>
     (\<exists>sign ds. s = sign @ ds \<and> (sign = [] \<or> sign = ''-'' \<or> sign = ''+'') \<and> ds \<noteq> [] \<and> (\<forall>c \<in> set ds. is_digit_ch c))"
proof -
  have "valid_int_str (Some s) 0 \<longleftrightarrow> skip_sign s \<noteq> [] \<and> (\<forall>c \<in> set (skip_sign s). is_digit_ch c)"
    using length_skip_sign [of s] by (simp add: valid_int_str_digits)
  also have "\<dots> \<longleftrightarrow> (\<exists>sign ds. s = sign @ ds \<and> (sign = [] \<or> sign = ''-'' \<or> sign = ''+'') \<and> ds \<noteq> [] \<and>
      (\<forall>c \<in> set ds. is_digit_ch c))" (is "?l \<longleftrightarrow> ?r")
  proof
    assume ?l
    moreover have "\<exists>sign. s = sign @ skip_sign s \<and> (sign = [] \<or> sign = ''-'' \<or> sign = ''+'')"
      by (auto simp: skip_sign_def split: list.splits)
    ultimately show ?r by blast
  next
    assume ?r
    then obtain sign ds where s: "s = sign @ ds" "sign = [] \<or> sign = ''-'' \<or> sign = ''+''" "ds \<noteq> []"
      "\<forall>c \<in> set ds. is_digit_ch c" by blast
    moreover have "hd ds \<noteq> CHR ''-''" "hd ds \<noteq> CHR ''+''"
      using s(3,4) by (auto simp: is_digit_ch_def schar_def neq_Nil_conv)
    ultimately have "skip_sign s = ds" by (auto simp: skip_sign_def neq_Nil_conv)
    then show ?l using s by simp
  qed
  finally show ?thesis .
qed

text \<open>
  With a length the sign is not counted: one character behind the reference is read, and a negative number in
  front of anything but a digit is refused.
\<close>

theorem signed_strref_reads_on:
  assumes "\<not> is_digit_ch c"
  shows "\<not> valid_int_strref \<lparr>ref_array = Some (CHR ''-'' # ds @ c # rest), ref_len = Suc (length ds)\<rparr>"
  using assms by (auto simp: valid_int_strref_def valid_int_str_digits skip_sign_def)

theorem signed_strref_reads_on_witness:
  "\<not> valid_int_strref \<lparr>ref_array = Some ''-12, 3'', ref_len = 3\<rparr> \<and> valid_int_str (Some ''-12'') 0"
  using signed_strref_reads_on [of "CHR '',''" "''12''" "'' 3''"]
  by (simp add: is_digit_ch_def schar_def valid_int_str_def skip_sign_def flip: numeral_3_eq_3)

text \<open>The form of the numbers \<open>valid_float_str\<close> accepts on a whole string.\<close>

definition is_sign :: "char \<Rightarrow> bool" where
  "is_sign c \<longleftrightarrow> c = CHR ''-'' \<or> c = CHR ''+''"

text \<open>Behind the exponent's \<open>e\<close>: a digit, then digits and signs.\<close>

definition exp_form :: "string \<Rightarrow> bool" where
  "exp_form t \<longleftrightarrow> t \<noteq> [] \<and> is_digit_ch (hd t) \<and> (\<forall>c \<in> set t. is_digit_ch c \<or> is_sign c)"

definition tail_form :: "string \<Rightarrow> bool" where
  "tail_form t \<longleftrightarrow> t = [] \<or> (hd t = CHR ''e'' \<and> exp_form (tl t))"

definition frac_form :: "string \<Rightarrow> bool" where
  "frac_form t \<longleftrightarrow> tail_form (dropWhile is_digit_ch (if t \<noteq> [] \<and> hd t = CHR ''.'' then tl t else t))"

definition float_form :: "string \<Rightarrow> bool" where
  "float_form t \<longleftrightarrow> t \<noteq> [] \<and> is_digit_ch (hd t) \<and> frac_form (dropWhile is_digit_ch t)"

lemma not_digit [simp]: "\<not> is_digit_ch (CHR ''.'')" "\<not> is_digit_ch (CHR ''e'')" "\<not> is_digit_ch (CHR ''-'')" "\<not> is_digit_ch (CHR ''+'')"
  by (simp_all add: is_digit_ch_def schar_def)

lemma digit_not [simp]: "is_digit_ch c \<Longrightarrow> c \<noteq> CHR ''.''" "is_digit_ch c \<Longrightarrow> c \<noteq> CHR ''e''" "is_digit_ch c \<Longrightarrow> c \<noteq> CHR ''-''"
  "is_digit_ch c \<Longrightarrow> c \<noteq> CHR ''+''"
  by auto

fun float_run :: "string \<Rightarrow> bool \<Rightarrow> bool \<Rightarrow> bool \<Rightarrow> bool" where
  "float_run [] num ex dec = num"
| "float_run (c # s) num ex dec =
     (if c = CHR ''.'' then \<not> dec \<and> \<not> ex \<and> num \<and> float_run s num ex True
      else if c = CHR ''e'' then \<not> ex \<and> num \<and> float_run s False True dec
      else if is_sign c then ex \<and> num \<and> float_run s num ex dec
      else is_digit_ch c \<and> float_run s True ex dec)"

lemma float_loop_run: "length s \<le> n \<Longrightarrow> float_loop s n num ex dec \<longleftrightarrow> s \<noteq> [] \<and> float_run s num ex dec"
proof (induction s arbitrary: n num ex dec)
  case (Cons c s)
  have e: "s = [] \<or> n - 1 = 0 \<longleftrightarrow> s = []" using Cons(2) by (cases s) auto
  have l: "length s \<le> n - 1" using Cons(2) by simp
  show ?case
    unfolding float_loop.simps Let_def e Cons(1) [OF l]
    by (cases "s = []") (auto simp: is_sign_def)
qed simp

lemma run_exp: "float_run s True True dec \<longleftrightarrow> (\<forall>c \<in> set s. is_digit_ch c \<or> is_sign c)"
  by (induction s) (auto simp: is_sign_def)

lemma run_exp_start: "float_run s False True dec \<longleftrightarrow> exp_form s"
  by (cases s) (auto simp: exp_form_def run_exp is_sign_def)

lemma run_frac: "float_run s True False True \<longleftrightarrow> tail_form (dropWhile is_digit_ch s)"
  by (induction s) (auto simp: tail_form_def run_exp_start is_sign_def)

lemma run_mantissa: "float_run s True False False \<longleftrightarrow> frac_form (dropWhile is_digit_ch s)"
proof (induction s)
  case (Cons c s)
  show ?case
    by (cases "is_digit_ch c")
       (auto simp: Cons frac_form_def tail_form_def run_frac run_exp_start is_sign_def)
qed (simp add: frac_form_def tail_form_def)

lemma run_start: "float_run s False False False \<and> s \<noteq> [] \<longleftrightarrow> float_form s"
  by (cases s) (auto simp: float_form_def run_mantissa is_sign_def)

text \<open>C39: 
  \<open>valid_float_str\<close> on a whole string accepts exactly: a sign or none, one or more digits, a point and
  digits or none, and an exponent or none, which is \<open>e\<close>, a digit, and then digits and signs in any order. So
  \<open>1e-5\<close> is refused and \<open>1e5-3\<close> accepted.
\<close>

theorem valid_float_str_language:
  "(valid_float_str (Some s) 0 \<longleftrightarrow> float_form (skip_sign s)) \<and>
   \<not> valid_float_str (Some ''1e-5'') 0 \<and> valid_float_str (Some ''1e5-3'') 0"
proof -
  have f: "valid_float_str (Some s) 0 \<longleftrightarrow> float_form (skip_sign s)" for s
  proof (cases "s = []")
    case False
    then show ?thesis
      by (simp add: valid_float_str_def Let_def float_loop_run [OF length_skip_sign] flip: run_start) blast
  qed (simp add: valid_float_str_def float_form_def skip_sign_def)
  show ?thesis
    by (auto simp: f float_form_def frac_form_def tail_form_def exp_form_def skip_sign_def is_sign_def is_digit_ch_def
        schar_def)
qed

section \<open>The tokens of a text\<close>

lemma token_type_cases:
  "get_char_token_type c = BASETOKEN_DIGIT \<longleftrightarrow> is_digit_ch c"
  "get_char_token_type c = BASETOKEN_WHITESPACE \<longleftrightarrow> is_whitespace c"
  "get_char_token_type c \<noteq> BASETOKEN_NONE"
  by (auto simp: get_char_token_type_def is_digit_ch_def is_whitespace_def schar_def)

text \<open>The reference: a text cut into tokens.\<close>

function base_tokens :: "string \<Rightarrow> (base_token_type \<times> string) list" where
  "base_tokens [] = []"
| "base_tokens (c # s) =
     (let ty = get_char_token_type c in
      if ty = BASETOKEN_DIGIT \<or> ty = BASETOKEN_ALPHA
      then (ty, c # takeWhile (\<lambda>d. get_char_token_type d = ty) s) # base_tokens (dropWhile (\<lambda>d. get_char_token_type d = ty) s)
      else if s \<noteq> [] \<and> is_newline_pair c (hd s) then (ty, [c, hd s]) # base_tokens (tl s)
      else (ty, [c]) # base_tokens s)"
  by pat_completeness auto
termination
  by (relation "measure length") (auto simp: le_imp_less_Suc length_dropWhile_le)

declare base_tokens.simps(2) [simp del]

lemma base_tokens_concat: "concat (map snd (base_tokens s)) = s"
proof (induction s rule: base_tokens.induct)
  case (2 c s)
  then show ?case by (cases s) (auto simp: base_tokens.simps(2) Let_def)
qed simp

lemma token_run:
  "p \<le> length s \<Longrightarrow> ty = BASETOKEN_DIGIT \<or> ty = BASETOKEN_ALPHA \<Longrightarrow>
   token_loop s ign p start ty = (start, ty, p + length (takeWhile (\<lambda>d. get_char_token_type d = ty) (drop p s)))"
proof (induction s ign p start ty rule: token_loop.induct)
  case (1 s ign p start ty)
  show ?case
  proof (cases "p < length s")
    case True
    then have "drop p s = s ! p # drop (Suc p) s" by (simp add: Cons_nth_drop_Suc)
    then show ?thesis using 1 True by (subst token_loop.simps) (auto simp: Let_def)
  qed (use 1 in \<open>simp add: token_loop.simps\<close>)
qed

text \<open>One call that does not skip whitespace: the first token of the rest.\<close>

lemma token_parse:
  assumes "p < length s" and "ign \<Longrightarrow> \<not> is_whitespace (s ! p)"
  shows "token_loop s ign p None BASETOKEN_NONE
    = (Some p, fst (hd (base_tokens (drop p s))), p + length (snd (hd (base_tokens (drop p s)))))"
proof -
  let ?c = "s ! p" and ?r = "drop (Suc p) s"
  have d: "drop p s = ?c # ?r" using assms(1) by (simp add: Cons_nth_drop_Suc)
  have n: "?r \<noteq> [] \<longleftrightarrow> p + 1 < length s" "?r \<noteq> [] \<Longrightarrow> hd ?r = s ! (p + 1)"
    by (auto simp: hd_drop_conv_nth)
  have pair: "is_newline ?c \<and> p + 1 < length s \<and> is_newline_pair ?c (s ! (p + 1)) \<longleftrightarrow> ?r \<noteq> [] \<and> is_newline_pair ?c (hd ?r)"
    using n by (auto simp: is_newline_def is_newline_pair_def)
  have w: "\<not> (get_char_token_type ?c = BASETOKEN_WHITESPACE \<and> ign)" using assms(2) token_type_cases(2) by auto
  show ?thesis
  proof (cases "get_char_token_type ?c = BASETOKEN_DIGIT \<or> get_char_token_type ?c = BASETOKEN_ALPHA")
    case True
    then have "token_loop s ign p None BASETOKEN_NONE = token_loop s ign (p + 1) (Some p) (get_char_token_type ?c)"
      using assms(1) by (subst token_loop.simps) (auto simp: Let_def)
    also have "\<dots> = (Some p, get_char_token_type ?c,
        p + 1 + length (takeWhile (\<lambda>d. get_char_token_type d = get_char_token_type ?c) (drop (p + 1) s)))"
      using assms(1) True by (intro token_run) auto
    finally show ?thesis using True by (auto simp: d base_tokens.simps(2) Let_def)
  next
    case False
    then show ?thesis using assms(1) w pair
      by (subst token_loop.simps) (auto simp: d base_tokens.simps(2) Let_def simp del: drop_eq_Nil)
  qed
qed

text \<open>A call that skips whitespace.\<close>

lemma token_ignore:
  "p \<le> length s \<Longrightarrow> token_loop s True p None BASETOKEN_NONE =
     (let p' = p + length (takeWhile is_whitespace (drop p s)) in
      if p' = length s then (None, BASETOKEN_NONE, p') else token_loop s True p' None BASETOKEN_NONE)"
proof (induction "length s - p" arbitrary: p)
  case (Suc k)
  then have p: "p < length s" by simp
  then have d: "drop p s = s ! p # drop (Suc p) s" by (simp add: Cons_nth_drop_Suc)
  show ?case
  proof (cases "is_whitespace (s ! p)")
    case True
    then have "token_loop s True p None BASETOKEN_NONE = token_loop s True (Suc p) None BASETOKEN_NONE"
      using p token_type_cases(2) [of "s ! p"] by (subst token_loop.simps) (auto simp: Let_def)
    then show ?thesis using Suc(1) [of "Suc p"] Suc(2) p d True by simp
  qed (use p d in \<open>simp add: Let_def\<close>)
qed (simp add: token_loop.simps)

lemma skipped: "p \<le> length s \<Longrightarrow> p' = p + length (takeWhile P (drop p s)) \<Longrightarrow>
  p' \<le> length s \<and> drop p' s = dropWhile P (drop p s) \<and> (p' < length s \<longrightarrow> \<not> P (s ! p'))"
proof -
  assume p: "p \<le> length s" and p': "p' = p + length (takeWhile P (drop p s))"
  have l: "length (takeWhile P (drop p s)) \<le> length s - p" using length_takeWhile_le [of P "drop p s"] by simp
  have d: "drop p' s = dropWhile P (drop p s)" by (simp add: p' dropWhile_eq_drop add.commute)
  moreover have "\<not> P (s ! p')" if "p' < length s"
    using that d hd_dropWhile [of P "drop p s"] by (metis drop_eq_Nil hd_drop_conv_nth not_le)
  ultimately show ?thesis using l p p' by simp
qed

lemma base_tokens_nonempty: "s \<noteq> [] \<Longrightarrow> base_tokens s \<noteq> [] \<and> snd (hd (base_tokens s)) \<noteq> []"
  by (cases s) (auto simp: base_tokens.simps(2) Let_def)

lemma base_tokens_split:
  assumes "s \<noteq> []"
  shows "base_tokens s = hd (base_tokens s) # base_tokens (drop (length (snd (hd (base_tokens s)))) s)"
  using assms
  by (cases s; cases "tl s") (auto simp: base_tokens.simps(2) Let_def dropWhile_eq_drop)

lemma hd_token_length: "s \<noteq> [] \<Longrightarrow> length (snd (hd (base_tokens s))) \<le> length s"
  using base_tokens_concat [of s] base_tokens_nonempty [of s] by (cases "base_tokens s") auto

text \<open>The places of the tokens, from an offset on.\<close>

fun placed :: "nat \<Rightarrow> (base_token_type \<times> string) list \<Rightarrow> (base_token_type \<times> nat \<times> nat) list" where
  "placed p [] = []"
| "placed p ((ty, t) # ts) = (ty, p, length t) # placed (p + length t) ts"

definition not_space :: "base_token_type \<times> 'a \<Rightarrow> bool" where
  "not_space x \<longleftrightarrow> fst x \<noteq> BASETOKEN_WHITESPACE"

text \<open>Whitespace in front has no effect on the other tokens.\<close>

lemma placed_skip:
  "filter not_space (placed p (base_tokens s))
     = filter not_space (placed (p + length (takeWhile is_whitespace s)) (base_tokens (dropWhile is_whitespace s)))"
proof (induction s arbitrary: p rule: base_tokens.induct)
  case (2 c s)
  show ?case
  proof (cases "is_whitespace c")
    case True
    then have ty: "get_char_token_type c = BASETOKEN_WHITESPACE" by (simp add: token_type_cases)
    show ?thesis
    proof (cases "s \<noteq> [] \<and> is_newline_pair c (hd s)")
      case pair: True
      then obtain d r where s: "s = d # r" by (cases s) auto
      have "is_whitespace d" using pair s by (auto simp: is_newline_pair_def is_whitespace_def)
      then show ?thesis
        using 2(2) [OF refl, of "p + 2"] ty True pair s by (simp add: base_tokens.simps(2) [of c] not_space_def)
    next
      case False
      then show ?thesis
        using 2(3) [OF refl, of "p + 1"] ty True by (auto simp: base_tokens.simps(2) [of c] not_space_def)
    qed
  qed simp
qed simp

section \<open>Reading all tokens\<close>

text \<open>Where the next token starts.\<close>

definition next_place :: "ignore_whitespace \<Rightarrow> string \<Rightarrow> nat \<Rightarrow> nat" where
  "next_place iws s p =
     (if iws = IGNORE_WHITESPACE then p + length (takeWhile is_whitespace (drop p s)) else p)"

lemma getbasetoken_spec:
  fixes iws :: ignore_whitespace and s :: string and lx :: lexer
  assumes "lx_text lx = Some s" and "lx_offset lx \<le> length s"
  defines "p \<equiv> next_place iws s (lx_offset lx)"
  defines "x \<equiv> hd (base_tokens (drop p s))"
  shows "lexer_getbasetoken lx tok iws =
      (if p = length s then (False, tok, lx\<lparr>lx_offset := length s\<rparr>)
       else (True, tok\<lparr>tok_array := Some p, tok_len := length (snd x), tok_type := fst x\<rparr>,
             lx\<lparr>lx_offset := p + length (snd x)\<rparr>))"
    and "p \<le> length s" and "p < length s \<Longrightarrow> 0 < length (snd x) \<and> p + length (snd x) \<le> length s"
proof -
  let ?o = "lx_offset lx" and ?ign = "iws = IGNORE_WHITESPACE"
  have k: "p \<le> length s" "p < length s \<Longrightarrow> ?ign \<Longrightarrow> \<not> is_whitespace (s ! p)"
    using skipped [of ?o s p is_whitespace] assms(2) by (auto simp: p_def next_place_def)
  show "p \<le> length s" by (rule k)
  show l: "0 < length (snd x) \<and> p + length (snd x) \<le> length s" if "p < length s"
    using hd_token_length [of "drop p s"] base_tokens_nonempty [of "drop p s"] that by (auto simp: x_def)
  have t: "token_loop s ?ign p None BASETOKEN_NONE = (Some p, fst x, p + length (snd x))" if "p < length s"
    using token_parse [OF that] k(2) [OF that] by (simp add: x_def)
  have e: "token_loop s ?ign ?o None BASETOKEN_NONE = (if p = length s then (None, BASETOKEN_NONE, p)
      else token_loop s ?ign p None BASETOKEN_NONE)"
    using token_ignore [of ?o s] assms(2)
    by (cases ?ign) (auto simp: p_def next_place_def Let_def token_loop.simps [of s _ "length s"])
  show "lexer_getbasetoken lx tok iws =
      (if p = length s then (False, tok, lx\<lparr>lx_offset := length s\<rparr>)
       else (True, tok\<lparr>tok_array := Some p, tok_len := length (snd x), tok_type := fst x\<rparr>,
             lx\<lparr>lx_offset := p + length (snd x)\<rparr>))"
  proof (cases "p = length s")
    case False
    then have "p < length s" using k(1) by simp
    then show ?thesis using e t l by (simp add: lexer_getbasetoken_def assms(1) Let_def)
  qed (simp add: e lexer_getbasetoken_def assms(1))
qed

lemma getbasetoken_end: "lexer_getbasetoken lx tok iws = (True, tok', lx') \<Longrightarrow>
  \<exists>s. lx_text lx = Some s \<and> lx_text lx' = Some s \<and> lx_offset lx < length s \<and> lx_offset lx < lx_offset lx'"
proof -
  assume t: "lexer_getbasetoken lx tok iws = (True, tok', lx')"
  then obtain s where s: "lx_text lx = Some s" by (auto simp: lexer_getbasetoken_def split: option.splits)
  have lt: "lx_offset lx < length s"
    using t s by (rule_tac ccontr) (auto simp: lexer_getbasetoken_def token_loop.simps Let_def)
  let ?p = "next_place iws s (lx_offset lx)"
  note spec = getbasetoken_spec [OF s less_imp_le [OF lt], where iws = iws]
  have l: "lx_offset lx \<le> ?p" by (simp add: next_place_def)
  have ne: "?p \<noteq> length s" using t spec(1) by auto
  then have "?p < length s" using spec(2) by simp
  then have "0 < length (snd (hd (base_tokens (drop ?p s))))" using spec(3) by blast
  then have "lx_offset lx < ?p + length (snd (hd (base_tokens (drop ?p s))))" using l by linarith
  moreover have "lx' = lx\<lparr>lx_offset := ?p + length (snd (hd (base_tokens (drop ?p s))))\<rparr>" using t spec(1) ne by simp
  ultimately show ?thesis using lt s by simp
qed

text \<open>A client that reads tokens until there is none.\<close>

function all_tokens :: "lexer \<Rightarrow> base_token \<Rightarrow> ignore_whitespace \<Rightarrow> base_token list" where
  "all_tokens lx tok iws =
     (let r = lexer_getbasetoken lx tok iws in
      if fst r then fst (snd r) # all_tokens (snd (snd r)) (fst (snd r)) iws else [])"
  by pat_completeness auto
termination
proof (relation "measure (\<lambda>(lx, tok, iws). length (the (lx_text lx)) - lx_offset lx)")
  fix lx tok iws r
  assume "r = lexer_getbasetoken lx tok iws" "fst r"
  then have "lexer_getbasetoken lx tok iws = (True, fst (snd r), snd (snd r))" by (metis (full_types) prod.collapse)
  from getbasetoken_end [OF this]
  show "((snd (snd r), fst (snd r), iws), (lx, tok, iws)) \<in> measure (\<lambda>(lx, tok, iws). length (the (lx_text lx)) - lx_offset lx)"
    by auto
qed simp

declare all_tokens.simps [simp del]

definition tok_view :: "base_token \<Rightarrow> base_token_type \<times> nat option \<times> nat" where
  "tok_view t = (tok_type t, tok_array t, tok_len t)"

definition some_place :: "base_token_type \<times> nat \<times> nat \<Rightarrow> base_token_type \<times> nat option \<times> nat" where
  "some_place x = (fst x, Some (fst (snd x)), snd (snd x))"

lemma next_not_space:
  assumes "iws = IGNORE_WHITESPACE" "next_place iws s o' < length s" "o' \<le> length s"
  shows "not_space (hd (base_tokens (drop (next_place iws s o') s)))"
proof -
  let ?p = "next_place iws s o'"
  have "\<not> is_whitespace (s ! ?p)" using skipped [of o' s ?p is_whitespace] assms by (auto simp: next_place_def)
  moreover have "drop ?p s = s ! ?p # drop (Suc ?p) s" using assms(2) by (simp add: Cons_nth_drop_Suc)
  ultimately show ?thesis
    using token_type_cases(2) [of "s ! ?p"] by (auto simp: base_tokens.simps(2) Let_def not_space_def)
qed

lemma all_tokens_placed:
  assumes "lx_text lx = Some s" and "lx_offset lx \<le> length s"
  shows "map tok_view (all_tokens lx tok iws) = map some_place
    (if iws = PARSE_WHITESPACE then placed (lx_offset lx) (base_tokens (drop (lx_offset lx) s))
     else filter not_space (placed (lx_offset lx) (base_tokens (drop (lx_offset lx) s))))"
  using assms
proof (induction lx tok iws rule: all_tokens.induct)
  case (1 lx tok iws)
  let ?o = "lx_offset lx" and ?p = "next_place iws s (lx_offset lx)"
  let ?x = "hd (base_tokens (drop ?p s))"
  let ?F = "\<lambda>l. if iws = PARSE_WHITESPACE then l else filter not_space l"
  note spec = getbasetoken_spec [OF 1(2,3), where iws = iws]
  have F: "?F (placed ?o (base_tokens (drop ?o s))) = ?F (placed ?p (base_tokens (drop ?p s)))"
    using placed_skip [of ?o "drop ?o s"] skipped [OF 1(3), of ?p is_whitespace]
    by (cases iws) (auto simp: next_place_def)
  show ?case
  proof (cases "?p = length s")
    case True
    then have "lexer_getbasetoken lx tok iws = (False, tok, lx\<lparr>lx_offset := length s\<rparr>)" using spec(1) by simp
    then have "all_tokens lx tok iws = []" by (simp add: all_tokens.simps)
    moreover have "placed ?p (base_tokens (drop ?p s)) = []" using True by simp
    ultimately show ?thesis unfolding F by auto
  next
    case False
    then have p: "?p < length s" using spec(2) by simp
    define tok' lx' where "tok' = tok\<lparr>tok_array := Some ?p, tok_len := length (snd ?x), tok_type := fst ?x\<rparr>"
      and "lx' = lx\<lparr>lx_offset := ?p + length (snd ?x)\<rparr>"
    have g: "lexer_getbasetoken lx tok iws = (True, tok', lx')" using spec(1) False by (simp add: tok'_def lx'_def)
    have "map tok_view (all_tokens lx' tok' iws)
      = map some_place (?F (placed (lx_offset lx') (base_tokens (drop (lx_offset lx') s))))"
      using 1(1) [OF refl, unfolded g fst_conv snd_conv, OF TrueI] 1(2) spec(3) [OF p] by (simp add: lx'_def)
    then have a: "map tok_view (all_tokens lx tok iws) = some_place (fst ?x, ?p, length (snd ?x)) #
        map some_place (?F (placed (?p + length (snd ?x)) (base_tokens (drop (?p + length (snd ?x)) s))))"
      using g by (subst all_tokens.simps) (simp add: tok_view_def some_place_def tok'_def lx'_def)
    have "base_tokens (drop ?p s) = ?x # base_tokens (drop (length (snd ?x)) (drop ?p s))"
      using p by (intro base_tokens_split) simp
    then have b: "placed ?p (base_tokens (drop ?p s))
      = (fst ?x, ?p, length (snd ?x)) # placed (?p + length (snd ?x)) (base_tokens (drop (?p + length (snd ?x)) s))"
      by (metis add.commute drop_drop placed.simps(2) prod.collapse)
    have "iws \<noteq> PARSE_WHITESPACE \<Longrightarrow> not_space (fst ?x, ?p, length (snd ?x))"
      using next_not_space [OF _ p 1(3)] by (cases iws) (auto simp: not_space_def)
    then have "?F (placed ?p (base_tokens (drop ?p s))) = (fst ?x, ?p, length (snd ?x)) #
        ?F (placed (?p + length (snd ?x)) (base_tokens (drop (?p + length (snd ?x)) s)))"
      unfolding b by simp
    then show ?thesis unfolding F a by (simp only: list.map)
  qed
qed


section \<open>Rows and columns of tokens\<close>

text \<open>The row and column behind a token.\<close>

definition step_place :: "nat \<times> nat \<Rightarrow> base_token_type \<times> string \<Rightarrow> nat \<times> nat" where
  "step_place rc x =
     (if is_newline (hd (snd x)) then (fst rc + 1, 1) else (fst rc, snd rc + length (snd x)))"

lemma offset_plain:
  "(\<forall>c \<in> set t. \<not> is_newline c) \<Longrightarrow> drop p s = t @ u \<Longrightarrow> p + length t \<le> q \<Longrightarrow> c + length t < 2 ^ 32 \<Longrightarrow>
   offset_loop s p q r c = offset_loop s (p + length t) q r (c + length t)"
proof (induction t arbitrary: p c)
  case (Cons a t)
  have p: "p < length s" using Cons(3) by (cases "p < length s") auto
  then have d: "s ! p = a" "drop (Suc p) s = t @ u" using Cons(3) by (auto simp: Cons_nth_drop_Suc [symmetric])
  have "offset_loop s p q r c = offset_loop s (p + 1) q r (c + 1)"
    using Cons(2,4,5) p d(1) by (subst offset_loop.simps) (simp add: ch_at_def wrap_simps)
  then show ?case using Cons(1) [of "Suc p" "c + 1"] Cons(2,4,5) d(2) by simp
qed simp

lemma offset_token:
  assumes "drop p s = t @ u" and "base_tokens (t @ u) = (ty, t) # base_tokens u" and "t \<noteq> []"
    and "p + length t \<le> q" and "c + length t < 2 ^ 32" and "r + 1 < 2 ^ 32"
  shows "offset_loop s p q r c = offset_loop s (p + length t) q (fst (step_place (r, c) (ty, t))) (snd (step_place (r, c) (ty, t)))"
proof (cases "is_newline (hd t)")
  case True
  obtain a v where t: "t = a # v" using assms(3) by (cases t) auto
  have p: "p < length s" using assms(1,3) by (cases "p < length s") auto
  then have a: "s ! p = a" using assms(1) t by (auto simp: Cons_nth_drop_Suc [symmetric])
  have "is_newline a" using True t by simp
  then have w: "get_char_token_type a = BASETOKEN_WHITESPACE" "is_whitespace a"
    by (auto simp: get_char_token_type_def is_whitespace_def is_newline_def)
  have "newline_size (drop p s) = length t"
    using assms(2) w \<open>is_newline a\<close> unfolding assms(1) t
    by (cases v; cases u) (auto simp: newline_size_def base_tokens.simps(2) Let_def is_newline_def is_newline_pair_def split: if_splits)
  then show ?thesis
    using True assms(3-6) p a t \<open>is_newline a\<close>
    by (subst offset_loop.simps) (simp add: ch_at_def step_place_def wrap_simps)
next
  case False
  obtain a v where t: "t = a # v" using assms(3) by (cases t) auto
  have "\<not> is_newline d" if "d \<in> set v" for d
  proof (cases "get_char_token_type a = BASETOKEN_DIGIT \<or> get_char_token_type a = BASETOKEN_ALPHA")
    case True
    then have "takeWhile (\<lambda>d. get_char_token_type d = get_char_token_type a) (v @ u) = v"
      using assms(2) by (auto simp: t base_tokens.simps(2) Let_def)
    then have "get_char_token_type d = get_char_token_type a" using that set_takeWhileD by metis
    then show ?thesis using True by (auto simp: get_char_token_type_def is_newline_def is_whitespace_def)
  next
    case other: False
    then have "v = []" using assms(2) False t by (auto simp: base_tokens.simps(2) Let_def is_newline_pair_def is_newline_def split: if_splits)
    then show ?thesis using that by simp
  qed
  then have "\<forall>d \<in> set t. \<not> is_newline d" using False t by auto
  from offset_plain [OF this assms(1,4,5)] show ?thesis using False by (simp add: step_place_def)
qed

lemma offset_tokens:
  "drop p s = u \<Longrightarrow> i \<le> length (base_tokens u) \<Longrightarrow> c + length u < 2 ^ 32 \<Longrightarrow> r + length u < 2 ^ 32 \<Longrightarrow>
   offset_loop s p (p + length (concat (map snd (take i (base_tokens u))))) r c
     = Some (foldl step_place (r, c) (take i (base_tokens u)))"
proof (induction i arbitrary: p u r c)
  case 0
  then show ?case by (simp add: offset_loop.simps)
next
  case (Suc i)
  then have "u \<noteq> []" by auto
  define x where "x = hd (base_tokens u)"
  define t u' where "t = snd x" and "u' = drop (length (snd x)) u"
  have b: "base_tokens u = x # base_tokens u'" and x: "x = (fst x, t)" and t: "t \<noteq> []"
    using base_tokens_split [OF \<open>u \<noteq> []\<close>] base_tokens_nonempty [OF \<open>u \<noteq> []\<close>] by (auto simp: x_def t_def u'_def)
  have u: "u = t @ u'"
    using base_tokens_concat [of u] base_tokens_concat [of u'] b by (simp add: t_def)
  have d: "drop (p + length t) s = u'" using Suc(2) u by (metis add.commute append_eq_conv_conj drop_drop)
  let ?k = "length (concat (map snd (take i (base_tokens u'))))"
  let ?rc = "step_place (r, c) x"
  have rc: "snd ?rc + length u' < 2 ^ 32 \<and> fst ?rc + length u' < 2 ^ 32"
  proof -
    have "1 \<le> length t" using t by (cases t) auto
    then show ?thesis using Suc(4,5) u by (auto simp: step_place_def t_def [symmetric])
  qed
  have "offset_loop s p (p + length t + ?k) r c = offset_loop s (p + length t) (p + length t + ?k) (fst ?rc) (snd ?rc)"
    using offset_token [of p s t u' "fst x" "p + length t + ?k" c r] Suc(2,4,5) b u x t by (cases t) auto
  also have "\<dots> = Some (foldl step_place (fst ?rc, snd ?rc) (take i (base_tokens u')))"
    using Suc(1) [OF d, of "snd ?rc" "fst ?rc"] Suc(3) rc b by simp
  finally show ?case using b by (simp add: t_def add.assoc)
qed

text \<open>
  \<open>lexer_getstroffset\<close> at the start of a token: the rows and columns of the tokens before it added up, where
  a newline, one character or a pair, ends a row.
\<close>

theorem token_row_column:
  assumes "lx_text lx = Some s" and "i \<le> length (base_tokens s)" and "length s < 2 ^ 32 - 1"
  shows "lexer_getstroffset lx (Some (length (concat (map snd (take i (base_tokens s))))))
    = Some (Some (foldl step_place (1, 1) (take i (base_tokens s))))"
  using offset_tokens [of 0 s s i 1 1] assms by (simp add: lexer_getstroffset_def)

theorem token_row_column_witness:
  "lexer_getstroffset (lexer_start lexer_init (Some [CHR ''a'', CHR 0x0D, CHR 0x0A, CHR ''b''])) (Some 3) = Some (Some (2, 1))"
  using token_row_column [of "lexer_start lexer_init (Some [CHR ''a'', CHR 0x0D, CHR 0x0A, CHR ''b''])"
      "[CHR ''a'', CHR 0x0D, CHR 0x0A, CHR ''b'']" 2]
  by (simp add: lexer_start_def base_tokens.simps(2) Let_def get_char_token_type_def is_whitespace_def schar_def
      is_newline_pair_def step_place_def is_newline_def flip: numeral_2_eq_2 numeral_3_eq_3)

section \<open>Errors in the array\<close>

lemma type_count_rep:
  "da_rep d es \<Longrightarrow> error_data_type_count d ty = Some (length (filter (\<lambda>e. ei_level e = ty) es))"
proof -
  have "type_count_loop (map Some (a @ b) @ rest) ty (length a) (length b)
    = Some (length (filter (\<lambda>e. ei_level e = ty) b))" for a b rest
  proof (induction b arbitrary: a)
    case (Cons e b)
    then show ?case using Cons [of "a @ [e]"] by (auto simp: nth_append)
  qed simp
  from this [of "[]"] show "da_rep d es \<Longrightarrow> ?thesis"
    by (auto simp: error_data_type_count_def elim!: da_repE)
qed

lemma has_errors_rep:
  "da_rep d es \<Longrightarrow> error_data_has_errors d = Some (\<exists>e \<in> set es. ei_level e = LEX_ERROR)"
proof -
  have "has_errors_loop (map Some (a @ b) @ rest) (length a) (length b) = Some (\<exists>e \<in> set b. ei_level e = LEX_ERROR)"
    for a b rest
  proof (induction b arbitrary: a)
    case (Cons e b)
    then show ?case using Cons [of "a @ [e]"] by (auto simp: nth_append)
  qed simp
  from this [of "[]"] show "da_rep d es \<Longrightarrow> ?thesis"
    by (auto simp: error_data_has_errors_def elim!: da_repE)
qed

text \<open>
  Adding an error appends it to the array; the counts count by level, and there are errors exactly when the
  count of \<open>LEX_ERROR\<close> is not 0.
\<close>

theorem errors_counted:
  assumes "da_rep d es"
  shows "\<exists>d'. error_data_add (Some d) file row col msg level = Some (Some d') \<and>
     da_rep d' (es @ [\<lparr>ei_error = msg, ei_file = file, ei_row = row, ei_column = col, ei_level = level\<rparr>]) \<and>
     error_data_type_count d' level = map_option Suc (error_data_type_count d level) \<and>
     error_data_has_errors d' = map_option (\<lambda>k. k \<noteq> 0) (error_data_type_count d' LEX_ERROR)"
proof -
  let ?e = "\<lparr>ei_error = msg, ei_file = file, ei_row = row, ei_column = col, ei_level = level\<rparr>"
  obtain d' where "darray_push_back d ?e = Some (length es, d')" "da_rep d' (es @ [?e])"
    using push_back_rep [OF assms, of ?e] by blast
  then show ?thesis
    using type_count_rep [OF assms] type_count_rep [of d' "es @ [?e]"] has_errors_rep [of d' "es @ [?e]"]
    by (auto simp: error_data_add_def filter_empty_conv)
qed

theorem errors_counted_witness:
  "\<exists>d'. error_data_add (Some darray_init) ''a.cfg'' 3 7 ''unexpected token'' LEX_ERROR = Some (Some d') \<and>
     error_data_has_errors d' = Some True"
  using errors_counted [of darray_init "[]" "''a.cfg''" 3 7 "''unexpected token''" LEX_ERROR]
    type_count_rep [of darray_init "[]" LEX_ERROR]
  by (auto simp: da_rep_def darray_init_def)

end
