(* ===== verification/Dstr.thy ===== *)
theory Dstr
  imports Lexer
begin

text \<open>
  Dynamic strings, mgw-core/util/source/dstr.c and dstr.h. The array
  of a dynamic string is a block of characters in the sense of DArray, \<open>None\<close> for NULL; uninitialised
  characters of the block are \<open>None\<close>. \<open>ds_rep\<close> relates it to the text it holds. Arguments of type
  \<open>const char *\<close> are C strings of CString, other dynamic strings are passed by value, so that no argument is
  part of the string that changes. Sizes do not overflow. A copy of no bytes does nothing.
\<close>

section \<open>State and memory\<close>

record dstr =
  ds_array :: "char block option"
  ds_len :: nat
  ds_capacity :: nat

definition realloc_blk :: "'a block option \<Rightarrow> nat \<Rightarrow> 'a block" where
  "realloc_blk b n =
     (case b of None \<Rightarrow> replicate n None | Some xs \<Rightarrow> take n xs @ replicate (n - length xs) None)"

text \<open>A read of one character, an access to the array of a string, a write to it.\<close>

definition blk_char :: "'a block \<Rightarrow> nat \<Rightarrow> 'a option" where
  "blk_char b i = (if i < length b then b ! i else None)"

definition ds_read :: "dstr \<Rightarrow> nat \<Rightarrow> nat \<Rightarrow> char block option" where
  "ds_read d i n = (if n = 0 then Some [] else Option.bind (ds_array d) (\<lambda>b. blk_read b i n))"

definition ds_write :: "dstr \<Rightarrow> nat \<Rightarrow> char block \<Rightarrow> dstr option" where
  "ds_write d i xs =
     (if xs = [] then Some d
      else Option.bind (ds_array d) (\<lambda>b. map_option (\<lambda>b'. d\<lparr>ds_array := Some b'\<rparr>) (blk_write b i xs)))"

definition ds_move :: "dstr \<Rightarrow> nat \<Rightarrow> nat \<Rightarrow> nat \<Rightarrow> dstr option" where
  "ds_move d to from n = Option.bind (ds_read d from n) (ds_write d to)"

section \<open>The inline functions of dstr.h\<close>

definition dstr_init :: dstr where
  "dstr_init = \<lparr>ds_array = None, ds_len = 0, ds_capacity = 0\<rparr>"

definition dstr_init_move_array :: "string option \<Rightarrow> dstr" where
  "dstr_init_move_array str =
     \<lparr>ds_array = map_option cstr str, ds_len = (case str of None \<Rightarrow> 0 | Some s \<Rightarrow> length s),
      ds_capacity = (case str of None \<Rightarrow> 0 | Some s \<Rightarrow> length s) + 1\<rparr>"

definition dstr_init_move :: "dstr \<Rightarrow> dstr \<times> dstr" where
  "dstr_init_move src = (src, dstr_init)"

definition dstr_free :: "dstr \<Rightarrow> dstr" where
  "dstr_free dst = \<lparr>ds_array = None, ds_len = 0, ds_capacity = 0\<rparr>"

definition dstr_move_array :: "dstr \<Rightarrow> string option \<Rightarrow> dstr" where
  "dstr_move_array dst str = dstr_init_move_array str"

definition dstr_move :: "dstr \<Rightarrow> dstr \<Rightarrow> dstr \<times> dstr" where
  "dstr_move dst src = dstr_init_move src"

definition dstr_ensure_capacity :: "dstr \<Rightarrow> nat \<Rightarrow> dstr" where
  "dstr_ensure_capacity dst new_size =
     (if new_size \<le> ds_capacity dst then dst
      else (let new_cap = (if ds_capacity dst = 0 then new_size else ds_capacity dst * 2);
                new_cap = (if new_size > new_cap then new_size else new_cap)
            in dst\<lparr>ds_array := Some (realloc_blk (ds_array dst) new_cap), ds_capacity := new_cap\<rparr>))"

definition dstr_copy_dstr :: "dstr \<Rightarrow> dstr \<Rightarrow> dstr option" where
  "dstr_copy_dstr dst src =
     (let dst = (if ds_array dst \<noteq> None then dstr_free dst else dst) in
      if ds_len src \<noteq> 0
      then (let dst = dstr_ensure_capacity dst (ds_len src + 1) in
            Option.bind (ds_read src 0 (ds_len src + 1)) (\<lambda>xs.
              map_option (\<lambda>d. d\<lparr>ds_len := ds_len src\<rparr>) (ds_write dst 0 xs)))
      else Some dst)"

definition dstr_reserve :: "dstr \<Rightarrow> nat \<Rightarrow> dstr" where
  "dstr_reserve dst capacity =
     (if capacity = 0 \<or> capacity \<le> ds_len dst then dst
      else dst\<lparr>ds_array := Some (realloc_blk (ds_array dst) capacity), ds_capacity := capacity\<rparr>)"

definition dstr_resize :: "dstr \<Rightarrow> nat \<Rightarrow> dstr option" where
  "dstr_resize dst num =
     (if num = 0 then Some (dstr_free dst)
      else map_option (\<lambda>d. d\<lparr>ds_len := num\<rparr>) (ds_write (dstr_ensure_capacity dst (num + 1)) num [Some NUL]))"

text \<open>The first character may not be read when it is uninitialised.\<close>

definition dstr_is_empty :: "dstr \<Rightarrow> bool option" where
  "dstr_is_empty str =
     (case ds_array str of
        None \<Rightarrow> Some True
      | Some b \<Rightarrow> if ds_len str = 0 then Some True else map_option (\<lambda>c. c = NUL) (blk_char b 0))"

definition dstr_ncat :: "dstr \<Rightarrow> string option \<Rightarrow> nat \<Rightarrow> dstr option" where
  "dstr_ncat dst array len =
     (case array of
        None \<Rightarrow> Some dst
      | Some s \<Rightarrow>
          if s = [] \<or> len = 0 then Some dst
          else (let new_len = ds_len dst + len in
            Option.bind (blk_read (cstr s) 0 len) (\<lambda>xs.
            Option.bind (ds_write (dstr_ensure_capacity dst (new_len + 1)) (ds_len dst) xs) (\<lambda>d.
              ds_write (d\<lparr>ds_len := new_len\<rparr>) new_len [Some NUL]))))"

definition dstr_cat :: "dstr \<Rightarrow> string option \<Rightarrow> dstr option" where
  "dstr_cat dst array =
     (case array of None \<Rightarrow> Some dst | Some s \<Rightarrow> if s = [] then Some dst else dstr_ncat dst array (length s))"

definition dstr_cat_ch :: "dstr \<Rightarrow> char \<Rightarrow> dstr option" where
  "dstr_cat_ch dst ch =
     (let dst = dst\<lparr>ds_len := ds_len dst + 1\<rparr>; dst = dstr_ensure_capacity dst (ds_len dst + 1) in
      Option.bind (ds_write dst (ds_len dst - 1) [Some ch]) (\<lambda>d. ds_write d (ds_len d) [Some NUL]))"

definition dstr_end :: "dstr \<Rightarrow> char option" where
  "dstr_end str =
     Option.bind (dstr_is_empty str) (\<lambda>e.
       if e then Some NUL else Option.bind (ds_array str) (\<lambda>b. blk_char b (ds_len str - 1)))"

section \<open>Copying and appending\<close>

definition dstr_copy :: "dstr \<Rightarrow> string option \<Rightarrow> dstr option" where
  "dstr_copy dst array =
     (case array of
        None \<Rightarrow> Some (dstr_free dst)
      | Some s \<Rightarrow>
          if s = [] then Some (dstr_free dst)
          else map_option (\<lambda>d. d\<lparr>ds_len := length s\<rparr>)
                 (ds_write (dstr_ensure_capacity dst (length s + 1)) 0 (cstr s)))"

text \<open>The block \<open>bmemdup\<close> returns is as long as the capacity; \<open>NULL\<close> cannot be copied.\<close>

definition dstr_ncopy :: "dstr \<Rightarrow> string option \<Rightarrow> nat \<Rightarrow> dstr option" where
  "dstr_ncopy dst array len =
     (let dst = (if ds_array dst \<noteq> None then dstr_free dst else dst) in
      if len = 0 then Some dst
      else Option.bind array (\<lambda>s. Option.bind (blk_read (cstr s) 0 (len + 1)) (\<lambda>xs.
             ds_write (dst\<lparr>ds_array := Some xs, ds_len := len, ds_capacity := len + 1\<rparr>) len [Some NUL])))"

definition dstr_copy_strref :: "dstr \<Rightarrow> strref \<Rightarrow> dstr option" where
  "dstr_copy_strref dst src =
     dstr_ncopy (if ds_array dst \<noteq> None then dstr_free dst else dst) (ref_array src) (ref_len src)"

definition dstr_init_copy :: "string option \<Rightarrow> dstr option" where
  "dstr_init_copy str = dstr_copy dstr_init str"

definition dstr_init_copy_dstr :: "dstr \<Rightarrow> dstr option" where
  "dstr_init_copy_dstr src = dstr_copy_dstr dstr_init src"

definition dstr_init_copy_strref :: "strref \<Rightarrow> dstr option" where
  "dstr_init_copy_strref src = dstr_copy_strref dstr_init src"

definition dstr_ncopy_dstr :: "dstr \<Rightarrow> dstr \<Rightarrow> nat \<Rightarrow> dstr option" where
  "dstr_ncopy_dstr dst str len =
     (let dst = (if ds_array dst \<noteq> None then dstr_free dst else dst) in
      if len = 0 then Some dst
      else (let newlen = min len (ds_len str) in
            Option.bind (ds_array str) (\<lambda>b. Option.bind (blk_read b 0 (newlen + 1)) (\<lambda>xs.
              ds_write (dst\<lparr>ds_array := Some xs, ds_len := newlen, ds_capacity := newlen + 1\<rparr>) newlen [Some NUL]))))"

definition dstr_cat_dstr :: "dstr \<Rightarrow> dstr \<Rightarrow> dstr option" where
  "dstr_cat_dstr dst str =
     (if ds_len str = 0 then Some dst
      else (let new_len = ds_len dst + ds_len str in
            Option.bind (ds_read str 0 (ds_len str + 1)) (\<lambda>xs.
              map_option (\<lambda>d. d\<lparr>ds_len := new_len\<rparr>)
                (ds_write (dstr_ensure_capacity dst (new_len + 1)) (ds_len dst) xs))))"

definition dstr_cat_strref :: "dstr \<Rightarrow> strref \<Rightarrow> dstr option" where
  "dstr_cat_strref dst str = dstr_ncat dst (ref_array str) (ref_len str)"

definition dstr_ncat_dstr :: "dstr \<Rightarrow> dstr \<Rightarrow> nat \<Rightarrow> dstr option" where
  "dstr_ncat_dstr dst str len =
     (case ds_array str of
        None \<Rightarrow> Some dst
      | Some b \<Rightarrow>
          Option.bind (blk_char b 0) (\<lambda>c.
            if c = NUL \<or> len = 0 then Some dst
            else (let in_len = min len (ds_len str); new_len = ds_len dst + in_len in
              Option.bind (ds_read str 0 in_len) (\<lambda>xs.
              Option.bind (ds_write (dstr_ensure_capacity dst (new_len + 1)) (ds_len dst) xs) (\<lambda>d.
                ds_write (d\<lparr>ds_len := new_len\<rparr>) new_len [Some NUL])))))"

section \<open>Inserting and removing\<close>

text \<open>
  The number of characters to move is \<open>len - idx + 1\<close>; for a place more than one behind the end it wraps
  around, and the move leaves the block.
\<close>

definition dstr_insert :: "dstr \<Rightarrow> nat \<Rightarrow> string option \<Rightarrow> dstr option" where
  "dstr_insert dst idx array =
     (case array of
        None \<Rightarrow> Some dst
      | Some s \<Rightarrow>
          if s = [] then Some dst
          else if idx = ds_len dst then dstr_cat dst array
          else if ds_len dst + 1 < idx then None
          else (let len = length s; new_len = ds_len dst + len in
            Option.bind (ds_move (dstr_ensure_capacity dst (new_len + 1)) (idx + len) idx (ds_len dst + 1 - idx)) (\<lambda>d.
              map_option (\<lambda>d. d\<lparr>ds_len := new_len\<rparr>) (ds_write d idx (map Some s)))))"

definition dstr_insert_dstr :: "dstr \<Rightarrow> nat \<Rightarrow> dstr \<Rightarrow> dstr option" where
  "dstr_insert_dstr dst idx str =
     (if ds_len str = 0 then Some dst
      else if idx = ds_len dst then dstr_cat_dstr dst str
      else if ds_len dst + 1 < idx then None
      else (let new_len = ds_len dst + ds_len str in
        Option.bind (ds_move (dstr_ensure_capacity dst (new_len + 1)) (idx + ds_len str) idx (ds_len dst + 1 - idx)) (\<lambda>d.
        Option.bind (ds_read str 0 (ds_len str)) (\<lambda>xs.
          map_option (\<lambda>d. d\<lparr>ds_len := new_len\<rparr>) (ds_write d idx xs)))))"

text \<open>The length is raised before the characters behind the place are counted.\<close>

definition dstr_insert_ch :: "dstr \<Rightarrow> nat \<Rightarrow> char \<Rightarrow> dstr option" where
  "dstr_insert_ch dst idx ch =
     (if idx = ds_len dst then dstr_cat_ch dst ch
      else (let dst = dst\<lparr>ds_len := ds_len dst + 1\<rparr>; dst = dstr_ensure_capacity dst (ds_len dst + 1) in
        if ds_len dst + 1 < idx then None
        else Option.bind (ds_move dst (idx + 1) idx (ds_len dst + 1 - idx)) (\<lambda>d. ds_write d idx [Some ch])))"

definition dstr_remove :: "dstr \<Rightarrow> nat \<Rightarrow> nat \<Rightarrow> dstr option" where
  "dstr_remove dst idx count =
     (if count = 0 then Some dst
      else if count = ds_len dst then Some (dstr_free dst)
      else (let end = idx + count in
        map_option (\<lambda>d. d\<lparr>ds_len := sub64 (ds_len d) count\<rparr>)
          (if end = ds_len dst then ds_write dst idx [Some NUL]
           else if ds_len dst + 1 < end then None
           else ds_move dst idx end (ds_len dst + 1 - end))))"

definition dstr_left :: "dstr \<Rightarrow> dstr \<Rightarrow> nat \<Rightarrow> dstr option" where
  "dstr_left dst str pos =
     Option.bind (dstr_resize dst pos) (\<lambda>d. Option.bind (ds_read str 0 pos) (ds_write d 0))"

text \<open>\<open>dst\<close> and \<open>str\<close> the same string: nothing is copied.\<close>

definition dstr_left_self :: "dstr \<Rightarrow> nat \<Rightarrow> dstr option" where
  "dstr_left_self dst pos = dstr_resize dst pos"

text \<open>\<open>dstr_ncopy\<close> from an offset of the array of a dynamic string, which need not end in a NUL there.\<close>

definition dstr_ncopy_at :: "dstr \<Rightarrow> dstr \<Rightarrow> nat \<Rightarrow> nat \<Rightarrow> dstr option" where
  "dstr_ncopy_at dst str start len =
     (let dst = (if ds_array dst \<noteq> None then dstr_free dst else dst) in
      if len = 0 then Some dst
      else Option.bind (ds_read str start (len + 1)) (\<lambda>xs.
             ds_write (dst\<lparr>ds_array := Some xs, ds_len := len, ds_capacity := len + 1\<rparr>) len [Some NUL]))"

definition dstr_mid :: "dstr \<Rightarrow> dstr \<Rightarrow> nat \<Rightarrow> nat \<Rightarrow> dstr option" where
  "dstr_mid dst str start count =
     Option.bind (dstr_copy_dstr dstr_init str) (\<lambda>temp. dstr_ncopy_at dst temp start count)"

text \<open>A place behind the end makes the length wrap around, and the copy leaves every array.\<close>

definition dstr_right :: "dstr \<Rightarrow> dstr \<Rightarrow> nat \<Rightarrow> dstr option" where
  "dstr_right dst str pos =
     (if ds_len str < pos then None
      else Option.bind (dstr_ncopy_at dstr_init str pos (ds_len str - pos)) (dstr_copy_dstr dst))"

section \<open>The text of a dynamic string\<close>

definition ds_rep :: "dstr \<Rightarrow> string \<Rightarrow> bool" where
  "ds_rep d s \<longleftrightarrow> ds_len d = length s \<and>
     (case ds_array d of
        None \<Rightarrow> s = [] \<and> ds_capacity d = 0
      | Some b \<Rightarrow> ds_capacity d = length b \<and> (\<exists>rest. b = map Some s @ Some NUL # rest))"

definition yields :: "dstr option \<Rightarrow> string \<Rightarrow> bool" where
  "yields m s \<longleftrightarrow> (\<exists>d. m = Some d \<and> ds_rep d s)"

lemma yieldsI: "m = Some d \<Longrightarrow> ds_rep d s \<Longrightarrow> yields m s"
  by (auto simp: yields_def)

lemma yields_Some [simp]: "yields (Some d) s \<longleftrightarrow> ds_rep d s"
  by (simp add: yields_def)

lemma dstr_init_rep [simp]: "ds_rep dstr_init []" "ds_rep (dstr_free d) []"
  by (simp_all add: ds_rep_def dstr_init_def dstr_free_def)

lemma rep_len: "ds_rep d s \<Longrightarrow> ds_len d = length s"
  by (simp add: ds_rep_def)

lemma repI:
  "ds_array d = Some (map Some s @ Some NUL # rest) \<Longrightarrow> ds_len d = length s \<Longrightarrow>
   ds_capacity d = length s + 1 + length rest \<Longrightarrow> ds_rep d s"
  by (auto simp: ds_rep_def)

lemma rep_array:
  assumes "ds_rep d s" and "s \<noteq> [] \<or> ds_array d \<noteq> None"
  obtains rest where "ds_array d = Some (map Some s @ Some NUL # rest)" "ds_capacity d = length s + 1 + length rest"
  using assms by (auto simp: ds_rep_def split: option.splits)

lemma write_at:
  "ds_array d = Some (a @ m @ c) \<Longrightarrow> i = length a \<Longrightarrow> length m = length xs \<Longrightarrow>
   ds_write d i xs = Some (d\<lparr>ds_array := Some (a @ xs @ c)\<rparr>)"
  by (auto simp: ds_write_def blk_write_def)

lemma read_at_mid: "ds_array d = Some (a @ m @ c) \<Longrightarrow> i = length a \<Longrightarrow> n = length m \<Longrightarrow> ds_read d i n = Some m"
  by (auto simp: ds_read_def blk_read_def)

text \<open>Reading the text, and the text with its NUL.\<close>

lemma read_text: "ds_rep d s \<Longrightarrow> i + n \<le> length s \<Longrightarrow> ds_read d i n = Some (map Some (take n (drop i s)))"
proof (cases "s = []")
  case False
  assume r: "ds_rep d s" and n: "i + n \<le> length s"
  from rep_array [OF r] False obtain rest where "ds_array d = Some (map Some s @ Some NUL # rest)" by blast
  moreover have "take n (drop i (map Some s @ Some NUL # rest)) = map Some (take n (drop i s))"
    using n by (simp add: take_map drop_map)
  ultimately show ?thesis using n by (simp add: ds_read_def blk_read_def)
qed (simp add: ds_read_def)

lemma read_rest: "ds_rep d s \<Longrightarrow> s \<noteq> [] \<or> ds_array d \<noteq> None \<Longrightarrow> i \<le> length s \<Longrightarrow> n = length s + 1 - i \<Longrightarrow>
  ds_read d i n = Some (map Some (drop i s) @ [Some NUL])"
  by (erule (1) rep_array) (auto simp: ds_read_def blk_read_def drop_map)

lemma read_cstr: "n \<le> length s \<Longrightarrow> blk_read (cstr s) 0 n = Some (map Some (take n s))"
  by (simp add: blk_read_def cstr_def take_map)

text \<open>Room for the text and more: the text stays, and its NUL when there is an array.\<close>

lemma ensure_room_text:
  assumes "ds_rep d s" and "length s < n"
  obtains rest where "ds_array (dstr_ensure_capacity d n) = Some (map Some s @ rest)"
    "ds_capacity (dstr_ensure_capacity d n) = length s + length rest" "n \<le> length s + length rest"
    "ds_len (dstr_ensure_capacity d n) = length s"
    "ds_array d \<noteq> None \<Longrightarrow> \<exists>t. rest = Some NUL # t"
proof (cases "ds_array d")
  case None
  then show thesis
    using assms that [of "replicate n None"]
    by (auto simp: ds_rep_def dstr_ensure_capacity_def realloc_blk_def Let_def)
next
  case (Some b)
  then obtain rest where b: "b = map Some s @ Some NUL # rest" and c: "ds_capacity d = length b" and l: "ds_len d = length s"
    using assms(1) by (auto simp: ds_rep_def)
  show thesis
  proof (cases "n \<le> ds_capacity d")
    case True
    then show thesis using that [of "Some NUL # rest"] Some b c l by (simp add: dstr_ensure_capacity_def)
  next
    case False
    define m where "m = (if n > length b * 2 then n else length b * 2)"
    have "ds_array (dstr_ensure_capacity d n) = Some (b @ replicate (m - length b) None)"
      and "ds_capacity (dstr_ensure_capacity d n) = m" and "ds_len (dstr_ensure_capacity d n) = length s"
      using False Some c l b by (auto simp: dstr_ensure_capacity_def realloc_blk_def Let_def m_def)
    then show thesis
      using that [of "Some NUL # rest @ replicate (m - length b) None"] False b c
      by (auto simp: m_def)
  qed
qed

lemma ensure_room_nul:
  assumes "ds_rep d s" and "length s < n" and "s \<noteq> []"
  obtains rest where "ds_array (dstr_ensure_capacity d n) = Some (map Some s @ Some NUL # rest)"
    "ds_capacity (dstr_ensure_capacity d n) = length s + 1 + length rest" "n \<le> length s + 1 + length rest"
    "ds_len (dstr_ensure_capacity d n) = length s"
proof -
  have n: "ds_array d \<noteq> None" using assms(1,3) by (auto simp: ds_rep_def split: option.splits)
  from ensure_room_text [OF assms(1,2)] obtain r where
    r: "ds_array (dstr_ensure_capacity d n) = Some (map Some s @ r)"
      "ds_capacity (dstr_ensure_capacity d n) = length s + length r" "n \<le> length s + length r"
      "ds_len (dstr_ensure_capacity d n) = length s" "\<exists>t. r = Some NUL # t" using n by metis
  from r(5) obtain t where "r = Some NUL # t" by blast
  then show thesis using that [of t] r(1-4) by simp
qed

section \<open>What the operations do to the text\<close>

lemma split_at: "k < length xs \<Longrightarrow> \<exists>m x v. xs = m @ x # v \<and> length m = k"
  by (rule exI [of _ "take k xs"], rule exI [of _ "xs ! k"], rule exI [of _ "drop (Suc k) xs"]) (simp add: id_take_nth_drop [symmetric])

text \<open>Appending characters read from elsewhere, and then the NUL.\<close>

lemma append_rep:
  assumes "ds_rep d s" and "t \<noteq> []" and "k = length t"
  shows "yields (Option.bind (ds_write (dstr_ensure_capacity d (ds_len d + k + 1)) (ds_len d) (map Some t)) (\<lambda>d1.
           ds_write (d1\<lparr>ds_len := ds_len d + k\<rparr>) (ds_len d + k) [Some NUL])) (s @ t)"
proof -
  have l: "ds_len d = length s" using assms(1) by (rule rep_len)
  let ?e = "dstr_ensure_capacity d (ds_len d + k + 1)"
  from ensure_room_text [OF assms(1), of "ds_len d + k + 1"] l
  obtain rest where e: "ds_array ?e = Some (map Some s @ rest)" "ds_capacity ?e = length s + length rest"
    "length s + k + 1 \<le> length s + length rest" by auto
  obtain m x v where r: "rest = m @ x # v" "length m = k" using split_at [of k rest] e(3) by auto
  have w: "ds_write ?e (ds_len d) (map Some t) = Some (?e\<lparr>ds_array := Some (map Some s @ map Some t @ x # v)\<rparr>)"
    by (rule write_at) (use e(1) r l assms(3) in auto)
  let ?d1 = "?e\<lparr>ds_array := Some (map Some s @ map Some t @ x # v), ds_len := ds_len d + k\<rparr>"
  have "ds_write ?d1 (ds_len d + k) [Some NUL] = Some (?d1\<lparr>ds_array := Some ((map Some s @ map Some t) @ [Some NUL] @ v)\<rparr>)"
    by (rule write_at [of _ _ "[x]"]) (use l assms(3) in auto)
  then show ?thesis
    using w e(2) r l assms(3) by (auto intro!: repI [of _ _ v])
qed

lemma ncat_rep: "ds_rep d s \<Longrightarrow> len \<le> length t \<Longrightarrow> yields (dstr_ncat d (Some t) len) (s @ take len t)"
  using append_rep [of d s "take len t" len]
  by (auto simp: dstr_ncat_def Let_def read_cstr)

lemma cat_rep: "ds_rep d s \<Longrightarrow> yields (dstr_cat d a) (s @ or_blank a)"
  using ncat_rep [of d s "length (or_blank a)" "or_blank a"]
  by (auto simp: dstr_cat_def or_blank_def split: option.splits)

lemma cat_strref_rep: "ds_rep d s \<Longrightarrow> ref_ok r \<Longrightarrow> yields (dstr_cat_strref d r) (s @ ref_text r)"
  using ncat_rep [of d s "ref_len r" "or_blank (ref_array r)"]
  by (cases "ref_array r") (auto simp: dstr_cat_strref_def ref_ok_def ref_text_def or_blank_def dstr_ncat_def [of _ None])

lemma ensure_len: "ds_len (dstr_ensure_capacity d n) = ds_len d"
  by (simp add: dstr_ensure_capacity_def Let_def)

lemma ensure_set_len: "dstr_ensure_capacity (d\<lparr>ds_len := k\<rparr>) n = (dstr_ensure_capacity d n)\<lparr>ds_len := k\<rparr>"
  by (simp add: dstr_ensure_capacity_def Let_def)

lemma write_set_len: "ds_write (d\<lparr>ds_len := k\<rparr>) i xs = map_option (\<lambda>d. d\<lparr>ds_len := k\<rparr>) (ds_write d i xs)"
  by (cases "ds_array d"; cases "blk_write (the (ds_array d)) i xs") (auto simp: ds_write_def)

lemma cat_ch_rep: "ds_rep d s \<Longrightarrow> yields (dstr_cat_ch d c) (s @ [c])"
  using append_rep [of d s "[c]" 1]
  by (auto simp: dstr_cat_ch_def Let_def ensure_set_len write_set_len ensure_len bind_map_option comp_def split: bind_splits)

text \<open>Overwriting the whole text.\<close>

lemma overwrite_rep:
  assumes "ds_rep d s" and "length t + 1 = n" and "ns = map Some t @ [Some NUL]" and "k = length t"
  shows "yields (map_option (\<lambda>d. d\<lparr>ds_len := k\<rparr>) (ds_write (dstr_ensure_capacity d n) 0 ns)) t"
proof -
  let ?e = "dstr_ensure_capacity d n"
  have "\<exists>b. ds_array ?e = Some b \<and> ds_capacity ?e = length b \<and> length t + 1 \<le> length b"
  proof (cases "length s < n")
    case True
    then show ?thesis using ensure_room_text [OF assms(1) True] assms(2) by fastforce
  next
    case False
    then have "s \<noteq> []" using assms(2) by auto
    with rep_array [OF assms(1)] obtain rest where
      "ds_array d = Some (map Some s @ Some NUL # rest)" "ds_capacity d = length s + 1 + length rest" by blast
    then show ?thesis using False assms(2) by (simp add: dstr_ensure_capacity_def)
  qed
  then obtain b where b: "ds_array ?e = Some b" "ds_capacity ?e = length b" "length t + 1 \<le> length b" by blast
  have "ds_write ?e 0 ns = Some (?e\<lparr>ds_array := Some ([] @ ns @ drop (length t + 1) b)\<rparr>)"
    by (rule write_at [of _ _ "take (length t + 1) b"]) (use b assms(3) in auto)
  then show ?thesis using b assms(3,4) by (auto intro!: repI [of _ _ "drop (length t + 1) b"])
qed

lemma copy_rep: "ds_rep d s \<Longrightarrow> yields (dstr_copy d a) (or_blank a)"
  using overwrite_rep [of d s "or_blank a"]
  by (auto simp: dstr_copy_def or_blank_def cstr_def split: option.splits)

lemma copy_dstr_rep:
  assumes "ds_rep d s" and "ds_rep e t"
  shows "yields (dstr_copy_dstr d e) t"
proof -
  let ?d = "if ds_array d \<noteq> None then dstr_free d else d"
  have d: "ds_rep ?d []" using assms(1) by (auto simp: ds_rep_def dstr_free_def)
  show ?thesis
  proof (cases "t = []")
    case False
    then have "ds_read e 0 (ds_len e + 1) = Some (map Some t @ [Some NUL])"
      using read_rest [OF assms(2), of 0] rep_len [OF assms(2)] by simp
    then show ?thesis
      using overwrite_rep [OF d, of t "ds_len e + 1" _ "ds_len e"] False rep_len [OF assms(2)]
      by (simp add: dstr_copy_dstr_def Let_def)
  qed (use d rep_len [OF assms(2)] in \<open>simp add: dstr_copy_dstr_def Let_def\<close>)
qed

text \<open>A block of exactly the characters and one more, whose last becomes the NUL.\<close>

lemma fresh_rep:
  assumes "length xs = k + 1" and "take k xs = map Some t"
  shows "yields (ds_write (d\<lparr>ds_array := Some xs, ds_len := k, ds_capacity := k + 1\<rparr>) k [Some NUL]) t"
proof -
  have l: "length t = k" using arg_cong [OF assms(2), of length] assms(1) by simp
  have xs: "xs = map Some t @ [xs ! k] @ []" using assms by (metis append_Nil2 lessI less_add_one take_Suc_conv_app_nth take_all_iff Suc_eq_plus1 order_refl)
  let ?d = "d\<lparr>ds_array := Some xs, ds_len := k, ds_capacity := k + 1\<rparr>"
  have "ds_write ?d k [Some NUL] = Some (?d\<lparr>ds_array := Some (map Some t @ [Some NUL] @ [])\<rparr>)"
    by (rule write_at [of _ _ "[xs ! k]"]) (use xs l in auto)
  then show ?thesis using l by (auto intro!: repI [of _ _ "[]"])
qed

lemma cleared_rep: "ds_rep d s \<Longrightarrow> ds_rep (if ds_array d \<noteq> None then dstr_free d else d) []"
  by (auto simp: ds_rep_def dstr_free_def)

lemma ncopy_rep:
  assumes "ds_rep d s" and "len \<le> length t"
  shows "yields (dstr_ncopy d (Some t) len) (take len t)"
proof (cases "len = 0")
  case False
  have "blk_read (cstr t) 0 (len + 1) = Some (take (len + 1) (cstr t))"
    using assms(2) by (simp add: blk_read_def cstr_def)
  moreover have "take len (take (len + 1) (cstr t)) = map Some (take len t)"
    using assms(2) by (simp add: cstr_def take_map min_def)
  ultimately show ?thesis
    using fresh_rep [of "take (len + 1) (cstr t)" len "take len t"] False assms(2)
    by (simp add: dstr_ncopy_def Let_def cstr_def)
qed (use cleared_rep [OF assms(1)] in \<open>simp add: dstr_ncopy_def Let_def\<close>)

lemma copy_strref_rep:
  assumes "ds_rep d s" and "ref_ok r" and "ref_array r \<noteq> None \<or> ref_len r = 0"
  shows "yields (dstr_copy_strref d r) (ref_text r)"
proof (cases "ref_array r")
  case None
  then show ?thesis using assms(3) cleared_rep [OF assms(1)] cleared_rep [OF cleared_rep [OF assms(1)]]
    by (simp add: dstr_copy_strref_def ref_text_def dstr_ncopy_def Let_def)
next
  case (Some a)
  then show ?thesis using ncopy_rep [OF cleared_rep [OF assms(1)], of "ref_len r" a] assms(2)
    by (auto simp: dstr_copy_strref_def ref_ok_def ref_text_def)
qed

lemma ncopy_at_rep:
  assumes "ds_rep d s" and "ds_rep e t" and "i + n \<le> length t"
  shows "yields (dstr_ncopy_at d e i n) (take n (drop i t))"
proof (cases "n = 0")
  case False
  then obtain rest where e: "ds_array e = Some (map Some t @ Some NUL # rest)" using rep_array [OF assms(2)] assms(3) by fastforce
  define xs where "xs = take (n + 1) (drop i (map Some t @ Some NUL # rest))"
  have "ds_read e i (n + 1) = Some xs" and l: "length xs = n + 1"
    using e assms(3) by (simp_all add: ds_read_def blk_read_def xs_def)
  moreover have "take n xs = map Some (take n (drop i t))"
    using assms(3) by (simp add: xs_def take_map drop_map)
  ultimately show ?thesis
    using fresh_rep [OF l] False by (simp add: dstr_ncopy_at_def Let_def)
qed (use cleared_rep [OF assms(1)] in \<open>simp add: dstr_ncopy_at_def Let_def\<close>)

lemma ncopy_dstr_rep:
  assumes "ds_rep d s" and "ds_rep e t" and "t \<noteq> [] \<or> ds_array e \<noteq> None \<or> n = 0"
  shows "yields (dstr_ncopy_dstr d e n) (take n t)"
proof (cases "n = 0")
  case False
  then obtain rest where e: "ds_array e = Some (map Some t @ Some NUL # rest)" using rep_array [OF assms(2)] assms(3) by blast
  have "take (min n (length t)) t = take n t" by (simp add: min_def)
  then show ?thesis
    using fresh_rep [of "take (min n (length t) + 1) (map Some t @ Some NUL # rest)" "min n (length t)" "take n t"] False
      rep_len [OF assms(2)]
    by (simp add: dstr_ncopy_dstr_def Let_def e blk_read_def take_map le_SucI min.coboundedI2)
qed (use cleared_rep [OF assms(1)] in \<open>simp add: dstr_ncopy_dstr_def Let_def\<close>)

lemma cat_dstr_rep:
  assumes "ds_rep d s" and "ds_rep e t"
  shows "yields (dstr_cat_dstr d e) (s @ t)"
proof (cases "t = []")
  case False
  have le: "ds_len e = length t" "ds_len d = length s" using assms rep_len by auto
  have r: "ds_read e 0 (ds_len e + 1) = Some (map Some t @ [Some NUL])"
    using read_rest [OF assms(2), of 0] False le by simp
  let ?e = "dstr_ensure_capacity d (ds_len d + ds_len e + 1)"
  from ensure_room_text [OF assms(1), of "ds_len d + ds_len e + 1"] le
  obtain rest where e: "ds_array ?e = Some (map Some s @ rest)" "ds_capacity ?e = length s + length rest"
    "length s + length t + 1 \<le> length s + length rest" by auto
  have "ds_write ?e (ds_len d) (map Some t @ [Some NUL])
    = Some (?e\<lparr>ds_array := Some (map Some s @ (map Some t @ [Some NUL]) @ drop (length t + 1) rest)\<rparr>)"
    by (rule write_at [of _ _ "take (length t + 1) rest"]) (use e le in auto)
  then show ?thesis
    using r e le False by (auto simp: dstr_cat_dstr_def Let_def intro!: repI [of _ _ "drop (length t + 1) rest"])
qed (use assms rep_len [OF assms(2)] in \<open>simp add: dstr_cat_dstr_def\<close>)

lemma rd_first: "ds_rep d s \<Longrightarrow> ds_array d = Some b \<Longrightarrow> blk_char b 0 = Some (hd (s @ [NUL]))"
  by (cases s) (auto simp: ds_rep_def blk_char_def)

lemma ncat_dstr_rep:
  assumes "ds_rep d s" and "ds_rep e t" and "is_cstr t"
  shows "yields (dstr_ncat_dstr d e n) (s @ take n t)"
proof (cases "t = [] \<or> n = 0")
  case True
  then show ?thesis
    using assms(1) rd_first [OF assms(2)] by (auto simp: dstr_ncat_dstr_def split: option.splits)
next
  case False
  then obtain b where b: "ds_array e = Some b" using assms(2) by (auto simp: ds_rep_def split: option.splits)
  have c: "hd (t @ [NUL]) \<noteq> NUL" using False assms(3) by (cases t) (auto simp: is_cstr_def)
  have le: "ds_len e = length t" using assms(2) by (rule rep_len)
  have tk: "take (min n (length t)) t = take n t" by (simp add: min_def)
  have "ds_read e 0 (min n (length t)) = Some (map Some (take n t))"
    using read_text [OF assms(2), of 0 "min n (length t)"] tk by simp
  then show ?thesis
    using append_rep [OF assms(1), of "take n t" "min n (length t)"] False b c rd_first [OF assms(2) b] le
    by (simp add: dstr_ncat_dstr_def Let_def min.commute)
qed

lemma resize_rep_text:
  assumes "ds_rep d s" and "n \<le> length s"
  shows "yields (dstr_resize d n) (take n s)"
proof (cases "n = 0")
  case False
  then obtain rest where d: "ds_array d = Some (map Some s @ Some NUL # rest)" "ds_capacity d = length s + 1 + length rest"
    using rep_array [OF assms(1)] assms(2) by (metis le_zero_eq list.size(3))
  then have e: "dstr_ensure_capacity d (n + 1) = d" using assms(2) by (simp add: dstr_ensure_capacity_def)
  obtain m x v where r: "map Some s @ Some NUL # rest = m @ x # v" "length m = n"
    using split_at [of n "map Some s @ Some NUL # rest"] assms(2) by auto
  have m: "m = map Some (take n s)" using arg_cong [OF r(1), of "take n"] r(2) assms(2) by (simp add: take_map)
  have "ds_write d n [Some NUL] = Some (d\<lparr>ds_array := Some (m @ [Some NUL] @ v)\<rparr>)"
    by (rule write_at [of _ _ "[x]"]) (use d r in auto)
  moreover have "ds_capacity d = n + 1 + length v" using d(2) arg_cong [OF r(1), of length] r(2) by simp
  ultimately show ?thesis
    using False e m assms(2) r(2) by (auto simp: dstr_resize_def intro!: repI [of _ _ v])
qed (simp add: dstr_resize_def)

text \<open>Inserting: the characters behind the place move up with the NUL, and the new ones take their place.\<close>

lemma insert_block:
  assumes "ds_rep d s" and "i < length s" and "t \<noteq> []"
  shows "yields (Option.bind (ds_move (dstr_ensure_capacity d (ds_len d + length t + 1)) (i + length t) i (ds_len d + 1 - i)) (\<lambda>d1.
     map_option (\<lambda>d2. d2\<lparr>ds_len := ds_len d + length t\<rparr>) (ds_write d1 i (map Some t)))) (take i s @ t @ drop i s)"
proof -
  let ?e = "dstr_ensure_capacity d (ds_len d + length t + 1)"
  have l: "ds_len d = length s" using assms(1) by (rule rep_len)
  have n: "length s < ds_len d + length t + 1" "s \<noteq> []" using l assms(2) by auto
  from ensure_room_nul [OF assms(1) n] l obtain rest where e: "ds_array ?e = Some (map Some s @ Some NUL # rest)"
    "ds_capacity ?e = length s + 1 + length rest" "length s + length t + 1 \<le> length s + 1 + length rest"
    by metis
  let ?u = "map Some (drop i s) @ [Some NUL]"
  have a: "map Some s @ Some NUL # rest = map Some (take i s) @ ?u @ rest"
    by (metis append.assoc append_Cons append_Nil append_take_drop_id map_append)
  have rdd: "ds_read ?e i (ds_len d + 1 - i) = Some ?u"
    by (rule read_at_mid [of _ "map Some (take i s)" _ rest]) (use e(1) a assms(2) l in auto)
  define q where "q = take (length t) (?u @ rest)"
  define w where "w = drop (length t) (?u @ rest)"
  have q2: "?u @ rest = q @ w" unfolding q_def w_def by (rule append_take_drop_id [symmetric])
  have "length q = length t" "length ?u \<le> length w"
    using e(3) assms(2) by (auto simp: q_def w_def)
  note q = this(1) q2 this(2)
  have "ds_write ?e (i + length t) ?u = Some (?e\<lparr>ds_array := Some ((map Some (take i s) @ q) @ ?u @ drop (length ?u) w)\<rparr>)"
    by (rule write_at [of _ _ "take (length ?u) w"]) (use e(1) a q assms(2) in auto)
  moreover have "ds_write (?e\<lparr>ds_array := Some ((map Some (take i s) @ q) @ ?u @ drop (length ?u) w)\<rparr>) i (map Some t)
      = Some (?e\<lparr>ds_array := Some (map Some (take i s) @ map Some t @ ?u @ drop (length ?u) w)\<rparr>)"
    using write_at [of "?e\<lparr>ds_array := Some ((map Some (take i s) @ q) @ ?u @ drop (length ?u) w)\<rparr>" "map Some (take i s)" q
        "?u @ drop (length ?u) w" i "map Some t"] q(1) assms(2) by simp
  moreover have "length w = length s - i + 1 + length rest - length t"
    using q(1) arg_cong [OF q(2), of length] by simp
  ultimately show ?thesis
    using rdd e l q(3) assms(2)
    by (auto simp: ds_move_def intro!: repI [of _ _ "drop (length ?u) w"])
qed

lemma insert_rep_text: "ds_rep d s \<Longrightarrow> i \<le> length s \<Longrightarrow> yields (dstr_insert d i a) (take i s @ or_blank a @ drop i s)"
  using insert_block [of d s i "or_blank a"] cat_rep [of d s a] rep_len [of d s]
  by (auto simp: dstr_insert_def or_blank_def Let_def split: option.splits)

lemma insert_dstr_rep:
  assumes "ds_rep d s" "ds_rep e t" "i \<le> length s"
  shows "yields (dstr_insert_dstr d i e) (take i s @ t @ drop i s)"
  using insert_block [OF assms(1), of i t] cat_dstr_rep [OF assms(1,2)] rep_len [OF assms(1)] rep_len [OF assms(2)]
    read_text [OF assms(2), of 0 "length t"] assms
  by (cases "t = []"; cases "i = length s") (auto simp: dstr_insert_dstr_def Let_def)

lemma remove_rep:
  assumes "ds_rep d s" and "i + n \<le> length s" and "length s < 2 ^ 64"
  shows "yields (dstr_remove d i n) (take i s @ drop (i + n) s)"
proof -
  have l: "ds_len d = length s" using assms(1) by (rule rep_len)
  consider "n = 0" | "n \<noteq> 0" "n = length s" | "n \<noteq> 0" "n \<noteq> length s" by blast
  then show ?thesis
  proof cases
    case 1
    then show ?thesis using assms(1) by (simp add: dstr_remove_def)
  next
    case 2
    then show ?thesis using assms(2) l by (simp add: dstr_remove_def)
  next
    case 3
    then have "s \<noteq> []" using assms(2) by auto
    then obtain rest where d: "ds_array d = Some (map Some s @ Some NUL # rest)" "ds_capacity d = length s + 1 + length rest"
      using rep_array [OF assms(1)] by blast
    let ?u = "map Some (drop (i + n) s) @ [Some NUL]" and ?m = "map Some (take n (drop i s))"
    have "s = take i s @ take n (drop i s) @ drop (i + n) s"
      by (metis add.commute append_take_drop_id drop_drop)
    then have a: "map Some s @ Some NUL # rest = map Some (take i s) @ ?m @ ?u @ rest"
      by (metis append.assoc append_Cons append_Nil map_append)
    have c: "sub64 (length s) n = length s - n" using assms(2,3) by (simp add: sub64_id)
    show ?thesis
    proof (cases "i + n = length s")
      case True
      have "?m \<noteq> []" using 3 True by simp
      then obtain x m where m: "?m = x # m" by (meson list.exhaust)
      have "ds_write d i [Some NUL] = Some (d\<lparr>ds_array := Some (map Some (take i s) @ [Some NUL] @ m @ ?u @ rest)\<rparr>)"
        by (rule write_at [of _ _ "[x]"]) (use d a m assms(2) in auto)
      moreover have "length m + 1 = n" using arg_cong [OF m, of length] assms(2) by simp
      ultimately show ?thesis
        using 3 True l d c by (auto simp: dstr_remove_def Let_def intro!: repI [of _ _ "m @ ?u @ rest"])
    next
      case False
      have r: "ds_read d (i + n) (length s + 1 - (i + n)) = Some ?u"
        by (rule read_at_mid [of _ "map Some (take i s) @ ?m" _ rest]) (use d a assms(2) in auto)
      define v where "v = drop (length ?u) (?m @ ?u)"
      have lv: "length v = n" using assms(2) by (simp add: v_def)
      have q1: "length (take (length ?u) (?m @ ?u)) = length ?u"
        unfolding length_take length_append by (rule min_absorb2) (rule le_add2)
      have q2: "?m @ ?u @ rest = take (length ?u) (?m @ ?u) @ v @ rest"
        unfolding append.assoc [symmetric] v_def append_take_drop_id ..
      have "ds_write d i ?u = Some (d\<lparr>ds_array := Some (map Some (take i s) @ ?u @ v @ rest)\<rparr>)"
      proof (rule write_at)
        show "ds_array d = Some (map Some (take i s) @ take (length ?u) (?m @ ?u) @ v @ rest)"
          by (simp only: d(1) a q2)
        show "i = length (map Some (take i s))" using assms(2) by simp
      qed (rule q1)
      then have "ds_move d i (i + n) (length s + 1 - (i + n))
        = Some (d\<lparr>ds_array := Some (map Some (take i s) @ ?u @ v @ rest)\<rparr>)"
        using r by (simp only: ds_move_def Option.bind.bind_lunit)
      then have "dstr_remove d i n
        = Some (d\<lparr>ds_array := Some (map Some (take i s) @ ?u @ v @ rest), ds_len := length s - n\<rparr>)"
        using 3 False l c assms(2) by (simp add: dstr_remove_def Let_def)
      then show ?thesis
        using d(2) assms(2) lv by (auto intro!: repI [of _ _ "v @ rest"])
    qed
  qed
qed

lemma left_rep:
  assumes "ds_rep d s" and "ds_rep e t" and "n \<le> length t"
  shows "yields (dstr_left d e n) (take n t)"
proof (cases "n = 0")
  case False
  have l: "ds_len d = length s" using assms(1) by (rule rep_len)
  let ?e = "dstr_ensure_capacity d (n + 1)"
  have "\<exists>b. ds_array ?e = Some b \<and> ds_capacity ?e = length b \<and> n < length b"
  proof (cases "length s < n + 1")
    case True
    then show ?thesis using ensure_room_text [OF assms(1) True] by fastforce
  next
    case f: False
    then have "s \<noteq> []" using False by auto
    with rep_array [OF assms(1)] obtain rest where
      "ds_array d = Some (map Some s @ Some NUL # rest)" "ds_capacity d = length s + 1 + length rest" by blast
    then show ?thesis using f by (simp add: dstr_ensure_capacity_def)
  qed
  then obtain b where b: "ds_array ?e = Some b" "ds_capacity ?e = length b" "n < length b" by blast
  obtain m x v where r: "b = m @ x # v" "length m = n" using split_at [OF b(3)] by blast
  have "ds_write ?e n [Some NUL] = Some (?e\<lparr>ds_array := Some (m @ [Some NUL] @ v)\<rparr>)"
    by (rule write_at [of _ _ "[x]"]) (use b r in auto)
  then have rz: "dstr_resize d n = Some (?e\<lparr>ds_array := Some (m @ [Some NUL] @ v), ds_len := n\<rparr>)"
    using False by (simp add: dstr_resize_def)
  have "ds_write (?e\<lparr>ds_array := Some (m @ [Some NUL] @ v), ds_len := n\<rparr>) 0 (map Some (take n t))
    = Some (?e\<lparr>ds_array := Some (m @ [Some NUL] @ v), ds_len := n\<rparr>\<lparr>ds_array := Some ([] @ map Some (take n t) @ Some NUL # v)\<rparr>)"
    by (rule write_at [of _ _ m]) (use r assms(3) in auto)
  then show ?thesis
    using rz read_text [OF assms(2), of 0 n] assms(3) b r
    by (auto simp: dstr_left_def intro!: repI [of _ _ v])
qed (simp add: dstr_left_def dstr_resize_def ds_read_def ds_write_def)

lemma mid_rep:
  assumes "ds_rep d s" and "ds_rep e t" and "i + n \<le> length t"
  shows "yields (dstr_mid d e i n) (take n (drop i t))"
  using copy_dstr_rep [OF dstr_init_rep(1) assms(2)] ncopy_at_rep [OF assms(1) _ assms(3)]
  by (auto simp: dstr_mid_def yields_def)

lemma right_rep:
  assumes "ds_rep d s" and "ds_rep e t" and "i \<le> length t"
  shows "yields (dstr_right d e i) (drop i t)"
  using ncopy_at_rep [OF dstr_init_rep(1) assms(2), of i "length t - i"] assms(3) copy_dstr_rep [OF assms(1)] rep_len [OF assms(2)]
  by (auto simp: dstr_right_def yields_def)

text \<open>C35: 
  Each operation does to the text what its name says, also when it has to find more room: appending, copying,
  inserting, removing, and taking parts.
\<close>

theorem dstr_implements_text:
  assumes "ds_rep d s" and "ds_rep e t" and "is_cstr t" and "length s < 2 ^ 64"
  shows "yields (dstr_copy d a) (or_blank a) \<and> yields (dstr_cat d a) (s @ or_blank a) \<and> yields (dstr_cat_ch d c) (s @ [c]) \<and>
    yields (dstr_copy_dstr d e) t \<and> yields (dstr_cat_dstr d e) (s @ t) \<and> yields (dstr_ncat_dstr d e n) (s @ take n t) \<and>
    (i \<le> length s \<longrightarrow> yields (dstr_insert d i a) (take i s @ or_blank a @ drop i s) \<and>
                       yields (dstr_insert_dstr d i e) (take i s @ t @ drop i s)) \<and>
    (i + n \<le> length s \<longrightarrow> yields (dstr_remove d i n) (take i s @ drop (i + n) s)) \<and>
    (n \<le> length t \<longrightarrow> yields (dstr_left d e n) (take n t) \<and> yields (dstr_right d e n) (drop n t)) \<and>
    (i + n \<le> length t \<longrightarrow> yields (dstr_mid d e i n) (take n (drop i t)))"
  using copy_rep [OF assms(1)] cat_rep [OF assms(1)] cat_ch_rep [OF assms(1)] copy_dstr_rep [OF assms(1,2)]
    cat_dstr_rep [OF assms(1,2)] ncat_dstr_rep [OF assms(1-3)] insert_rep_text [OF assms(1)]
    insert_dstr_rep [OF assms(1,2)] remove_rep [OF assms(1) _ assms(4)] left_rep [OF assms(1,2)]
    right_rep [OF assms(1,2)] mid_rep [OF assms(1,2)]
  by blast

lemma move_array_rep: "ds_rep (dstr_move_array d (Some s)) s"
  by (auto simp: dstr_move_array_def dstr_init_move_array_def cstr_def intro!: repI [of _ _ "[]"])

theorem dstr_implements_text_witness:
  "yields (dstr_insert (dstr_move_array dstr_init (Some ''rtmp//live'')) 5 (Some ''host'')) ''rtmp/host/live''"
  using dstr_implements_text [of "dstr_move_array dstr_init (Some ''rtmp//live'')" "''rtmp//live''" dstr_init "[]"
      "Some ''host''" "CHR ''x''" 0 5]
  by (simp add: move_array_rep is_cstr_def or_blank_def)

text \<open>
  \<open>dstr_insert_ch\<close> counts the characters to move with the length already raised, one more than there are: in
  a string whose array has room for just one more character it writes behind the array.
\<close>

theorem insert_ch_overflows:
  assumes "ds_rep d s" and "i < length s"
  shows "if ds_capacity d = length s + 2 then dstr_insert_ch d i c = None
         else yields (dstr_insert_ch d i c) (take i s @ c # drop i s)"
proof -
  have l: "ds_len d = length s" and ne: "s \<noteq> []" using assms rep_len by auto
  then obtain r0 where d: "ds_array d = Some (map Some s @ Some NUL # r0)" "ds_capacity d = length s + 1 + length r0"
    using rep_array [OF assms(1)] by blast
  let ?n = "length s + 2"
  let ?e = "(dstr_ensure_capacity d ?n)\<lparr>ds_len := length s + 1\<rparr>"
  from ensure_room_nul [OF assms(1), of ?n] ne obtain rest where
    e: "ds_array ?e = Some (map Some s @ Some NUL # rest)" "ds_capacity ?e = length s + 1 + length rest"
      "?n \<le> length s + 1 + length rest" by auto
  have op: "dstr_insert_ch d i c = Option.bind (ds_move ?e (i + 1) i (length s + 2 - i)) (\<lambda>d. ds_write d i [Some c])"
    using l assms(2) by (simp add: dstr_insert_ch_def Let_def ensure_set_len ensure_len)
  obtain x r where x: "rest = x # r" using e(3) by (cases rest) auto
  let ?u = "map Some (drop i s) @ [Some NUL, x]"
  have a: "map Some s @ Some NUL # rest = map Some (take i s) @ ?u @ r"
    unfolding x by (metis append.assoc append_Cons append_Nil append_take_drop_id map_append)
  have rdd: "ds_read ?e i (length s + 2 - i) = Some ?u"
    by (rule read_at_mid [of _ "map Some (take i s)" _ r]) (use e(1) a assms(2) in auto)
  show ?thesis
  proof (cases "ds_capacity d = length s + 2")
    case True
    then have "dstr_ensure_capacity d ?n = d" by (simp add: dstr_ensure_capacity_def)
    then have "r = []" using e(2) True x by simp
    then have "ds_write ?e (i + 1) ?u = None" using e(1) x assms(2) by (simp add: ds_write_def blk_write_def)
    then show ?thesis using True op rdd by (simp add: ds_move_def)
  next
    case False
    have "r \<noteq> []"
    proof (cases "?n \<le> ds_capacity d")
      case True
      then have "dstr_ensure_capacity d ?n = d" by (simp add: dstr_ensure_capacity_def)
      then show ?thesis using e(2) False x d(2) by auto
    next
      case f: False
      then have "ds_capacity d = length s + 1" using d(2) by linarith
      then have "ds_capacity ?e = 2 * (length s + 1)" using ne by (cases s) (auto simp: dstr_ensure_capacity_def Let_def)
      then show ?thesis using e(2) x ne by (cases s) auto
    qed
    then obtain y r' where r: "r = y # r'" by (meson list.exhaust)
    define q where "q = hd (?u @ [y])"
    define w where "w = tl (?u @ [y])"
    have qw: "?u @ r = q # w @ r'" "length w = length ?u" by (cases "drop i s"; simp add: q_def w_def r)+
    have w1: "ds_write ?e (i + 1) ?u = Some (?e\<lparr>ds_array := Some ((map Some (take i s) @ [q]) @ ?u @ r')\<rparr>)"
      by (rule write_at [of _ _ w]) (use e(1) a qw assms(2) in auto)
    have w2: "ds_write (?e\<lparr>ds_array := Some ((map Some (take i s) @ [q]) @ ?u @ r')\<rparr>) i [Some c]
      = Some (?e\<lparr>ds_array := Some (map Some (take i s) @ [Some c] @ ?u @ r')\<rparr>)"
      using write_at [of "?e\<lparr>ds_array := Some ((map Some (take i s) @ [q]) @ ?u @ r')\<rparr>" "map Some (take i s)" "[q]"
          "?u @ r'" i "[Some c]"] assms(2) by simp
    have "length rest = length r' + 2" using x r by simp
    then show ?thesis
      using False op rdd w1 w2 e(2) assms(2)
      by (auto simp: ds_move_def intro!: repI [of _ _ "x # r'"])
  qed
qed

theorem insert_ch_overflows_witness:
  "\<exists>d. dstr_ncopy dstr_init (Some ''ab'') 2 = Some d \<and> dstr_insert_ch (dstr_reserve d 4) 0 CHR ''x'' = None"
proof -
  have "\<exists>d. dstr_ncopy dstr_init (Some ''ab'') 2 = Some d \<and> ds_rep (dstr_reserve d 4) ''ab'' \<and> ds_capacity (dstr_reserve d 4) = 4"
    by (simp add: dstr_ncopy_def dstr_init_def cstr_def blk_read_def ds_write_def blk_write_def dstr_reserve_def
        realloc_blk_def ds_rep_def numeral_eq_Suc)
  then show ?thesis using insert_ch_overflows [of _ "''ab''" 0 "CHR ''x''"] by fastforce
qed

end
