(* ===== verification/DstrText.thy ===== *)
theory DstrText
  imports Dstr
begin

text \<open>
  The text functions of mgw-core/util/source/dstr.c: \<open>strdepad\<close>, \<open>strlist_split\<close>, \<open>dstr_replace\<close> and the
  formatted output, and the list of errors of lexer.c as a text. Strings that are changed in place are
  blocks. Loops that need not end are \<open>partial_function\<close>s: their \<open>None\<close> is undefined behaviour or no return.
\<close>

section \<open>Strings in a block\<close>

text \<open>\<open>strlen\<close> of the string at an offset, for characters of any type, and that string.\<close>

function strlen_at :: "'a \<Rightarrow> 'a block \<Rightarrow> nat \<Rightarrow> nat option" where
  "strlen_at nul b i =
     Option.bind (blk_char b i) (\<lambda>c. if c = nul then Some 0 else map_option Suc (strlen_at nul b (i + 1)))"
  by pat_completeness auto
termination by (relation "measure (\<lambda>(nul, b, i). length b - i)") (auto simp: blk_char_def split: if_splits)

declare strlen_at.simps [simp del]

definition str_at :: "char block \<Rightarrow> nat \<Rightarrow> string option" where
  "str_at b i = map_option (\<lambda>n. map the (take n (drop i b))) (strlen_at NUL b i)"

section \<open>Removing padding\<close>

definition is_padding :: "char \<Rightarrow> bool" where
  "is_padding ch \<longleftrightarrow> ch = CHR '' '' \<or> ch = CHR 0x09 \<or> ch = CHR 0x0A \<or> ch = CHR 0x0D"

function skip_pad :: "('a \<Rightarrow> bool) \<Rightarrow> 'a block \<Rightarrow> nat \<Rightarrow> nat option" where
  "skip_pad P b i = Option.bind (blk_char b i) (\<lambda>c. if P c then skip_pad P b (i + 1) else Some i)"
  by pat_completeness auto
termination by (relation "measure (\<lambda>(P, b, i). length b - i)") (auto simp: blk_char_def split: if_splits)

declare skip_pad.simps [simp del]

text \<open>The loop at the end of the string; it may not run over its start.\<close>

fun trim_pad :: "('a \<Rightarrow> bool) \<Rightarrow> 'a \<Rightarrow> 'a block \<Rightarrow> nat \<Rightarrow> 'a block option" where
  "trim_pad P nul b 0 = Option.bind (blk_char b 0) (\<lambda>c. if P c then None else Some b)"
| "trim_pad P nul b (Suc i) =
     Option.bind (blk_char b (Suc i)) (\<lambda>c. if P c then trim_pad P nul (b[Suc i := Some nul]) i else Some b)"

definition depad_with :: "('a \<Rightarrow> bool) \<Rightarrow> 'a \<Rightarrow> 'a block \<Rightarrow> 'a block option" where
  "depad_with P nul str =
     Option.bind (blk_char str 0) (\<lambda>c.
       if c = nul then Some str
       else Option.bind (skip_pad P str 0) (\<lambda>temp. Option.bind (strlen_at nul str 0) (\<lambda>len.
         Option.bind (if temp \<noteq> 0 then blk_move str 0 temp (len + 1) else Some str) (\<lambda>str.
           if len \<noteq> 0 then trim_pad P nul str (len - 1) else Some str))))"

definition strdepad :: "char block option \<Rightarrow> char block option option" where
  "strdepad str =
     (case str of None \<Rightarrow> Some None | Some b \<Rightarrow> map_option Some (depad_with is_padding NUL b))"

definition wcsdepad :: "int block option \<Rightarrow> int block option option" where
  "wcsdepad str =
     (case str of None \<Rightarrow> Some None | Some b \<Rightarrow> map_option Some (depad_with (\<lambda>c. c = 32 \<or> c = 9) 0 b))"

definition dstr_depad :: "dstr \<Rightarrow> dstr option" where
  "dstr_depad str =
     (case ds_array str of
        None \<Rightarrow> Some str
      | Some b \<Rightarrow>
          Option.bind (strdepad (Some b)) (\<lambda>a. Option.bind a (\<lambda>b. Option.bind (blk_char b 0) (\<lambda>c.
            if c \<noteq> NUL then map_option (\<lambda>n. str\<lparr>ds_array := Some b, ds_len := n\<rparr>) (strlen_at NUL b 0)
            else Some (dstr_free str)))))"

section \<open>Splitting\<close>

text \<open>\<open>strchr\<close> for a character that is not NUL: what is before the place found and what is behind it.\<close>

fun strchr :: "string \<Rightarrow> char \<Rightarrow> (string \<times> string) option" where
  "strchr [] c = None"
| "strchr (x # s) c = (if x = c then Some ([], s) else map_option (\<lambda>(a, b). (x # a, b)) (strchr s c))"

lemma strchr_shorter: "strchr s c = Some (a, b) \<Longrightarrow> s = a @ c # b"
  by (induction s arbitrary: a) (auto split: if_splits)

function split_count :: "char \<Rightarrow> bool \<Rightarrow> string \<Rightarrow> nat \<Rightarrow> nat \<Rightarrow> nat \<times> nat" where
  "split_count split_ch include_empty cur_str count total_size =
     (case strchr cur_str split_ch of
        Some (piece, rest) \<Rightarrow>
          if piece \<noteq> [] \<or> include_empty
          then split_count split_ch include_empty rest (count + 1) (total_size + (length piece + 1))
          else split_count split_ch include_empty rest count total_size
      | None \<Rightarrow>
          if cur_str \<noteq> [] \<or> include_empty then (count + 1, total_size + (length cur_str + 1)) else (count, total_size))"
  by pat_completeness auto
termination
  by (relation "measure (\<lambda>(c, inc, s, n, t). length s)") (auto dest!: strchr_shorter)

declare split_count.simps [simp del]

text \<open>One string written to the block and its offset to the table, which has room for \<open>count\<close> of them.\<close>

definition put_piece :: "nat \<Rightarrow> string \<Rightarrow> nat list \<times> char block \<times> nat \<Rightarrow> (nat list \<times> char block \<times> nat) option" where
  "put_piece count p st =
     (case st of (table, b, offset) \<Rightarrow>
        if length table < count
        then Option.bind (blk_write b offset (map Some p)) (\<lambda>b.
             Option.bind (blk_write b (offset + length p) [Some NUL]) (\<lambda>b.
               Some (table @ [offset], b, offset + (length p + 1))))
        else None)"

function split_fill ::
  "char \<Rightarrow> bool \<Rightarrow> nat \<Rightarrow> string \<Rightarrow> nat list \<times> char block \<times> nat \<Rightarrow> (nat list \<times> char block) option" where
  "split_fill split_ch include_empty count cur_str st =
     (case strchr cur_str split_ch of
        Some (piece, rest) \<Rightarrow>
          if piece \<noteq> [] \<or> include_empty
          then Option.bind (put_piece count piece st) (split_fill split_ch include_empty count rest)
          else split_fill split_ch include_empty count rest st
      | None \<Rightarrow>
          map_option (\<lambda>(table, b, offset). (table, b))
            (if cur_str \<noteq> [] \<or> include_empty then put_piece count cur_str st else Some st))"
  by pat_completeness auto
termination
  by (relation "measure (\<lambda>(c, inc, n, s, st). length s)") (auto dest!: strchr_shorter)

declare split_fill.simps [simp del]

text \<open>
  The table, as offsets into the characters behind it, and these characters. For the character NUL \<open>strchr\<close>
  finds the end of the string, and the search goes on behind it.
\<close>

definition strlist_split :: "string option \<Rightarrow> char \<Rightarrow> bool \<Rightarrow> (nat list \<times> char block) option option" where
  "strlist_split str split_ch include_empty =
     (case str of
        None \<Rightarrow> Some None
      | Some s \<Rightarrow>
          if split_ch = NUL then None
          else (case split_count split_ch include_empty s 0 0 of (count, total_size) \<Rightarrow>
            map_option Some (split_fill split_ch include_empty count s ([], replicate total_size None, 0))))"

section \<open>Replacing\<close>

fun find_sub :: "string \<Rightarrow> string \<Rightarrow> nat option" where
  "find_sub f [] = (if f = [] then Some 0 else None)"
| "find_sub f (c # s) = (if take (length f) (c # s) = f then Some 0 else map_option Suc (find_sub f s))"

definition strstr :: "char block \<Rightarrow> nat \<Rightarrow> string \<Rightarrow> nat option option" where
  "strstr b temp f = map_option (\<lambda>s. map_option (\<lambda>k. temp + k) (find_sub f s)) (str_at b temp)"

text \<open>The loop that moves the text behind the place found; the block and the number of places.\<close>

partial_function (option) move_loop :: "string \<Rightarrow> string \<Rightarrow> char block \<Rightarrow> nat \<Rightarrow> nat \<Rightarrow> (char block \<times> nat) option" where
  "move_loop f r b temp count =
     Option.bind (strstr b temp f) (\<lambda>found.
       case found of
         None \<Rightarrow> Some (b, count)
       | Some t \<Rightarrow>
           (let end = t + length f in
            Option.bind (strlen_at NUL b end) (\<lambda>end_len.
            Option.bind
              (if end_len \<noteq> 0
               then Option.bind (blk_move b (t + length r) end (end_len + 1)) (\<lambda>b.
                      if length r \<noteq> 0 then blk_write b t (map Some r) else Some b)
               else blk_write b t (cstr r))
              (\<lambda>b. move_loop f r b (t + length r) (count + 1)))))"

partial_function (option) count_loop :: "string \<Rightarrow> char block \<Rightarrow> nat \<Rightarrow> nat \<Rightarrow> nat option" where
  "count_loop f b temp count =
     Option.bind (strstr b temp f) (\<lambda>found.
       case found of None \<Rightarrow> Some count | Some t \<Rightarrow> count_loop f b (t + length f) (count + 1))"

partial_function (option) same_loop :: "string \<Rightarrow> string \<Rightarrow> char block \<Rightarrow> nat \<Rightarrow> char block option" where
  "same_loop f r b temp =
     Option.bind (strstr b temp f) (\<lambda>found.
       case found of
         None \<Rightarrow> Some b
       | Some t \<Rightarrow> Option.bind (blk_write b t (map Some r)) (\<lambda>b. same_loop f r b (t + length r)))"

text \<open>\<open>find\<close> is not NULL.\<close>

definition dstr_replace :: "dstr \<Rightarrow> string \<Rightarrow> string option \<Rightarrow> dstr option" where
  "dstr_replace str f replace =
     Option.bind (dstr_is_empty str) (\<lambda>e.
       if e then Some str
       else (let r = or_blank replace; find_len = length f; replace_len = length r in
         if replace_len < find_len then
           Option.bind (ds_array str) (\<lambda>b. map_option (\<lambda>(b, count).
             str\<lparr>ds_array := Some b,
                 ds_len := (if count \<noteq> 0 then wrap64 (ds_len str + sub64 replace_len find_len * count) else ds_len str)\<rparr>)
             (move_loop f r b 0 0))
         else if find_len < replace_len then
           Option.bind (ds_array str) (\<lambda>b. Option.bind (count_loop f b 0 0) (\<lambda>count.
             if count = 0 then Some str
             else (let len = ds_len str + (replace_len - find_len) * count;
                       str = dstr_ensure_capacity (str\<lparr>ds_len := len\<rparr>) (len + 1) in
               Option.bind (ds_array str) (\<lambda>b. map_option (\<lambda>(b, _). str\<lparr>ds_array := Some b\<rparr>) (move_loop f r b 0 0)))))
         else Option.bind (ds_array str) (\<lambda>b. map_option (\<lambda>b. str\<lparr>ds_array := Some b\<rparr>) (same_loop f r b 0))))"

definition replace_val :: "string \<Rightarrow> string option \<Rightarrow> dstr \<Rightarrow> dstr option" where
  "replace_val f val dst = (case val of None \<Rightarrow> Some dst | Some v \<Rightarrow> dstr_replace dst f (Some v))"

definition dstr_safe_printf ::
  "dstr \<Rightarrow> string option \<Rightarrow> string option \<Rightarrow> string option \<Rightarrow> string option \<Rightarrow> string option \<Rightarrow> dstr option" where
  "dstr_safe_printf dst format val1 val2 val3 val4 =
     Option.bind (dstr_copy dst format) (\<lambda>dst.
     Option.bind (replace_val ''$1'' val1 dst) (\<lambda>dst.
     Option.bind (replace_val ''$2'' val2 dst) (\<lambda>dst.
     Option.bind (replace_val ''$3'' val3 dst) (\<lambda>dst.
       replace_val ''$4'' val4 dst))))"

section \<open>Formatted output\<close>

text \<open>\<open>out\<close> is what \<open>vsnprintf\<close> makes of the format and its arguments, when it does not fail.\<close>

definition dstr_vprintf :: "dstr \<Rightarrow> string \<Rightarrow> dstr option" where
  "dstr_vprintf dst out =
     Option.bind (ds_write (dstr_ensure_capacity dst (length out + 1)) 0 (cstr out)) (\<lambda>dst.
     Option.bind (ds_array dst) (\<lambda>b. Option.bind (blk_char b 0) (\<lambda>c.
       if c = NUL then Some (dstr_free dst) else Some (dst\<lparr>ds_len := length out\<rparr>))))"

definition dstr_vcatf :: "dstr \<Rightarrow> string \<Rightarrow> dstr option" where
  "dstr_vcatf dst out =
     Option.bind (ds_write (dstr_ensure_capacity dst (ds_len dst + length out + 1)) (ds_len dst) (cstr out)) (\<lambda>dst.
     Option.bind (ds_array dst) (\<lambda>b. Option.bind (blk_char b 0) (\<lambda>c.
       if c = NUL then Some (dstr_free dst) else Some (dst\<lparr>ds_len := ds_len dst + length out\<rparr>))))"

definition dstr_printf :: "dstr \<Rightarrow> string \<Rightarrow> dstr option" where
  "dstr_printf dst out = dstr_vprintf dst out"

definition dstr_catf :: "dstr \<Rightarrow> string \<Rightarrow> dstr option" where
  "dstr_catf dst out = dstr_vcatf dst out"

text \<open>The format \<open>"%s (%u, %u): %s\n"\<close>.\<close>

definition error_line :: "error_item \<Rightarrow> string" where
  "error_line item =
     ei_file item @ '' ('' @ decimal (ei_row item) @ '', '' @ decimal (ei_column item) @ ''): '' @ ei_error item @ [CHR 0x0A]"

fun build_loop :: "error_item block \<Rightarrow> nat \<Rightarrow> nat \<Rightarrow> dstr \<Rightarrow> dstr option" where
  "build_loop items i 0 str = Some str"
| "build_loop items i (Suc n) str =
     Option.bind (blk_char items i) (\<lambda>item. Option.bind (dstr_catf str (error_line item)) (build_loop items (Suc i) n))"

definition error_data_buildstring :: "error_data \<Rightarrow> char block option option" where
  "error_data_buildstring ed = map_option ds_array (build_loop (da_array ed) 0 (da_num ed) dstr_init)"

section \<open>Reading strings in a block\<close>

lemma rd_app [simp]: "blk_char (a @ Some c # b) (length a) = Some c"
  by (simp add: blk_char_def)

lemma strlen_text: "nul \<notin> set s \<Longrightarrow> i = length a \<Longrightarrow> strlen_at nul (a @ map Some s @ Some nul # rest) i = Some (length s)"
proof (induction s arbitrary: a i)
  case (Cons c s)
  then show ?case using Cons(1) [where a = "a @ [Some c]" and i = "Suc i"] by (subst strlen_at.simps) auto
qed (subst strlen_at.simps, simp)

lemma str_at_text: "is_cstr s \<Longrightarrow> i = length a \<Longrightarrow> str_at (a @ map Some s @ Some NUL # rest) i = Some s"
  by (simp add: str_at_def strlen_text is_cstr_def comp_def)

section \<open>Padding\<close>

lemma skip_pad_text:
  "(\<forall>c \<in> set p. P c) \<Longrightarrow> \<not> P (hd (t @ [nul])) \<Longrightarrow> i = length a \<Longrightarrow>
   skip_pad P (a @ map Some (p @ t) @ Some nul # rest) i = Some (i + length p)"
proof (induction p arbitrary: a i)
  case Nil
  then show ?case by (cases t) (auto simp: skip_pad.simps)
next
  case (Cons c p)
  then show ?case using Cons(1) [where a = "a @ [Some c]" and i = "Suc i"] by (subst skip_pad.simps) auto
qed

text \<open>The text without the padding at its end.\<close>

definition trim_end :: "('a \<Rightarrow> bool) \<Rightarrow> 'a list \<Rightarrow> 'a list" where
  "trim_end P s = rev (dropWhile P (rev s))"

lemma trim_end_snoc: "trim_end P (s @ [c]) = (if P c then trim_end P s else s @ [c])"
  by (simp add: trim_end_def)

lemma trim_text:
  "(\<exists>c \<in> set s. \<not> P c) \<Longrightarrow> trim_pad P nul (map Some s @ rest) (length s - 1)
     = Some (map Some (trim_end P s) @ replicate (length s - length (trim_end P s)) (Some nul) @ rest)"
proof (induction s arbitrary: rest rule: rev_induct)
  case (snoc c s)
  have r: "blk_char (map Some s @ Some c # rest) (length s) = Some c" by (simp add: blk_char_def nth_append)
  show ?case
  proof (cases "P c")
    case True
    then have ex: "\<exists>c \<in> set s. \<not> P c" using snoc(2) by auto
    then obtain n where n: "length s = Suc n" by (cases s) auto
    have l: "length (trim_end P s) \<le> length s" using length_dropWhile_le [of P "rev s"] by (simp add: trim_end_def)
    have u: "(map Some s @ Some c # rest)[Suc n := Some nul] = map Some s @ Some nul # rest"
      using n by (simp add: list_update_append flip: n)
    have "trim_pad P nul (map Some s @ Some c # rest) (Suc n) = trim_pad P nul (map Some s @ Some nul # rest) n"
      using r True u n by simp
    also have "\<dots> = Some (map Some (trim_end P s) @ replicate (length s - length (trim_end P s)) (Some nul) @ Some nul # rest)"
      using snoc(1) [OF ex, of "Some nul # rest"] n by simp
    also have "replicate (length s - length (trim_end P s)) (Some nul) @ Some nul # rest
      = replicate (Suc (length s) - length (trim_end P s)) (Some nul) @ rest"
      using l by (simp add: Suc_diff_le replicate_app_Cons_same)
    finally show ?thesis using n True by (simp add: trim_end_snoc)
  next
    case False
    then show ?thesis using r by (cases "length s") (auto simp: trim_end_def)
  qed
qed simp

lemma depad_trims:
  assumes "s \<noteq> []" and "\<not> P (hd s)" and "nul \<notin> set s"
  shows "depad_with P nul (map Some s @ Some nul # rest)
    = Some (map Some (trim_end P s) @ replicate (length s - length (trim_end P s)) (Some nul) @ Some nul # rest)"
proof -
  have "skip_pad P (map Some s @ Some nul # rest) 0 = Some 0"
    using skip_pad_text [of "[]" P s nul 0 "[]" rest] assms(1,2) by simp
  moreover have "strlen_at nul (map Some s @ Some nul # rest) 0 = Some (length s)"
    using strlen_text [of nul s 0 "[]" rest] assms(3) by simp
  moreover have "blk_char (map Some s @ Some nul # rest) 0 = Some (hd s)" using assms(1) by (cases s) (auto simp: blk_char_def)
  moreover have "hd s \<noteq> nul" using assms(1,3) by (cases s) auto
  moreover have "trim_pad P nul (map Some s @ Some nul # rest) (length s - 1)
    = Some (map Some (trim_end P s) @ replicate (length s - length (trim_end P s)) (Some nul) @ Some nul # rest)"
    using assms(1,2) by (intro trim_text) (auto intro: bexI [of _ "hd s"])
  ultimately show ?thesis using assms(1) by (simp add: depad_with_def)
qed

text \<open>With padding in front: the move reads as many bytes behind the NUL as there is padding.\<close>

lemma depad_leading:
  fixes rest r :: "'a option list" and nul :: 'a
  assumes "p \<noteq> []" and "\<forall>c \<in> set p. P c" and "\<not> P (hd (t @ [nul]))" and "nul \<notin> set (p @ t)"
  defines "b \<equiv> map Some (p @ t) @ Some nul # rest"
  shows "length rest < length p \<Longrightarrow> depad_with P nul b = None"
    and "length p = 1 \<Longrightarrow> rest = x # r \<Longrightarrow> t \<noteq> [] \<Longrightarrow> \<not> P nul \<Longrightarrow>
      depad_with P nul b = Some (map Some t @ Some nul # x # x # r)"
proof -
  have k: "skip_pad P b 0 = Some (length p)"
    using skip_pad_text [OF assms(2,3), of 0 "[]" rest] by (simp add: b_def)
  have l: "strlen_at nul b 0 = Some (length p + length t)"
    using strlen_text [of nul "p @ t" 0 "[]" rest] assms(4) by (simp add: b_def)
  have c: "blk_char b 0 = Some (hd p)" using assms(1) by (cases p) (auto simp: blk_char_def b_def)
  have c2: "hd p \<noteq> nul" using assms(1,4) by (cases p) auto
  note c = c c2
  have lb: "length b = length p + length t + 1 + length rest" by (simp add: b_def)
  show "depad_with P nul b = None" if "length rest < length p"
    using k l c lb that assms(1) by (auto simp: depad_with_def blk_move_def blk_read_def)
  show "depad_with P nul b = Some (map Some t @ Some nul # x # x # r)"
    if "length p = 1" "rest = x # r" "t \<noteq> []" "\<not> P nul"
  proof -
    from that(1) obtain a where p: "p = [a]" by (cases p) auto
    have "blk_move b 0 1 (length t + 2) = Some (map Some t @ Some nul # x # x # r)"
      by (simp add: b_def p that(2) blk_move_def blk_read_def blk_write_def)
    moreover have "trim_pad P nul (map Some t @ Some nul # x # x # r) (length t) = Some (map Some t @ Some nul # x # x # r)"
    proof -
      have "blk_char (map Some t @ Some nul # x # x # r) (length t) = Some nul" by (simp add: blk_char_def nth_append)
      then show ?thesis using that(4) by (cases "length t") auto
    qed
    ultimately show ?thesis using k l c p that(1,4) by (simp add: depad_with_def)
  qed
qed

text \<open>
  \<open>dstr_depad\<close> without padding in front removes the padding behind the text. With padding in front it reads
  behind the array, unless there is room for as many bytes more; and the padding behind the text stays, since
  its length is taken before the text moves.
\<close>

theorem dstr_depad_outcomes:
  assumes "ds_rep d (p @ t)" and "is_cstr (p @ t)" and "\<forall>c \<in> set p. is_padding c" and "t = [] \<or> \<not> is_padding (hd t)"
  shows "(p = [] \<longrightarrow> yields (dstr_depad d) (trim_end is_padding t)) \<and>
         (p \<noteq> [] \<and> ds_capacity d < length t + 1 + 2 * length p \<longrightarrow> dstr_depad d = None) \<and>
         (length p = 1 \<and> length t + 3 \<le> ds_capacity d \<and> t \<noteq> [] \<longrightarrow> yields (dstr_depad d) t)"
proof (intro conjI impI)
  have np: "\<not> is_padding NUL" by (simp add: is_padding_def NUL_def)
  have h: "\<not> is_padding (hd (t @ [NUL]))" using assms(4) np by (cases t) auto
  have n: "NUL \<notin> set (p @ t)" using assms(2) by (simp add: is_cstr_def)
  show "yields (dstr_depad d) (trim_end is_padding t)" if z: "p = []"
  proof (cases "t = []")
    case True
    then show ?thesis using assms(1) z rd_first [OF assms(1)]
      by (auto simp: dstr_depad_def strdepad_def depad_with_def trim_end_def split: option.splits)
  next
    case False
    have "ds_rep d t" using assms(1) z by simp
    then obtain rest where d: "ds_array d = Some (map Some t @ Some NUL # rest)" "ds_capacity d = length t + 1 + length rest"
      by (rule rep_array) (use False in auto)
    let ?t = "trim_end is_padding t" and ?k = "length t - length (trim_end is_padding t)"
    have le: "length ?t \<le> length t" using length_dropWhile_le [of is_padding "rev t"] by (simp add: trim_end_def)
    have ne: "?t \<noteq> []" using False assms(4) by (auto simp: trim_end_def dropWhile_eq_Nil_conv)
    define u where "u = replicate ?k (Some NUL) @ rest"
    have u: "replicate ?k (Some NUL) @ Some NUL # rest = Some NUL # u" "length u = ?k + length rest"
      by (simp_all add: u_def replicate_app_Cons_same)
    have "set ?t \<subseteq> set t" by (auto simp: trim_end_def dest: set_dropWhileD)
    then have c: "NUL \<notin> set ?t" using n z by auto
    have "depad_with is_padding NUL (map Some t @ Some NUL # rest) = Some (map Some ?t @ Some NUL # u)"
      using depad_trims [of t is_padding NUL rest] False h n z u(1) by (cases t) auto
    moreover have "blk_char (map Some ?t @ Some NUL # u) 0 = Some (hd ?t)" using ne by (cases ?t) (auto simp: blk_char_def)
    moreover have "hd ?t \<noteq> NUL" using ne c by (cases ?t) auto
    moreover have "strlen_at NUL (map Some ?t @ Some NUL # u) 0 = Some (length ?t)"
      using strlen_text [of NUL ?t 0 "[]" u] c by simp
    ultimately show ?thesis
      using d u(2) le by (auto simp: dstr_depad_def strdepad_def intro!: repI [of _ _ u])
  qed
  show "dstr_depad d = None" if z: "p \<noteq> [] \<and> ds_capacity d < length t + 1 + 2 * length p"
  proof -
    obtain rest where d: "ds_array d = Some (map Some (p @ t) @ Some NUL # rest)" "ds_capacity d = length (p @ t) + 1 + length rest"
      by (rule rep_array [OF assms(1)]) (use z in auto)
    then show ?thesis
      using depad_leading(1) [OF _ assms(3) h n, of rest] z by (auto simp: dstr_depad_def strdepad_def)
  qed
  show "yields (dstr_depad d) t" if a: "length p = 1 \<and> length t + 3 \<le> ds_capacity d \<and> t \<noteq> []"
  proof -
    have ne: "p \<noteq> []" using a by auto
    obtain rest where d: "ds_array d = Some (map Some (p @ t) @ Some NUL # rest)" "ds_capacity d = length (p @ t) + 1 + length rest"
      by (rule rep_array [OF assms(1)]) (use a in auto)
    then obtain x r where r: "rest = x # r" using a by (cases rest) auto
    have "depad_with is_padding NUL (map Some (p @ t) @ Some NUL # rest) = Some (map Some t @ Some NUL # x # x # r)"
      using depad_leading(2) [OF ne assms(3) h n _ r] a np by blast
    moreover have "blk_char (map Some t @ Some NUL # x # x # r) 0 = Some (hd t)" using a by (cases t) (auto simp: blk_char_def)
    moreover have "hd t \<noteq> NUL" using a n by (cases t) auto
    moreover have "strlen_at NUL (map Some t @ Some NUL # x # x # r) 0 = Some (length t)"
      using strlen_text [of NUL t 0 "[]" "x # x # r"] n by simp
    ultimately show ?thesis
      using d r a by (auto simp: dstr_depad_def strdepad_def intro!: repI [of _ _ "x # x # r"])
  qed
qed

theorem dstr_depad_outcomes_witness:
  "dstr_depad (dstr_move_array dstr_init (Some '' key '')) = None"
  using dstr_depad_outcomes [of "dstr_move_array dstr_init (Some '' key '')" "'' ''" "''key ''"] move_array_rep [of dstr_init "'' key ''"]
  by (simp add: is_cstr_def NUL_def is_padding_def dstr_move_array_def dstr_init_move_array_def)

section \<open>What splitting returns\<close>

fun split_str :: "char \<Rightarrow> string \<Rightarrow> string list" where
  "split_str c [] = [[]]"
| "split_str c (x # s) =
     (if x = c then [] # split_str c s else (x # hd (split_str c s)) # tl (split_str c s))"

fun join_str :: "char \<Rightarrow> string list \<Rightarrow> string" where
  "join_str c [] = []"
| "join_str c [p] = p"
| "join_str c (p # ps) = p @ c # join_str c ps"

lemma split_str_ne: "split_str c s \<noteq> []"
  by (induction s) auto

lemma join_split: "join_str c (split_str c s) = s"
proof (induction s)
  case (Cons x s)
  obtain p ps where "split_str c s = p # ps" using split_str_ne [of c s] by (cases "split_str c s") auto
  then show ?case using Cons by (cases ps) auto
qed simp

lemma split_strchr:
  "strchr s c = None \<Longrightarrow> split_str c s = [s]"
  "strchr s c = Some (a, b) \<Longrightarrow> split_str c s = a # split_str c b"
  by (induction s arbitrary: a) (auto split: if_splits)

definition kept_pieces :: "bool \<Rightarrow> string list \<Rightarrow> string list" where
  "kept_pieces inc ps = filter (\<lambda>p. p \<noteq> [] \<or> inc) ps"

definition piece_blocks :: "string list \<Rightarrow> char block" where
  "piece_blocks ps = concat (map cstr ps)"

fun offsets :: "nat \<Rightarrow> string list \<Rightarrow> nat list" where
  "offsets i [] = []"
| "offsets i (p # ps) = i # offsets (i + (length p + 1)) ps"

lemma piece_blocks_simps [simp]:
  "piece_blocks [] = []" "piece_blocks (p # ps) = cstr p @ piece_blocks ps" "length (cstr p) = length p + 1"
  by (simp_all add: piece_blocks_def cstr_def)

lemma split_count_spec:
  "split_count c inc s n t = (n + length (kept_pieces inc (split_str c s)), t + length (piece_blocks (kept_pieces inc (split_str c s))))"
proof (induction c inc s n t rule: split_count.induct)
  case (1 c inc s n t)
  show ?case
  proof (cases "strchr s c")
    case None
    then show ?thesis by (subst split_count.simps) (simp add: split_strchr(1) kept_pieces_def)
  next
    case (Some ab)
    obtain a b where ab: "ab = (a, b)" by (cases ab)
    show ?thesis
      using 1(1) [OF Some ab [symmetric]] 1(2) [OF Some ab [symmetric]] Some ab
      by (subst split_count.simps) (auto simp: split_strchr(2) [of s c a b] kept_pieces_def)
  qed
qed

lemma put_piece_spec:
  assumes "length table < count" and "length p + 1 \<le> n"
  shows "put_piece count p (table, w @ replicate n None, length w)
    = Some (table @ [length w], (w @ cstr p) @ replicate (n - (length p + 1)) None, length w + (length p + 1))"
proof -
  have r: "replicate n None = replicate (length p) (None :: char option) @ None # replicate (n - (length p + 1)) None"
    using assms(2) by (metis Suc_eq_plus1 add_diff_inverse_nat le_imp_less_Suc less_Suc_eq_le less_imp_le not_less
        replicate_Suc replicate_add replicate_app_Cons_same append_Cons)
  have "blk_write (w @ replicate n None) (length w) (map Some p)
    = Some (w @ map Some p @ [None] @ replicate (n - (length p + 1)) None)"
    unfolding r by (simp add: blk_write_def)
  moreover have "blk_write (w @ map Some p @ [None] @ replicate (n - (length p + 1)) None) (length w + length p) [Some NUL]
    = Some (w @ map Some p @ [Some NUL] @ replicate (n - (length p + 1)) None)"
    by (simp add: blk_write_def)
  ultimately show ?thesis using assms(1) by (simp add: put_piece_def cstr_def)
qed

lemma split_fill_spec:
  "length table + length (kept_pieces inc (split_str c s)) \<le> count \<Longrightarrow> n = length (piece_blocks (kept_pieces inc (split_str c s))) \<Longrightarrow>
   split_fill c inc count s (table, w @ replicate n None, length w)
     = Some (table @ offsets (length w) (kept_pieces inc (split_str c s)), w @ piece_blocks (kept_pieces inc (split_str c s)))"
proof (induction "length s" arbitrary: s table w n rule: less_induct)
  case less
  show ?case
  proof (cases "strchr s c")
    case None
    then show ?thesis using less(2,3) put_piece_spec [of table count s n w]
      by (subst split_fill.simps) (auto simp: split_strchr(1) kept_pieces_def)
  next
    case (Some ab)
    obtain a b where ab: "ab = (a, b)" by (cases ab)
    note sp = split_strchr(2) [OF Some [unfolded ab]]
    have len: "length b < length s" using strchr_shorter [OF Some [unfolded ab]] by simp
    show ?thesis
    proof (cases "a \<noteq> [] \<or> inc")
      case True
      then have k: "kept_pieces inc (split_str c s) = a # kept_pieces inc (split_str c b)" by (simp add: sp kept_pieces_def)
      have put: "put_piece count a (table, w @ replicate n None, length w)
        = Some (table @ [length w], (w @ cstr a) @ replicate (n - (length a + 1)) None, length (w @ cstr a))"
        using put_piece_spec [of table count a n w] less(2,3) k by simp
      have "split_fill c inc count b (table @ [length w], (w @ cstr a) @ replicate (n - (length a + 1)) None, length (w @ cstr a))
        = Some ((table @ [length w]) @ offsets (length (w @ cstr a)) (kept_pieces inc (split_str c b)),
                (w @ cstr a) @ piece_blocks (kept_pieces inc (split_str c b)))"
        by (rule less(1) [OF len]) (use less(2,3) k in auto)
      then show ?thesis using Some ab True put k by (subst split_fill.simps) simp
    next
      case False
      then have "kept_pieces inc (split_str c s) = kept_pieces inc (split_str c b)" by (simp add: sp kept_pieces_def)
      then show ?thesis using Some ab False less(1) [OF len] less(2,3) by (subst split_fill.simps) auto
    qed
  qed
qed

lemma offsets_read:
  "(\<forall>p \<in> set ps. is_cstr p) \<Longrightarrow> i = length w \<Longrightarrow> map (str_at (w @ piece_blocks ps)) (offsets i ps) = map Some ps"
proof (induction ps arbitrary: w i)
  case (Cons p ps)
  have "str_at (w @ map Some p @ Some NUL # piece_blocks ps) i = Some p"
    using Cons(2,3) by (intro str_at_text) auto
  moreover have "map (str_at ((w @ cstr p) @ piece_blocks ps)) (offsets (i + (length p + 1)) ps) = map Some ps"
    using Cons(2,3) by (intro Cons(1)) auto
  ultimately show ?case by (simp add: cstr_def)
qed simp

lemma split_str_chars: "p \<in> set (split_str c s) \<Longrightarrow> set p \<subseteq> set s - {c}"
proof (induction s arbitrary: p)
  case (Cons x s)
  obtain q qs where "split_str c s = q # qs" using split_str_ne [of c s] by (cases "split_str c s") auto
  then show ?case using Cons(1) [of q] Cons(1) [of p] Cons(2) by (auto split: if_splits)
qed simp

text \<open>C37: 
  \<open>strlist_split\<close> returns, for a character that is not NUL, a block in which the entries of the table are the
  pieces of the string, without the empty ones unless they are asked for; the block is filled to its last
  byte, and the pieces joined again are the string. The character NUL takes the search behind the string.
\<close>

theorem strlist_split_pieces:
  assumes "is_cstr s"
  shows "(c \<noteq> NUL \<longrightarrow> (\<exists>table b. strlist_split (Some s) c inc = Some (Some (table, b)) \<and>
            map (str_at b) table = map Some (kept_pieces inc (split_str c s)) \<and> None \<notin> set b)) \<and>
         join_str c (split_str c s) = s \<and> (\<forall>p \<in> set (split_str c s). c \<notin> set p) \<and>
         strlist_split (Some s) NUL inc = None"
proof -
  let ?ps = "kept_pieces inc (split_str c s)"
  have p: "p \<in> set ?ps \<Longrightarrow> is_cstr p" for p
    using split_str_chars [of p c s] assms by (auto simp: kept_pieces_def is_cstr_def)
  have "c \<noteq> NUL \<Longrightarrow> strlist_split (Some s) c inc = Some (Some (offsets 0 ?ps, piece_blocks ?ps))"
    using split_fill_spec [of "[]" inc c s "length ?ps" "length (piece_blocks ?ps)" "[]"]
    by (simp add: strlist_split_def split_count_spec)
  moreover have "map (str_at (piece_blocks ?ps)) (offsets 0 ?ps) = map Some ?ps"
    using offsets_read [of ?ps 0 "[]"] p by simp
  moreover have "None \<notin> set (piece_blocks ?ps)" by (auto simp: piece_blocks_def cstr_def)
  ultimately show ?thesis
    using join_split [of c s] split_str_chars [of _ c s] by (auto simp: strlist_split_def)
qed

theorem strlist_split_pieces_witness:
  "\<exists>table b. strlist_split (Some ''a,,b'') CHR '','' False = Some (Some (table, b)) \<and> map (str_at b) table = [Some ''a'', Some ''b'']"
  using strlist_split_pieces [of "''a,,b''" "CHR '',''" False] by (auto simp: is_cstr_def NUL_def kept_pieces_def)

section \<open>What replacing does\<close>

lemma find_sub_Some:
  "find_sub f s = Some k \<Longrightarrow> k + length f \<le> length s \<and> s = take k s @ f @ drop (k + length f) s"
proof (induction s arbitrary: k)
  case (Cons c s)
  show ?case
  proof (cases "take (length f) (c # s) = f")
    case True
    then have "length f \<le> length (c # s)" by (metis length_take min.cobounded1)
    then show ?thesis using Cons(2) True append_take_drop_id [of "length f" "c # s"] by auto
  next
    case False
    then obtain j where "find_sub f s = Some j" "k = Suc j" using Cons(2) by auto
    then show ?thesis using Cons(1) [of j] by auto
  qed
qed (auto split: if_splits)

text \<open>It is the first place where the text occurs.\<close>

lemma find_sub_first: "(case find_sub f s of None \<Rightarrow> \<forall>j. take (length f) (drop j s) \<noteq> f
    | Some k \<Rightarrow> take (length f) (drop k s) = f \<and> (\<forall>j < k. take (length f) (drop j s) \<noteq> f))"
proof (induction s)
  case (Cons c s)
  have "(\<forall>j. P j) \<longleftrightarrow> P 0 \<and> (\<forall>j. P (Suc j))" for P :: "nat \<Rightarrow> bool" by (metis nat.exhaust)
  note all = this
  show ?case
  proof (cases "take (length f) (c # s) = f")
    case False
    then show ?thesis using Cons
      by (cases "find_sub f s") (auto simp: all [of "\<lambda>j. take (length f) (drop j (c # s)) \<noteq> f"] less_Suc_eq_0_disj)
  qed simp
qed simp

lemma find_sub_shorter: "find_sub f s = Some k \<Longrightarrow> f \<noteq> [] \<Longrightarrow> length s - (k + length f) < length s"
  using find_sub_Some [of f s k] by (cases f) auto

lemma find_sub_Nil [simp]: "find_sub [] s = Some 0"
  by (cases s) auto

text \<open>The reference: every place, from left to right and without overlap, replaced.\<close>

function replace_all :: "string \<Rightarrow> string \<Rightarrow> string \<Rightarrow> string" where
  "replace_all f r s =
     (if f = [] then s
      else (case find_sub f s of
              None \<Rightarrow> s
            | Some k \<Rightarrow> take k s @ r @ replace_all f r (drop (k + length f) s)))"
  by pat_completeness auto
termination by (relation "measure (\<lambda>(f, r, s). length s)") (auto dest: find_sub_shorter)

declare replace_all.simps [simp del]

function places :: "string \<Rightarrow> string \<Rightarrow> nat" where
  "places f s =
     (if f = [] then 0
      else (case find_sub f s of None \<Rightarrow> 0 | Some k \<Rightarrow> 1 + places f (drop (k + length f) s)))"
  by pat_completeness auto
termination by (relation "measure (\<lambda>(f, s). length s)") (auto dest: find_sub_shorter)

declare places.simps [simp del]

lemma replace_all_length:
  "f \<noteq> [] \<Longrightarrow> length (replace_all f r s) + places f s * length f = length s + places f s * length r"
proof (induction f r s rule: replace_all.induct)
  case (1 f r s)
  show ?case
  proof (cases "find_sub f s")
    case None
    then show ?thesis by (simp add: replace_all.simps [of f r s] places.simps [of f s])
  next
    case (Some k)
    let ?d = "drop (k + length f) s"
    have "length (replace_all f r ?d) + places f ?d * length f = length ?d + places f ?d * length r"
      using 1 Some by blast
    moreover have "k + length f \<le> length s" using find_sub_Some [OF Some] by blast
    ultimately show ?thesis
      using Some 1(2) by (simp add: replace_all.simps [of f r s] places.simps [of f s])
  qed
qed

lemma replace_all_chars: "set (replace_all f r s) \<subseteq> set s \<union> set r"
proof (induction f r s rule: replace_all.induct)
  case (1 f r s)
  show ?case
  proof (cases "f = [] \<or> find_sub f s = None")
    case False
    then obtain k where k: "find_sub f s = Some k" "f \<noteq> []" by auto
    have "set (replace_all f r (drop (k + length f) s)) \<subseteq> set s \<union> set r"
      using 1 [OF k(2,1)] set_drop_subset [of "k + length f" s] by blast
    then show ?thesis using k set_take_subset [of k s] by (subst replace_all.simps) auto
  qed (subst replace_all.simps, auto)
qed

lemma strstr_text:
  "is_cstr s \<Longrightarrow> i = length a \<Longrightarrow> strstr (a @ map Some s @ Some NUL # rest) i f = Some (map_option (\<lambda>k. i + k) (find_sub f s))"
  by (simp add: strstr_def str_at_text)

text \<open>One round: the place found is replaced, and the text behind it is moved.\<close>

lemma move_round:
  assumes "is_cstr (m @ f @ t)" and "length r + length t \<le> length f + length t + length rest"
    and "i = length a + length m"
  defines "b \<equiv> map Some a @ map Some (m @ f @ t) @ Some NUL # rest"
  shows "\<exists>rest'. Option.bind (strlen_at NUL b (i + length f)) (\<lambda>end_len.
      if end_len \<noteq> 0
      then Option.bind (blk_move b (i + length r) (i + length f) (end_len + 1)) (\<lambda>b.
             if length r \<noteq> 0 then blk_write b i (map Some r) else Some b)
      else blk_write b i (cstr r)) = Some (map Some (a @ m @ r) @ map Some t @ Some NUL # rest') \<and>
    length r + length t + length rest' = length f + length t + length rest"
proof -
  let ?u = "map Some t @ [Some NUL]"
  have b: "b = map Some (a @ m @ f) @ map Some t @ Some NUL # rest" by (simp add: b_def)
  have len: "strlen_at NUL b (i + length f) = Some (length t)"
    unfolding b using assms(1,3) by (intro strlen_text) (auto simp: is_cstr_def)
  define w where "w = map Some f @ ?u @ rest"
  have bw: "b = map Some (a @ m) @ w" by (simp add: b_def w_def)
  have lw: "length r + length ?u \<le> length w" using assms(2) by (simp add: w_def)
  define rest' where "rest' = drop (length r + length ?u) w"
  have split: "w = take (length r) w @ take (length ?u) (drop (length r) w) @ rest'"
    by (metis add.commute append_take_drop_id drop_drop rest'_def)
  have lr: "length r + length t + length rest' = length f + length t + length rest"
    using lw by (simp add: rest'_def w_def)
  show ?thesis
  proof (cases "t = []")
    case True
    have "b = map Some (a @ m) @ take (length r + 1) w @ drop (length r + 1) w" using bw by simp
    moreover have "length (take (length r + 1) w) = length r + 1" using lw True by simp
    ultimately have "blk_write b i (cstr r) = Some (map Some (a @ m) @ cstr r @ drop (length r + 1) w)"
      using assms(3) by (simp add: blk_write_def)
    then show ?thesis using len lr True by (auto simp: cstr_def rest'_def)
  next
    case False
    have blk_char: "blk_read b (i + length f) (length t + 1) = Some ?u"
      using blk_read_mid [of "length t + 1" ?u "i + length f" "map Some (a @ m @ f)" rest] b assms(3) by simp
    have "blk_write b (i + length r) ?u = Some ((map Some (a @ m) @ take (length r) w) @ ?u @ rest')"
    proof -
      have "b = (map Some (a @ m) @ take (length r) w) @ take (length ?u) (drop (length r) w) @ rest'"
        using bw split by simp
      then show ?thesis
        using blk_write_mid [of "take (length ?u) (drop (length r) w)" ?u "i + length r" "map Some (a @ m) @ take (length r) w" rest']
          lw assms(3) by simp
    qed
    then have mv: "blk_move b (i + length r) (i + length f) (length t + 1) = Some (map Some (a @ m) @ take (length r) w @ ?u @ rest')"
      using blk_char by (simp add: blk_move_def)
    have "length r \<noteq> 0 \<Longrightarrow> blk_write (map Some (a @ m) @ take (length r) w @ ?u @ rest') i (map Some r)
      = Some (map Some (a @ m) @ map Some r @ ?u @ rest')"
      using lw assms(3) by (intro blk_write_mid) simp_all
    then show ?thesis using len mv lr False by (cases "length r = 0") auto
  qed
qed

lemma move_loop_text:
  "is_cstr (s @ r) \<Longrightarrow> f \<noteq> [] \<Longrightarrow> i = length a \<Longrightarrow> places f s * length r \<le> places f s * length f + length rest \<Longrightarrow>
   \<exists>rest'. move_loop f r (map Some a @ map Some s @ Some NUL # rest) i n
     = Some (map Some (a @ replace_all f r s) @ Some NUL # rest', n + places f s) \<and>
     length (replace_all f r s) + length rest' = length s + length rest"
proof (induction "length s" arbitrary: s a i n rest rule: less_induct)
  case less
  have c: "is_cstr s" using less(2) by (simp add: is_cstr_def)
  have found: "strstr (map Some a @ map Some s @ Some NUL # rest) i f = Some (map_option (\<lambda>k. i + k) (find_sub f s))"
    using c less(4) by (intro strstr_text) auto
  show ?case
  proof (cases "find_sub f s")
    case None
    then show ?thesis using found by (simp add: move_loop.simps replace_all.simps [of f r s] places.simps [of f s])
  next
    case (Some k)
    let ?t = "drop (k + length f) s" and ?m = "take k s"
    have k: "k + length f \<le> length s" and s: "s = ?m @ f @ ?t" using find_sub_Some [OF Some] by auto
    have P: "places f s = 1 + places f ?t" using Some less(3) by (simp add: places.simps [of f s])
    have sp: "length r \<le> length f + length rest \<and> places f ?t * length r \<le> places f ?t * length f + (length f + length rest - length r)"
    proof (cases "length r \<le> length f")
      case True
      then have "places f ?t * length r \<le> places f ?t * length f" by simp
      then show ?thesis using True by linarith
    next
      case False
      then have "places f ?t * length f \<le> places f ?t * length r" by (intro mult_le_mono2) simp
      moreover have "length r + places f ?t * length r \<le> length f + places f ?t * length f + length rest"
        using less(5) unfolding P add_mult_distrib by simp
      ultimately show ?thesis by linarith
    qed
    have c': "is_cstr (?m @ f @ ?t)" using c s by metis
    have l': "length r + length ?t \<le> length f + length ?t + length rest" using sp by simp
    have i': "i + k = length a + length ?m" using less(4) k by simp
    from move_round [OF c' l' i', folded s] obtain rest1 where
      r1: "Option.bind (strlen_at NUL (map Some a @ map Some s @ Some NUL # rest) (i + k + length f)) (\<lambda>end_len.
        if end_len \<noteq> 0
        then Option.bind (blk_move (map Some a @ map Some s @ Some NUL # rest) (i + k + length r) (i + k + length f) (end_len + 1)) (\<lambda>b.
               if length r \<noteq> 0 then blk_write b (i + k) (map Some r) else Some b)
        else blk_write (map Some a @ map Some s @ Some NUL # rest) (i + k) (cstr r))
        = Some (map Some (a @ ?m @ r) @ map Some ?t @ Some NUL # rest1)"
      and l2: "length r + length ?t + length rest1 = length f + length ?t + length rest"
      by blast
    have l1: "length r + length rest1 = length f + length rest" using l2 by linarith
    obtain el where el: "strlen_at NUL (map Some a @ map Some s @ Some NUL # rest) (i + k + length f) = Some el"
      using r1 by (cases "strlen_at NUL (map Some a @ map Some s @ Some NUL # rest) (i + k + length f)") auto
    have step: "move_loop f r (map Some a @ map Some s @ Some NUL # rest) i n
      = move_loop f r (map Some (a @ ?m @ r) @ map Some ?t @ Some NUL # rest1) (i + k + length r) (n + 1)"
      using found Some r1 el by (subst move_loop.simps) (simp add: Let_def)
    have ih: "\<exists>rest'. move_loop f r (map Some (a @ ?m @ r) @ map Some ?t @ Some NUL # rest1) (i + k + length r) (n + 1)
     = Some (map Some ((a @ ?m @ r) @ replace_all f r ?t) @ Some NUL # rest', (n + 1) + places f ?t) \<and>
       length (replace_all f r ?t) + length rest' = length ?t + length rest1"
    proof (rule less(1))
      show "length ?t < length s" using k less(3) by (cases f) auto
      show "is_cstr (?t @ r)" using less(2) by (auto simp: is_cstr_def dest: in_set_dropD)
      show "i + k + length r = length (a @ ?m @ r)" using less(4) k by simp
      show "places f ?t * length r \<le> places f ?t * length f + length rest1" using sp l1 by simp
    qed (rule less(3))
    have "replace_all f r s = ?m @ r @ replace_all f r ?t" using Some less(3) by (simp add: replace_all.simps [of f r s])
    then show ?thesis using step ih P l1 k by auto
  qed
qed

lemma count_loop_text:
  "is_cstr s \<Longrightarrow> f \<noteq> [] \<Longrightarrow> i = length a \<Longrightarrow> count_loop f (map Some a @ map Some s @ Some NUL # rest) i n = Some (n + places f s)"
proof (induction "length s" arbitrary: s a i n rule: less_induct)
  case less
  have found: "strstr (map Some a @ map Some s @ Some NUL # rest) i f = Some (map_option (\<lambda>k. i + k) (find_sub f s))"
    using less(2,4) by (intro strstr_text) auto
  show ?case
  proof (cases "find_sub f s")
    case None
    then show ?thesis using found by (simp add: count_loop.simps places.simps [of f s])
  next
    case (Some k)
    let ?t = "drop (k + length f) s"
    have k: "k + length f \<le> length s" and s: "s = (take k s @ f) @ ?t" using find_sub_Some [OF Some] by auto
    have "count_loop f (map Some (a @ take k s @ f) @ map Some ?t @ Some NUL # rest) (i + (k + length f)) (n + 1)
      = Some ((n + 1) + places f ?t)"
    proof (rule less(1))
      show "length ?t < length s" using k less(3) by (cases f) auto
      show "is_cstr ?t" using less(2) by (auto simp: is_cstr_def dest: in_set_dropD)
      show "i + (k + length f) = length (a @ take k s @ f)" using less(4) k by simp
    qed (rule less(3))
    moreover have "map Some a @ map Some s @ Some NUL # rest = map Some (a @ take k s @ f) @ map Some ?t @ Some NUL # rest"
      by (subst s) simp
    ultimately show ?thesis
      using found Some less(3) by (subst count_loop.simps) (simp add: places.simps [of f s] add.assoc)
  qed
qed

lemma same_loop_text:
  "is_cstr (s @ r) \<Longrightarrow> f \<noteq> [] \<Longrightarrow> length r = length f \<Longrightarrow> i = length a \<Longrightarrow>
   same_loop f r (map Some a @ map Some s @ Some NUL # rest) i = Some (map Some (a @ replace_all f r s) @ Some NUL # rest)"
proof (induction "length s" arbitrary: s a i rule: less_induct)
  case less
  have found: "strstr (map Some a @ map Some s @ Some NUL # rest) i f = Some (map_option (\<lambda>k. i + k) (find_sub f s))"
    using less(2,5) by (intro strstr_text) (auto simp: is_cstr_def)
  show ?case
  proof (cases "find_sub f s")
    case None
    then show ?thesis using found by (simp add: same_loop.simps replace_all.simps [of f r s])
  next
    case (Some k)
    let ?t = "drop (k + length f) s"
    have k: "k + length f \<le> length s" and s: "s = take k s @ f @ ?t" using find_sub_Some [OF Some] by auto
    have "same_loop f r (map Some (a @ take k s @ r) @ map Some ?t @ Some NUL # rest) (i + k + length r)
      = Some (map Some ((a @ take k s @ r) @ replace_all f r ?t) @ Some NUL # rest)"
    proof (rule less(1))
      show "length ?t < length s" using k less(3) by (cases f) auto
      show "is_cstr (?t @ r)" using less(2) by (auto simp: is_cstr_def dest: in_set_dropD)
      show "i + k + length r = length (a @ take k s @ r)" using less(5) k by simp
    qed (rule less(3,4))+
    moreover have "blk_write (map Some a @ map Some s @ Some NUL # rest) (i + k) (map Some r)
      = Some (map Some (a @ take k s @ r) @ map Some ?t @ Some NUL # rest)"
    proof -
      have "map Some a @ map Some s @ Some NUL # rest = map Some (a @ take k s) @ map Some f @ (map Some ?t @ Some NUL # rest)"
        by (subst s) simp
      then show ?thesis
        using blk_write_mid [of "map Some f" "map Some r" "i + k" "map Some (a @ take k s)" "map Some ?t @ Some NUL # rest"]
          less(4,5) k by simp
    qed
    ultimately show ?thesis
      using found Some less(3) by (subst same_loop.simps) (simp add: replace_all.simps [of f r s])
  qed
qed

lemma shorter_length:
  assumes "d * c \<le> n" and "n < 2 ^ 64" and "0 < d" and "d < 2 ^ 64" and "r < f" and "d = f - r"
  shows "wrap64 (n + sub64 r f * c) = n - d * c"
proof -
  have "sub64 r f = 2 ^ 64 - d" using assms(3-6) by (simp add: sub64_def)
  moreover have "n + (2 ^ 64 - d) * c = (n - d * c) + c * 2 ^ 64"
  proof -
    have "(2 ^ 64 - d) * c + d * c = c * 2 ^ 64" using assms(4) by (simp flip: add_mult_distrib)
    then show ?thesis using assms(1) by linarith
  qed
  ultimately show ?thesis using assms(2) by (simp add: wrap64_def)
qed

lemma replace_shrink_len:
  assumes "f \<noteq> []" "length r < length f" "length s < 2 ^ 64"
  shows "(if places f s \<noteq> 0 then wrap64 (length s + sub64 (length r) (length f) * places f s) else length s)
    = length (replace_all f r s)"
proof (cases "places f s = 0")
  case False
  have L: "length (replace_all f r s) + places f s * length f = length s + places f s * length r"
    by (rule replace_all_length) (rule assms(1))
  have "(length f - length r) * places f s + places f s * length r = places f s * length f"
    using assms(2) by (simp flip: distrib_right add: mult.commute [of "places f s"])
  then have e: "length (replace_all f r s) = length s - (length f - length r) * places f s"
    "(length f - length r) * places f s \<le> length s" using L by linarith+
  have "length f - length r \<le> (length f - length r) * places f s" using False by simp
  then have "length f - length r < 2 ^ 64" using e(2) assms(3) by linarith
  then show ?thesis using False shorter_length [OF e(2) assms(3) _ _ assms(2)] assms(2) e(1) by simp
qed (use replace_all_length [OF assms(1), of r s] in simp)

text \<open>C36: 
  \<open>dstr_replace\<close> replaces every place of a text that is not empty, and sets the length to that of the result,
  for a replacement that is shorter, longer or of the same length.
\<close>

theorem dstr_replace_all:
  assumes "ds_rep d s" and "is_cstr s" and "f \<noteq> []" and "is_cstr (or_blank replace)" and "length s < 2 ^ 64"
  shows "yields (dstr_replace d f replace) (replace_all f (or_blank replace) s)"
proof (cases "s = []")
  case True
  have "dstr_is_empty d = Some True" using assms(1) True by (auto simp: dstr_is_empty_def ds_rep_def split: option.splits)
  moreover have "replace_all f (or_blank replace) [] = []" using assms(3) by (simp add: replace_all.simps)
  ultimately show ?thesis using assms(1) True by (simp add: dstr_replace_def)
next
  case False
  let ?r = "or_blank replace"
  obtain rest where d: "ds_array d = Some (map Some s @ Some NUL # rest)" "ds_capacity d = length s + 1 + length rest"
    by (rule rep_array [OF assms(1)]) (use False in auto)
  have l: "ds_len d = length s" using assms(1) by (rule rep_len)
  have "hd s \<noteq> NUL" using False assms(2) by (cases s) (auto simp: is_cstr_def)
  then have e: "dstr_is_empty d = Some False"
    using d l False by (cases s) (auto simp: dstr_is_empty_def blk_char_def)
  have c: "is_cstr (s @ ?r)" using assms(2,4) by (simp add: is_cstr_def)
  note L = replace_all_length [OF assms(3), of ?r s]
  consider "length ?r < length f" | "length f < length ?r" | "length ?r = length f" by linarith
  then show ?thesis
  proof cases
    case 1
    then have "places f s * length ?r \<le> places f s * length f + length rest" by (simp add: trans_le_add1)
    from move_loop_text [OF c assms(3) _ this, of 0 "[]" 0] obtain rest' where
      m: "move_loop f ?r (map Some s @ Some NUL # rest) 0 0 = Some (map Some (replace_all f ?r s) @ Some NUL # rest', places f s)"
        "length (replace_all f ?r s) + length rest' = length s + length rest" by auto
    show ?thesis
      using e d l m 1 replace_shrink_len [OF assms(3) 1 assms(5)]
      by (auto simp: dstr_replace_def Let_def intro!: repI [of _ _ rest'])
  next
    case 2
    have n: "count_loop f (map Some s @ Some NUL # rest) 0 0 = Some (places f s)"
      using count_loop_text [OF assms(2,3), of 0 "[]" rest 0] by simp
    show ?thesis
    proof (cases "places f s = 0")
      case True
      then have "replace_all f ?r s = s"
        by (cases "find_sub f s") (auto simp: replace_all.simps [of f ?r s] places.simps [of f s] assms(3))
      then show ?thesis using e d l n 2 True assms(1) by (simp add: dstr_replace_def Let_def)
    next
      case p: False
      let ?n = "length s + (length ?r - length f) * places f s"
      have ln: "?n = length (replace_all f ?r s)"
      proof -
        have "(length ?r - length f) * places f s + places f s * length f = places f s * length ?r"
          using 2 by (simp flip: distrib_right add: mult.commute [of "places f s"])
        then show ?thesis using L by linarith
      qed
      have "length s < ?n + 1" by simp
      from ensure_room_nul [OF assms(1) this False] obtain rest1 where
        b: "ds_array (dstr_ensure_capacity d (?n + 1)) = Some (map Some s @ Some NUL # rest1)"
           "ds_capacity (dstr_ensure_capacity d (?n + 1)) = length s + 1 + length rest1" "?n + 1 \<le> length s + 1 + length rest1"
        by metis
      have "places f s * length ?r \<le> places f s * length f + length rest1"
        using b(3) ln L by linarith
      from move_loop_text [OF c assms(3) _ this, of 0 "[]" 0] obtain rest' where
        m: "move_loop f ?r (map Some s @ Some NUL # rest1) 0 0 = Some (map Some (replace_all f ?r s) @ Some NUL # rest', places f s)"
          "length (replace_all f ?r s) + length rest' = length s + length rest1" by auto
      show ?thesis
        using e d l n p 2 b m ln
        by (auto simp: dstr_replace_def Let_def ensure_set_len intro!: repI [of _ _ rest'])
    qed
  next
    case 3
    have m: "same_loop f ?r (map Some s @ Some NUL # rest) 0 = Some (map Some (replace_all f ?r s) @ Some NUL # rest)"
      using same_loop_text [OF c assms(3) 3, of 0 "[]" rest] by simp
    show ?thesis
      using e d l m 3 L by (auto simp: dstr_replace_def Let_def intro!: repI [of _ _ rest])
  qed
qed

theorem dstr_replace_all_witness:
  "yields (dstr_replace (dstr_move_array dstr_init (Some ''a$1b$1'')) ''$1'' (Some ''xyz'')) ''axyzbxyz''"
  using dstr_replace_all [of "dstr_move_array dstr_init (Some ''a$1b$1'')" "''a$1b$1''" "''$1''" "Some ''xyz''"]
  by (simp add: move_array_rep is_cstr_def NUL_def or_blank_def replace_all.simps)

text \<open>
  An empty text to look for is found at every place without getting on: the loops for replacements that are
  longer or of the same length do not end.
\<close>

lemma count_loop_empty: "count_loop f b i n = Some m \<Longrightarrow> f \<noteq> []"
proof (rule count_loop.raw_induct [where P = "\<lambda>f b i n m. f \<noteq> []"])
  fix loop f b i n m
  assume IH: "\<And>f b i n m. loop f b i n = Some m \<Longrightarrow> f \<noteq> []"
    and eq: "Option.bind (strstr b i f) (\<lambda>found. case found of None \<Rightarrow> Some n | Some t \<Rightarrow> loop f b (t + length f) (n + 1)) = Some m"
  show "f \<noteq> []"
  proof
    assume "f = []"
    then obtain j k where "loop [] b j k = Some m" using eq by (auto simp: bind_Some_iff strstr_def)
    then show False using IH by blast
  qed
qed

lemma same_loop_empty: "same_loop f r b i = Some m \<Longrightarrow> f = [] \<longrightarrow> r = [] \<longrightarrow> False"
proof (rule same_loop.raw_induct [where P = "\<lambda>f r b i m. f = [] \<longrightarrow> r = [] \<longrightarrow> False"])
  fix loop f r b i m
  assume IH: "\<And>f r b i m. loop f r b i = Some m \<Longrightarrow> f = [] \<longrightarrow> r = [] \<longrightarrow> False"
    and eq: "Option.bind (strstr b i f) (\<lambda>found. case found of None \<Rightarrow> Some b
       | Some t \<Rightarrow> Option.bind (blk_write b t (map Some r)) (\<lambda>b. loop f r b (t + length r))) = Some m"
  show "f = [] \<longrightarrow> r = [] \<longrightarrow> False"
  proof (intro impI)
    assume "f = []" "r = []"
    then obtain c j where "loop [] [] c j = Some m" using eq by (auto simp: bind_Some_iff strstr_def)
    then show False using IH by blast
  qed
qed

theorem replace_empty_never_ends:
  assumes "ds_rep d s" and "s \<noteq> []" and "is_cstr s"
  shows "dstr_replace d [] replace = None"
proof -
  obtain rest where d: "ds_array d = Some (map Some s @ Some NUL # rest)"
    by (rule rep_array [OF assms(1)]) (use assms(2) in auto)
  have "hd s \<noteq> NUL" using assms(2,3) by (cases s) (auto simp: is_cstr_def)
  then have e: "dstr_is_empty d = Some False"
    using d rep_len [OF assms(1)] assms(2) by (cases s) (auto simp: dstr_is_empty_def blk_char_def)
  have "count_loop [] b i n = None" "same_loop [] [] b i = None" for b i n
    using count_loop_empty [of "[]" b i n] same_loop_empty [of "[]" "[]" b i] by (metis not_Some_eq)+
  then show ?thesis using e d by (simp add: dstr_replace_def Let_def)
qed

theorem replace_empty_never_ends_witness:
  "dstr_replace (dstr_move_array dstr_init (Some ''abc'')) [] (Some ''x'') = None"
  using replace_empty_never_ends [of "dstr_move_array dstr_init (Some ''abc'')" "''abc''" "Some ''x''"] move_array_rep
  by (simp add: is_cstr_def NUL_def)

section \<open>What formatting does\<close>

lemma vprintf_rep:
  assumes "ds_rep d s" and "is_cstr out"
  shows "yields (dstr_vprintf d out) out"
proof -
  let ?e = "dstr_ensure_capacity d (length out + 1)"
  from overwrite_rep [OF assms(1), of out "length out + 1" "cstr out" "length out"] obtain d1 where
    w: "ds_write ?e 0 (cstr out) = Some d1" and r: "ds_rep (d1\<lparr>ds_len := length out\<rparr>) out"
    by (auto simp: yields_def cstr_def)
  have "ds_array d1 \<noteq> None" using w by (auto simp: ds_write_def cstr_def bind_Some_iff)
  then obtain b where b: "ds_array d1 = Some b" by blast
  then have "blk_char b 0 = Some (hd (out @ [NUL]))" using rd_first [OF r] by simp
  then show ?thesis using w r b assms(2) by (cases out) (auto simp: dstr_vprintf_def is_cstr_def)
qed

lemma vcatf_rep:
  assumes "ds_rep d s" and "is_cstr (s @ out)"
  shows "yields (dstr_vcatf d out) (s @ out)"
proof -
  have l: "ds_len d = length s" using assms(1) by (rule rep_len)
  let ?e = "dstr_ensure_capacity d (ds_len d + length out + 1)"
  from ensure_room_text [OF assms(1), of "ds_len d + length out + 1"] l obtain rest where
    e: "ds_array ?e = Some (map Some s @ rest)" "ds_capacity ?e = length s + length rest"
      "length s + length out + 1 \<le> length s + length rest" "ds_len ?e = length s" by auto
  let ?b = "map Some s @ cstr out @ drop (length out + 1) rest"
  have w: "ds_write ?e (ds_len d) (cstr out) = Some (?e\<lparr>ds_array := Some ?b\<rparr>)"
    by (rule write_at [of _ _ "take (length out + 1) rest"]) (use e l in auto)
  have b: "?b = map Some (s @ out) @ Some NUL # drop (length out + 1) rest" by (simp add: cstr_def)
  have hd: "blk_char ?b 0 = Some (hd (s @ out @ [NUL]))" unfolding b blk_char_def by (cases s; cases out) auto
  have "ds_rep (?e\<lparr>ds_array := Some ?b, ds_len := length s + length out\<rparr>) (s @ out)"
    by (rule repI [of _ _ "drop (length out + 1) rest"]) (use b e(2,3) in auto)
  moreover have "s @ out \<noteq> [] \<Longrightarrow> hd (s @ out @ [NUL]) \<noteq> NUL"
    using assms(2) by (cases s; cases out) (auto simp: is_cstr_def)
  ultimately show ?thesis
    using w e(4) hd by (cases "s @ out = []") (auto simp: dstr_vcatf_def)
qed

lemma build_loop_rep:
  "ds_rep d s \<Longrightarrow> is_cstr (s @ concat (map error_line es)) \<Longrightarrow>
   yields (build_loop (map Some (a @ es) @ rest) (length a) (length es) d) (s @ concat (map error_line es))"
proof (induction es arbitrary: a d s)
  case (Cons x es)
  have r: "blk_char (map Some (a @ x # es) @ rest) (length a) = Some x" by (simp add: blk_char_def nth_append)
  obtain d1 where d1: "dstr_catf d (error_line x) = Some d1" "ds_rep d1 (s @ error_line x)"
    using vcatf_rep [OF Cons(2), of "error_line x"] Cons(3) by (auto simp: dstr_catf_def yields_def is_cstr_def)
  have "yields (build_loop (map Some ((a @ [x]) @ es) @ rest) (length (a @ [x])) (length es) d1)
    ((s @ error_line x) @ concat (map error_line es))"
    by (rule Cons(1) [OF d1(2)]) (use Cons(3) in \<open>simp add: is_cstr_def\<close>)
  then show ?case using r d1(1) by simp
qed simp

text \<open>
  The text of a list of errors: a line for each, in order; without errors the NULL pointer.
\<close>

theorem errors_as_text:
  assumes "da_rep ed es" and "is_cstr (concat (map error_line es))"
  shows "if es = [] then error_data_buildstring ed = Some None
         else \<exists>b. error_data_buildstring ed = Some (Some b) \<and> str_at b 0 = Some (concat (map error_line es))"
proof -
  obtain rest where "da_num ed = length es" "da_array ed = map Some es @ rest" using assms(1) by (rule da_repE)
  then have y: "yields (build_loop (da_array ed) 0 (da_num ed) dstr_init) (concat (map error_line es))"
    using build_loop_rep [of dstr_init "[]" es "[]" rest] assms(2) by simp
  then obtain d where d: "build_loop (da_array ed) 0 (da_num ed) dstr_init = Some d" "ds_rep d (concat (map error_line es))"
    by (auto simp: yields_def)
  show ?thesis
  proof (cases "es = []")
    case True
    then show ?thesis using assms(1) by (simp add: error_data_buildstring_def da_rep_def dstr_init_def)
  next
    case False
    then have "concat (map error_line es) \<noteq> []" by (cases es) (auto simp: error_line_def)
    then obtain r where "ds_array d = Some (map Some (concat (map error_line es)) @ Some NUL # r)"
      using rep_array [OF d(2)] by metis
    then show ?thesis using False d(1) assms(2) str_at_text [of "concat (map error_line es)" 0 "[]" r]
      by (simp add: error_data_buildstring_def)
  qed
qed

theorem errors_as_text_witness:
  "\<exists>d b. error_data_add (Some darray_init) ''f'' 1 2 ''x'' LEX_ERROR = Some (Some d) \<and>
     error_data_buildstring d = Some (Some b) \<and> str_at b 0 = Some (''f (1, 2): x'' @ [CHR 0x0A])"
proof -
  let ?e = "\<lparr>ei_error = ''x'', ei_file = ''f'', ei_row = 1, ei_column = 2, ei_level = LEX_ERROR\<rparr>"
  have l: "error_line ?e = ''f (1, 2): x'' @ [CHR 0x0A]" by (simp add: error_line_def decimal.simps char_of_def bit_iff_odd)
  have "da_rep darray_init ([] :: error_item list)" by (simp add: da_rep_def darray_init_def)
  from errors_counted [OF this, of "''f''" 1 2 "''x''" LEX_ERROR] obtain d where
    "error_data_add (Some darray_init) ''f'' 1 2 ''x'' LEX_ERROR = Some (Some d)" "da_rep d [?e]" by auto
  then show ?thesis using errors_as_text [of d "[?e]"] l by (auto simp: is_cstr_def NUL_def)
qed

text \<open>
  After taking over NULL a string claims room for one character: printing an empty text to it writes through
  NULL.
\<close>

theorem null_array_has_room: "dstr_printf (dstr_move_array d None) [] = None"
  by (simp add: dstr_printf_def dstr_vprintf_def dstr_move_array_def dstr_init_move_array_def dstr_ensure_capacity_def
      ds_write_def cstr_def)

end
