(* ===== verification/Bmem.thy ===== *)
theory Bmem
  imports DArray
begin

text \<open>
  Memory blocks of mgw-core/util/source/bmem.c: the block \<open>struct bmem\<close>, in which a source keeps its headers,
  and the counter of allocations. A pointer is NULL, the address of a live block, or the address of a block
  that was freed; \<open>realloc\<close>, \<open>free\<close> and any access through the last are undefined. Writing no bytes does
  nothing. Allocation does not fail, as everywhere.
\<close>

section \<open>Pointers and blocks\<close>

datatype pointer = Null | Live "byte block" | Freed

definition realloc :: "pointer \<Rightarrow> nat \<Rightarrow> pointer option" where
  "realloc p n =
     (case p of
        Null \<Rightarrow> Some (Live (replicate n None))
      | Live b \<Rightarrow> Some (Live (take n b @ replicate (n - length b) None))
      | Freed \<Rightarrow> None)"

text \<open>What the owner of a pointer still holds after \<open>bfree\<close> of it.\<close>

definition free_pointer :: "pointer \<Rightarrow> pointer option" where
  "free_pointer p = (case p of Null \<Rightarrow> Some Null | Live b \<Rightarrow> Some Freed | Freed \<Rightarrow> None)"

definition bm_put :: "pointer \<Rightarrow> byte block \<Rightarrow> pointer option" where
  "bm_put p xs =
     (if xs = [] then Some p
      else (case p of Live b \<Rightarrow> map_option Live (blk_write b 0 xs) | _ \<Rightarrow> None))"

definition bm_get :: "pointer \<Rightarrow> nat \<Rightarrow> byte block option" where
  "bm_get p n = (if n = 0 then Some [] else (case p of Live b \<Rightarrow> blk_read b 0 n | _ \<Rightarrow> None))"

section \<open>The struct\<close>

record bmem =
  bm_array :: pointer
  bm_len :: nat

definition bmem_init :: bmem where
  "bmem_init = \<lparr>bm_array = Null, bm_len = 0\<rparr>"

text \<open>The pointer is kept.\<close>

definition bmem_free :: "bmem \<Rightarrow> bmem option" where
  "bmem_free m =
     (if bm_array m \<noteq> Null
      then map_option (\<lambda>p. m\<lparr>bm_array := p, bm_len := 0\<rparr>) (free_pointer (bm_array m))
      else Some m)"

definition ensure_bmem_capacity :: "bmem \<Rightarrow> nat \<Rightarrow> bmem option" where
  "ensure_bmem_capacity m new_size =
     (if new_size \<le> bm_len m
      then map_option (\<lambda>p. m\<lparr>bm_array := p\<rparr>) (bm_put (bm_array m) (replicate (bm_len m) (Some 0)))
      else map_option (\<lambda>p. m\<lparr>bm_array := p, bm_len := new_size\<rparr>) (realloc (bm_array m) new_size))"

text \<open>The bytes copied are \<open>len\<close> bytes from \<open>array\<close>, \<open>None\<close> for NULL.\<close>

definition bmem_copy :: "bmem \<Rightarrow> bytes option \<Rightarrow> bmem option" where
  "bmem_copy m array =
     (case array of
        None \<Rightarrow> bmem_free m
      | Some bs \<Rightarrow>
          if bs = [] then bmem_free m
          else Option.bind (ensure_bmem_capacity m (length bs)) (\<lambda>m.
                 map_option (\<lambda>p. m\<lparr>bm_array := p, bm_len := length bs\<rparr>) (bm_put (bm_array m) (map Some bs))))"

definition bmem_copy_bmem :: "bmem \<Rightarrow> bmem \<Rightarrow> bmem option" where
  "bmem_copy_bmem src_mem dst_mem =
     Option.bind (if bm_array dst_mem \<noteq> Null then bmem_free dst_mem else Some dst_mem) (\<lambda>dst.
       if bm_len src_mem \<noteq> 0
       then Option.bind (ensure_bmem_capacity dst (bm_len src_mem)) (\<lambda>dst.
              Option.bind (bm_get (bm_array src_mem) (bm_len src_mem)) (\<lambda>xs.
                map_option (\<lambda>p. dst\<lparr>bm_array := p, bm_len := bm_len src_mem\<rparr>) (bm_put (bm_array dst) xs)))
       else Some dst)"

section \<open>The counter\<close>

text \<open>The calls of the allocator: the number of live blocks, and \<open>cnt_allocs\<close>.\<close>

datatype alloc_call = Bmalloc | Brealloc bool | Bfree bool

text \<open>The argument says whether the pointer was not NULL.\<close>

fun alloc_step :: "nat \<times> int \<Rightarrow> alloc_call \<Rightarrow> nat \<times> int" where
  "alloc_step (live, cnt_allocs) Bmalloc = (live + 1, cnt_allocs + 1)"
| "alloc_step (live, cnt_allocs) (Brealloc old) = (if old then live else live + 1, cnt_allocs + 1)"
| "alloc_step (live, cnt_allocs) (Bfree ptr) = (if ptr then (live - 1, cnt_allocs - 1) else (live, cnt_allocs))"

text \<open>Only live blocks are reallocated and freed.\<close>

fun calls_ok :: "nat \<Rightarrow> alloc_call list \<Rightarrow> bool" where
  "calls_ok live [] \<longleftrightarrow> True"
| "calls_ok live (Bmalloc # cs) \<longleftrightarrow> calls_ok (live + 1) cs"
| "calls_ok live (Brealloc old # cs) \<longleftrightarrow> (if old then 0 < live \<and> calls_ok live cs else calls_ok (live + 1) cs)"
| "calls_ok live (Bfree ptr # cs) \<longleftrightarrow> (if ptr then 0 < live \<and> calls_ok (live - 1) cs else calls_ok live cs)"

section \<open>Copying\<close>

definition bm_holds :: "bmem \<Rightarrow> bytes \<Rightarrow> bool" where
  "bm_holds m bs \<longleftrightarrow> bm_len m = length bs \<and>
     (case bm_array m of Null \<Rightarrow> bs = [] | Live b \<Rightarrow> bs \<noteq> [] \<and> (\<exists>rest. b = map Some bs @ rest) | Freed \<Rightarrow> False)"

text \<open>The block was freed and the pointer kept.\<close>

definition dangling :: "bmem \<Rightarrow> bool" where
  "dangling m \<longleftrightarrow> bm_array m = Freed \<and> bm_len m = 0"

lemma put_live: "length xs \<le> length b \<Longrightarrow> bm_put (Live b) xs = Some (Live (xs @ drop (length xs) b))"
  by (simp add: bm_put_def blk_write_def)

lemma copy_holds:
  assumes "bm_holds m old" and "bs \<noteq> []"
  shows "\<exists>m'. bmem_copy m (Some bs) = Some m' \<and> bm_holds m' bs"
proof -
  have "\<exists>b. ensure_bmem_capacity m (length bs) = Some (m\<lparr>bm_array := Live b, bm_len := max (bm_len m) (length bs)\<rparr>) \<and>
    length bs \<le> length b"
  proof (cases "bm_array m")
    case Null
    then show ?thesis using assms by (auto simp: bm_holds_def ensure_bmem_capacity_def realloc_def max_def)
  next
    case (Live b)
    then obtain rest where b: "b = map Some old @ rest" "bm_len m = length old" using assms(1) by (auto simp: bm_holds_def)
    show ?thesis
    proof (cases "length bs \<le> bm_len m")
      case True
      then have "bm_put (Live b) (replicate (bm_len m) (Some 0)) = Some (Live (replicate (bm_len m) (Some 0) @ drop (bm_len m) b))"
        using b put_live [of "replicate (bm_len m) (Some 0)" b] by simp
      then show ?thesis using Live True b by (cases m) (auto simp: ensure_bmem_capacity_def max_def)
    qed (use Live in \<open>auto simp: ensure_bmem_capacity_def realloc_def max_def\<close>)
  qed (use assms in \<open>auto simp: bm_holds_def\<close>)
  then show ?thesis using assms(2) by (auto simp: bmem_copy_def put_live bm_holds_def)
qed

lemma copy_empty: "bm_holds m old \<Longrightarrow> array = None \<or> array = Some [] \<Longrightarrow>
  \<exists>m'. bmem_copy m array = Some m' \<and> (if old = [] then m' = m else dangling m')"
  by (auto simp: bmem_copy_def bmem_free_def free_pointer_def bm_holds_def dangling_def split: pointer.splits)

lemma dangling_copy: "dangling m \<Longrightarrow> bmem_copy m array = None \<and> bmem_free m = None"
  by (auto simp: dangling_def bmem_copy_def bmem_free_def free_pointer_def ensure_bmem_capacity_def realloc_def
      split: option.splits)

text \<open>A sequence of copies to one block, as a source gets new headers.\<close>

fun copy_all :: "bmem \<Rightarrow> bytes option list \<Rightarrow> bmem option" where
  "copy_all m [] = Some m"
| "copy_all m (a # as) = Option.bind (bmem_copy m a) (\<lambda>m. copy_all m as)"

definition is_no_data :: "bytes option \<Rightarrow> bool" where
  "is_no_data a \<longleftrightarrow> a = None \<or> a = Some []"

lemma copy_all_append: "copy_all m (as @ bs) = Option.bind (copy_all m as) (\<lambda>m. copy_all m bs)"
  by (induction as arbitrary: m) (auto split: bind_splits)

lemma copy_all_data:
  "bm_holds m old \<Longrightarrow> (\<forall>a \<in> set as. \<not> is_no_data a) \<Longrightarrow>
   \<exists>m'. copy_all m as = Some m' \<and> bm_holds m' (if as = [] then old else the (last as))"
proof (induction as arbitrary: m old)
  case (Cons a as)
  then obtain bs where a: "a = Some bs" "bs \<noteq> []" by (cases a) (auto simp: is_no_data_def)
  obtain m1 where m1: "bmem_copy m a = Some m1" "bm_holds m1 bs" using copy_holds [OF Cons(2) a(2)] a(1) by auto
  show ?case using Cons(1) [OF m1(2)] Cons(3) m1(1) a(1) by auto
qed simp

lemma copy_all_empty: "(\<forall>a \<in> set as. is_no_data a) \<Longrightarrow> copy_all bmem_init as = Some bmem_init"
  by (induction as) (auto simp: is_no_data_def bmem_copy_def bmem_free_def bmem_init_def)

text \<open>C40: 
  A block takes any number of copies and holds the last one. A copy of nothing frees it and keeps the pointer:
  the next copy, of anything, frees or reallocates the freed block, and so does freeing it at the end.
\<close>

theorem bmem_copies:
  assumes "data \<noteq> []" and "\<forall>a \<in> set data. \<not> is_no_data a" and "\<forall>a \<in> set before. is_no_data a" and "is_no_data e"
  shows "(\<exists>m. copy_all bmem_init (before @ data) = Some m \<and> bm_holds m (the (last data)) \<and> bmem_free m \<noteq> None) \<and>
         (\<exists>m. copy_all bmem_init (before @ data @ [e]) = Some m \<and> bmem_free m = None) \<and>
         copy_all bmem_init (before @ data @ e # next # later) = None"
proof -
  have "bm_holds bmem_init []" by (simp add: bm_holds_def bmem_init_def)
  from copy_all_data [OF this assms(2)] assms(1) obtain m where
    m: "copy_all bmem_init data = Some m" "bm_holds m (the (last data))" by auto
  have b: "copy_all bmem_init (before @ data) = Some m" using copy_all_empty [OF assms(3)] m(1) by (simp add: copy_all_append)
  have "\<not> is_no_data (last data)" using assms(1,2) by simp
  then have ne: "the (last data) \<noteq> []" by (auto simp: is_no_data_def)
  obtain m1 where m1: "bmem_copy m e = Some m1" "dangling m1"
    using copy_empty [OF m(2)] assms(4) ne by (auto simp: is_no_data_def)
  have d: "copy_all bmem_init (before @ data @ [e]) = Some m1"
    using b m1(1) copy_all_append [of bmem_init "before @ data" "[e]"] by simp
  have "copy_all bmem_init (before @ data @ e # next # later) = None"
    using b m1(1) dangling_copy [OF m1(2)] copy_all_append [of bmem_init "before @ data" "e # next # later"] by simp
  moreover have "bmem_free m \<noteq> None"
    using m(2) by (auto simp: bm_holds_def bmem_free_def free_pointer_def split: pointer.splits)
  ultimately show ?thesis using b m d dangling_copy [OF m1(2)] by blast
qed

theorem bmem_copies_witness: "copy_all bmem_init [Some [1, 2], None, Some [3]] = None"
  using bmem_copies [of "[Some [1, 2]]" "[]" None "Some [3]" "[]"] by (simp add: is_no_data_def)

text \<open>
  Copying a block to another works when the other is new; one that holds bytes is freed first and then
  reallocated through the pointer kept.
\<close>

theorem copy_bmem_outcomes:
  assumes "bm_holds src bs" and "bm_holds dst old"
  shows "if bs = [] then (\<exists>m. bmem_copy_bmem src dst = Some m)
         else if old = [] then (\<exists>m. bmem_copy_bmem src dst = Some m \<and> bm_holds m bs)
         else bmem_copy_bmem src dst = None"
proof (cases "old = []")
  case True
  then have d: "bm_array dst = Null" "bm_len dst = 0" using assms(2) by (auto simp: bm_holds_def split: pointer.splits)
  show ?thesis
  proof (cases "bs = []")
    case False
    then obtain rest where s: "bm_array src = Live (map Some bs @ rest)" "bm_len src = length bs"
      using assms(1) by (auto simp: bm_holds_def split: pointer.splits)
    then show ?thesis
      using True False d
      by (auto simp: bmem_copy_bmem_def ensure_bmem_capacity_def realloc_def bm_get_def blk_read_def put_live bm_holds_def)
  qed (use assms(1) d in \<open>auto simp: bmem_copy_bmem_def bm_holds_def\<close>)
next
  case False
  then obtain b where d: "bm_array dst = Live b" using assms(2) by (auto simp: bm_holds_def split: pointer.splits)
  then have "bmem_free dst = Some (dst\<lparr>bm_array := Freed, bm_len := 0\<rparr>)" by (simp add: bmem_free_def free_pointer_def)
  then show ?thesis
    using False d assms(1) by (auto simp: bmem_copy_bmem_def ensure_bmem_capacity_def realloc_def bm_holds_def)
qed

theorem copy_bmem_outcomes_witness:
  "bmem_copy_bmem \<lparr>bm_array = Live [Some 1], bm_len = 1\<rparr> \<lparr>bm_array = Live [Some 2], bm_len = 1\<rparr> = None"
  using copy_bmem_outcomes [of "\<lparr>bm_array = Live [Some 1], bm_len = 1\<rparr>" "[1]" "\<lparr>bm_array = Live [Some 2], bm_len = 1\<rparr>" "[2]"]
  by (simp add: bm_holds_def)

text \<open>
  \<open>bcnt_allocs\<close> is the number of live blocks only as long as no block is reallocated: every reallocation adds 1.
\<close>

theorem counter_drifts:
  assumes "calls_ok live cs"
  shows "snd (foldl alloc_step (live, int live + k) cs) = int (fst (foldl alloc_step (live, int live + k) cs)) + k
           + int (length (filter (\<lambda>c. c = Brealloc True) cs))"
  using assms
proof (induction live cs arbitrary: k rule: calls_ok.induct)
  case (2 live cs)
  then show ?case using 2(1) [of k] by (simp add: algebra_simps)
next
  case (3 live old cs)
  show ?case
  proof (cases old)
    case True
    then show ?thesis using 3(1) [OF True, of "k + 1"] 3(3) by (simp add: algebra_simps)
  next
    case False
    then show ?thesis using 3(2) [OF False, of k] 3(3) by (simp add: algebra_simps)
  qed
next
  case (4 live ptr cs)
  show ?case
  proof (cases ptr)
    case True
    then have e: "int live + k - 1 = int (live - 1) + k" using 4(3) by (simp add: of_nat_diff)
    have f: "foldl alloc_step (live, int live + k) (Bfree ptr # cs) = foldl alloc_step (live - 1, int (live - 1) + k) cs"
      by (simp only: foldl.simps alloc_step.simps True if_True e)
    have g: "filter (\<lambda>c. c = Brealloc True) (Bfree ptr # cs) = filter (\<lambda>c. c = Brealloc True) cs" by simp
    have "calls_ok (live - 1) cs" using 4(3) True by simp
    then show ?thesis unfolding f g by (rule 4(1) [OF True])
  next
    case False
    then show ?thesis using 4(2) [OF False, of k] 4(3) by simp
  qed
qed simp

theorem counter_drifts_witness: "foldl alloc_step (0, 0) [Bmalloc, Brealloc True, Bfree True] = (0, 1)"
  using counter_drifts [of 0 "[Bmalloc, Brealloc True, Bfree True]" 0] by simp

end
