(* ===== verification/Spec2Isabelle.thy ===== *)
theory Spec2Isabelle
  imports RingBuffer FlvMux AvcNal AacHeader G711 G726 Queue Utf8 Device Settings SrtSend RtmpSend
    DstrText Bmem
begin

text \<open>
  A verification library for the media gateway mgw.

  \<^bold>\<open>The program.\<close> A stream has one source and several outputs. The source writes encoded frames
  into a named ring buffer; every output reads the same buffer at its own pace and sends the frames
  on with a plugin (RTMP, SRT, ffmpeg). Frames may pass a sorter first, which puts them in the order
  of their time stamps. Paths below are under src/.

  \<^bold>\<open>The buffers, mgw-core/buffer.\<close>
  \<^item> StreamBuff models stream_buff.c and stream_buff.h: the block of header, descriptor table and
    payload ring, \<open>PutOneFrameToBuff\<close>, \<open>GetOneFrameFromBuff\<close>, \<open>GetOneFrameFromBuff2\<close>, the jumps and
    the invalidation. Its lemmas relate the ring to the log of all frames written: the descriptors
    still in the table describe the last frames of the log, and a reader inside the window reads the
    log. Where the code leaves this (the scan behind the table, a reader exactly one table behind, a
    frame longer than the reader's buffer) a theorem shows what happens instead.
  \<^item> StreamSort models stream_sort.c: the byte ring, the list sorted by time stamp, the list of
    addresses and the adaptation of size and sort time. \<open>sort_inv\<close> is the invariant; the locale
    \<open>frame_sink\<close> states what the sorter needs of the callback that takes the frames, and the run
    lemmas hold for every such sink.
  \<^item> BuffRegistry models list_function.c, malloc_memory.c and the contexts of stream_buff.c: named
    buffers with counts of readers and writers; \<open>reach\<close> is the set of reachable states.
  \<^item> RingBuffer models ring-buffer.c: writing through the sorter or past it, and reading packets. It
    interprets \<open>frame_sink\<close> on the ring, so that the guarantees of sorter and ring compose.

  \<^bold>\<open>Utilities, mgw-core/util.\<close>
  \<^item> CodecDef holds the packet and the enumerations of codec-def.h.
  \<^item> DArray models darray.c: blocks of memory with reallocation; the operations implement the list
    operations through \<open>da_rep\<close>.
  \<^item> Serializer models serializer.c and array-serializer.c. The locale \<open>byte_writer\<close> is the contract of
    an output, interpreted on the array output.
  \<^item> Queue models queue.c: a linked list on a heap of nodes. The locale \<open>fifo\<close> is the contract of a
    queue, interpreted on the heap; \<open>q_step\<close> interleaves producers and consumers.
  \<^item> CallbackHandle models callback-handle.c, the table of named handlers through which sources, outputs
    and streams call each other.
  \<^item> DataItem and Settings model mgw-data.c, from which the core reads its configuration. DataItem is one item
    as a block of bytes with up to three values in it; Settings are the items by name, with the getters, the
    copying of settings, their JSON form, the types and the references. The locale \<open>named_store\<close> is what
    copying needs of setting, interpreted on the sorted list of items.
  \<^item> Utf8 models utf8.c: both converters, for every size, flag and output.
  \<^item> AvcStartcode, AvcNal and AacHeader model codec-common.c: the search for start codes four bytes at a
    time, equal to the plain search; the walk over NAL units, parameter sets and the decoder
    configuration; the AAC headers, read back by parsers written down from the formats.

  \<^item> CString, Lexer, Dstr and DstrText model dstr.c and lexer.c. CString has the comparisons of strings and of
    string references, which are one order of texts; Lexer the tests for numbers, the tokens, equal to those
    of a plain tokenizer, rows and columns, and the list of errors on DArray. Dstr has the dynamic strings
    as blocks of characters, whose operations implement those on texts through \<open>ds_rep\<close>; DstrText what works
    in place: padding, splitting, replacing, equal to a replacement from left to right, and formatting.
  \<^item> Bmem models the blocks of bmem.c with the fate of their pointer, and the counter of allocations.

  \<^bold>\<open>Formats and codecs, plugins.\<close>
  \<^item> FlvMux models formats/flv-mux.c on top of Serializer: tags for video, audio and metadata, and a
    parser of tags that reads them back.
  \<^item> G711 and G726 model codecs/g7xx-codec: the companding laws with their error bounds, and the ADPCM
    codec with the bounds of its state, on which no shift is out of range, and with encoder and decoder
    in step.
  \<^item> SrtSend models the packet path of outputs/srt-stream.c: buffers of the muxer joined with the bytes left
    over, sent in whole transport packets. What libsrt answers is an argument, and what reaches it is kept
    as a list of writes.
  \<^item> RtmpSend models the send thread of outputs/rtmp-stream.c: headers, frames and time stamps turned into FLV
    tags with FlvMux, AvcNal and AacHeader. The frames read, the answers of librtmp and the AMF texts are
    arguments; \<open>session\<close> is the abstract specification, the tags of a list of frames.

  \<^bold>\<open>The core, mgw-core/core-api.\<close> A device has streams, a stream has a source and outputs; each is a
  reference-counted object on a list of contexts.
  \<^item> Context models the lists of mgw.c and the reference counts of mgw-internal.h: \<open>clist\<close> relates the
    links in memory to a list, and \<open>obj_step\<close> interleaves threads that create, look up, pass on and
    release objects; \<open>sys_ok\<close> is its invariant.
  \<^item> Output and Source model the control parts of mgw-output.c and mgw-source.c as machines driven by
    events: start and stop, the reports of the plugin, the reconnect thread around its wait, the state shown.
  \<^item> Release models what the objects allocate and free, as multisets of blocks.
  \<^item> Stream models mgw-stream.c on top of these: the two lists of outputs are lists of Context, the
    outputs and the source are machines of Output and Source. \<open>stream_ok\<close> is the invariant. A call that
    never returns is \<open>Blocked\<close>, undefined behaviour \<open>Crash\<close>. What the release of an output or a source frees
    is the subject of Release alone: Stream takes every \<open>bfree\<close> to succeed, except on the failing paths
    of creation, which are \<open>Crash\<close>.
  \<^item> Device models mgw-device.c, the loading of a configuration in mgw.c, and the notices that travel from
    outputs and sources through the handlers of their stream (CallbackHandle) to the device.

  \<^bold>\<open>Conventions.\<close> Undefined behaviour of C is \<open>None\<close>, never an error return; error returns are the
  values the code returns. Words are used where the code works on bits; sizes and counters are naturals
  with the wrap-around of their type written out (\<open>wrap32\<close>, \<open>sub32\<close>, \<open>wrap64\<close>); C \<open>int\<close> values whose range is
  part of the argument are integers. Allocation returns fresh memory, since \<open>bmalloc\<close> ends the program
  when there is none. Time, settings and the answers of plugins are arguments. Loops are structural
  recursions or have a termination proof, with these exceptions: \<open>clear_loop\<close> in Queue and \<open>find_context\<close> in
  Context are \<open>partial_function\<close>s, shown to return on every well-formed queue and list; \<open>full_loop\<close> in SrtSend
  returns for every positive payload size, and never for 0; \<open>move_loop\<close>, \<open>count_loop\<close> and \<open>same_loop\<close> in DstrText
  return for every text to look for but the empty one; and \<open>mgw_output_release_all\<close> in Stream has a bound on the
  number of outputs, shown to suffice when it is the length of the list.

  \<^bold>\<open>Not modelled.\<close> Start-up and shutdown, the modules and the services (empty in the source) of
  mgw-core/core-api; settings in files and their iteration by item references (mgw-data.c; Stream and Device take the settings
  they read as records); the conversions of dynamic strings to wide strings, to the locale and to upper
  and lower case (dstr.c), which are calls of platform.c and the C library; logging (tlog.c, base.c), files and platform
  calls (platform.c, platform-nix.c), threads (threading.c, whose events and mutexes appear as atomic
  steps) and shared memory (share_memory.c), which are wrappers of system calls; of the plugins for RTMP and
  SRT the connecting and disconnecting, and the plugins for ffmpeg, which drive third-party libraries; the
  message layer in C++; the vendored librtmp and the headers under deps.
\<close>

end
